(* ===== verification/Nyuzi_Prelude.thy ===== *)
theory Nyuzi_Prelude
  imports Main "HOL-Library.Word"
begin

text \<open>
  Shared vocabulary of the development: the machine integers of the C sources, the result type
  of operations that can leave defined behaviour (an access outside an object, a failed
  \<open>assert\<close>, a call of \<open>exit\<close>), a postcondition calculus for it, the bit-counting builtins,
  and the word and list lemmas that several components use.
\<close>

unbundle bit_operations_syntax

named_theorems spec_rules \<open>postcondition rules for the operations of a component\<close>
named_theorems frame_simps \<open>what an operation leaves unchanged\<close>

subsection \<open>Machine integers\<close>

type_synonym u8 = "8 word"
type_synonym u16 = "16 word"
type_synonym u32 = "32 word"
type_synonym u64 = "64 word"

text \<open>C's conversion of a comparison result to \<open>uint32_t\<close>.\<close>

definition of_cbool :: "bool \<Rightarrow> u32" where
  "of_cbool b = (if b then 1 else 0)"

lemma of_cbool_simps [simp]:
  "of_cbool True = 1" "of_cbool False = 0" "(of_cbool b = 0) = (\<not> b)" "(of_cbool b = 1) = b"
  by (simp_all add: of_cbool_def)

subsection \<open>Results of C operations\<close>

text \<open>
  \<open>Out_of_bounds\<close>: a read or write outside the object the pointer belongs to.
  \<open>Assert_failed\<close>: an \<open>assert\<close> whose condition is false (the process aborts).
  \<open>Exit_called\<close>: the program ends itself with \<open>exit(1)\<close>.
  \<open>Division_by_zero\<close>: an integer division by zero.
\<close>

datatype c_fault = Out_of_bounds | Assert_failed | Exit_called | Division_by_zero

type_synonym 'a cres = "c_fault + 'a"

definition bindE :: "'e + 'a \<Rightarrow> ('a \<Rightarrow> 'e + 'b) \<Rightarrow> 'e + 'b" where
  "bindE m f = (case m of Inl e \<Rightarrow> Inl e | Inr x \<Rightarrow> f x)"

lemma bindE_simps [simp]:
  "bindE (Inr x) f = f x"
  "bindE (Inl e) f = Inl e"
  by (simp_all add: bindE_def)

lemma bindE_assoc: "bindE (bindE m f) g = bindE m (\<lambda>x. bindE (f x) g)"
  by (cases m) simp_all

lemma bindE_eq_Inr: "bindE m f = Inr y \<longleftrightarrow> (\<exists>x. m = Inr x \<and> f x = Inr y)"
  by (cases m) simp_all

text \<open>
  \<open>specE E m P\<close>: the operation \<open>m\<close> either returns a value that satisfies \<open>P\<close>, or stops
  with a fault that satisfies \<open>E\<close>. With \<open>E\<close> empty this is total correctness.
\<close>

definition specE :: "('e \<Rightarrow> bool) \<Rightarrow> 'e + 'a \<Rightarrow> ('a \<Rightarrow> bool) \<Rightarrow> bool" where
  "specE E m P = (case m of Inl e \<Rightarrow> E e | Inr x \<Rightarrow> P x)"

lemma specE_Inr [simp]: "specE E (Inr x) P = P x"
  by (simp add: specE_def)

lemma specE_Inl [simp]: "specE E (Inl e) P = E e"
  by (simp add: specE_def)

lemma specE_bindE [simp]: "specE E (bindE m f) P = specE E m (\<lambda>x. specE E (f x) P)"
  by (cases m) simp_all

lemma specE_mono: "specE E m P \<Longrightarrow> (\<And>x. P x \<Longrightarrow> Q x) \<Longrightarrow> specE E m Q"
  by (cases m) simp_all

lemma specE_weaken: "specE E m P \<Longrightarrow> (\<And>e. E e \<Longrightarrow> E' e) \<Longrightarrow> specE E' m P"
  by (cases m) simp_all

lemma specE_conj: "specE E m (\<lambda>x. P x \<and> Q x) \<longleftrightarrow> specE E m P \<and> specE E m Q"
  by (cases m) auto

lemma specE_if: "specE E (if b then m else n) P = (if b then specE E m P else specE E n P)"
  by simp

lemma specE_False_iff: "specE (\<lambda>_. False) m P \<longleftrightarrow> (\<exists>x. m = Inr x \<and> P x)"
  by (cases m) simp_all

text \<open>The faults by which the emulator stops on purpose, as opposed to undefined behaviour.\<close>

definition clean_exit :: "c_fault \<Rightarrow> bool" where
  "clean_exit e \<longleftrightarrow> e = Exit_called"

lemma clean_exit_simps [simp]:
  "clean_exit Exit_called" "\<not> clean_exit Out_of_bounds" "\<not> clean_exit Assert_failed" "\<not> clean_exit Division_by_zero"
  by (simp_all add: clean_exit_def)

subsection \<open>Bit counting\<close>

text \<open>The compiler builtins \<open>__builtin_clz\<close> and \<open>__builtin_ctz\<close> on 32-bit values.\<close>

primrec clz_aux :: "nat \<Rightarrow> u32 \<Rightarrow> nat" where
  "clz_aux 0 x = 0"
| "clz_aux (Suc n) x = (if bit x n then 0 else Suc (clz_aux n x))"

definition builtin_clz :: "u32 \<Rightarrow> nat" where
  "builtin_clz x = clz_aux 32 x"

primrec ctz_aux :: "nat \<Rightarrow> nat \<Rightarrow> u32 \<Rightarrow> nat" where
  "ctz_aux 0 i x = 0"
| "ctz_aux (Suc n) i x = (if bit x i then 0 else Suc (ctz_aux n (Suc i) x))"

definition builtin_ctz :: "u32 \<Rightarrow> nat" where
  "builtin_ctz x = ctz_aux 32 0 x"

lemma clz_aux_top:
  "(\<exists>i<n. bit x i) \<Longrightarrow>
     clz_aux n x < n \<and> bit x (n - 1 - clz_aux n x) \<and> (\<forall>i<n. bit x i \<longrightarrow> i \<le> n - 1 - clz_aux n x)"
proof (induction n)
  case 0
  then show ?case by simp
next
  case (Suc n)
  show ?case
  proof (cases "bit x n")
    case True
    then show ?thesis by (simp add: less_Suc_eq_le)
  next
    case False
    with Suc.prems have "\<exists>i<n. bit x i" using less_SucE by blast
    with Suc.IH False show ?thesis by (auto simp: less_Suc_eq)
  qed
qed

lemma word_neq_zero_bit: "x \<noteq> (0::u32) \<Longrightarrow> \<exists>i<32. bit x i"
  using bit_imp_le_length [where 'a = 32] by (auto simp: bit_eq_iff)

lemma builtin_clz_top:
  assumes "x \<noteq> 0"
  shows "builtin_clz x < 32" "bit x (31 - builtin_clz x)" "bit x i \<Longrightarrow> i \<le> 31 - builtin_clz x"
proof -
  note top = clz_aux_top [OF word_neq_zero_bit [OF assms]]
  show "builtin_clz x < 32" "bit x (31 - builtin_clz x)"
    using top by (simp_all add: builtin_clz_def)
  show "i \<le> 31 - builtin_clz x" if "bit x i"
    using top that bit_imp_le_length [OF that] by (simp add: builtin_clz_def)
qed

lemma builtin_clz_zero [simp]: "builtin_clz 0 = 32"
proof -
  have "clz_aux n 0 = n" for n by (induction n) simp_all
  then show ?thesis by (simp add: builtin_clz_def)
qed

lemma ctz_aux_low:
  "(\<exists>j. i \<le> j \<and> j < i + n \<and> bit x j) \<Longrightarrow>
     ctz_aux n i x < n \<and> bit x (i + ctz_aux n i x)
     \<and> (\<forall>j\<ge>i. bit x j \<longrightarrow> i + ctz_aux n i x \<le> j)"
proof (induction n arbitrary: i)
  case 0
  then show ?case by auto
next
  case (Suc n)
  show ?case
  proof (cases "bit x i")
    case True
    then show ?thesis by simp
  next
    case False
    then have later: "Suc i \<le> j" if "i \<le> j" "bit x j" for j
      using that by (metis Suc_leI le_neq_implies_less)
    from Suc.prems obtain j where j: "i \<le> j" "j < i + Suc n" "bit x j" by blast
    with later have "Suc i \<le> j \<and> j < Suc i + n \<and> bit x j" by simp
    then have IH: "ctz_aux n (Suc i) x < n \<and> bit x (Suc i + ctz_aux n (Suc i) x)
        \<and> (\<forall>j\<ge>Suc i. bit x j \<longrightarrow> Suc i + ctz_aux n (Suc i) x \<le> j)"
      by (intro Suc.IH) blast
    with False later show ?thesis by simp
  qed
qed

lemma builtin_ctz_low:
  assumes "x \<noteq> 0"
  shows "builtin_ctz x < 32" "bit x (builtin_ctz x)" "bit x i \<Longrightarrow> builtin_ctz x \<le> i"
  using ctz_aux_low [of 0 32 x] word_neq_zero_bit [OF assms] by (auto simp: builtin_ctz_def)

subsection \<open>Unsigned arithmetic without wrap-around\<close>

lemma unat_u32_bound: "unat (x :: u32) < 4294967296"
proof -
  have "unat x < 2 ^ LENGTH(32)" by (rule unsigned_less)
  then show ?thesis by simp
qed

lemma unat_plus_no_wrap: "unat a + unat b < 4294967296 \<Longrightarrow> unat (a + b :: u32) = unat a + unat b"
  by (simp add: unat_word_ariths)

lemma unat_plus_one: "a < (b :: u32) \<Longrightarrow> unat (a + 1) = Suc (unat a)"
  using unat_u32_bound [of b] by (simp add: unat_word_ariths word_less_nat_alt)

lemma unat_minus_no_wrap: "unat b \<le> unat a \<Longrightarrow> unat (a - b :: u32) = unat a - unat b"
  using unat_sub [of b a] by (simp add: word_le_nat_alt)

end
