(* ===== verification/Emu_Isa.thy ===== *)
theory Emu_Isa
  imports Nyuzi_Prelude
begin

text \<open>
  \<open>tools/emulator/instruction-set.h\<close>: the numeric codes of the instruction set. The emulator
  compares fields of an instruction word with them, and a field can hold a number that no code
  has, so they are names for 32-bit numerals. Trap types are only ever produced by the emulator
  itself and are a datatype; \<open>trap_code\<close> gives the number that ends up in the trap cause.
\<close>

abbreviation (input) LINK_REG :: nat where "LINK_REG \<equiv> 31"
abbreviation (input) INSTRUCTION_NOP :: u32 where "INSTRUCTION_NOP \<equiv> 0"

abbreviation (input) TLB_PRESENT :: u32 where "TLB_PRESENT \<equiv> 1"
abbreviation (input) TLB_WRITE_ENABLE :: u32 where "TLB_WRITE_ENABLE \<equiv> 2"
abbreviation (input) TLB_EXECUTABLE :: u32 where "TLB_EXECUTABLE \<equiv> 4"
abbreviation (input) TLB_SUPERVISOR :: u32 where "TLB_SUPERVISOR \<equiv> 8"
abbreviation (input) TLB_GLOBAL :: u32 where "TLB_GLOBAL \<equiv> 16"

subsection \<open>Arithmetic operations\<close>

abbreviation (input) OP_OR :: u32 where "OP_OR \<equiv> 0"
abbreviation (input) OP_AND :: u32 where "OP_AND \<equiv> 1"
abbreviation (input) OP_SYSCALL :: u32 where "OP_SYSCALL \<equiv> 2"
abbreviation (input) OP_XOR :: u32 where "OP_XOR \<equiv> 3"
abbreviation (input) OP_ADD_I :: u32 where "OP_ADD_I \<equiv> 5"
abbreviation (input) OP_SUB_I :: u32 where "OP_SUB_I \<equiv> 6"
abbreviation (input) OP_MULL_I :: u32 where "OP_MULL_I \<equiv> 7"
abbreviation (input) OP_MULH_U :: u32 where "OP_MULH_U \<equiv> 8"
abbreviation (input) OP_ASHR :: u32 where "OP_ASHR \<equiv> 9"
abbreviation (input) OP_SHR :: u32 where "OP_SHR \<equiv> 10"
abbreviation (input) OP_SHL :: u32 where "OP_SHL \<equiv> 11"
abbreviation (input) OP_CLZ :: u32 where "OP_CLZ \<equiv> 12"
abbreviation (input) OP_SHUFFLE :: u32 where "OP_SHUFFLE \<equiv> 13"
abbreviation (input) OP_CTZ :: u32 where "OP_CTZ \<equiv> 14"
abbreviation (input) OP_MOVE :: u32 where "OP_MOVE \<equiv> 15"
abbreviation (input) OP_CMPEQ_I :: u32 where "OP_CMPEQ_I \<equiv> 16"
abbreviation (input) OP_CMPNE_I :: u32 where "OP_CMPNE_I \<equiv> 17"
abbreviation (input) OP_CMPGT_I :: u32 where "OP_CMPGT_I \<equiv> 18"
abbreviation (input) OP_CMPGE_I :: u32 where "OP_CMPGE_I \<equiv> 19"
abbreviation (input) OP_CMPLT_I :: u32 where "OP_CMPLT_I \<equiv> 20"
abbreviation (input) OP_CMPLE_I :: u32 where "OP_CMPLE_I \<equiv> 21"
abbreviation (input) OP_CMPGT_U :: u32 where "OP_CMPGT_U \<equiv> 22"
abbreviation (input) OP_CMPGE_U :: u32 where "OP_CMPGE_U \<equiv> 23"
abbreviation (input) OP_CMPLT_U :: u32 where "OP_CMPLT_U \<equiv> 24"
abbreviation (input) OP_CMPLE_U :: u32 where "OP_CMPLE_U \<equiv> 25"
abbreviation (input) OP_GETLANE :: u32 where "OP_GETLANE \<equiv> 26"
abbreviation (input) OP_FTOI :: u32 where "OP_FTOI \<equiv> 27"
abbreviation (input) OP_RECIPROCAL :: u32 where "OP_RECIPROCAL \<equiv> 28"
abbreviation (input) OP_SEXT8 :: u32 where "OP_SEXT8 \<equiv> 29"
abbreviation (input) OP_SEXT16 :: u32 where "OP_SEXT16 \<equiv> 30"
abbreviation (input) OP_MULH_I :: u32 where "OP_MULH_I \<equiv> 31"
abbreviation (input) OP_ADD_F :: u32 where "OP_ADD_F \<equiv> 32"
abbreviation (input) OP_SUB_F :: u32 where "OP_SUB_F \<equiv> 33"
abbreviation (input) OP_MUL_F :: u32 where "OP_MUL_F \<equiv> 34"
abbreviation (input) OP_ITOF :: u32 where "OP_ITOF \<equiv> 42"
abbreviation (input) OP_CMPGT_F :: u32 where "OP_CMPGT_F \<equiv> 44"
abbreviation (input) OP_CMPGE_F :: u32 where "OP_CMPGE_F \<equiv> 45"
abbreviation (input) OP_CMPLT_F :: u32 where "OP_CMPLT_F \<equiv> 46"
abbreviation (input) OP_CMPLE_F :: u32 where "OP_CMPLE_F \<equiv> 47"
abbreviation (input) OP_CMPEQ_F :: u32 where "OP_CMPEQ_F \<equiv> 48"
abbreviation (input) OP_CMPNE_F :: u32 where "OP_CMPNE_F \<equiv> 49"
abbreviation (input) OP_BREAKPOINT :: u32 where "OP_BREAKPOINT \<equiv> 62"

subsection \<open>Register arithmetic formats\<close>

abbreviation (input) FMT_RA_SS :: u32 where "FMT_RA_SS \<equiv> 0"
abbreviation (input) FMT_RA_VS :: u32 where "FMT_RA_VS \<equiv> 1"
abbreviation (input) FMT_RA_VS_M :: u32 where "FMT_RA_VS_M \<equiv> 2"
abbreviation (input) FMT_RA_VV :: u32 where "FMT_RA_VV \<equiv> 4"
abbreviation (input) FMT_RA_VV_M :: u32 where "FMT_RA_VV_M \<equiv> 5"

subsection \<open>Immediate arithmetic formats\<close>

abbreviation (input) FMT_IMM_S :: u32 where "FMT_IMM_S \<equiv> 0"
abbreviation (input) FMT_IMM_V :: u32 where "FMT_IMM_V \<equiv> 1"
abbreviation (input) FMT_IMM_MOVEHI :: u32 where "FMT_IMM_MOVEHI \<equiv> 2"
abbreviation (input) FMT_IMM_VM :: u32 where "FMT_IMM_VM \<equiv> 3"

subsection \<open>Memory operations\<close>

abbreviation (input) MEM_BYTE :: u32 where "MEM_BYTE \<equiv> 0"
abbreviation (input) MEM_BYTE_SEXT :: u32 where "MEM_BYTE_SEXT \<equiv> 1"
abbreviation (input) MEM_SHORT :: u32 where "MEM_SHORT \<equiv> 2"
abbreviation (input) MEM_SHORT_EXT :: u32 where "MEM_SHORT_EXT \<equiv> 3"
abbreviation (input) MEM_LONG :: u32 where "MEM_LONG \<equiv> 4"
abbreviation (input) MEM_SYNC :: u32 where "MEM_SYNC \<equiv> 5"
abbreviation (input) MEM_CONTROL_REG :: u32 where "MEM_CONTROL_REG \<equiv> 6"
abbreviation (input) MEM_BLOCK_VECTOR :: u32 where "MEM_BLOCK_VECTOR \<equiv> 7"
abbreviation (input) MEM_BLOCK_VECTOR_MASK :: u32 where "MEM_BLOCK_VECTOR_MASK \<equiv> 8"
abbreviation (input) MEM_SCGATH :: u32 where "MEM_SCGATH \<equiv> 13"
abbreviation (input) MEM_SCGATH_MASK :: u32 where "MEM_SCGATH_MASK \<equiv> 14"

subsection \<open>Branch types\<close>

abbreviation (input) BRANCH_REGISTER :: u32 where "BRANCH_REGISTER \<equiv> 0"
abbreviation (input) BRANCH_ZERO :: u32 where "BRANCH_ZERO \<equiv> 1"
abbreviation (input) BRANCH_NOT_ZERO :: u32 where "BRANCH_NOT_ZERO \<equiv> 2"
abbreviation (input) BRANCH_ALWAYS :: u32 where "BRANCH_ALWAYS \<equiv> 3"
abbreviation (input) BRANCH_CALL_OFFSET :: u32 where "BRANCH_CALL_OFFSET \<equiv> 4"
abbreviation (input) BRANCH_CALL_REGISTER :: u32 where "BRANCH_CALL_REGISTER \<equiv> 6"
abbreviation (input) BRANCH_ERET :: u32 where "BRANCH_ERET \<equiv> 7"

subsection \<open>Control registers\<close>

abbreviation (input) CR_THREAD_ID :: u32 where "CR_THREAD_ID \<equiv> 0"
abbreviation (input) CR_TRAP_HANDLER :: u32 where "CR_TRAP_HANDLER \<equiv> 1"
abbreviation (input) CR_TRAP_PC :: u32 where "CR_TRAP_PC \<equiv> 2"
abbreviation (input) CR_TRAP_REASON :: u32 where "CR_TRAP_REASON \<equiv> 3"
abbreviation (input) CR_FLAGS :: u32 where "CR_FLAGS \<equiv> 4"
abbreviation (input) CR_TRAP_ACCESS_ADDR :: u32 where "CR_TRAP_ACCESS_ADDR \<equiv> 5"
abbreviation (input) CR_CYCLE_COUNT :: u32 where "CR_CYCLE_COUNT \<equiv> 6"
abbreviation (input) CR_TLB_MISS_HANDLER :: u32 where "CR_TLB_MISS_HANDLER \<equiv> 7"
abbreviation (input) CR_SAVED_FLAGS :: u32 where "CR_SAVED_FLAGS \<equiv> 8"
abbreviation (input) CR_CURRENT_ASID :: u32 where "CR_CURRENT_ASID \<equiv> 9"
abbreviation (input) CR_PAGE_DIR :: u32 where "CR_PAGE_DIR \<equiv> 10"
abbreviation (input) CR_SCRATCHPAD0 :: u32 where "CR_SCRATCHPAD0 \<equiv> 11"
abbreviation (input) CR_SCRATCHPAD1 :: u32 where "CR_SCRATCHPAD1 \<equiv> 12"
abbreviation (input) CR_SUBCYCLE :: u32 where "CR_SUBCYCLE \<equiv> 13"
abbreviation (input) CR_INTERRUPT_ENABLE :: u32 where "CR_INTERRUPT_ENABLE \<equiv> 14"
abbreviation (input) CR_INTERRUPT_ACK :: u32 where "CR_INTERRUPT_ACK \<equiv> 15"
abbreviation (input) CR_INTERRUPT_PENDING :: u32 where "CR_INTERRUPT_PENDING \<equiv> 16"
abbreviation (input) CR_INTERRUPT_TRIGGER :: u32 where "CR_INTERRUPT_TRIGGER \<equiv> 17"
abbreviation (input) CR_JTAG_DATA :: u32 where "CR_JTAG_DATA \<equiv> 18"
abbreviation (input) CR_SYSCALL_INDEX :: u32 where "CR_SYSCALL_INDEX \<equiv> 19"
abbreviation (input) CR_SUSPEND_THREAD :: u32 where "CR_SUSPEND_THREAD \<equiv> 20"
abbreviation (input) CR_RESUME_THREAD :: u32 where "CR_RESUME_THREAD \<equiv> 21"

subsection \<open>Traps\<close>

datatype trap_type =
    TT_RESET
  | TT_ILLEGAL_INSTRUCTION
  | TT_PRIVILEGED_OP
  | TT_INTERRUPT
  | TT_SYSCALL
  | TT_UNALIGNED_ACCESS
  | TT_PAGE_FAULT
  | TT_TLB_MISS
  | TT_ILLEGAL_STORE
  | TT_SUPERVISOR_ACCESS
  | TT_NOT_EXECUTABLE
  | TT_BREAKPOINT

fun trap_code :: "trap_type \<Rightarrow> u32" where
  "trap_code TT_RESET = 0"
| "trap_code TT_ILLEGAL_INSTRUCTION = 1"
| "trap_code TT_PRIVILEGED_OP = 2"
| "trap_code TT_INTERRUPT = 3"
| "trap_code TT_SYSCALL = 4"
| "trap_code TT_UNALIGNED_ACCESS = 5"
| "trap_code TT_PAGE_FAULT = 6"
| "trap_code TT_TLB_MISS = 7"
| "trap_code TT_ILLEGAL_STORE = 8"
| "trap_code TT_SUPERVISOR_ACCESS = 9"
| "trap_code TT_NOT_EXECUTABLE = 10"
| "trap_code TT_BREAKPOINT = 11"

subsection \<open>Cache control operations\<close>

abbreviation (input) CC_DTLB_INSERT :: u32 where "CC_DTLB_INSERT \<equiv> 0"
abbreviation (input) CC_DINVALIDATE :: u32 where "CC_DINVALIDATE \<equiv> 1"
abbreviation (input) CC_DFLUSH :: u32 where "CC_DFLUSH \<equiv> 2"
abbreviation (input) CC_INVALIDATE_TLB :: u32 where "CC_INVALIDATE_TLB \<equiv> 5"
abbreviation (input) CC_INVALIDATE_TLB_ALL :: u32 where "CC_INVALIDATE_TLB_ALL \<equiv> 6"
abbreviation (input) CC_ITLB_INSERT :: u32 where "CC_ITLB_INSERT \<equiv> 7"

lemma trap_code_bound: "unat (trap_code tt) < 12"
  by (cases tt) simp_all

lemma trap_code_inject: "trap_code a = trap_code b \<longleftrightarrow> a = b"
  by (cases a; cases b) simp_all

end
