(* ===== verification/Emu_Bytes.thy ===== *)
theory Emu_Bytes
  imports Nyuzi_Prelude
begin

text \<open>
  Emulated memory as the host sees it: an array of bytes that the emulator reads and writes
  through \<open>uint8_t\<close>, \<open>uint16_t\<close> and \<open>uint32_t\<close> pointers on a little-endian host
  (the access macros of \<open>tools/emulator/util.h\<close>). The macros divide the byte address by the
  element size, so an address is rounded down to its element.
\<close>

type_synonym mem = "nat \<Rightarrow> u8"

definition get16 :: "mem \<Rightarrow> nat \<Rightarrow> u16" where
  "get16 m a = ucast (m a) OR push_bit 8 (ucast (m (a + 1)))"

definition get32 :: "mem \<Rightarrow> nat \<Rightarrow> u32" where
  "get32 m a = ucast (m a) OR push_bit 8 (ucast (m (a + 1)))
     OR push_bit 16 (ucast (m (a + 2))) OR push_bit 24 (ucast (m (a + 3)))"

definition put16 :: "nat \<Rightarrow> u16 \<Rightarrow> mem \<Rightarrow> mem" where
  "put16 a v m = m(a := ucast v, a + 1 := ucast (drop_bit 8 v))"

definition put32 :: "nat \<Rightarrow> u32 \<Rightarrow> mem \<Rightarrow> mem" where
  "put32 a v m = m(a := ucast v, a + 1 := ucast (drop_bit 8 v),
     a + 2 := ucast (drop_bit 16 v), a + 3 := ucast (drop_bit 24 v))"

lemma get32_put32_same [simp]: "get32 (put32 a v m) a = v"
proof (rule bit_word_eqI)
  fix n :: nat
  assume n: "n < LENGTH(32)"
  consider "n < 8" | "8 \<le> n" "n < 16" | "16 \<le> n" "n < 24" | "24 \<le> n" by linarith
  then show "bit (get32 (put32 a v m) a) n = bit v n"
    by cases (use n in \<open>simp_all add: get32_def put32_def bit_simps less_diff_conv2\<close>)
qed

lemma get16_put16_same [simp]: "get16 (put16 a v m) a = v"
  by (rule bit_word_eqI) (auto simp: get16_def put16_def bit_simps)

lemma get32_put32_other:
  "a + 4 \<le> b \<or> b + 4 \<le> a \<Longrightarrow> get32 (put32 a v m) b = get32 m b"
  by (auto simp: get32_def put32_def)

lemma put32_outside: "i < a \<or> a + 4 \<le> i \<Longrightarrow> put32 a v m i = m i"
  by (auto simp: put32_def)

lemma put16_outside: "i < a \<or> a + 2 \<le> i \<Longrightarrow> put16 a v m i = m i"
  by (auto simp: put16_def)

lemma get32_fun_upd_other: "i < a \<or> a + 4 \<le> i \<Longrightarrow> get32 (m(i := v)) a = get32 m a"
  by (auto simp: get32_def)

lemma get32_cong: "(\<And>i. a \<le> i \<Longrightarrow> i < a + 4 \<Longrightarrow> m i = m' i) \<Longrightarrow> get32 m a = get32 m' a"
  by (simp add: get32_def)

lemma put32_get32_id [simp]: "put32 a (get32 m a) m = m"
proof
  fix i
  have "ucast (get32 m a) = m a" "ucast (drop_bit 8 (get32 m a)) = m (a + 1)"
    "ucast (drop_bit 16 (get32 m a)) = m (a + 2)" "ucast (drop_bit 24 (get32 m a)) = m (a + 3)"
    by (rule bit_word_eqI, auto simp: get32_def bit_simps dest: bit_imp_le_length)+
  then show "put32 a (get32 m a) m i = m i"
    by (simp add: put32_def)
qed

lemma put32_put32_same [simp]: "put32 a v (put32 a w m) = put32 a v m"
  by (auto simp: put32_def fun_eq_iff)

end
