(* ===== verification/Emu_Util.thy ===== *)
theory Emu_Util
  imports Emu_Bytes
begin

text \<open>
  \<open>tools/emulator/util.h\<close> and \<open>tools/emulator/util.c\<close>: bit-field extraction, byte order,
  the search for the next enabled thread, the hexadecimal parsers for vector values and for
  memory images, and the random number generator.
\<close>

subsection \<open>Byte order and bit fields (util.h)\<close>

definition endian_swap32 :: "u32 \<Rightarrow> u32" where
  "endian_swap32 value = push_bit 24 (value AND 0x000000ff)
     OR push_bit 8 (value AND 0x0000ff00)
     OR drop_bit 8 (value AND 0x00ff0000)
     OR drop_bit 24 (value AND 0xff000000)"

definition extract_unsigned_bits :: "u32 \<Rightarrow> nat \<Rightarrow> nat \<Rightarrow> u32" where
  "extract_unsigned_bits w low_bit sz = drop_bit low_bit w AND (push_bit sz 1 - 1)"

definition extract_signed_bits :: "u32 \<Rightarrow> nat \<Rightarrow> nat \<Rightarrow> u32" where
  "extract_signed_bits w low_bit sz =
     (let msk = push_bit sz 1 - 1;
          value = drop_bit low_bit w AND msk
      in if value AND push_bit (sz - 1) 1 \<noteq> 0 then value OR NOT msk else value)"

text \<open>
  \<open>1 << (index + 1)\<close> in \<open>next_set_bit\<close> has a shift count of 32 when \<open>index\<close> is 31, which C
  leaves undefined; the hosts the emulator runs on take the count of a 32-bit shift modulo 32.
\<close>

definition host_shl1 :: "nat \<Rightarrow> u32" where
  "host_shl1 n = push_bit (n mod 32) 1"

definition next_set_bit :: "u32 \<Rightarrow> nat \<Rightarrow> nat" where
  "next_set_bit bitmask index =
     (let lower_mask = (host_shl1 (index + 1) - 1) AND bitmask
      in if lower_mask \<noteq> 0 then 31 - builtin_clz lower_mask
         else 31 - builtin_clz bitmask)"

subsection \<open>Hexadecimal digits and vectors (util.c)\<close>

definition hex_digit_val :: "char \<Rightarrow> u32" where
  "hex_digit_val ch =
     (let c = (of_char ch :: nat) in
      if 48 \<le> c \<and> c \<le> 57 then of_nat (c - 48)
      else if 97 \<le> c \<and> c \<le> 102 then of_nat (c - 97 + 10)
      else if 65 \<le> c \<and> c \<le> 70 then of_nat (c - 65 + 10)
      else 0xffffffff)"

text \<open>
  The inner loop of \<open>parse_hex_vector\<close>: \<open>n\<close> digits into \<open>lane_value\<close>. A C string ends
  in a NUL, which is no hexadecimal digit, so the end of the list is the same error as a bad
  character.
\<close>

fun parse_hex_lane :: "nat \<Rightarrow> u32 \<Rightarrow> string \<Rightarrow> (u32 \<times> string) option" where
  "parse_hex_lane 0 lane_value c = Some (lane_value, c)"
| "parse_hex_lane (Suc n) lane_value [] = None"
| "parse_hex_lane (Suc n) lane_value (ch # c) =
     (let digit_val = hex_digit_val ch in
      if digit_val = 0xffffffff then None
      else parse_hex_lane n (push_bit 4 lane_value OR digit_val) c)"

fun parse_hex_lanes :: "nat \<Rightarrow> string \<Rightarrow> bool \<Rightarrow> u32 list option" where
  "parse_hex_lanes 0 c endian_swap = Some []"
| "parse_hex_lanes (Suc lanes) c endian_swap =
     (case parse_hex_lane 8 0 c of
        None \<Rightarrow> None
      | Some (lane_value, c') \<Rightarrow>
          (case parse_hex_lanes lanes c' endian_swap of
             None \<Rightarrow> None
           | Some vs \<Rightarrow> Some ((if endian_swap then endian_swap32 lane_value else lane_value) # vs)))"

text \<open>\<open>None\<close> is the return value -1.\<close>

definition parse_hex_vector :: "string \<Rightarrow> bool \<Rightarrow> u32 list option" where
  "parse_hex_vector str endian_swap = parse_hex_lanes 16 str endian_swap"

subsection \<open>Random numbers (util.c)\<close>

type_synonym random_state = "u64 \<times> u64"

definition next_random :: "random_state \<Rightarrow> u64 \<times> random_state" where
  "next_random rs =
     (let x = fst rs; y = snd rs;
          x' = x XOR push_bit 23 x;
          y' = x' XOR y XOR drop_bit 17 x' XOR drop_bit 26 y
      in (y' + y, (y, y')))"

definition seed_random :: "u64 \<Rightarrow> random_state" where
  "seed_random value = ((snd \<circ> next_random) ^^ 5) (value, value)"

subsection \<open>Memory images (util.c)\<close>

datatype scan_state =
    SCAN_SPACE | SCAN_SLASH | SCAN_ADDRESS | SCAN_NUMBER
  | SCAN_MULTI_LINE_COMMENT | SCAN_ASTERISK | SCAN_SINGLE_LINE_COMMENT

definition isxdigit :: "char \<Rightarrow> bool" where
  "isxdigit ch \<longleftrightarrow> (let c = (of_char ch :: nat) in
     48 \<le> c \<and> c \<le> 57 \<or> 65 \<le> c \<and> c \<le> 70 \<or> 97 \<le> c \<and> c \<le> 102)"

definition isspace :: "char \<Rightarrow> bool" where
  "isspace ch \<longleftrightarrow> (let c = (of_char ch :: nat) in c = 32 \<or> 9 \<le> c \<and> c \<le> 13)"

text \<open>
  The body of \<open>read_hex_file\<close> after the file has been opened, over the remaining characters of
  the file. A character that ends a number is not consumed, as \<open>push_back_char\<close> makes it be
  read again; at the end of the file \<open>fgetc\<close> keeps returning \<open>EOF\<close>. The result is
  \<open>(ok, memory)\<close>, with \<open>ok\<close> false for the return value -1. \<open>memory_size\<close> is the size of the
  array in bytes, and the array is indexed by 32-bit words.
\<close>

definition store_image_word :: "u32 \<Rightarrow> nat \<Rightarrow> u32 \<Rightarrow> mem \<Rightarrow> mem cres" where
  "store_image_word memory_size address value m =
     (if 4 * address + 4 \<le> unat memory_size
      then Inr (put32 (4 * address) value m) else Inl Out_of_bounds)"

function (sequential) read_hex_loop ::
  "u32 \<Rightarrow> scan_state \<Rightarrow> u32 \<Rightarrow> u32 \<Rightarrow> string \<Rightarrow> mem \<Rightarrow> (bool \<times> mem) cres" where
  "read_hex_loop memory_size SCAN_SPACE number_value address [] m = Inr (True, m)"
| "read_hex_loop memory_size SCAN_SPACE number_value address (ch # cs) m =
     (if ch = CHR ''/'' then read_hex_loop memory_size SCAN_SLASH number_value address cs m
      else if ch = CHR ''@'' then read_hex_loop memory_size SCAN_ADDRESS 0 address cs m
      else if isxdigit ch
      then read_hex_loop memory_size SCAN_NUMBER (hex_digit_val ch) address cs m
      else if \<not> isspace ch then Inr (False, m)
      else read_hex_loop memory_size SCAN_SPACE number_value address cs m)"
| "read_hex_loop memory_size SCAN_SLASH number_value address [] m = Inr (False, m)"
| "read_hex_loop memory_size SCAN_SLASH number_value address (ch # cs) m =
     (if ch = CHR ''*''
      then read_hex_loop memory_size SCAN_MULTI_LINE_COMMENT number_value address cs m
      else if ch = CHR ''/''
      then read_hex_loop memory_size SCAN_SINGLE_LINE_COMMENT number_value address cs m
      else Inr (False, m))"
| "read_hex_loop memory_size SCAN_SINGLE_LINE_COMMENT number_value address [] m = Inr (True, m)"
| "read_hex_loop memory_size SCAN_SINGLE_LINE_COMMENT number_value address (ch # cs) m =
     (if ch = CHR 0x0A then read_hex_loop memory_size SCAN_SPACE number_value address cs m
      else read_hex_loop memory_size SCAN_SINGLE_LINE_COMMENT number_value address cs m)"
| "read_hex_loop memory_size SCAN_MULTI_LINE_COMMENT number_value address [] m = Inr (False, m)"
| "read_hex_loop memory_size SCAN_MULTI_LINE_COMMENT number_value address (ch # cs) m =
     (if ch = CHR ''*'' then read_hex_loop memory_size SCAN_ASTERISK number_value address cs m
      else read_hex_loop memory_size SCAN_MULTI_LINE_COMMENT number_value address cs m)"
| "read_hex_loop memory_size SCAN_ASTERISK number_value address [] m = Inr (False, m)"
| "read_hex_loop memory_size SCAN_ASTERISK number_value address (ch # cs) m =
     (if ch = CHR ''/'' then read_hex_loop memory_size SCAN_SPACE number_value address cs m
      else read_hex_loop memory_size SCAN_ASTERISK number_value address cs m)"
| "read_hex_loop memory_size SCAN_NUMBER number_value address cs m =
     (if cs \<noteq> [] \<and> isxdigit (hd cs) then
        (if number_value AND 0xf0000000 \<noteq> 0 then Inr (False, m)
         else read_hex_loop memory_size SCAN_NUMBER
                (push_bit 4 number_value OR hex_digit_val (hd cs)) address (tl cs) m)
      else if address \<ge> memory_size then Inr (False, m)
      else bindE (store_image_word memory_size (unat address) (endian_swap32 number_value) m)
             (read_hex_loop memory_size SCAN_SPACE number_value (address + 1) cs))"
| "read_hex_loop memory_size SCAN_ADDRESS number_value address cs m =
     (if cs \<noteq> [] \<and> isxdigit (hd cs) then
        read_hex_loop memory_size SCAN_ADDRESS
          (push_bit 4 number_value OR hex_digit_val (hd cs)) address (tl cs) m
      else if number_value \<ge> memory_size then Inr (False, m)
      else read_hex_loop memory_size SCAN_SPACE number_value number_value cs m)"
  by pat_completeness auto
termination
  by (relation "measures [\<lambda>(_, _, _, _, cs, _). length cs,
        \<lambda>(_, st, _, _, _, _). if st = SCAN_SPACE then 0 else 1]") auto

text \<open>\<open>None\<close> for the file contents: \<open>fopen\<close> failed.\<close>

definition read_hex_file :: "string option \<Rightarrow> u32 \<Rightarrow> mem \<Rightarrow> (bool \<times> mem) cres" where
  "read_hex_file file memory_size m =
     (case file of None \<Rightarrow> Inr (False, m)
      | Some text \<Rightarrow> read_hex_loop memory_size SCAN_SPACE 0 0 text m)"

subsection \<open>Byte order and bit fields\<close>

lemma mask_push_bit: "push_bit n 1 - 1 = (mask n :: u32)"
  by (simp add: mask_eq_exp_minus_1 push_bit_eq_mult)

lemma extract_unsigned_bits_mask:
  "extract_unsigned_bits w lo sz = take_bit sz (drop_bit lo w)"
  unfolding extract_unsigned_bits_def mask_push_bit take_bit_eq_mask ..

lemma unat_extract_unsigned_bits:
  "unat (extract_unsigned_bits w lo sz) = unat w div 2 ^ lo mod 2 ^ sz"
  by (simp add: extract_unsigned_bits_mask unsigned_take_bit_eq unat_drop_bit_eq
      flip: take_bit_eq_mod drop_bit_eq_div)

lemma extract_unsigned_bits_bound: "unat (extract_unsigned_bits w lo sz) < 2 ^ sz"
  by (simp add: unat_extract_unsigned_bits)

lemma bit_extract_signed_bits:
  assumes "0 < sz" "sz < 32" "i < 32"
  shows "bit (extract_signed_bits w lo sz) i = bit w (lo + min i (sz - 1))"
proof -
  let ?v = "drop_bit lo w AND mask sz"
  have sgn: "?v AND push_bit (sz - 1) 1 \<noteq> 0 \<longleftrightarrow> bit w (lo + (sz - 1))"
    using assms by (auto simp: and_exp_eq_0_iff_not_bit bit_simps)
  have "extract_signed_bits w lo sz =
      (if bit w (lo + (sz - 1)) then ?v OR NOT (mask sz) else ?v)"
    unfolding extract_signed_bits_def Let_def mask_push_bit sgn ..
  then show ?thesis
    using assms by (auto simp: bit_simps min_def)
qed

lemma bit_endian_swap32:
  assumes r: "r < 8" and q: "q < 4"
  shows "bit (endian_swap32 v) (8 * q + r) = bit v (8 * (3 - q) + r)"
proof -
  have lits: "(0xff :: u32) = mask 8" "(0xff00 :: u32) = push_bit 8 (mask 8)"
    "(0xff0000 :: u32) = push_bit 16 (mask 8)" "(0xff000000 :: u32) = push_bit 24 (mask 8)"
    by (simp_all add: mask_eq_exp_minus_1 push_bit_eq_mult)
  from q consider "q = 0" | "q = 1" | "q = 2" | "q = 3" by linarith
  then show ?thesis
    by cases (use r in \<open>simp_all add: endian_swap32_def lits bit_simps\<close>)
qed

lemma endian_swap32_involution [simp]: "endian_swap32 (endian_swap32 v) = v"
proof (rule bit_word_eqI)
  fix i :: nat
  assume i: "i < LENGTH(32)"
  define q r where "q = i div 8" and "r = i mod 8"
  then have "i = 8 * q + r" "r < 8" "q < 4" "3 - q < 4" "3 - (3 - q) = q" using i by auto
  then show "bit (endian_swap32 (endian_swap32 v)) i = bit v i"
    by (simp only: bit_endian_swap32)
qed

subsection \<open>The next enabled thread\<close>

lemma bit_lower_mask:
  assumes "index < 32"
  shows "bit (host_shl1 (Suc index) - 1) i \<longleftrightarrow> i \<le> index \<and> index < 31"
proof (cases "index = 31")
  case False
  with assms have "host_shl1 (Suc index) - 1 = mask (Suc index)"
    by (simp add: host_shl1_def mask_eq_exp_minus_1 push_bit_eq_mult)
  with False assms show ?thesis by (auto simp: bit_simps)
qed (simp add: host_shl1_def)

lemma next_set_bit_set:
  assumes "bitmask \<noteq> 0"
  shows "next_set_bit bitmask index < 32 \<and> bit bitmask (next_set_bit bitmask index)"
proof -
  let ?low = "(host_shl1 (index + 1) - 1) AND bitmask"
  show ?thesis
  proof (cases "?low = 0")
    case True
    then show ?thesis
      using builtin_clz_top(1,2) [OF assms] by (simp add: next_set_bit_def)
  next
    case False
    then show ?thesis
      using builtin_clz_top(1,2) [OF False] by (simp add: next_set_bit_def bit_and_iff)
  qed
qed

lemma next_set_bit_below:
  assumes "index < 32" "bit bitmask i" "i \<le> index"
  shows "next_set_bit bitmask index \<le> index \<and> i \<le> next_set_bit bitmask index"
proof (cases "index = 31")
  case True
  from assms(2) have "bitmask \<noteq> 0" by auto
  with True assms show ?thesis
    using builtin_clz_top(3) [of bitmask i] next_set_bit_set [of bitmask 31]
    by (auto simp: next_set_bit_def host_shl1_def)
next
  case False
  let ?low = "(host_shl1 (index + 1) - 1) AND bitmask"
  from False assms have b: "bit ?low i" by (simp add: bit_and_iff bit_lower_mask)
  then have nz: "?low \<noteq> 0" by (metis bit_0_eq bot_apply bot_bool_def)
  then have "next_set_bit bitmask index = 31 - builtin_clz ?low"
    by (simp add: next_set_bit_def)
  moreover have "31 - builtin_clz ?low \<le> index"
    using builtin_clz_top(2) [OF nz] assms(1) by (simp add: bit_and_iff bit_lower_mask)
  ultimately show ?thesis using builtin_clz_top(3) [OF nz b] by simp
qed

lemma next_set_bit_wrap:
  assumes "index < 32" "\<forall>i\<le>index. \<not> bit bitmask i" "bit bitmask j"
  shows "j \<le> next_set_bit bitmask index"
proof -
  let ?low = "(host_shl1 (index + 1) - 1) AND bitmask"
  have "?low = 0"
    using assms(1,2) by (intro bit_word_eqI) (auto simp: bit_and_iff bit_lower_mask)
  moreover from assms(3) have "bitmask \<noteq> 0" by auto
  ultimately show ?thesis
    using builtin_clz_top(3) [OF _ assms(3)] by (simp add: next_set_bit_def)
qed

subsection \<open>Hexadecimal text\<close>

text \<open>The text \<open>printf\<close> writes for \<open>%0nx\<close>: \<open>n\<close> lower-case digits, most significant first.\<close>

definition hex_digit :: "u32 \<Rightarrow> char" where
  "hex_digit d = char_of (if unat d < 10 then 48 + unat d else 87 + unat d)"

primrec hex_text :: "nat \<Rightarrow> u32 \<Rightarrow> string" where
  "hex_text 0 w = []"
| "hex_text (Suc n) w = hex_digit (take_bit 4 (drop_bit (4 * n) w)) # hex_text n w"

lemma unat_take_bit_4: "unat (take_bit 4 (w :: u32)) < 16"
  using extract_unsigned_bits_bound [of w 0 4] by (simp add: extract_unsigned_bits_mask)

lemma hex_digit_val_hex_digit:
  assumes "unat d < 16"
  shows "hex_digit_val (hex_digit d) = d" "isxdigit (hex_digit d)"
proof -
  have "of_char (hex_digit d) = (if unat d < 10 then 48 + unat d else 87 + unat d)"
    using assms by (simp add: hex_digit_def)
  then show "hex_digit_val (hex_digit d) = d" "isxdigit (hex_digit d)"
    using assms by (auto simp: hex_digit_val_def isxdigit_def Let_def)
qed

lemma isxdigit_hex_digit [simp]: "isxdigit (hex_digit (take_bit 4 w))"
  and hex_digit_val_take_bit [simp]: "hex_digit_val (hex_digit (take_bit 4 w)) = take_bit 4 w"
  using hex_digit_val_hex_digit [OF unat_take_bit_4] by simp_all

lemma take_bit_4_not_max [simp]: "take_bit 4 (w :: u32) \<noteq> 0xffffffff"
  using unat_take_bit_4 [of w] by auto

lemma push_digit:
  "(push_bit (m + 4) v OR push_bit m (take_bit 4 (drop_bit m w))) OR take_bit m w
     = push_bit (m + 4) v OR take_bit (m + 4) (w :: u32)"
  by (rule bit_word_eqI) (auto simp: bit_simps)

lemma parse_hex_lane_hex_text:
  "n \<le> 8 \<Longrightarrow> parse_hex_lane n v (hex_text n w @ cs) =
     Some (push_bit (4 * n) v OR take_bit (4 * n) w, cs)"
proof (induction n arbitrary: v)
  case 0
  then show ?case by simp
next
  case (Suc n)
  then show ?case by (simp add: Let_def push_digit add.commute [of 4])
qed

lemma parse_hex_lane_word: "parse_hex_lane 8 0 (hex_text 8 w @ cs) = Some (w, cs)"
  using parse_hex_lane_hex_text [of 8 0 w cs] by (simp add: take_bit_length_eq [where 'a = 32, simplified])

lemma parse_hex_lanes_hex_text:
  "parse_hex_lanes (length vs) (concat (map (\<lambda>v. hex_text 8 (endian_swap32 v)) vs)) True = Some vs"
  by (induction vs) (simp_all add: parse_hex_lane_word del: hex_text.simps)

subsection \<open>Loading memory images\<close>

declare read_hex_loop.simps(11,12) [simp del]

text \<open>An image as \<open>elf2hex\<close> writes it, one 32-bit word in hexadecimal per line.\<close>

definition image_text :: "u32 list \<Rightarrow> string" where
  "image_text ws = concat (map (\<lambda>w. hex_text 8 w @ [CHR 0x0A]) ws)"

primrec store_words :: "nat \<Rightarrow> u32 list \<Rightarrow> mem \<Rightarrow> mem" where
  "store_words a [] m = m"
| "store_words a (w # ws) m = store_words (Suc a) ws (put32 (4 * a) (endian_swap32 w) m)"

lemma isxdigit_not_special:
  "isxdigit c \<Longrightarrow> c \<noteq> CHR ''/'' \<and> c \<noteq> CHR ''@'' \<and> c \<noteq> CHR 0x0A \<and> c \<noteq> CHR '' ''"
  by (auto simp: isxdigit_def)

lemma drop_bit_digit:
  "push_bit 4 (drop_bit (m + 4) w) OR take_bit 4 (drop_bit m w) = drop_bit m (w :: u32)"
  by (rule bit_word_eqI) (auto simp: bit_simps algebra_simps)

lemma drop_bit_high_zero: "drop_bit (Suc n * 4) (w :: u32) AND 0xf0000000 = 0"
proof -
  have "(0xf0000000 :: u32) = push_bit 28 (mask 4)"
    by (simp add: mask_eq_exp_minus_1 push_bit_eq_mult)
  then have "drop_bit (Suc n * 4) w AND 0xf0000000 = drop_bit (Suc n * 4) w AND push_bit 28 (mask 4)"
    by (rule arg_cong)
  also have "\<dots> = 0"
    by (intro bit_word_eqI) (auto simp: bit_simps dest: bit_imp_le_length)
  finally show ?thesis .
qed

lemma scan_digits:
  "read_hex_loop sz SCAN_NUMBER (drop_bit (n * 4) w) addr (hex_text n w @ cs) m
     = read_hex_loop sz SCAN_NUMBER w addr cs m"
proof (induction n)
  case 0
  then show ?case by simp
next
  case (Suc n)
  then show ?case
    using drop_bit_high_zero [of n w] drop_bit_digit [of "n * 4" w]
    by (simp add: read_hex_loop.simps(11) [of _ _ _ "_ # _"] algebra_simps)
qed

lemma scan_address_digits:
  "read_hex_loop sz SCAN_ADDRESS (drop_bit (n * 4) w) addr (hex_text n w @ cs) m
     = read_hex_loop sz SCAN_ADDRESS w addr cs m"
proof (induction n)
  case 0
  then show ?case by simp
next
  case (Suc n)
  then show ?case
    using drop_bit_digit [of "n * 4" w]
    by (simp add: read_hex_loop.simps(12) [of _ _ _ "_ # _"] algebra_simps)
qed

lemma scan_word:
  "read_hex_loop sz SCAN_SPACE v addr (hex_text 8 w @ cs) m
     = read_hex_loop sz SCAN_NUMBER w addr cs m"
proof -
  have "hex_text 8 w = hex_digit (take_bit 4 (drop_bit 28 w)) # hex_text 7 w"
    by (simp add: numeral_eq_Suc)
  moreover have "take_bit 4 (drop_bit 28 w) = drop_bit 28 w"
    by (rule bit_word_eqI) (auto simp: bit_simps dest: bit_imp_le_length)
  moreover have "isxdigit (hex_digit (drop_bit 28 w))" "hex_digit_val (hex_digit (drop_bit 28 w)) = drop_bit 28 w"
    using calculation(2) isxdigit_hex_digit hex_digit_val_take_bit by metis+
  ultimately show ?thesis
    using scan_digits [of sz 7 w addr cs m] by (simp add: isxdigit_not_special del: hex_text.simps)
qed

lemma scan_address:
  "read_hex_loop sz SCAN_ADDRESS 0 addr (hex_text 8 w @ cs) m
     = read_hex_loop sz SCAN_ADDRESS w addr cs m"
proof -
  have "drop_bit 32 w = 0"
    by (rule bit_word_eqI) (auto simp: bit_simps dest: bit_imp_le_length)
  then show ?thesis
    using scan_address_digits [of sz 8 w addr cs m] by (simp del: hex_text.simps)
qed

lemma isxdigit_newline [simp]: "\<not> isxdigit CHR 0x0A" "isspace CHR 0x0A"
  and isxdigit_space [simp]: "\<not> isxdigit CHR '' ''" "isspace CHR '' ''"
  by (simp_all add: isxdigit_def isspace_def)

lemma scan_number_end:
  assumes "\<not> isxdigit c" and lt: "addr < sz"
  shows "read_hex_loop sz SCAN_NUMBER w addr (c # cs) m =
     bindE (store_image_word sz (unat addr) (endian_swap32 w) m)
       (read_hex_loop sz SCAN_SPACE w (addr + 1) (c # cs))"
proof -
  have "\<not> sz \<le> addr" using lt by simp
  with assms(1) show ?thesis by (subst read_hex_loop.simps(11)) simp
qed

lemma scan_address_end:
  assumes "\<not> isxdigit c" and lt: "a < sz"
  shows "read_hex_loop sz SCAN_ADDRESS a addr (c # cs) m = read_hex_loop sz SCAN_SPACE a a (c # cs) m"
proof -
  have "\<not> sz \<le> a" using lt by simp
  with assms(1) show ?thesis by (subst read_hex_loop.simps(12)) simp
qed

lemma load_image_lines:
  assumes "4 * (unat addr + length ws) \<le> unat sz"
  shows "read_hex_loop sz SCAN_SPACE v addr (image_text ws) m = Inr (True, store_words (unat addr) ws m)"
  using assms
proof (induction ws arbitrary: v addr m)
  case Nil
  then show ?case by (simp add: image_text_def)
next
  case (Cons w ws)
  have lt: "addr < sz" using Cons.prems by (simp add: word_less_nat_alt)
  have s: "unat (addr + 1) = Suc (unat addr)"
    using lt by (rule unat_plus_one)
  have "read_hex_loop sz SCAN_SPACE v addr (image_text (w # ws)) m
      = read_hex_loop sz SCAN_NUMBER w addr (CHR 0x0A # image_text ws) m"
    by (simp add: image_text_def scan_word del: hex_text.simps)
  also have "\<dots> = read_hex_loop sz SCAN_SPACE w (addr + 1) (image_text ws)
      (put32 (4 * unat addr) (endian_swap32 w) m)"
    using lt Cons.prems by (simp add: scan_number_end store_image_word_def)
  also have "\<dots> = Inr (True, store_words (unat addr) (w # ws) m)"
    using Cons.IH [of "addr + 1"] Cons.prems s by simp
  finally show ?case .
qed

subsection \<open>Properties\<close>

text \<open>
  the vector text that the debugger stub sends (each lane in target byte order as eight
  hexadecimal digits) is parsed back by \<open>parse_hex_vector\<close> to the same sixteen lane values.
\<close>

theorem parse_hex_vector_roundtrip:
  assumes "length vs = 16"
  shows "parse_hex_vector (concat (map (\<lambda>v. hex_text 8 (endian_swap32 v)) vs)) True = Some vs"
  using parse_hex_lanes_hex_text [of vs] assms by (simp add: parse_hex_vector_def)

theorem parse_hex_vector_roundtrip_witness:
  "length (map of_nat [0..<16] :: u32 list) = 16 \<and>
   parse_hex_vector (concat (map (\<lambda>v. hex_text 8 (endian_swap32 v)) (map of_nat [0..<16]))) True
     = Some (map of_nat [0..<16])"
  using parse_hex_vector_roundtrip [of "map of_nat [0..<16]"] by simp

text \<open>
  \<open>read_hex_file\<close> on an image of one hexadecimal word per line that fits in memory succeeds
  and stores the byte-swapped words at consecutive addresses from 0, changing nothing else.
\<close>

theorem read_hex_file_image:
  assumes "4 * length ws \<le> unat memory_size"
  shows "read_hex_file (Some (image_text ws)) memory_size m = Inr (True, store_words 0 ws m)"
  using load_image_lines [of 0 ws memory_size 0 m] assms by (simp add: read_hex_file_def)

theorem read_hex_file_image_witness:
  "4 * length [0x0f0e0d0c :: u32, 1] \<le> unat (16 :: u32) \<and>
   read_hex_file (Some (image_text [0x0f0e0d0c, 1])) 16 (\<lambda>_. 0)
     = Inr (True, store_words 0 [0x0f0e0d0c, 1] (\<lambda>_. 0))"
  using read_hex_file_image [of "[0x0f0e0d0c, 1]" 16 "\<lambda>_. 0"] by simp

text \<open>
  \<open>read_hex_file\<close> compares its word index with the memory size in bytes, so an image that
  sets the load address to a word index past the end of memory but below the byte size makes
  it write outside the array.
\<close>

theorem read_hex_file_overrun:
  assumes "a < memory_size" and "unat memory_size < 4 * unat a + 4"
  shows "read_hex_file (Some (CHR ''@'' # hex_text 8 a @ [CHR '' ''] @ image_text [w])) memory_size m
     = Inl Out_of_bounds"
  using assms
  by (simp add: read_hex_file_def scan_address scan_word image_text_def scan_address_end
      scan_number_end store_image_word_def del: hex_text.simps)

theorem read_hex_file_overrun_witness:
  "(4 :: u32) < 16 \<and> unat (16 :: u32) < 4 * unat (4 :: u32) + 4 \<and>
   read_hex_file (Some (CHR ''@'' # hex_text 8 4 @ [CHR '' ''] @ image_text [7])) 16 (\<lambda>_. 0)
     = Inl Out_of_bounds"
  using read_hex_file_overrun [of 4 16 7 "\<lambda>_. 0"] by simp

end
