(* ===== verification/Emu_Cosim.thy ===== *)
theory Emu_Cosim
  imports Emu_Isa Emu_Util
begin

text \<open>
  The checks of \<open>tools/emulator/cosimulation.c\<close>: before each step the driver records the side
  effect that the hardware model reported, and the emulator core reports its own side effect
  to one of the \<open>cosim_check\<close> functions, which compare the two and set the flags
  \<open>cosim_event_triggered\<close> and \<open>cosim_mismatch\<close>. A vector is a function on lane numbers; only
  lanes below 16 exist. The messages on mismatch are not modelled.
\<close>

datatype cosim_event =
    EVENT_NONE | EVENT_MEM_STORE | EVENT_VECTOR_WRITEBACK | EVENT_SCALAR_WRITEBACK

record cosim_state =
  expected_event :: cosim_event
  expected_register :: u32
  expected_address :: u32
  expected_mask :: u64
  expected_values :: "nat \<Rightarrow> u32"
  expected_pc :: u32
  expected_thread :: u32
  cosim_mismatch :: bool
  cosim_event_triggered :: bool

abbreviation (input) NUM_VECTOR_LANES :: nat where "NUM_VECTOR_LANES \<equiv> 16"
abbreviation (input) CACHE_LINE_LENGTH :: u32 where "CACHE_LINE_LENGTH \<equiv> 64"
abbreviation (input) CACHE_LINE_MASK :: u32 where "CACHE_LINE_MASK \<equiv> 63"

definition masked_vectors_equal :: "u32 \<Rightarrow> (nat \<Rightarrow> u32) \<Rightarrow> (nat \<Rightarrow> u32) \<Rightarrow> bool" where
  "masked_vectors_equal mask' values1 values2 \<longleftrightarrow>
     list_all (\<lambda>lane. bit mask' lane \<longrightarrow> values1 lane = values2 lane) [0..<NUM_VECTOR_LANES]"

definition cosim_report :: "bool \<Rightarrow> cosim_state \<Rightarrow> cosim_state" where
  "cosim_report mismatch s = s\<lparr>cosim_event_triggered := True,
     cosim_mismatch := cosim_mismatch s \<or> mismatch\<rparr>"

definition cosim_check_set_scalar_reg :: "u32 \<Rightarrow> u32 \<Rightarrow> u32 \<Rightarrow> cosim_state \<Rightarrow> cosim_state" where
  "cosim_check_set_scalar_reg pc reg value s = cosim_report
     (expected_event s \<noteq> EVENT_SCALAR_WRITEBACK
      \<or> expected_pc s \<noteq> pc
      \<or> expected_register s \<noteq> reg
      \<or> expected_values s 0 \<noteq> value) s"

definition cosim_check_set_vector_reg ::
  "u32 \<Rightarrow> u32 \<Rightarrow> u32 \<Rightarrow> (nat \<Rightarrow> u32) \<Rightarrow> cosim_state \<Rightarrow> cosim_state" where
  "cosim_check_set_vector_reg pc reg mask' values s = cosim_report
     (expected_event s \<noteq> EVENT_VECTOR_WRITEBACK
      \<or> expected_pc s \<noteq> pc
      \<or> expected_register s \<noteq> reg
      \<or> \<not> masked_vectors_equal mask' (expected_values s) values
      \<or> expected_mask s \<noteq> ucast (mask' AND 0xffff)) s"

definition vector_store_byte_mask :: "u32 \<Rightarrow> u64" where
  "vector_store_byte_mask mask' =
     fold (\<lambda>lane byte_mask. if bit mask' lane
             then byte_mask OR drop_bit (lane * 4) 0xf000000000000000 else byte_mask)
       [0..<NUM_VECTOR_LANES] 0"

definition cosim_check_vector_store ::
  "u32 \<Rightarrow> u32 \<Rightarrow> u32 \<Rightarrow> (nat \<Rightarrow> u32) \<Rightarrow> cosim_state \<Rightarrow> cosim_state" where
  "cosim_check_vector_store pc address mask' values s = cosim_report
     (expected_event s \<noteq> EVENT_MEM_STORE
      \<or> expected_pc s \<noteq> pc
      \<or> expected_address s \<noteq> address AND NOT (of_nat (NUM_VECTOR_LANES * 4) - 1)
      \<or> expected_mask s \<noteq> vector_store_byte_mask mask'
      \<or> \<not> masked_vectors_equal mask' (expected_values s) values) s"

definition scalar_store_mask :: "u32 \<Rightarrow> nat \<Rightarrow> u64" where
  "scalar_store_mask address sz =
     push_bit (63 - unat (address AND CACHE_LINE_MASK) - (sz - 1)) (push_bit sz 1 - 1)"

definition cosim_check_scalar_store ::
  "u32 \<Rightarrow> u32 \<Rightarrow> nat \<Rightarrow> u32 \<Rightarrow> cosim_state \<Rightarrow> cosim_state" where
  "cosim_check_scalar_store pc address sz value s =
     (let hardware_value = expected_values s (unat (address AND CACHE_LINE_MASK) div 4);
          m = push_bit (sz * 8) 1 - 1;
          hardware_value' = if sz < 4 then hardware_value AND m else hardware_value;
          value' = if sz < 4 then value AND m else value
      in cosim_report
        (expected_event s \<noteq> EVENT_MEM_STORE
         \<or> expected_pc s \<noteq> pc
         \<or> expected_address s \<noteq> address AND NOT CACHE_LINE_MASK
         \<or> expected_mask s \<noteq> scalar_store_mask address sz
         \<or> hardware_value' \<noteq> value') s)"

subsection \<open>The checks only move the two flags\<close>

lemma cosim_report_expected [simp]:
  "expected_event (cosim_report b s) = expected_event s"
  "expected_values (cosim_report b s) = expected_values s"
  "expected_pc (cosim_report b s) = expected_pc s"
  "cosim_event_triggered (cosim_report b s)"
  "cosim_mismatch (cosim_report b s) \<longleftrightarrow> cosim_mismatch s \<or> b"
  by (simp_all add: cosim_report_def)

lemma masked_vectors_equal_iff:
  "masked_vectors_equal m v w \<longleftrightarrow> (\<forall>lane<16. bit m lane \<longrightarrow> v lane = w lane)"
  by (auto simp: masked_vectors_equal_def list_all_iff)

text \<open>Lane \<open>i\<close> is the nibble \<open>i\<close> of the byte mask, counted from the most significant.\<close>

lemma fold_or_bit:
  "bit (fold (\<lambda>x acc. if p x then acc OR f x else acc) xs (a :: u64)) n
     \<longleftrightarrow> bit a n \<or> (\<exists>x\<in>set xs. p x \<and> bit (f x) n)"
  by (induction xs arbitrary: a) (auto simp: bit_simps)

lemma bit_top_nibble: "bit (drop_bit (lane * 4) (0xf000000000000000 :: u64)) n
    \<longleftrightarrow> 60 \<le> lane * 4 + n \<and> lane * 4 + n < 64"
proof -
  have e: "(0xf000000000000000 :: u64) = push_bit 60 (mask 4)"
    by (simp add: mask_eq_exp_minus_1 push_bit_eq_mult)
  show ?thesis unfolding e bit_drop_bit_eq by (auto simp: bit_simps)
qed

lemma lane_nibble:
  assumes "n < 64" "lane < (16 :: nat)"
  shows "60 \<le> lane * 4 + n \<and> lane * 4 + n < 64 \<longleftrightarrow> lane = 15 - n div 4"
proof -
  have "n = 4 * (n div 4) + n mod 4" "n mod 4 < 4" by simp_all
  then show ?thesis using assms by linarith
qed

lemma bit_vector_store_byte_mask:
  assumes "n < 64"
  shows "bit (vector_store_byte_mask m) n \<longleftrightarrow> bit m (15 - n div 4)"
proof -
  have "bit (vector_store_byte_mask m) n
      \<longleftrightarrow> (\<exists>lane\<in>{0..<16}. bit m lane \<and> 60 \<le> lane * 4 + n \<and> lane * 4 + n < 64)"
    by (simp only: vector_store_byte_mask_def fold_or_bit bit_top_nibble set_upt bit_0_eq
        bot_apply bot_bool_def simp_thms)
  also have "\<dots> \<longleftrightarrow> (\<exists>lane\<in>{0..<16}. bit m lane \<and> lane = 15 - n div 4)"
    using lane_nibble [OF assms] by (metis atLeastLessThan_iff)
  also have "\<dots> \<longleftrightarrow> bit m (15 - n div 4)" by auto
  finally show ?thesis .
qed

lemma and_63: "(x :: u32) AND 63 = take_bit 6 x"
proof -
  have "(63 :: u32) = mask 6" by (simp add: mask_eq_exp_minus_1)
  then show ?thesis by (simp add: take_bit_eq_mask)
qed

lemma unat_take_bit_mod: "unat (take_bit n (x :: u32)) = unat x mod 2 ^ n"
  unfolding unsigned_take_bit_eq by (rule take_bit_eq_mod)

lemma take_bit_6_of_nat: "n < 64 \<Longrightarrow> take_bit 6 (of_nat n :: u32) = of_nat n"
  by (rule word_unat_eq_iff [THEN iffD2])
    (simp add: unsigned_take_bit_eq unat_of_nat take_bit_nat_eq_self)

lemma unat_of_nat_line: "n < 64 \<Longrightarrow> unat (of_nat n :: u32) = n"
  by (simp add: unat_of_nat take_bit_nat_eq_self)

lemma scalar_store_mask_lane:
  assumes "lane < 16"
  shows "scalar_store_mask (of_nat (4 * lane)) 4 = vector_store_byte_mask (push_bit lane 1)"
proof (rule bit_word_eqI)
  fix n
  assume n: "n < LENGTH(64)"
  have "4 * lane < 64" using assms by simp
  then have off: "unat (of_nat (4 * lane) AND (63 :: u32)) = 4 * lane"
    by (simp only: and_63 take_bit_6_of_nat unat_of_nat_line)
  have m: "(push_bit 4 1 - 1 :: u64) = mask 4"
    by (simp add: mask_eq_exp_minus_1 push_bit_eq_mult)
  have "bit (scalar_store_mask (of_nat (4 * lane)) 4) n \<longleftrightarrow> 60 - 4 * lane \<le> n \<and> n < 64 - 4 * lane"
    using n assms unfolding scalar_store_mask_def off m by (auto simp: bit_simps)
  also have "\<dots> \<longleftrightarrow> 60 \<le> lane * 4 + n \<and> lane * 4 + n < 64"
    using assms by linarith
  also have "\<dots> \<longleftrightarrow> lane = 15 - n div 4"
    using n assms by (intro lane_nibble) simp_all
  also have "\<dots> \<longleftrightarrow> bit (vector_store_byte_mask (push_bit lane 1)) n"
    using n by (auto simp: bit_vector_store_byte_mask bit_simps assms)
  finally show "bit (scalar_store_mask (of_nat (4 * lane)) 4) n
    = bit (vector_store_byte_mask (push_bit lane 1)) n" .
qed

subsection \<open>Properties\<close>

text \<open>
  on the reporting side a scatter store reports each lane as a scalar store while a block
  store reports the whole line; for one lane of a cache line the two checks accept exactly the
  same hardware events.
\<close>

theorem cosim_scalar_vector_store_agree:
  assumes "lane < 16" "line AND 63 = 0"
  shows "cosim_check_scalar_store pc (line OR of_nat (4 * lane)) 4 (values lane) s
    = cosim_check_vector_store pc line (push_bit lane 1) values s"
proof -
  define off :: u32 where "off = of_nat (4 * lane)"
  have small: "4 * lane < 64" using assms(1) by simp
  then have off6: "take_bit 6 off = off" and uoff: "unat off = 4 * lane"
    by (simp_all only: off_def take_bit_6_of_nat unat_of_nat_line)
  have b: "\<not> bit off i" if "6 \<le> i" for i
    using that off6 by (metis bit_take_bit_iff not_le)
  have l: "\<not> bit line i" if "i < 6" for i
    using assms(2) that unfolding and_63 by (metis bit_take_bit_iff bit_0_eq bot_apply bot_bool_def)
  have n63: "(NOT 63 :: u32) = NOT (mask 6)" by (simp add: mask_eq_exp_minus_1)
  have lo: "(line OR off) AND 63 = off"
    unfolding and_63 by (rule bit_word_eqI) (use b l in \<open>auto simp: bit_simps\<close>)
  have hi: "(line OR off) AND NOT 63 = line AND NOT 63"
    unfolding n63 by (rule bit_word_eqI) (use b in \<open>auto simp: bit_simps\<close>)
  have sm: "scalar_store_mask (line OR off) 4 = vector_store_byte_mask (push_bit lane 1)"
    unfolding scalar_store_mask_lane [OF assms(1), symmetric] scalar_store_mask_def lo
      off_def [symmetric] and_63 [of off] off6 ..
  have mv: "masked_vectors_equal (push_bit lane 1) v w \<longleftrightarrow> v lane = w lane" for v w
    using assms(1) by (auto simp: masked_vectors_equal_iff bit_simps)
  show ?thesis
    unfolding cosim_check_scalar_store_def cosim_check_vector_store_def Let_def sm lo hi uoff mv
      off_def [symmetric] by simp
qed

theorem cosim_scalar_vector_store_agree_witness:
  "(3 :: nat) < 16 \<and> (0x1040 :: u32) AND 63 = 0 \<and>
   cosim_check_scalar_store 8 (0x1040 OR of_nat (4 * 3)) 4 (of_nat 3)
     \<lparr>expected_event = EVENT_MEM_STORE, expected_register = 0, expected_address = 0x1040,
      expected_mask = 0x000f000000000000, expected_values = of_nat, expected_pc = 8,
      expected_thread = 0, cosim_mismatch = False, cosim_event_triggered = False\<rparr>
   = cosim_check_vector_store 8 0x1040 (push_bit 3 1) of_nat
     \<lparr>expected_event = EVENT_MEM_STORE, expected_register = 0, expected_address = 0x1040,
      expected_mask = 0x000f000000000000, expected_values = of_nat, expected_pc = 8,
      expected_thread = 0, cosim_mismatch = False, cosim_event_triggered = False\<rparr>"
proof (intro conjI)
  show "(3 :: nat) < 16" by simp
  show "(0x1040 :: u32) AND 63 = 0" by simp
qed (rule cosim_scalar_vector_store_agree, simp_all)

end
