(* ===== verification/Emu_Sdmmc.thy ===== *)
theory Emu_Sdmmc
  imports Emu_Util
begin

text \<open>
  \<open>tools/emulator/sdmmc.c\<close>: the SD card in SPI mode, a state machine that takes and returns one
  byte per transfer. The static variables of the file are the record \<open>sd_card\<close>. The backing
  file is its contents (\<open>None\<close> while no block device has been opened, which is the descriptor
  -1); \<open>lseek\<close>, \<open>read\<close> and \<open>write\<close> act on those contents. \<open>exit(1)\<close> after an error message is
  the fault \<open>Exit_called\<close>. \<open>malloc\<close> is taken to succeed, and its indeterminate contents are
  zeros here; the card fills the buffer before it sends or writes it back. The buffer is an
  array of \<open>char\<close>, which is signed on the hosts, so bytes read from it are sign-extended.
\<close>

datatype sd_state =
    STATE_INIT_WAIT | STATE_IDLE | STATE_RECEIVE_COMMAND | STATE_READ_CMD_RESPONSE
  | STATE_READ_DATA_TOKEN | STATE_SEND_R1 | STATE_SEND_R3 | STATE_SEND_R7
  | STATE_READ_TRANSFER | STATE_WRITE_CMD_RESPONSE | STATE_WRITE_DATA_TOKEN
  | STATE_WRITE_TRANSFER | STATE_WRITE_DATA_RESPONSE

record sd_card =
  block_file :: "u8 list option"
  current_state :: sd_state
  chip_select :: u32
  state_delay :: u32
  transfer_address :: u32
  transfer_count :: u32
  block_length :: u32
  init_clock_count :: u32
  sd_command :: "u8 list"
  command_length :: u32
  block_buffer :: "u8 list"
  in_idle_state :: bool
  check_pattern :: u8
  voltage :: u8
  is_app_cmd :: bool

definition initial_sd_card :: sd_card where
  "initial_sd_card = \<lparr>block_file = None, current_state = STATE_INIT_WAIT, chip_select = 0,
     state_delay = 0, transfer_address = 0, transfer_count = 0, block_length = 0,
     init_clock_count = 0, sd_command = replicate 6 0, command_length = 0, block_buffer = [],
     in_idle_state = False, check_pattern = 0, voltage = 0, is_app_cmd = False\<rparr>"

definition fresh_buffer :: "u32 \<Rightarrow> u8 list" where
  "fresh_buffer len = replicate (unat len) 0"

text \<open>The file argument is the contents of the named file, \<open>None\<close> when it cannot be opened.\<close>

definition open_sdmmc_device :: "u8 list option \<Rightarrow> sd_card \<Rightarrow> bool \<times> sd_card" where
  "open_sdmmc_device file s =
     (if block_file s \<noteq> None then (True, s)
      else case file of None \<Rightarrow> (False, s)
        | Some contents \<Rightarrow>
            (True, s\<lparr>block_file := Some contents, block_length := 512,
               block_buffer := fresh_buffer 512\<rparr>))"

definition read_little_endian :: "u8 list \<Rightarrow> u32" where
  "read_little_endian values =
     push_bit 24 (ucast (values ! 0)) OR push_bit 16 (ucast (values ! 1))
     OR push_bit 8 (ucast (values ! 2)) OR ucast (values ! 3)"

definition file_write :: "nat \<Rightarrow> u8 list \<Rightarrow> u8 list \<Rightarrow> u8 list" where
  "file_write pos bs f =
     take pos (f @ replicate (pos - length f) 0) @ bs @ drop (pos + length bs) f"

definition random_delay :: "random_state \<Rightarrow> u32 \<times> random_state" where
  "random_delay rs = (let (r, rs') = next_random rs in (ucast (r AND 0xf), rs'))"

definition cmd_set_blocklen :: "sd_card \<Rightarrow> sd_card cres" where
  "cmd_set_blocklen s =
     (if in_idle_state s then Inl Exit_called
      else let len = read_little_endian (drop 1 (sd_command s)) in
        Inr (s\<lparr>block_length := len, block_buffer := fresh_buffer len,
               current_state := STATE_SEND_R1\<rparr>))"

definition cmd_read_single_block :: "sd_card \<Rightarrow> random_state \<Rightarrow> (sd_card \<times> random_state) cres" where
  "cmd_read_single_block s rs =
     (if in_idle_state s then Inl Exit_called
      else let addr = read_little_endian (drop 1 (sd_command s)) * block_length s in
        case block_file s of
          None \<Rightarrow> Inl Exit_called
        | Some f \<Rightarrow>
            let data = take (unat (block_length s)) (drop (unat addr) f);
                (d, rs') = random_delay rs
            in if length data \<noteq> unat (block_length s) then Inl Exit_called
               else Inr (s\<lparr>transfer_address := addr, block_buffer := data, transfer_count := 0,
                           current_state := STATE_READ_CMD_RESPONSE, state_delay := d\<rparr>, rs'))"

definition cmd_write_single_block :: "sd_card \<Rightarrow> random_state \<Rightarrow> (sd_card \<times> random_state) cres" where
  "cmd_write_single_block s rs =
     (if in_idle_state s then Inl Exit_called
      else let addr = read_little_endian (drop 1 (sd_command s)) * block_length s;
               (d, rs') = random_delay rs
           in Inr (s\<lparr>transfer_address := addr, transfer_count := 0,
                     current_state := STATE_WRITE_CMD_RESPONSE, state_delay := d\<rparr>, rs'))"

definition process_command :: "sd_card \<Rightarrow> random_state \<Rightarrow> (sd_card \<times> random_state) cres" where
  "process_command s rs =
     (let cmd = sd_command s ! 0 AND 0x3f in
      if is_app_cmd s then
        (if cmd = 41
         then Inr (s\<lparr>is_app_cmd := False, current_state := STATE_SEND_R3, transfer_count := 0,
                     in_idle_state := False\<rparr>, rs)
         else Inl Exit_called)
      else if cmd = 0 then
        Inr (if block_file s \<noteq> None
             then s\<lparr>in_idle_state := True, current_state := STATE_SEND_R1\<rparr> else s, rs)
      else if cmd = 1 then
        Inr (s\<lparr>current_state := STATE_SEND_R1, in_idle_state := False\<rparr>, rs)
      else if cmd = 8 then
        Inr (s\<lparr>current_state := STATE_SEND_R7, transfer_count := 0,
               voltage := sd_command s ! 3 AND 0xf, check_pattern := sd_command s ! 4\<rparr>, rs)
      else if cmd = 16 then bindE (cmd_set_blocklen s) (\<lambda>s'. Inr (s', rs))
      else if cmd = 17 then cmd_read_single_block s rs
      else if cmd = 24 then cmd_write_single_block s rs
      else if cmd = 55 then
        Inr (s\<lparr>is_app_cmd := True, current_state := STATE_SEND_R1\<rparr>, rs)
      else Inl Exit_called)"

text \<open>The case \<open>STATE_IDLE\<close>, which \<open>STATE_INIT_WAIT\<close> falls through to.\<close>

definition sd_idle_byte :: "u32 \<Rightarrow> sd_card \<Rightarrow> sd_card" where
  "sd_idle_byte value s =
     (if chip_select s = 0 \<and> value AND 0xc0 = 0x40
      then s\<lparr>current_state := STATE_RECEIVE_COMMAND, sd_command := (sd_command s)[0 := ucast value],
             command_length := 1\<rparr>
      else s)"

definition sd_receive_byte :: "u32 \<Rightarrow> sd_card \<Rightarrow> random_state \<Rightarrow> (sd_card \<times> random_state) cres" where
  "sd_receive_byte value s rs =
     (if chip_select s \<noteq> 0 then Inr (s, rs)
      else if \<not> unat (command_length s) < length (sd_command s) then Inl Out_of_bounds
      else let s' = s\<lparr>sd_command := (sd_command s)[unat (command_length s) := ucast value],
                      command_length := command_length s + 1\<rparr>
           in if command_length s' = 6
              then bindE (process_command s' rs) (\<lambda>(s'', rs'). Inr (s''\<lparr>command_length := 0\<rparr>, rs'))
              else Inr (s', rs))"

definition sd_wait :: "sd_state \<Rightarrow> sd_card \<Rightarrow> random_state \<Rightarrow> u32 \<times> sd_card \<times> random_state" where
  "sd_wait next s rs =
     (if state_delay s = 0
      then let (d, rs') = random_delay rs in (0, s\<lparr>current_state := next, state_delay := d\<rparr>, rs')
      else (0xff, s\<lparr>state_delay := state_delay s - 1\<rparr>, rs))"

definition sd_read_transfer :: "sd_card \<Rightarrow> (u32 \<times> sd_card) cres" where
  "sd_read_transfer s =
     (let s' = s\<lparr>transfer_count := transfer_count s + 1\<rparr> in
      if transfer_count s < block_length s then
        (if unat (transfer_count s) < length (block_buffer s)
         then Inr (scast (block_buffer s ! unat (transfer_count s)), s')
         else Inl Out_of_bounds)
      else if transfer_count s = block_length s + 1
      then Inr (0xff, s'\<lparr>current_state := STATE_IDLE\<rparr>)
      else Inr (0xff, s'))"

definition sd_write_transfer :: "u32 \<Rightarrow> sd_card \<Rightarrow> sd_card cres" where
  "sd_write_transfer value s =
     (let s' = s\<lparr>transfer_count := transfer_count s + 1\<rparr> in
      if transfer_count s < block_length s then
        (if unat (transfer_count s) < length (block_buffer s)
         then Inr (s'\<lparr>block_buffer := (block_buffer s)
                        [unat (transfer_count s) := ucast (value AND 0xff)]\<rparr>)
         else Inl Out_of_bounds)
      else if transfer_count s = block_length s + 1
      then Inr (s'\<lparr>current_state := STATE_WRITE_DATA_RESPONSE\<rparr>)
      else Inr s')"

definition sd_write_response :: "sd_card \<Rightarrow> sd_card cres" where
  "sd_write_response s =
     (case block_file s of
        None \<Rightarrow> Inl Exit_called
      | Some f \<Rightarrow>
          if length (block_buffer s) < unat (block_length s) then Inl Out_of_bounds
          else Inr (s\<lparr>current_state := STATE_IDLE,
                      block_file := Some (file_write (unat (transfer_address s))
                                     (take (unat (block_length s)) (block_buffer s)) f)\<rparr>))"

definition transfer_sdmmc_byte ::
  "u32 \<Rightarrow> sd_card \<Rightarrow> random_state \<Rightarrow> (u32 \<times> sd_card \<times> random_state) cres" where
  "transfer_sdmmc_byte value s rs = (case current_state s of
     STATE_INIT_WAIT \<Rightarrow>
       let s' = s\<lparr>init_clock_count := init_clock_count s + 8\<rparr> in
       if chip_select s = 0 \<and> init_clock_count s' < 80 then Inl Exit_called
       else Inr (0xff, sd_idle_byte value s', rs)
   | STATE_IDLE \<Rightarrow> Inr (0xff, sd_idle_byte value s, rs)
   | STATE_RECEIVE_COMMAND \<Rightarrow> bindE (sd_receive_byte value s rs) (\<lambda>(s', rs'). Inr (0xff, s', rs'))
   | STATE_SEND_R1 \<Rightarrow> Inr (of_cbool (in_idle_state s), s\<lparr>current_state := STATE_IDLE\<rparr>, rs)
   | STATE_SEND_R3 \<Rightarrow>
       Inr (if transfer_count s = 0 then of_cbool (in_idle_state s) else 0,
            (if transfer_count s = 4 then s\<lparr>current_state := STATE_IDLE\<rparr> else s)
              \<lparr>transfer_count := transfer_count s + 1\<rparr>, rs)
   | STATE_SEND_R7 \<Rightarrow>
       Inr (if transfer_count s = 0 then 1
            else if transfer_count s = 1 \<or> transfer_count s = 2 then 0
            else if transfer_count s = 3 then ucast (voltage s)
            else if transfer_count s = 4 then ucast (check_pattern s) else 0xff,
            (if transfer_count s = 4 then s\<lparr>current_state := STATE_IDLE\<rparr> else s)
              \<lparr>transfer_count := transfer_count s + 1\<rparr>, rs)
   | STATE_READ_CMD_RESPONSE \<Rightarrow> Inr (sd_wait STATE_READ_DATA_TOKEN s rs)
   | STATE_READ_DATA_TOKEN \<Rightarrow>
       Inr (if state_delay s = 0 then (0xfe, s\<lparr>current_state := STATE_READ_TRANSFER\<rparr>, rs)
            else (0xff, s\<lparr>state_delay := state_delay s - 1\<rparr>, rs))
   | STATE_READ_TRANSFER \<Rightarrow> bindE (sd_read_transfer s) (\<lambda>(r, s'). Inr (r, s', rs))
   | STATE_WRITE_CMD_RESPONSE \<Rightarrow> Inr (sd_wait STATE_WRITE_DATA_TOKEN s rs)
   | STATE_WRITE_DATA_TOKEN \<Rightarrow>
       Inr (0xff, if value = 0xfe then s\<lparr>current_state := STATE_WRITE_TRANSFER\<rparr> else s, rs)
   | STATE_WRITE_TRANSFER \<Rightarrow> bindE (sd_write_transfer value s) (\<lambda>s'. Inr (0xff, s', rs))
   | STATE_WRITE_DATA_RESPONSE \<Rightarrow> bindE (sd_write_response s) (\<lambda>s'. Inr (5, s', rs)))"

definition set_sdmmc_cs :: "u32 \<Rightarrow> sd_card \<Rightarrow> sd_card" where
  "set_sdmmc_cs value s = s\<lparr>chip_select := value AND 1\<rparr>"

text \<open>A sequence of transfers, with the bytes the card returns.\<close>

fun sd_run ::
  "u32 list \<Rightarrow> sd_card \<Rightarrow> random_state \<Rightarrow> (u32 list \<times> sd_card \<times> random_state) cres" where
  "sd_run [] s rs = Inr ([], s, rs)"
| "sd_run (v # vs) s rs =
     bindE (transfer_sdmmc_byte v s rs) (\<lambda>(r, s', rs').
       bindE (sd_run vs s' rs') (\<lambda>(out, s'', rs''). Inr (r # out, s'', rs'')))"

text \<open>The byte \<open>i\<close> (0 the least significant) of a block number, as the driver sends it.\<close>

definition arg_byte :: "u32 \<Rightarrow> nat \<Rightarrow> u32" where
  "arg_byte w i = drop_bit (8 * i) w AND 0xff"

definition command_bytes :: "u32 \<Rightarrow> u32 \<Rightarrow> u32 list" where
  "command_bytes cmd arg = [0x40 OR cmd, arg_byte arg 3, arg_byte arg 2, arg_byte arg 1, arg_byte arg 0, 0x95]"

subsection \<open>The card never leaves its buffers\<close>

definition sd_ok :: "sd_card \<Rightarrow> bool" where
  "sd_ok s \<longleftrightarrow> length (sd_command s) = 6 \<and> command_length s < 6
     \<and> length (block_buffer s) = unat (block_length s)"

lemma sd_ok_initial [simp]: "sd_ok initial_sd_card"
  by (simp add: sd_ok_def initial_sd_card_def)

lemma length_fresh_buffer [simp]: "length (fresh_buffer n) = unat n"
  by (simp add: fresh_buffer_def)

lemma sd_ok_open [simp]: "sd_ok s \<Longrightarrow> sd_ok (snd (open_sdmmc_device file s))"
  by (simp add: open_sdmmc_device_def sd_ok_def split: option.split)

lemma sd_ok_set_cs [simp]: "sd_ok (set_sdmmc_cs v s) = sd_ok s"
  by (simp add: set_sdmmc_cs_def sd_ok_def)

lemma process_command_ok:
  assumes "length (sd_command s) = 6" "length (block_buffer s) = unat (block_length s)"
  shows "specE clean_exit (process_command s rs)
    (\<lambda>(s', rs'). length (sd_command s') = 6 \<and> length (block_buffer s') = unat (block_length s'))"
  using assms
  by (auto simp: process_command_def cmd_set_blocklen_def cmd_read_single_block_def
      cmd_write_single_block_def Let_def split: option.splits prod.splits)

lemma sd_receive_byte_ok:
  assumes "sd_ok s"
  shows "specE clean_exit (sd_receive_byte v s rs) (\<lambda>(s', rs'). sd_ok s')"
proof (cases "command_length s + 1 = 6")
  case True
  let ?s = "s\<lparr>sd_command := (sd_command s)[unat (command_length s) := ucast v],
              command_length := command_length s + 1\<rparr>"
  have "specE clean_exit (process_command ?s rs)
    (\<lambda>(s', rs'). length (sd_command s') = 6 \<and> length (block_buffer s') = unat (block_length s'))"
    using assms by (intro process_command_ok) (simp_all add: sd_ok_def)
  then have "specE clean_exit (process_command ?s rs)
    (\<lambda>(s', rs'). sd_ok (s'\<lparr>command_length := 0\<rparr>))"
    by (rule specE_mono) (auto simp: sd_ok_def)
  then show ?thesis
    using assms True by (auto simp: sd_receive_byte_def sd_ok_def word_less_nat_alt split_def)
next
  case False
  then have "command_length s + 1 < 6" if "command_length s < 6"
    using that unat_plus_one [OF that] by (auto simp: word_less_nat_alt word_unat_eq_iff)
  with False assms show ?thesis
    by (auto simp: sd_receive_byte_def sd_ok_def word_less_nat_alt Let_def)
qed

lemma sd_ok_updates [simp]:
  "sd_ok (s\<lparr>current_state := st\<rparr>) = sd_ok s"
  "sd_ok (s\<lparr>transfer_count := n\<rparr>) = sd_ok s"
  "sd_ok (s\<lparr>state_delay := n\<rparr>) = sd_ok s"
  "sd_ok (s\<lparr>init_clock_count := n\<rparr>) = sd_ok s"
  "sd_ok (s\<lparr>block_file := fl\<rparr>) = sd_ok s"
  by (simp_all add: sd_ok_def)

lemma sd_idle_byte_ok [simp]: "sd_ok s \<Longrightarrow> sd_ok (sd_idle_byte v s)"
  by (simp add: sd_idle_byte_def sd_ok_def)

lemma sd_wait_ok [simp]: "sd_ok s \<Longrightarrow> sd_wait next s rs = (r, s', rs') \<Longrightarrow> sd_ok s'"
  by (auto simp: sd_wait_def Let_def split: if_splits prod.splits)

lemma sd_transfers_ok:
  assumes "sd_ok s"
  shows "specE clean_exit (sd_read_transfer s) (\<lambda>(r, s'). sd_ok s')"
    and "specE clean_exit (sd_write_transfer v s) sd_ok"
    and "specE clean_exit (sd_write_response s) sd_ok"
  using assms
  by (auto simp: sd_read_transfer_def sd_write_transfer_def sd_write_response_def sd_ok_def
      word_less_nat_alt Let_def split: option.split)

lemma transfer_sdmmc_byte_ok:
  assumes "sd_ok s"
  shows "specE clean_exit (transfer_sdmmc_byte v s rs) (\<lambda>(r, s', rs'). sd_ok s')"
proof (cases "current_state s")
  case STATE_RECEIVE_COMMAND
  then show ?thesis
    using sd_receive_byte_ok [OF assms, of v rs] by (simp add: transfer_sdmmc_byte_def split_def)
next
  case STATE_READ_CMD_RESPONSE
  then show ?thesis
    using sd_wait_ok [OF assms] by (simp add: transfer_sdmmc_byte_def split: prod.split)
next
  case STATE_WRITE_CMD_RESPONSE
  then show ?thesis
    using sd_wait_ok [OF assms] by (simp add: transfer_sdmmc_byte_def split: prod.split)
qed (use assms sd_transfers_ok [OF assms] in
    \<open>simp_all add: transfer_sdmmc_byte_def Let_def split_def\<close>)

subsection \<open>The read and write protocols\<close>

lemma sd_run_append:
  "sd_run (xs @ ys) s rs = bindE (sd_run xs s rs) (\<lambda>(out1, s1, rs1).
     bindE (sd_run ys s1 rs1) (\<lambda>(out2, s2, rs2). Inr (out1 @ out2, s2, rs2)))"
proof (induction xs arbitrary: s rs)
  case Nil
  then show ?case by (simp add: split_def bindE_def split: sum.split)
next
  case (Cons x xs)
  then show ?case by (auto simp: bindE_assoc split_def bindE_def split: sum.split)
qed

lemma random_delay_bound: "unat (fst (random_delay rs)) < 16"
proof -
  have "unat (ucast (r AND 0xf :: u64) :: u32) < 16" for r
  proof -
    have m: "(0xf :: u64) = mask 4" by (simp add: mask_eq_exp_minus_1)
    have e: "r AND 0xf = take_bit 4 r" unfolding m take_bit_eq_mask ..
    have "unat (take_bit 4 r) < 2 ^ 4"
      unfolding unsigned_take_bit_eq by (rule take_bit_nat_less_exp)
    then show ?thesis unfolding e by (simp add: unsigned_ucast_eq take_bit_nat_eq_self)
  qed
  then show ?thesis by (simp add: random_delay_def split_def Let_def)
qed

lemma read_little_endian_bytes:
  "read_little_endian [ucast (arg_byte w 3), ucast (arg_byte w 2), ucast (arg_byte w 1),
     ucast (arg_byte w 0), c] = w"
proof (rule bit_word_eqI)
  fix n :: nat
  assume n: "n < LENGTH(32)"
  have m: "(0xff :: u32) = mask 8" by (simp add: mask_eq_exp_minus_1)
  consider "n < 8" | "8 \<le> n" "n < 16" | "16 \<le> n" "n < 24" | "24 \<le> n" by linarith
  then show "bit (read_little_endian [ucast (arg_byte w 3), ucast (arg_byte w 2),
      ucast (arg_byte w 1), ucast (arg_byte w 0), c]) n = bit w n"
    by cases (use n in \<open>simp_all add: read_little_endian_def arg_byte_def m bit_simps less_diff_conv2\<close>)
qed

lemma list_update_Cons_numeral: "(x # xs)[numeral v := y] = x # xs[numeral v - 1 := y]"
  by (simp add: numeral_eq_Suc)

lemma replicate_numeral: "replicate (numeral v) x = x # replicate (numeral v - 1) x"
  by (simp add: numeral_eq_Suc)

definition sd_ready :: "sd_card \<Rightarrow> bool" where
  "sd_ready s \<longleftrightarrow> sd_ok s \<and> current_state s = STATE_IDLE \<and> chip_select s = 0
     \<and> \<not> is_app_cmd s \<and> \<not> in_idle_state s"

lemma run_command:
  assumes "sd_ready s" and cmd: "(0x40 OR cmd) AND 0xc0 = 0x40"
  obtains s' where "sd_run (command_bytes cmd arg) s rs =
      bindE (process_command s' rs) (\<lambda>(s'', rs'). Inr (replicate 6 0xff, s''\<lparr>command_length := 0\<rparr>, rs'))"
    and "s' = s\<lparr>current_state := STATE_RECEIVE_COMMAND,
      sd_command := map ucast (command_bytes cmd arg), command_length := 6\<rparr>"
proof -
  have "length (sd_command s) = 6" using assms(1) by (simp add: sd_ready_def sd_ok_def)
  then obtain a b c d e f where c: "sd_command s = [a, b, c, d, e, f]"
    by (auto simp: numeral_eq_Suc length_Suc_conv)
  define s' where "s' = s\<lparr>current_state := STATE_RECEIVE_COMMAND,
    sd_command := map ucast (command_bytes cmd arg), command_length := 6\<rparr>"
  have "sd_run (command_bytes cmd arg) s rs =
      bindE (process_command s' rs) (\<lambda>(s'', rs'). Inr (replicate 6 0xff, s''\<lparr>command_length := 0\<rparr>, rs'))"
    using assms(1) cmd
    by (simp add: command_bytes_def transfer_sdmmc_byte_def sd_idle_byte_def sd_receive_byte_def
        sd_ready_def c s'_def bindE_assoc split_def Let_def list_update_Cons_numeral
        replicate_numeral)
  with s'_def show thesis by (rule that [rotated])
qed

lemma run_wait:
  assumes "current_state s = STATE_READ_CMD_RESPONSE \<and> next = STATE_READ_DATA_TOKEN
      \<or> current_state s = STATE_WRITE_CMD_RESPONSE \<and> next = STATE_WRITE_DATA_TOKEN"
  shows "sd_run (replicate (Suc (unat (state_delay s))) 0xff) s rs =
      Inr (replicate (unat (state_delay s)) 0xff @ [0],
           s\<lparr>current_state := next, state_delay := fst (random_delay rs)\<rparr>, snd (random_delay rs))"
  using assms
proof (induction "unat (state_delay s)" arbitrary: s)
  case 0
  then have "state_delay s = 0" by (simp add: unat_eq_0)
  with 0 show ?case by (auto simp: transfer_sdmmc_byte_def sd_wait_def split_def Let_def)
next
  case (Suc n)
  then have nz: "state_delay s \<noteq> 0" by auto
  then have n: "unat (state_delay s - 1) = n"
    using Suc.hyps(2) by (simp add: unat_minus_one)
  from Suc.hyps(1) [of "s\<lparr>state_delay := state_delay s - 1\<rparr>"] Suc.prems n nz Suc.hyps(2) [symmetric]
  show ?case by (auto simp: transfer_sdmmc_byte_def sd_wait_def)
qed

lemma run_read_token:
  assumes "current_state s = STATE_READ_DATA_TOKEN"
  shows "sd_run (replicate (Suc (unat (state_delay s))) 0xff) s rs =
      Inr (replicate (unat (state_delay s)) 0xff @ [0xfe],
           s\<lparr>current_state := STATE_READ_TRANSFER, state_delay := 0\<rparr>, rs)"
  using assms
proof (induction "unat (state_delay s)" arbitrary: s)
  case 0
  then have "state_delay s = 0" by (simp add: unat_eq_0)
  with 0 show ?case by (simp add: transfer_sdmmc_byte_def)
next
  case (Suc n)
  then have nz: "state_delay s \<noteq> 0" by auto
  then have n: "unat (state_delay s - 1) = n"
    using Suc.hyps(2) by (simp add: unat_minus_one)
  from Suc.hyps(1) [of "s\<lparr>state_delay := state_delay s - 1\<rparr>"] Suc.prems n nz Suc.hyps(2) [symmetric]
  show ?case by (auto simp: transfer_sdmmc_byte_def)
qed

lemma run_read_data:
  assumes "current_state s = STATE_READ_TRANSFER" "length (block_buffer s) = unat (block_length s)"
    "unat (transfer_count s) + n = unat (block_length s)"
  shows "sd_run (replicate n 0xff) s rs =
      Inr (map scast (drop (unat (transfer_count s)) (block_buffer s)),
           s\<lparr>transfer_count := block_length s\<rparr>, rs)"
  using assms
proof (induction n arbitrary: s)
  case 0
  then have "transfer_count s = block_length s" by (simp add: word_unat_eq_iff)
  with 0 show ?case by simp
next
  case (Suc n)
  then have lt: "transfer_count s < block_length s" by (simp add: word_less_nat_alt)
  then have u: "unat (transfer_count s + 1) = Suc (unat (transfer_count s))" by (rule unat_plus_one)
  have "unat (transfer_count s) < length (block_buffer s)" using Suc.prems by simp
  with Suc.IH [of "s\<lparr>transfer_count := transfer_count s + 1\<rparr>"] Suc.prems u lt
  show ?case by (simp add: transfer_sdmmc_byte_def sd_read_transfer_def Cons_nth_drop_Suc [symmetric])
qed

lemma run_read_trailer:
  assumes "current_state s = STATE_READ_TRANSFER" "transfer_count s = block_length s"
    "unat (block_length s) < 0xfffffffe"
  shows "sd_run [0xff, 0xff] s rs =
      Inr ([0xff, 0xff], s\<lparr>transfer_count := block_length s + 2, current_state := STATE_IDLE\<rparr>, rs)"
proof -
  have "\<not> block_length s + 1 < block_length s"
    using assms(3) by (simp add: word_less_nat_alt unat_plus_no_wrap)
  with assms show ?thesis
    by (simp add: transfer_sdmmc_byte_def sd_read_transfer_def)
qed

lemma replicate_phases:
  "replicate (a + 1 + (b + 1) + (c + 2)) x
     = replicate (Suc a) x @ replicate (Suc b) x @ replicate c x @ [x, x]"
proof -
  have "[x, x] = replicate 2 x" by (simp add: numeral_2_eq_2)
  then show ?thesis by (simp add: replicate_add [symmetric] del: replicate.simps)
qed

lemma run_read_block:
  assumes st: "current_state s = STATE_READ_CMD_RESPONSE"
    and buf: "length (block_buffer s) = unat (block_length s)" "unat (block_length s) < 0xfffffffe"
    and cnt: "transfer_count s = 0"
  shows "\<exists>d s' rs'. d < 16 \<and>
     sd_run (replicate (unat (state_delay s) + 1 + (d + 1) + (unat (block_length s) + 2)) 0xff) s rs
       = Inr (replicate (unat (state_delay s)) 0xff @ [0] @ replicate d 0xff @ [0xfe]
              @ map scast (block_buffer s) @ [0xff, 0xff], s', rs')
     \<and> current_state s' = STATE_IDLE \<and> block_file s' = block_file s"
proof -
  define d where "d = fst (random_delay rs)"
  let ?s1 = "s\<lparr>current_state := STATE_READ_DATA_TOKEN, state_delay := d\<rparr>"
  let ?s2 = "?s1\<lparr>current_state := STATE_READ_TRANSFER, state_delay := 0\<rparr>"
  have split: "replicate (unat (state_delay s) + 1 + (unat d + 1) + (unat (block_length s) + 2)) (0xff :: u32)
      = replicate (Suc (unat (state_delay s))) 0xff @ replicate (Suc (unat d)) 0xff
        @ replicate (unat (block_length s)) 0xff @ [0xff, 0xff]"
    by (rule replicate_phases)
  have r1: "sd_run (replicate (Suc (unat (state_delay s))) 0xff) s rs =
      Inr (replicate (unat (state_delay s)) 0xff @ [0], ?s1, snd (random_delay rs))"
    using run_wait [of s STATE_READ_DATA_TOKEN rs] st by (simp add: d_def del: replicate.simps sd_run.simps)
  have r2: "sd_run (replicate (Suc (unat d)) 0xff) ?s1 (snd (random_delay rs)) =
      Inr (replicate (unat d) 0xff @ [0xfe], ?s2, snd (random_delay rs))"
    using run_read_token [of ?s1 "snd (random_delay rs)"] by (simp del: replicate.simps sd_run.simps)
  have r3: "sd_run (replicate (unat (block_length s)) 0xff) ?s2 (snd (random_delay rs)) =
      Inr (map scast (block_buffer s), ?s2\<lparr>transfer_count := block_length s\<rparr>, snd (random_delay rs))"
    using run_read_data [of ?s2 "unat (block_length s)" "snd (random_delay rs)"] buf cnt
    by (simp del: replicate.simps sd_run.simps)
  have r4: "sd_run [0xff, 0xff] (?s2\<lparr>transfer_count := block_length s\<rparr>) (snd (random_delay rs)) =
      Inr ([0xff, 0xff], ?s2\<lparr>transfer_count := block_length s + 2, current_state := STATE_IDLE\<rparr>,
           snd (random_delay rs))"
    using run_read_trailer [of "?s2\<lparr>transfer_count := block_length s\<rparr>" "snd (random_delay rs)"] buf
    by (simp del: sd_run.simps)
  have "unat d < 16" unfolding d_def by (rule random_delay_bound)
  moreover have "sd_run (replicate (unat (state_delay s) + 1 + (unat d + 1) + (unat (block_length s) + 2)) 0xff) s rs
      = Inr (replicate (unat (state_delay s)) 0xff @ [0] @ replicate (unat d) 0xff @ [0xfe]
              @ map scast (block_buffer s) @ [0xff, 0xff],
            ?s2\<lparr>transfer_count := block_length s + 2, current_state := STATE_IDLE\<rparr>, snd (random_delay rs))"
    unfolding split sd_run_append r1 bindE_simps prod.case r2 r3 r4 by simp
  moreover have "current_state (?s2\<lparr>transfer_count := block_length s + 2, current_state := STATE_IDLE\<rparr>) = STATE_IDLE"
    "block_file (?s2\<lparr>transfer_count := block_length s + 2, current_state := STATE_IDLE\<rparr>) = block_file s"
    by simp_all
  ultimately show ?thesis by blast
qed

lemma ucast_and_ff: "ucast (ucast (v :: u8) AND (0xff :: u32)) = v"
proof -
  have m: "(0xff :: u32) = mask 8" by (simp add: mask_eq_exp_minus_1)
  show ?thesis unfolding m by (rule bit_word_eqI) (simp add: bit_simps)
qed

lemma run_write_data:
  assumes "current_state s = STATE_WRITE_TRANSFER" "length (block_buffer s) = unat (block_length s)"
    "unat (transfer_count s) + length vs = unat (block_length s)"
  shows "sd_run (map ucast vs) s rs =
      Inr (replicate (length vs) 0xff,
           s\<lparr>transfer_count := block_length s,
             block_buffer := take (unat (transfer_count s)) (block_buffer s) @ vs\<rparr>, rs)"
  using assms
proof (induction vs arbitrary: s)
  case Nil
  then have "transfer_count s = block_length s" by (simp add: word_unat_eq_iff)
  with Nil show ?case by simp
next
  case (Cons v vs)
  then have lt: "transfer_count s < block_length s" by (simp add: word_less_nat_alt)
  then have u: "unat (transfer_count s + 1) = Suc (unat (transfer_count s))" by (rule unat_plus_one)
  have "unat (transfer_count s) < length (block_buffer s)" using Cons.prems by simp
  with Cons.IH [of "s\<lparr>transfer_count := transfer_count s + 1,
      block_buffer := (block_buffer s)[unat (transfer_count s) := v]\<rparr>"] Cons.prems u lt
  show ?case
    by (simp add: transfer_sdmmc_byte_def sd_write_transfer_def ucast_and_ff take_Suc_conv_app_nth)
qed

lemma run_write_trailer:
  assumes "current_state s = STATE_WRITE_TRANSFER" "transfer_count s = block_length s"
    "length (block_buffer s) = unat (block_length s)" "unat (block_length s) < 0xfffffffe"
    "block_file s = Some f"
  shows "sd_run [0xff, 0xff, 0xff] s rs =
      Inr ([0xff, 0xff, 5],
           s\<lparr>transfer_count := block_length s + 2, current_state := STATE_IDLE,
             block_file := Some (file_write (unat (transfer_address s)) (block_buffer s) f)\<rparr>, rs)"
proof -
  have "\<not> block_length s + 1 < block_length s"
    using assms(4) by (simp add: word_less_nat_alt unat_plus_no_wrap)
  with assms show ?thesis
    by (simp add: transfer_sdmmc_byte_def sd_write_transfer_def sd_write_response_def)
qed

lemma unat_block_offset:
  "unat blk * unat len < 4294967296 \<Longrightarrow> unat (blk * len :: u32) = unat blk * unat len"
  by (simp add: unat_word_ariths)

subsection \<open>Properties\<close>

text \<open>
  C29: no byte sequence can make the card read or write outside its command or block buffer:
  from a state in which the buffers have their sizes, any sequence of transfers either runs to
  the end in such a state or ends the emulator with \<open>exit(1)\<close>.
\<close>

theorem sd_run_safe:
  "sd_ok s \<Longrightarrow> specE clean_exit (sd_run vs s rs) (\<lambda>(out, s', rs'). sd_ok s' \<and> length out = length vs)"
proof (induction vs arbitrary: s rs)
  case Nil
  then show ?case by simp
next
  case (Cons v vs)
  show ?case
    using transfer_sdmmc_byte_ok [OF Cons.prems, of v rs] Cons.IH
    by (auto elim!: specE_mono simp: split_def)
qed

theorem sd_run_safe_witness:
  "sd_ok initial_sd_card \<and>
   specE clean_exit (sd_run [0x40, 0] initial_sd_card (1, 2))
     (\<lambda>(out, s', rs'). sd_ok s' \<and> length out = length [0x40 :: u32, 0])"
  using sd_run_safe [of initial_sd_card "[0x40, 0]" "(1, 2)"] by simp

text \<open>
  a ready card answers the command \<open>CMD_READ_SINGLE_BLOCK\<close> for a block inside the backing
  file with a ready byte after at most 15 busy bytes, the data token after at most 15 more, the
  bytes of that block in order and two checksum bytes, and is idle again with the file unchanged.
\<close>

theorem sd_read_block:
  assumes ready: "sd_ready s" and fl: "block_file s = Some f"
    and len: "unat (block_length s) < 0xfffffffe"
    and inside: "unat blk * unat (block_length s) + unat (block_length s) \<le> length f"
    and small: "unat blk * unat (block_length s) < 4294967296"
  shows "\<exists>d1 d2 s' rs'. d1 < 16 \<and> d2 < 16 \<and>
     sd_run (command_bytes 17 blk
             @ replicate (d1 + 1 + (d2 + 1) + (unat (block_length s) + 2)) 0xff) s rs
     = Inr (replicate 6 0xff @ replicate d1 0xff @ [0] @ replicate d2 0xff @ [0xfe]
            @ map scast (take (unat (block_length s)) (drop (unat blk * unat (block_length s)) f))
            @ [0xff, 0xff], s', rs')
     \<and> current_state s' = STATE_IDLE \<and> block_file s' = Some f"
proof -
  obtain s1 where run: "sd_run (command_bytes 17 blk) s rs = bindE (process_command s1 rs)
        (\<lambda>(s'', rs'). Inr (replicate 6 0xff, s''\<lparr>command_length := 0\<rparr>, rs'))"
    and s1: "s1 = s\<lparr>current_state := STATE_RECEIVE_COMMAND,
      sd_command := map ucast (command_bytes 17 blk), command_length := 6\<rparr>"
    using run_command [OF ready, of 17 blk rs] by auto
  define data where "data = take (unat (block_length s)) (drop (unat blk * unat (block_length s)) f)"
  obtain d rs1 where d: "random_delay rs = (d, rs1)" by (cases "random_delay rs") auto
  let ?s2 = "s1\<lparr>command_length := 0, transfer_address := blk * block_length s, block_buffer := data,
    transfer_count := 0, current_state := STATE_READ_CMD_RESPONSE, state_delay := d\<rparr>"
  have ld: "length data = unat (block_length s)" using inside by (simp add: data_def)
  have mn: "min (length f - unat blk * unat (block_length s)) (unat (block_length s)) = unat (block_length s)"
    using inside by simp
  have cmd: "sd_run (command_bytes 17 blk) s rs = Inr (replicate 6 0xff, ?s2, rs1)"
    using ready fl d ld mn unfolding run
    by (simp add: process_command_def cmd_read_single_block_def s1 sd_ready_def command_bytes_def
        Let_def unat_block_offset [OF small] data_def [symmetric]
        read_little_endian_bytes [of blk, simplified])
  obtain d2 s3 rs2 where blk: "d2 < 16"
    "sd_run (replicate (unat d + 1 + (d2 + 1) + (unat (block_length s) + 2)) 0xff) ?s2 rs1
       = Inr (replicate (unat d) 0xff @ [0] @ replicate d2 0xff @ [0xfe] @ map scast data @ [0xff, 0xff], s3, rs2)"
    "current_state s3 = STATE_IDLE" "block_file s3 = Some f"
    using run_read_block [of ?s2 rs1] ld len fl by (auto simp: s1)
  have "unat d < 16" using random_delay_bound [of rs] d by simp
  moreover have "sd_run (command_bytes 17 blk
      @ replicate (unat d + 1 + (d2 + 1) + (unat (block_length s) + 2)) 0xff) s rs
    = Inr (replicate 6 0xff @ replicate (unat d) 0xff @ [0] @ replicate d2 0xff @ [0xfe]
       @ map scast data @ [0xff, 0xff], s3, rs2)"
    unfolding sd_run_append cmd bindE_simps prod.case blk(2) by simp
  ultimately show ?thesis using blk(1,3,4) unfolding data_def by blast
qed

theorem sd_read_block_witness:
  "sd_ready (initial_sd_card\<lparr>current_state := STATE_IDLE, block_length := 2, block_buffer := [0, 0],
     block_file := Some [1, 2, 3, 0xf4]\<rparr>) \<and>
   (\<exists>d1 d2 s' rs'. d1 < 16 \<and> d2 < 16 \<and>
     sd_run (command_bytes 17 1 @ replicate (d1 + 1 + (d2 + 1) + (2 + 2)) 0xff)
       (initial_sd_card\<lparr>current_state := STATE_IDLE, block_length := 2, block_buffer := [0, 0],
         block_file := Some [1, 2, 3, 0xf4]\<rparr>) (1, 2)
     = Inr (replicate 6 0xff @ replicate d1 0xff @ [0] @ replicate d2 0xff @ [0xfe]
            @ [3, - 12] @ [0xff, 0xff], s', rs')
     \<and> current_state s' = STATE_IDLE \<and> block_file s' = Some [1, 2, 3, 0xf4])"
proof -
  define s where "s = initial_sd_card\<lparr>current_state := STATE_IDLE, block_length := 2,
    block_buffer := [0, 0], block_file := Some [1, 2, 3, 0xf4]\<rparr>"
  have r: "sd_ready s" "block_file s = Some [1, 2, 3, 0xf4]" "block_length s = 2"
    by (simp_all add: s_def sd_ready_def sd_ok_def initial_sd_card_def)
  then show ?thesis
    using sd_read_block [OF r(1,2), of 1 "(1, 2)"]
    by (simp add: s_def [symmetric] del: sd_run.simps replicate.simps)
qed

text \<open>
  a ready card that receives \<open>CMD_WRITE_SINGLE_BLOCK\<close>, the data token and a block of data
  accepts the data and stores exactly these bytes at the block's offset in the backing file.
\<close>

theorem sd_write_block:
  assumes ready: "sd_ready s" and fl: "block_file s = Some f"
    and len: "unat (block_length s) < 0xfffffffe" "length data = unat (block_length s)"
    and small: "unat blk * unat (block_length s) < 4294967296"
  shows "\<exists>d out s' rs'. d < 16 \<and>
     sd_run (command_bytes 24 blk @ replicate (Suc d) 0xff @ [0xfe] @ map ucast data
             @ [0xff, 0xff, 0xff]) s rs = Inr (out @ [5], s', rs')
     \<and> current_state s' = STATE_IDLE
     \<and> block_file s' = Some (file_write (unat blk * unat (block_length s)) data f)"
proof -
  obtain s1 where run: "sd_run (command_bytes 24 blk) s rs = bindE (process_command s1 rs)
        (\<lambda>(s'', rs'). Inr (replicate 6 0xff, s''\<lparr>command_length := 0\<rparr>, rs'))"
    and s1: "s1 = s\<lparr>current_state := STATE_RECEIVE_COMMAND,
      sd_command := map ucast (command_bytes 24 blk), command_length := 6\<rparr>"
    using run_command [OF ready, of 24 blk rs] by auto
  obtain d rs1 where d: "random_delay rs = (d, rs1)" by (cases "random_delay rs") auto
  define s2 where "s2 = s1\<lparr>command_length := 0, transfer_address := blk * block_length s,
    transfer_count := 0, current_state := STATE_WRITE_CMD_RESPONSE, state_delay := d\<rparr>"
  have cmd: "sd_run (command_bytes 24 blk) s rs = Inr (replicate 6 0xff, s2, rs1)"
    using ready fl d unfolding run s2_def
    by (simp add: process_command_def cmd_write_single_block_def s1 sd_ready_def command_bytes_def
        Let_def read_little_endian_bytes [of blk, simplified])
  define s3 where "s3 = s2\<lparr>current_state := STATE_WRITE_DATA_TOKEN, state_delay := fst (random_delay rs1)\<rparr>"
  have "current_state s2 = STATE_WRITE_CMD_RESPONSE" "state_delay s2 = d" by (simp_all add: s2_def)
  then have wait: "sd_run (replicate (Suc (unat d)) 0xff) s2 rs1
      = Inr (replicate (unat d) 0xff @ [0], s3, snd (random_delay rs1))"
    using run_wait [of s2 STATE_WRITE_DATA_TOKEN rs1] by (simp add: s3_def del: replicate.simps sd_run.simps)
  define s4 where "s4 = s3\<lparr>current_state := STATE_WRITE_TRANSFER\<rparr>"
  have token: "sd_run [0xfe] s3 rs' = Inr ([0xff], s4, rs')" for rs'
    by (simp add: transfer_sdmmc_byte_def s3_def s4_def)
  have s4: "current_state s4 = STATE_WRITE_TRANSFER" "transfer_count s4 = 0"
    "block_length s4 = block_length s" "length (block_buffer s4) = unat (block_length s)"
    "block_file s4 = Some f" "transfer_address s4 = blk * block_length s"
    using ready fl by (simp_all add: s4_def s3_def s2_def s1 sd_ready_def sd_ok_def)
  define s5 where "s5 = s4\<lparr>transfer_count := block_length s, block_buffer := data\<rparr>"
  have body: "sd_run (map ucast data) s4 rs' = Inr (replicate (length data) 0xff, s5, rs')" for rs'
    using run_write_data [of s4 data rs'] s4 len by (simp add: s5_def)
  have "unat d < 16" using random_delay_bound [of rs] d by simp
  moreover have "\<exists>s' out rs'. sd_run (command_bytes 24 blk @ replicate (Suc (unat d)) 0xff @ [0xfe] @ map ucast data
             @ [0xff, 0xff, 0xff]) s rs = Inr (out @ [5], s', rs')
     \<and> current_state s' = STATE_IDLE
     \<and> block_file s' = Some (file_write (unat blk * unat (block_length s)) data f)"
    unfolding sd_run_append cmd wait token body bindE_simps prod.case
    using run_write_trailer [of s5 f] s4 len
    by (simp add: s5_def unat_block_offset [OF small] del: sd_run.simps replicate.simps append_assoc)
  ultimately show ?thesis by blast
qed

theorem sd_write_block_witness:
  "sd_ready (initial_sd_card\<lparr>current_state := STATE_IDLE, block_length := 2, block_buffer := [0, 0],
     block_file := Some [1, 2, 3, 4]\<rparr>) \<and>
   (\<exists>d out s' rs'. d < 16 \<and>
     sd_run (command_bytes 24 1 @ replicate (Suc d) 0xff @ [0xfe] @ map ucast [8 :: u8, 9]
             @ [0xff, 0xff, 0xff])
       (initial_sd_card\<lparr>current_state := STATE_IDLE, block_length := 2, block_buffer := [0, 0],
         block_file := Some [1, 2, 3, 4]\<rparr>) (1, 2) = Inr (out @ [5], s', rs')
     \<and> current_state s' = STATE_IDLE \<and> block_file s' = Some (file_write 2 [8, 9] [1, 2, 3, 4]))"
proof -
  define s where "s = initial_sd_card\<lparr>current_state := STATE_IDLE, block_length := 2,
    block_buffer := [0, 0], block_file := Some [1, 2, 3, 4]\<rparr>"
  have r: "sd_ready s" "block_file s = Some [1, 2, 3, 4]" "block_length s = 2"
    by (simp_all add: s_def sd_ready_def sd_ok_def initial_sd_card_def)
  then show ?thesis
    using sd_write_block [OF r(1,2), of "[8, 9]" 1 "(1, 2)"]
    by (simp add: s_def [symmetric] del: sd_run.simps replicate.simps)
qed

end
