(* ===== verification/Emu_Float.thy ===== *)
theory Emu_Float
  imports Emu_Util
begin

text \<open>
  Single-precision arithmetic of the host, as the emulator uses it on register values: the
  reinterpretations \<open>value_as_float\<close> and \<open>value_as_int\<close> of \<open>tools/emulator/util.h\<close> and the
  C operators on \<open>float\<close> (IEEE 754 binary32, rounding to nearest even). A value is its bit
  pattern. Every finite value is an integral multiple of the smallest subnormal, so sums,
  products and quotients are computed exactly on naturals in that unit and rounded once.
\<close>

subsection \<open>Representation\<close>

definition f_sign :: "u32 \<Rightarrow> bool" where "f_sign w = bit w 31"

definition f_low :: "u32 \<Rightarrow> nat" where "f_low w = unat w mod 2 ^ 31"

definition f_exp :: "u32 \<Rightarrow> nat" where "f_exp w = f_low w div 2 ^ 23"

definition f_frac :: "u32 \<Rightarrow> nat" where "f_frac w = f_low w mod 2 ^ 23"

definition f_isnan :: "u32 \<Rightarrow> bool" where "f_isnan w \<longleftrightarrow> f_low w > 0x7f800000"

definition f_isinf :: "u32 \<Rightarrow> bool" where "f_isinf w \<longleftrightarrow> f_low w = 0x7f800000"

text \<open>The magnitude of a finite value, as a multiple of the smallest subnormal.\<close>

definition f_mag :: "u32 \<Rightarrow> nat" where
  "f_mag w = (if f_exp w = 0 then f_frac w else (2 ^ 23 + f_frac w) * 2 ^ (f_exp w - 1))"

definition f_int :: "u32 \<Rightarrow> int" where
  "f_int w = (if f_sign w then - int (f_mag w) else int (f_mag w))"

subsection \<open>Rounding\<close>

fun bitlen :: "nat \<Rightarrow> nat" where
  "bitlen n = (if n = 0 then 0 else Suc (bitlen (n div 2)))"

declare bitlen.simps [simp del]

text \<open>The integer nearest to \<open>n / d\<close>, ties to even.\<close>

definition round_even :: "nat \<Rightarrow> nat \<Rightarrow> nat" where
  "round_even n d =
     (let q = n div d; r = n mod d in
      if 2 * r < d then q else if 2 * r > d then q + 1 else q + q mod 2)"

text \<open>
  The pattern (without sign) nearest to \<open>n / d\<close> units. With \<open>k\<close> the number of low bits that do
  not fit in the 24-bit significand \<open>r\<close>, the pattern is \<open>k * 2 ^ 23 + r\<close>: a carry out of the
  significand moves into the exponent field, and an exponent past the largest is infinity.
\<close>

definition f_pack :: "nat \<Rightarrow> nat \<Rightarrow> nat" where
  "f_pack n d =
     (let k = bitlen (n div d) - 24; b = k * 2 ^ 23 + round_even n (d * 2 ^ k)
      in min b 0x7f800000)"

definition f_make :: "bool \<Rightarrow> nat \<Rightarrow> u32" where
  "f_make s b = of_nat ((if s then 2 ^ 31 else 0) + b)"

text \<open>\<open>value_as_int\<close> gives every NaN the same pattern.\<close>

definition f_nan :: u32 where "f_nan = 0x7fffffff"

subsection \<open>Operators\<close>

definition f_neg :: "u32 \<Rightarrow> u32" where "f_neg a = a XOR 0x80000000"

definition f_add :: "u32 \<Rightarrow> u32 \<Rightarrow> u32" where
  "f_add a b =
     (if f_isnan a \<or> f_isnan b then f_nan
      else if f_isinf a then (if f_isinf b \<and> f_sign a \<noteq> f_sign b then f_nan else a)
      else if f_isinf b then b
      else let s = f_int a + f_int b in
        if s = 0 then f_make (f_sign a \<and> f_sign b) 0
        else f_make (s < 0) (f_pack (nat \<bar>s\<bar>) 1))"

definition f_sub :: "u32 \<Rightarrow> u32 \<Rightarrow> u32" where
  "f_sub a b = (if f_isnan b then f_nan else f_add a (f_neg b))"

definition f_mul :: "u32 \<Rightarrow> u32 \<Rightarrow> u32" where
  "f_mul a b =
     (let s = (f_sign a \<noteq> f_sign b) in
      if f_isnan a \<or> f_isnan b then f_nan
      else if f_isinf a then (if f_mag b = 0 then f_nan else f_make s 0x7f800000)
      else if f_isinf b then (if f_mag a = 0 then f_nan else f_make s 0x7f800000)
      else f_make s (f_pack (f_mag a * f_mag b) (2 ^ 149)))"

text \<open>\<open>1.0f / a\<close>\<close>

definition f_recip :: "u32 \<Rightarrow> u32" where
  "f_recip a =
     (if f_isnan a then f_nan
      else if f_isinf a then f_make (f_sign a) 0
      else if f_mag a = 0 then f_make (f_sign a) 0x7f800000
      else f_make (f_sign a) (f_pack (2 ^ 298) (f_mag a)))"

definition f_of_int32 :: "u32 \<Rightarrow> u32" where
  "f_of_int32 v = f_make (sint v < 0) (f_pack (nat \<bar>sint v\<bar> * 2 ^ 149) 1)"

text \<open>
  \<open>(int32_t) f\<close> truncates. C leaves the conversion of NaN and of values outside the range of
  \<open>int32_t\<close> undefined; x86 hosts return the integer indefinite value.
\<close>

definition f_to_int32 :: "u32 \<Rightarrow> u32" where
  "f_to_int32 a =
     (if f_isnan a \<or> f_isinf a then 0x80000000
      else let m = f_mag a div 2 ^ 149 in
        if f_sign a then (if m \<le> 2 ^ 31 then - of_nat m else 0x80000000)
        else (if m < 2 ^ 31 then of_nat m else 0x80000000))"

text \<open>Patterns other than NaN are ordered as sign and magnitude; the two zeros are equal.\<close>

definition f_key :: "u32 \<Rightarrow> int" where
  "f_key w = (if f_sign w then - int (f_low w) else int (f_low w))"

definition f_lt :: "u32 \<Rightarrow> u32 \<Rightarrow> bool" where
  "f_lt a b \<longleftrightarrow> \<not> f_isnan a \<and> \<not> f_isnan b \<and> f_key a < f_key b"

definition f_le :: "u32 \<Rightarrow> u32 \<Rightarrow> bool" where
  "f_le a b \<longleftrightarrow> \<not> f_isnan a \<and> \<not> f_isnan b \<and> f_key a \<le> f_key b"

definition f_eq :: "u32 \<Rightarrow> u32 \<Rightarrow> bool" where
  "f_eq a b \<longleftrightarrow> \<not> f_isnan a \<and> \<not> f_isnan b \<and> f_key a = f_key b"

subsection \<open>Rounding is exact on representable values\<close>

lemma bitlen_bounds: "0 < n \<Longrightarrow> 2 ^ (bitlen n - 1) \<le> n \<and> n < 2 ^ bitlen n \<and> 0 < bitlen n"
proof (induction n rule: bitlen.induct)
  case (1 n)
  show ?case
  proof (cases "n = 1")
    case True
    then show ?thesis by (simp add: bitlen.simps [of "Suc 0"] bitlen.simps [of 0])
  next
    case False
    with 1 have IH: "2 ^ (bitlen (n div 2) - 1) \<le> n div 2 \<and> n div 2 < 2 ^ bitlen (n div 2)
        \<and> 0 < bitlen (n div 2)" by auto
    obtain k where k: "bitlen (n div 2) = Suc k" using IH by (cases "bitlen (n div 2)") auto
    with IH have "2 ^ k \<le> n div 2" "n div 2 < 2 * 2 ^ k" by simp_all
    then have "2 * 2 ^ k \<le> n" "n < 4 * 2 ^ k" by linarith+
    then show ?thesis using 1 k by (simp add: bitlen.simps [of n])
  qed
qed

lemma bitlen_unique:
  assumes "2 ^ k \<le> n" "n < 2 ^ Suc k"
  shows "bitlen n = Suc k"
proof -
  have pos: "0 < n" using assms(1) by (metis gr0I not_le zero_less_numeral zero_less_power)
  note b = bitlen_bounds [OF pos]
  then have "(2::nat) ^ (bitlen n - 1) < 2 ^ Suc k" "(2::nat) ^ k < 2 ^ bitlen n"
    using assms by linarith+
  then have "bitlen n - 1 < Suc k" "k < bitlen n"
    by (simp_all only: power_strict_increasing_iff one_less_numeral_iff semiring_norm)
  then show ?thesis by linarith
qed

lemma bitlen_le: "n < 2 ^ k \<Longrightarrow> bitlen n \<le> k"
proof (cases "n = 0")
  case False
  assume "n < 2 ^ k"
  with bitlen_bounds [of n] False have "(2::nat) ^ (bitlen n - 1) < 2 ^ k" by linarith
  then have "bitlen n - 1 < k" by simp
  then show ?thesis by linarith
qed (simp add: bitlen.simps)

lemma round_even_exact: "0 < d \<Longrightarrow> round_even (q * d) d = q"
  by (simp add: round_even_def)

lemma f_pack_mag:
  assumes "\<not> f_isnan w" "\<not> f_isinf w"
  shows "f_pack (f_mag w) 1 = f_low w"
proof -
  have fin: "f_low w < 0x7f800000" using assms by (simp add: f_isnan_def f_isinf_def)
  have split: "f_low w = f_exp w * 2 ^ 23 + f_frac w"
    unfolding f_exp_def f_frac_def by (rule div_mult_mod_eq [symmetric])
  have frac: "f_frac w < 2 ^ 23" by (simp add: f_frac_def)
  show ?thesis
  proof (cases "f_exp w")
    case 0
    then have "bitlen (f_mag w) - 24 = 0"
      using frac bitlen_le [of "f_mag w" 24] by (simp add: f_mag_def)
    then show ?thesis
      using 0 split fin round_even_exact [of 1 "f_mag w"]
      by (simp add: f_pack_def f_mag_def)
  next
    case (Suc e)
    let ?s = "2 ^ 23 + f_frac w"
    have mag: "f_mag w = ?s * 2 ^ e" using Suc by (simp add: f_mag_def)
    have "?s * 2 ^ e < 2 ^ 24 * 2 ^ e" using frac by (intro mult_strict_right_mono) simp_all
    then have "2 ^ (23 + e) \<le> f_mag w" "f_mag w < 2 ^ Suc (23 + e)"
      by (simp_all add: mag power_add)
    then have "bitlen (f_mag w) = 24 + e" using bitlen_unique [of "23 + e" "f_mag w"] by simp
    then have "f_pack (f_mag w) 1 = min (e * 2 ^ 23 + ?s) 0x7f800000"
      unfolding f_pack_def Let_def mag by (simp add: round_even_exact)
    moreover have "e * 2 ^ 23 + ?s = f_low w" using split Suc by simp
    ultimately show ?thesis using fin by simp
  qed
qed

lemma unat_sign_low: "unat w = (if f_sign w then 2 ^ 31 else 0) + f_low w"
proof -
  have "bit w 31 = bit (unat w) 31" by (simp add: bit_unsigned_iff)
  then have "f_sign w = odd (unat w div 2 ^ 31)" by (simp add: f_sign_def bit_iff_odd)
  moreover have "unat w div 2 ^ 31 < 2" using unat_u32_bound [of w] by simp
  ultimately have "unat w div 2 ^ 31 = (if f_sign w then 1 else 0)"
    by (cases "unat w div 2 ^ 31") (auto simp: less_Suc_eq)
  then show ?thesis
    using div_mult_mod_eq [of "unat w" "2 ^ 31"] by (auto simp: f_low_def split: if_splits)
qed

lemma f_make_sign_low: "f_make (f_sign w) (f_low w) = w"
  using unat_sign_low [of w] by (metis f_make_def of_nat_unat ucast_id)

lemma f_mag_zero_iff: "\<not> f_isnan w \<Longrightarrow> f_mag w = 0 \<longleftrightarrow> f_low w = 0"
  using div_mult_mod_eq [of "f_low w" "2 ^ 23"]
  by (auto simp: f_mag_def f_exp_def f_frac_def)

subsection \<open>Algebraic facts\<close>

lemma f_eqI:
  assumes "f_sign a = f_sign b" "f_low a = f_low b"
  shows "a = b"
proof -
  have "f_make (f_sign a) (f_low a) = f_make (f_sign b) (f_low b)" using assms by simp
  then show ?thesis by (simp only: f_make_sign_low)
qed

lemma f_add_commute: "f_add a b = f_add b a"
proof (cases "f_isinf a \<and> f_isinf b \<and> f_sign a = f_sign b")
  case True
  then have "a = b" by (intro f_eqI) (simp_all add: f_isinf_def)
  then show ?thesis by simp
next
  case False
  then show ?thesis by (auto simp: f_add_def Let_def add.commute [of "f_int a"]
        conj_commute [of "f_sign a"])
qed

lemma f_isinf_mag: "f_isinf a \<Longrightarrow> 0 < f_mag a"
  by (simp add: f_isinf_def f_mag_def f_exp_def f_frac_def)

lemma f_mul_commute: "f_mul a b = f_mul b a"
proof -
  have "(f_sign a \<noteq> f_sign b) = (f_sign b \<noteq> f_sign a)" by blast
  then show ?thesis
    using f_isinf_mag [of a] f_isinf_mag [of b]
    by (auto simp: f_mul_def Let_def mult.commute [of "f_mag a"])
qed

text \<open>Adding zero and multiplying by one return the operand unchanged, subnormals included.\<close>

lemma f_low_literals: "f_low 0 = 0" "f_low 0x3f800000 = 0x3f800000" "\<not> f_sign 0" "\<not> f_sign 0x3f800000"
  by (simp_all add: f_low_def f_sign_def)

lemma f_add_zero:
  assumes "\<not> f_isnan a" "f_low a \<noteq> 0"
  shows "f_add a 0 = a"
proof (cases "f_isinf a")
  case True
  with assms show ?thesis by (simp add: f_add_def f_isinf_def f_isnan_def f_low_literals)
next
  case False
  have z: "f_int 0 = 0" by (simp add: f_int_def f_mag_def f_exp_def f_frac_def f_low_literals)
  have nz: "f_mag a \<noteq> 0" using assms by (simp add: f_mag_zero_iff)
  then have "f_int a \<noteq> 0" "f_int a < 0 \<longleftrightarrow> f_sign a" "nat \<bar>f_int a\<bar> = f_mag a"
    by (simp_all add: f_int_def)
  then show ?thesis
    using assms False z
    by (simp add: f_add_def f_isnan_def f_isinf_def f_low_literals f_pack_mag [OF assms(1) False, simplified]
        f_make_sign_low)
qed

lemma round_even_scale: "0 < c \<Longrightarrow> round_even (n * c) (d * c) = round_even n d"
proof -
  assume c: "0 < c"
  have "2 * (n mod d * c) < d * c \<longleftrightarrow> 2 * (n mod d) < d" "d * c < 2 * (n mod d * c) \<longleftrightarrow> d < 2 * (n mod d)"
    using c mult_less_cancel2 [of "2 * (n mod d)" c d] mult_less_cancel2 [of d c "2 * (n mod d)"]
    by (simp_all add: mult.assoc)
  then show ?thesis using c by (simp add: round_even_def Let_def flip: mult_mod_left)
qed

lemma f_pack_scale: "0 < c \<Longrightarrow> f_pack (n * c) (d * c) = f_pack n d"
  using round_even_scale [of c n "d * 2 ^ k" for k]
  by (simp add: f_pack_def mult.assoc mult.commute [of c])

lemma f_mul_one:
  assumes "\<not> f_isnan a"
  shows "f_mul a 0x3f800000 = a"
proof -
  have one: "f_mag 0x3f800000 = 2 ^ 149"
    by (simp add: f_mag_def f_exp_def f_frac_def f_low_literals)
  have cl: "\<not> f_isnan 0x3f800000" "\<not> f_isinf 0x3f800000"
    by (simp_all add: f_isnan_def f_isinf_def f_low_literals)
  show ?thesis
  proof (cases "f_isinf a")
    case True
    then have "f_low a = 0x7f800000" by (simp add: f_isinf_def)
    then show ?thesis using True assms one cl f_make_sign_low [of a]
      by (simp add: f_mul_def Let_def f_low_literals)
  next
    case False
    have "f_pack (f_mag a * 2 ^ 149) (2 ^ 149) = f_low a"
      using f_pack_scale [of "2 ^ 149" "f_mag a" 1] f_pack_mag [OF assms False] by simp
    then show ?thesis using assms False one cl f_make_sign_low [of a]
      by (simp add: f_mul_def Let_def f_low_literals)
  qed
qed

lemma f_nan_absorbs:
  "f_isnan a \<or> f_isnan b \<Longrightarrow> f_add a b = f_nan \<and> f_sub a b = f_nan \<and> f_mul a b = f_nan"
  by (auto simp: f_add_def f_sub_def f_mul_def)

end
