(* ===== verification/Emu_State.thy ===== *)
theory Emu_State
  imports Emu_Cosim Emu_Sdmmc Emu_Float
begin

text \<open>
  The data of \<open>tools/emulator/processor.c\<close> and \<open>device.c\<close>. A \<open>struct thread *\<close> is a pair of a
  core number and a thread number inside that core. Arrays are functions on naturals: an index
  that the program has not limited itself is compared with the array's length where it is used,
  and an index outside is the fault \<open>Out_of_bounds\<close>. Fields of struct type that are only counted
  or compared inside small ranges (numbers of cores and threads, TLB ways, ring buffer indices)
  are naturals. Trace and error messages and the optional instruction statistics are left out.
\<close>

subsection \<open>Data\<close>

record trap_state =
  ts_trap_cause :: u32
  ts_pc :: u32
  ts_access_address :: u32
  ts_scratchpad0 :: u32
  ts_scratchpad1 :: u32
  ts_subcycle :: u32
  ts_syscall_index :: u32
  ts_enable_interrupt :: bool
  ts_enable_mmu :: bool
  ts_enable_supervisor :: bool

record thread =
  tid :: u32
  last_sync_load_addr :: u32
  pc :: u32
  asid :: u32
  page_dir :: u32
  interrupt_mask :: u32
  latched_interrupts :: u32
  enable_interrupt :: bool
  enable_mmu :: bool
  enable_supervisor :: bool
  subcycle :: u32
  scalar_reg :: "nat \<Rightarrow> u32"
  vector_reg :: "nat \<Rightarrow> nat \<Rightarrow> u32"
  saved_trap_state0 :: trap_state
  saved_trap_state1 :: trap_state

record tlb_entry =
  tlb_asid :: u32
  virtual_address :: u32
  phys_addr_and_flags :: u32

record core =
  threads :: "nat \<Rightarrow> thread"
  trap_handler_pc :: u32
  tlb_miss_handler_pc :: u32
  phys_tlb_update_addr :: u32
  is_level_triggered :: u32
  itlb :: "nat \<Rightarrow> tlb_entry"
  next_itlb_way :: nat
  dtlb :: "nat \<Rightarrow> tlb_entry"
  next_dtlb_way :: nat

record breakpoint =
  bp_address :: u32
  original_instruction :: u32
  restart :: bool

record processor =
  total_threads :: nat
  thread_enable_mask :: u32
  num_cores :: nat
  threads_per_core :: nat
  cores :: "nat \<Rightarrow> core"
  breakpoints :: "breakpoint list"
  memory :: mem
  memory_size :: u32
  interrupt_levels :: u32
  random_thread_sched :: bool
  crashed :: bool
  single_stepping :: bool
  stop_on_fault :: bool
  enable_tracing :: bool
  enable_cosim :: bool
  current_timer_count :: u32
  total_instructions :: u64

text \<open>
  The static variables of \<open>device.c\<close>, with the two setters of \<open>fbwindow.c\<close> that device
  registers reach, the bytes written to standard output, and the bytes written to the host
  interrupt pipe (\<open>None\<close> when no pipe is open).
\<close>

record device_state =
  key_buf :: "nat \<Rightarrow> u32"
  key_buf_head :: nat
  key_buf_tail :: nat
  serial_read_buf :: "nat \<Rightarrow> u8"
  serial_read_buf_head :: nat
  serial_read_buf_tail :: nat
  last_sdmmc_response :: u32
  sdmmc :: sd_card
  serial_out :: "u8 list"
  fb_enabled :: bool
  fb_address :: u32
  host_interrupts :: "u8 list option"

record machine = processor +
  cosim :: cosim_state
  dev :: device_state
  rng :: random_state

abbreviation (input) TLB_SETS :: nat where "TLB_SETS \<equiv> 16"
abbreviation (input) TLB_WAYS :: nat where "TLB_WAYS \<equiv> 4"
abbreviation (input) NUM_REGISTERS :: nat where "NUM_REGISTERS \<equiv> 32"
abbreviation (input) PAGE_SIZE :: u32 where "PAGE_SIZE \<equiv> 0x1000"
abbreviation (input) INVALID_ADDR :: u32 where "INVALID_ADDR \<equiv> 0xffffffff"
abbreviation (input) BREAKPOINT_INST :: u32 where "BREAKPOINT_INST \<equiv> 0x707fffff"
abbreviation (input) DEVICE_BASE_ADDRESS :: u32 where "DEVICE_BASE_ADDRESS \<equiv> 0xffff0000"

definition ROUND_TO_PAGE :: "u32 \<Rightarrow> u32" where
  "ROUND_TO_PAGE addr = addr AND NOT (PAGE_SIZE - 1)"

definition PAGE_OFFSET :: "u32 \<Rightarrow> u32" where
  "PAGE_OFFSET addr = addr AND (PAGE_SIZE - 1)"

subsection \<open>Access through a thread pointer\<close>

definition thr :: "machine \<Rightarrow> nat \<Rightarrow> nat \<Rightarrow> thread" where
  "thr s c t = threads (cores s c) t"

definition upd_core :: "nat \<Rightarrow> (core \<Rightarrow> core) \<Rightarrow> machine \<Rightarrow> machine" where
  "upd_core c f s = s\<lparr>cores := (cores s)(c := f (cores s c))\<rparr>"

definition upd_thr :: "nat \<Rightarrow> nat \<Rightarrow> (thread \<Rightarrow> thread) \<Rightarrow> machine \<Rightarrow> machine" where
  "upd_thr c t f s =
     upd_core c (\<lambda>co. co\<lparr>threads := (threads co)(t := f (threads co t))\<rparr>) s"

text \<open>\<open>get_thread\<close>: a thread number outside the processor gives a pointer outside \<open>cores\<close>.\<close>

definition get_thread :: "machine \<Rightarrow> nat \<Rightarrow> (nat \<times> nat) cres" where
  "get_thread s thread_id =
     (if threads_per_core s \<noteq> 0 \<and> thread_id div threads_per_core s < num_cores s
      then Inr (thread_id div threads_per_core s, thread_id mod threads_per_core s)
      else Inl Out_of_bounds)"

subsection \<open>Creating a processor\<close>

definition zero_trap_state :: trap_state where
  "zero_trap_state = \<lparr>ts_trap_cause = 0, ts_pc = 0, ts_access_address = 0, ts_scratchpad0 = 0,
     ts_scratchpad1 = 0, ts_subcycle = 0, ts_syscall_index = 0, ts_enable_interrupt = False,
     ts_enable_mmu = False, ts_enable_supervisor = False\<rparr>"

definition init_thread :: "u32 \<Rightarrow> thread" where
  "init_thread thread_id = \<lparr>tid = thread_id, last_sync_load_addr = INVALID_ADDR, pc = 0, asid = 0,
     page_dir = 0, interrupt_mask = 0, latched_interrupts = 0, enable_interrupt = False,
     enable_mmu = False, enable_supervisor = True, subcycle = 0, scalar_reg = (\<lambda>_. 0),
     vector_reg = (\<lambda>_ _. 0),
     saved_trap_state0 = zero_trap_state\<lparr>ts_enable_supervisor := True\<rparr>,
     saved_trap_state1 = zero_trap_state\<rparr>"

text \<open>The TLB arrays come from \<open>malloc\<close>; only their virtual addresses are initialised.\<close>

definition init_core :: "(nat \<Rightarrow> tlb_entry) \<Rightarrow> u32 \<Rightarrow> nat \<Rightarrow> core" where
  "init_core tlb_junk threads_per_core' core_id =
     \<lparr>threads = (\<lambda>t. init_thread (of_nat core_id * threads_per_core' + of_nat t)),
      trap_handler_pc = 0, tlb_miss_handler_pc = 0, phys_tlb_update_addr = 0,
      is_level_triggered = 0,
      itlb = (\<lambda>i. (tlb_junk i)\<lparr>virtual_address := INVALID_ADDR\<rparr>), next_itlb_way = 0,
      dtlb = (\<lambda>i. (tlb_junk i)\<lparr>virtual_address := INVALID_ADDR\<rparr>), next_dtlb_way = 0\<rparr>"

primrec fill_random :: "nat \<Rightarrow> mem \<Rightarrow> random_state \<Rightarrow> mem \<times> random_state" where
  "fill_random 0 m rs = (m, rs)"
| "fill_random (Suc n) m rs =
     (let (m', rs') = fill_random n m rs; (r, rs'') = next_random rs'
      in (put32 (4 * n) (ucast r) m', rs''))"

text \<open>
  \<open>backing\<close> is the block that \<open>mmap\<close> (with \<open>shared\<close>) or \<open>malloc\<close> returned, \<open>None\<close> when
  that or the opening of the shared file failed; the result is then the null pointer.
\<close>

definition init_processor ::
  "u32 \<Rightarrow> u32 \<Rightarrow> u32 \<Rightarrow> bool \<Rightarrow> bool \<Rightarrow> mem option \<Rightarrow> (nat \<Rightarrow> tlb_entry) \<Rightarrow>
   cosim_state \<Rightarrow> device_state \<Rightarrow> random_state \<Rightarrow> machine option cres" where
  "init_processor memory_size' num_cores' threads_per_core' randomize_memory shared backing tlb_junk
     cosim' dev' rs =
   (if \<not> num_cores' * threads_per_core' \<le> 32 then Inl Assert_failed
    else case backing of None \<Rightarrow> Inr None
    | Some m \<Rightarrow>
       let (m', rs') = (if shared then (m, rs)
              else if randomize_memory then fill_random (unat memory_size' div 4) m rs
              else ((\<lambda>a. if a < unat memory_size' then 0 else m a), rs))
       in Inr (Some \<lparr>total_threads = unat (threads_per_core' * num_cores'), thread_enable_mask = 1,
            num_cores = unat num_cores', threads_per_core = unat threads_per_core',
            cores = init_core tlb_junk threads_per_core', breakpoints = [], memory = m',
            memory_size = memory_size', interrupt_levels = 0, random_thread_sched = False,
            crashed = False, single_stepping = False, stop_on_fault = False,
            enable_tracing = False, enable_cosim = False, current_timer_count = 0,
            total_instructions = 0, cosim = cosim', dev = dev', rng = rs'\<rparr>))"

definition enable_tracing_proc :: "machine \<Rightarrow> machine" where
  "enable_tracing_proc s = s\<lparr>enable_tracing := True\<rparr>"

definition enable_random_thread_sched :: "machine \<Rightarrow> machine" where
  "enable_random_thread_sched s = s\<lparr>random_thread_sched := True\<rparr>"

definition enable_cosimulation :: "machine \<Rightarrow> machine" where
  "enable_cosimulation s = s\<lparr>enable_cosim := True\<rparr>"

definition load_hex_file :: "string option \<Rightarrow> machine \<Rightarrow> (bool \<times> machine) cres" where
  "load_hex_file file s =
     bindE (read_hex_file file (memory_size s) (memory s)) (\<lambda>(ok, m). Inr (ok, s\<lparr>memory := m\<rparr>))"

text \<open>The bytes that \<open>write_memory_to_file\<close> hands to \<open>fwrite\<close>.\<close>

definition write_memory_to_file :: "machine \<Rightarrow> u32 \<Rightarrow> u32 \<Rightarrow> u8 list cres" where
  "write_memory_to_file s base_address len =
     (let n = min (unat (memory_size s)) (unat len) in
      if unat base_address + n \<le> unat (memory_size s)
      then Inr (map (\<lambda>i. memory s (unat base_address + i)) [0..<n]) else Inl Out_of_bounds)"

text \<open>The offset in memory of the pointer that \<open>get_memory_region_ptr\<close> returns.\<close>

definition get_memory_region_ptr :: "machine \<Rightarrow> u32 \<Rightarrow> u32 \<Rightarrow> nat cres" where
  "get_memory_region_ptr s address len =
     (if \<not> len < memory_size s then Inl Assert_failed
      else if address > memory_size s \<or> address + len > memory_size s then Inr 0
      else Inr (unat address))"

definition get_total_threads :: "machine \<Rightarrow> nat" where
  "get_total_threads s = total_threads s"

definition is_proc_halted :: "machine \<Rightarrow> bool" where
  "is_proc_halted s \<longleftrightarrow> thread_enable_mask s = 0 \<or> crashed s"

definition is_stopped_on_fault :: "machine \<Rightarrow> bool" where
  "is_stopped_on_fault s = crashed s"

subsection \<open>Registers\<close>

definition set_scalar_reg :: "nat \<Rightarrow> nat \<Rightarrow> nat \<Rightarrow> u32 \<Rightarrow> machine \<Rightarrow> machine" where
  "set_scalar_reg c t reg value s =
     (let s' = (if enable_cosim s
                then s\<lparr>cosim := cosim_check_set_scalar_reg (pc (thr s c t) - 4) (of_nat reg) value
                          (cosim s)\<rparr>
                else s)
      in upd_thr c t (\<lambda>th. th\<lparr>scalar_reg := (scalar_reg th)(reg := value)\<rparr>) s')"

definition set_vector_reg ::
  "nat \<Rightarrow> nat \<Rightarrow> nat \<Rightarrow> u32 \<Rightarrow> (nat \<Rightarrow> u32) \<Rightarrow> machine \<Rightarrow> machine" where
  "set_vector_reg c t reg mask' values s =
     (let s' = (if enable_cosim s
                then s\<lparr>cosim := cosim_check_set_vector_reg (pc (thr s c t) - 4) (of_nat reg) mask'
                          values (cosim s)\<rparr>
                else s)
      in upd_thr c t (\<lambda>th. th\<lparr>vector_reg := (vector_reg th)(reg :=
           \<lambda>lane. if lane < NUM_VECTOR_LANES \<and> bit mask' lane then values lane
                  else vector_reg th reg lane)\<rparr>) s')"

text \<open>
  \<open>invalidate_sync_address\<close> runs over the numbers of all threads of the processor but indexes the
  thread array of one core, which has \<open>threads_per_core\<close> elements.
\<close>

definition invalidate_thread :: "nat \<Rightarrow> u32 \<Rightarrow> nat \<Rightarrow> machine \<Rightarrow> machine cres" where
  "invalidate_thread c address thread_id s =
     (if thread_id < threads_per_core s
      then Inr (if last_sync_load_addr (thr s c thread_id) = address div CACHE_LINE_LENGTH
                then upd_thr c thread_id (\<lambda>th. th\<lparr>last_sync_load_addr := INVALID_ADDR\<rparr>) s
                else s)
      else Inl Out_of_bounds)"

fun invalidate_threads :: "nat \<Rightarrow> u32 \<Rightarrow> nat list \<Rightarrow> machine \<Rightarrow> machine cres" where
  "invalidate_threads c address [] s = Inr s"
| "invalidate_threads c address (thread_id # ids) s =
     bindE (invalidate_thread c address thread_id s) (invalidate_threads c address ids)"

definition invalidate_sync_address :: "nat \<Rightarrow> u32 \<Rightarrow> machine \<Rightarrow> machine cres" where
  "invalidate_sync_address c address s = invalidate_threads c address [0..<total_threads s] s"

subsection \<open>Reading and writing memory\<close>

text \<open>The access macros divide the byte address by the element size.\<close>

definition load32 :: "machine \<Rightarrow> u32 \<Rightarrow> u32 cres" where
  "load32 s a = (let i = 4 * (unat a div 4) in
     if i + 4 \<le> unat (memory_size s) then Inr (get32 (memory s) i) else Inl Out_of_bounds)"

definition load16 :: "machine \<Rightarrow> u32 \<Rightarrow> u16 cres" where
  "load16 s a = (let i = 2 * (unat a div 2) in
     if i + 2 \<le> unat (memory_size s) then Inr (get16 (memory s) i) else Inl Out_of_bounds)"

definition load8 :: "machine \<Rightarrow> u32 \<Rightarrow> u8 cres" where
  "load8 s a = (if unat a < unat (memory_size s) then Inr (memory s (unat a)) else Inl Out_of_bounds)"

definition store32 :: "u32 \<Rightarrow> u32 \<Rightarrow> machine \<Rightarrow> machine cres" where
  "store32 a v s = (let i = 4 * (unat a div 4) in
     if i + 4 \<le> unat (memory_size s) then Inr (s\<lparr>memory := put32 i v (memory s)\<rparr>)
     else Inl Out_of_bounds)"

definition store16 :: "u32 \<Rightarrow> u16 \<Rightarrow> machine \<Rightarrow> machine cres" where
  "store16 a v s = (let i = 2 * (unat a div 2) in
     if i + 2 \<le> unat (memory_size s) then Inr (s\<lparr>memory := put16 i v (memory s)\<rparr>)
     else Inl Out_of_bounds)"

definition store8 :: "u32 \<Rightarrow> u8 \<Rightarrow> machine \<Rightarrow> machine cres" where
  "store8 a v s = (if unat a < unat (memory_size s)
     then Inr (s\<lparr>memory := (memory s)(unat a := v)\<rparr>) else Inl Out_of_bounds)"

subsection \<open>Frames\<close>

lemma cores_upd_core [simp]:
  "cores (upd_core c f s) = (cores s)(c := f (cores s c))"
  by (simp add: upd_core_def)

lemma thr_upd_thr [simp]:
  "thr (upd_thr c t f s) c' t' = (if c = c' \<and> t = t' then f (thr s c t) else thr s c' t')"
  by (simp add: thr_def upd_thr_def)

lemma thr_upd_core:
  "thr (upd_core c f s) c' t' = (if c = c' then threads (f (cores s c)) t' else thr s c' t')"
  by (simp add: thr_def)

lemma upd_core_fields [simp]:
  "total_threads (upd_core c f s) = total_threads s"
  "thread_enable_mask (upd_core c f s) = thread_enable_mask s"
  "num_cores (upd_core c f s) = num_cores s"
  "threads_per_core (upd_core c f s) = threads_per_core s"
  "breakpoints (upd_core c f s) = breakpoints s"
  "memory (upd_core c f s) = memory s"
  "memory_size (upd_core c f s) = memory_size s"
  "interrupt_levels (upd_core c f s) = interrupt_levels s"
  "random_thread_sched (upd_core c f s) = random_thread_sched s"
  "crashed (upd_core c f s) = crashed s"
  "single_stepping (upd_core c f s) = single_stepping s"
  "stop_on_fault (upd_core c f s) = stop_on_fault s"
  "enable_tracing (upd_core c f s) = enable_tracing s"
  "enable_cosim (upd_core c f s) = enable_cosim s"
  "current_timer_count (upd_core c f s) = current_timer_count s"
  "total_instructions (upd_core c f s) = total_instructions s"
  "cosim (upd_core c f s) = cosim s"
  "dev (upd_core c f s) = dev s"
  "rng (upd_core c f s) = rng s"
  by (simp_all add: upd_core_def)

lemma upd_thr_fields [simp]:
  "total_threads (upd_thr c t f s) = total_threads s"
  "thread_enable_mask (upd_thr c t f s) = thread_enable_mask s"
  "num_cores (upd_thr c t f s) = num_cores s"
  "threads_per_core (upd_thr c t f s) = threads_per_core s"
  "breakpoints (upd_thr c t f s) = breakpoints s"
  "memory (upd_thr c t f s) = memory s"
  "memory_size (upd_thr c t f s) = memory_size s"
  "interrupt_levels (upd_thr c t f s) = interrupt_levels s"
  "random_thread_sched (upd_thr c t f s) = random_thread_sched s"
  "crashed (upd_thr c t f s) = crashed s"
  "single_stepping (upd_thr c t f s) = single_stepping s"
  "stop_on_fault (upd_thr c t f s) = stop_on_fault s"
  "enable_tracing (upd_thr c t f s) = enable_tracing s"
  "enable_cosim (upd_thr c t f s) = enable_cosim s"
  "current_timer_count (upd_thr c t f s) = current_timer_count s"
  "total_instructions (upd_thr c t f s) = total_instructions s"
  "cosim (upd_thr c t f s) = cosim s"
  "dev (upd_thr c t f s) = dev s"
  "rng (upd_thr c t f s) = rng s"
  by (simp_all add: upd_thr_def)

lemma upd_thr_core [simp]:
  "trap_handler_pc (cores (upd_thr c t f s) c') = trap_handler_pc (cores s c')"
  "tlb_miss_handler_pc (cores (upd_thr c t f s) c') = tlb_miss_handler_pc (cores s c')"
  "is_level_triggered (cores (upd_thr c t f s) c') = is_level_triggered (cores s c')"
  "itlb (cores (upd_thr c t f s) c') = itlb (cores s c')"
  "dtlb (cores (upd_thr c t f s) c') = dtlb (cores s c')"
  "next_itlb_way (cores (upd_thr c t f s) c') = next_itlb_way (cores s c')"
  "next_dtlb_way (cores (upd_thr c t f s) c') = next_dtlb_way (cores s c')"
  by (simp_all add: upd_thr_def)

lemma thr_processor_fields [simp]:
  "thr (s\<lparr>memory := m\<rparr>) c t = thr s c t"
  "thr (s\<lparr>cosim := cs\<rparr>) c t = thr s c t"
  "thr (s\<lparr>dev := d\<rparr>) c t = thr s c t"
  "thr (s\<lparr>rng := r\<rparr>) c t = thr s c t"
  "thr (s\<lparr>crashed := b\<rparr>) c t = thr s c t"
  "thr (s\<lparr>breakpoints := bps\<rparr>) c t = thr s c t"
  "thr (s\<lparr>interrupt_levels := w\<rparr>) c t = thr s c t"
  "thr (s\<lparr>total_instructions := n\<rparr>) c t = thr s c t"
  "thr (s\<lparr>current_timer_count := w\<rparr>) c t = thr s c t"
  "thr (s\<lparr>thread_enable_mask := w\<rparr>) c t = thr s c t"
  "thr (s\<lparr>single_stepping := b\<rparr>) c t = thr s c t"
  by (simp_all add: thr_def)

subsection \<open>The loop of \<open>invalidate_sync_address\<close> in closed form\<close>

definition clear_reservations :: "u32 \<Rightarrow> nat \<Rightarrow> core \<Rightarrow> core" where
  "clear_reservations line n co = co\<lparr>threads := (\<lambda>t.
     if t < n \<and> last_sync_load_addr (threads co t) = line
     then (threads co t)\<lparr>last_sync_load_addr := INVALID_ADDR\<rparr> else threads co t)\<rparr>"

lemma invalidate_threads_append:
  "invalidate_threads c a (xs @ ys) s = bindE (invalidate_threads c a xs s) (invalidate_threads c a ys)"
  by (induction xs arbitrary: s) (simp_all add: bindE_def split: sum.split)

lemma invalidate_threads_upto:
  "n \<le> threads_per_core s \<Longrightarrow>
   invalidate_threads c a [0..<n] s = Inr (upd_core c (clear_reservations (a div CACHE_LINE_LENGTH) n) s)"
proof (induction n)
  case 0
  show ?case by (simp add: upd_core_def clear_reservations_def)
next
  case (Suc n)
  let ?s = "upd_core c (clear_reservations (a div CACHE_LINE_LENGTH) n) s"
  have "invalidate_thread c a n ?s = Inr (upd_core c (clear_reservations (a div CACHE_LINE_LENGTH) (Suc n)) s)"
    using Suc.prems by (auto simp: invalidate_thread_def upd_thr_def upd_core_def clear_reservations_def thr_def
        fun_eq_iff less_Suc_eq intro!: machine.equality core.equality)
  with Suc show ?case by (simp add: invalidate_threads_append)
qed

lemma invalidate_threads_past:
  "threads_per_core s < n \<Longrightarrow> invalidate_threads c a [0..<n] s = Inl Out_of_bounds"
proof -
  assume lt: "threads_per_core s < n"
  let ?k = "threads_per_core s"
  have "[0..<n] = [0..<?k] @ ?k # [Suc ?k..<n]"
    using lt upt_add_eq_append [of 0 ?k "n - ?k"] upt_conv_Cons [of ?k n] by simp
  moreover have "invalidate_thread c a ?k (upd_core c f s) = Inl Out_of_bounds" for f
    by (simp add: invalidate_thread_def)
  ultimately show ?thesis
    by (simp add: invalidate_threads_append invalidate_threads_upto)
qed

text \<open>
  The loop reaches every reservation of the core when the core has all threads of the processor;
  otherwise its first index past the thread array is outside.
\<close>

lemma invalidate_sync_address_eq:
  "invalidate_sync_address c address s =
     (if total_threads s > threads_per_core s then Inl Out_of_bounds
      else Inr (upd_core c (\<lambda>co. co\<lparr>threads := (\<lambda>t.
             if t < total_threads s \<and> last_sync_load_addr (threads co t) = address div CACHE_LINE_LENGTH
             then (threads co t)\<lparr>last_sync_load_addr := INVALID_ADDR\<rparr> else threads co t)\<rparr>) s))"
  using invalidate_threads_upto [of "total_threads s" s c address] invalidate_threads_past [of s "total_threads s" c address]
  by (simp add: invalidate_sync_address_def clear_reservations_def [abs_def])

subsection \<open>Invariant of the machine\<close>

definition breakpoint_ok :: "u32 \<Rightarrow> breakpoint \<Rightarrow> bool" where
  "breakpoint_ok msize b \<longleftrightarrow> original_instruction b \<noteq> BREAKPOINT_INST
     \<and> bp_address b < msize \<and> bp_address b AND 3 = 0"

definition device_ok :: "device_state \<Rightarrow> bool" where
  "device_ok d \<longleftrightarrow> sd_ok (sdmmc d) \<and> key_buf_head d < 64 \<and> key_buf_tail d < 64
     \<and> serial_read_buf_head d < 64 \<and> serial_read_buf_tail d < 64"

definition machine_ok :: "machine \<Rightarrow> bool" where
  "machine_ok s \<longleftrightarrow> num_cores s * threads_per_core s = total_threads s \<and> total_threads s \<le> 32
     \<and> unat (thread_enable_mask s) < 2 ^ total_threads s
     \<and> 64 dvd unat (memory_size s)
     \<and> (\<forall>c. next_itlb_way (cores s c) < TLB_WAYS \<and> next_dtlb_way (cores s c) < TLB_WAYS)
     \<and> (\<forall>b\<in>set (breakpoints s). breakpoint_ok (memory_size s) b)
     \<and> distinct (map bp_address (breakpoints s))
     \<and> device_ok (dev s)"

text \<open>The processor has one core, the case in which \<open>invalidate_sync_address\<close> stays inside.\<close>

definition single_core :: "machine \<Rightarrow> bool" where
  "single_core s \<longleftrightarrow> total_threads s \<le> threads_per_core s"

lemma machine_ok_upd_thr [simp]: "machine_ok (upd_thr c t f s) = machine_ok s"
  by (simp add: machine_ok_def)

lemma machine_ok_upd_core:
  "machine_ok s \<Longrightarrow> next_itlb_way (f (cores s c)) < 4 \<Longrightarrow> next_dtlb_way (f (cores s c)) < 4
     \<Longrightarrow> machine_ok (upd_core c f s)"
  by (simp add: machine_ok_def)

lemma machine_ok_fields [simp]:
  "machine_ok (s\<lparr>memory := m\<rparr>) = machine_ok s"
  "machine_ok (s\<lparr>cosim := cs\<rparr>) = machine_ok s"
  "machine_ok (s\<lparr>rng := r\<rparr>) = machine_ok s"
  "machine_ok (s\<lparr>crashed := b\<rparr>) = machine_ok s"
  "machine_ok (s\<lparr>interrupt_levels := w\<rparr>) = machine_ok s"
  "machine_ok (s\<lparr>total_instructions := n\<rparr>) = machine_ok s"
  "machine_ok (s\<lparr>current_timer_count := w\<rparr>) = machine_ok s"
  "machine_ok (s\<lparr>single_stepping := b\<rparr>) = machine_ok s"
  by (simp_all add: machine_ok_def)

lemma machine_ok_dev: "machine_ok s \<Longrightarrow> device_ok d \<Longrightarrow> machine_ok (s\<lparr>dev := d\<rparr>)"
  by (simp add: machine_ok_def)

lemma single_core_fields [simp]:
  "single_core (upd_thr c t f s) = single_core s"
  "single_core (upd_core c g s) = single_core s"
  "single_core (s\<lparr>memory := m\<rparr>) = single_core s"
  "single_core (s\<lparr>cosim := cs\<rparr>) = single_core s"
  "single_core (s\<lparr>dev := d\<rparr>) = single_core s"
  "single_core (s\<lparr>rng := r\<rparr>) = single_core s"
  "single_core (s\<lparr>crashed := b\<rparr>) = single_core s"
  "single_core (s\<lparr>breakpoints := bps\<rparr>) = single_core s"
  "single_core (s\<lparr>interrupt_levels := w\<rparr>) = single_core s"
  "single_core (s\<lparr>total_instructions := n\<rparr>) = single_core s"
  "single_core (s\<lparr>current_timer_count := w\<rparr>) = single_core s"
  "single_core (s\<lparr>thread_enable_mask := w\<rparr>) = single_core s"
  "single_core (s\<lparr>single_stepping := b\<rparr>) = single_core s"
  by (simp_all add: single_core_def)

lemma set_scalar_reg_ok [simp]:
  "machine_ok (set_scalar_reg c t r v s) = machine_ok s"
  "single_core (set_scalar_reg c t r v s) = single_core s"
  by (simp_all add: set_scalar_reg_def)

lemma set_vector_reg_ok [simp]:
  "machine_ok (set_vector_reg c t r m v s) = machine_ok s"
  "single_core (set_vector_reg c t r m v s) = single_core s"
  by (simp_all add: set_vector_reg_def)

lemma invalidate_sync_address_ok:
  assumes "machine_ok s" "single_core s"
  shows "specE E (invalidate_sync_address c a s) (\<lambda>s'. machine_ok s' \<and> single_core s')"
proof -
  have "machine_ok (upd_core c (\<lambda>co. co\<lparr>threads := th co\<rparr>) s)" for th
    using assms(1) by (intro machine_ok_upd_core) (simp_all add: machine_ok_def)
  then show ?thesis
    using assms by (simp add: invalidate_sync_address_eq single_core_def not_less)
qed

subsection \<open>Threads and numbers\<close>

lemma get_thread_valid:
  assumes "machine_ok s" "i < total_threads s"
  shows "get_thread s i = Inr (i div threads_per_core s, i mod threads_per_core s)"
    "i div threads_per_core s < num_cores s" "i mod threads_per_core s < threads_per_core s"
proof -
  have eq: "total_threads s = num_cores s * threads_per_core s" using assms(1) by (simp add: machine_ok_def)
  with assms(2) have nz: "threads_per_core s \<noteq> 0" by (metis mult_0_right not_less0)
  then show d: "i div threads_per_core s < num_cores s" "i mod threads_per_core s < threads_per_core s"
    using assms(2) eq by (simp_all add: less_mult_imp_div_less)
  with nz show "get_thread s i = Inr (i div threads_per_core s, i mod threads_per_core s)"
    by (simp add: get_thread_def)
qed

subsection \<open>Memory accesses inside memory\<close>

lemma aligned_access:
  assumes "n dvd msize" "0 < n" "a < (msize :: nat)"
  shows "n * (a div n) + n \<le> msize"
proof -
  obtain k where k: "msize = n * k" using assms(1) ..
  with assms have "a div n < k" by (simp add: less_mult_imp_div_less mult.commute)
  then have "n * Suc (a div n) \<le> n * k" by (intro mult_le_mono2) simp
  with k show ?thesis by simp
qed

lemma machine_ok_dvd:
  assumes "machine_ok s" shows "4 dvd unat (memory_size s)" "2 dvd unat (memory_size s)"
proof -
  have d: "64 dvd unat (memory_size s)" using assms by (simp add: machine_ok_def)
  have "(4 :: nat) dvd 64" "(2 :: nat) dvd 64" by simp_all
  from this(1) d show "4 dvd unat (memory_size s)" by (rule dvd_trans)
  from \<open>(2 :: nat) dvd 64\<close> d show "2 dvd unat (memory_size s)" by (rule dvd_trans)
qed

lemma load_in_memory:
  assumes "machine_ok s" "a < memory_size s"
  shows "load32 s a = Inr (get32 (memory s) (4 * (unat a div 4)))"
    "load16 s a = Inr (get16 (memory s) (2 * (unat a div 2)))"
    "load8 s a = Inr (memory s (unat a))"
  using assms aligned_access [OF machine_ok_dvd(1) [OF assms(1)], of "unat a"]
    aligned_access [OF machine_ok_dvd(2) [OF assms(1)], of "unat a"]
  by (simp_all add: load32_def load16_def load8_def word_less_nat_alt)

lemma store_in_memory:
  assumes "machine_ok s" "a < memory_size s"
  shows "store32 a v s = Inr (s\<lparr>memory := put32 (4 * (unat a div 4)) v (memory s)\<rparr>)"
    "store16 a v2 s = Inr (s\<lparr>memory := put16 (2 * (unat a div 2)) v2 (memory s)\<rparr>)"
    "store8 a v1 s = Inr (s\<lparr>memory := (memory s)(unat a := v1)\<rparr>)"
  using assms aligned_access [OF machine_ok_dvd(1) [OF assms(1)], of "unat a"]
    aligned_access [OF machine_ok_dvd(2) [OF assms(1)], of "unat a"]
  by (simp_all add: store32_def store16_def store8_def word_less_nat_alt)

subsection \<open>A freshly created processor\<close>

lemma unat_mult_no_wrap:
  "unat a * unat b < 4294967296 \<Longrightarrow> unat (a * b :: u32) = unat a * unat b"
  by (simp add: unat_word_ariths)

lemma initial_tlb_unaligned: "ROUND_TO_PAGE a \<noteq> INVALID_ADDR"
proof
  assume "ROUND_TO_PAGE a = INVALID_ADDR"
  then have "bit (ROUND_TO_PAGE a) 0 = bit (0xffffffff :: u32) 0" by (rule arg_cong)
  then show False by (simp add: ROUND_TO_PAGE_def bit_simps)
qed

definition boot_cosim :: cosim_state where
  "boot_cosim = \<lparr>expected_event = EVENT_NONE, expected_register = 0, expected_address = 0,
     expected_mask = 0, expected_values = (\<lambda>_. 0), expected_pc = 0, expected_thread = 0,
     cosim_mismatch = False, cosim_event_triggered = False\<rparr>"

definition boot_device :: device_state where
  "boot_device = \<lparr>key_buf = (\<lambda>_. 0), key_buf_head = 0, key_buf_tail = 0,
     serial_read_buf = (\<lambda>_. 0), serial_read_buf_head = 0, serial_read_buf_tail = 0,
     last_sdmmc_response = 0, sdmmc = initial_sd_card, serial_out = [], fb_enabled = False,
     fb_address = 0, host_interrupts = None\<rparr>"

text \<open>A machine with the given memory, one core and four threads, as the concrete examples use it.\<close>

definition boot_machine :: "mem \<Rightarrow> machine" where
  "boot_machine m = \<lparr>total_threads = 4, thread_enable_mask = 1, num_cores = 1, threads_per_core = 4,
     cores = init_core (\<lambda>_. \<lparr>tlb_asid = 0, virtual_address = 0, phys_addr_and_flags = 0\<rparr>) 4,
     breakpoints = [], memory = m, memory_size = 0x1000, interrupt_levels = 0,
     random_thread_sched = False, crashed = False, single_stepping = False, stop_on_fault = False,
     enable_tracing = False, enable_cosim = False, current_timer_count = 0,
     total_instructions = 0, cosim = boot_cosim, dev = boot_device, rng = (1, 2)\<rparr>"

lemma boot_device_ok [simp]: "device_ok boot_device"
  by (simp add: device_ok_def boot_device_def)

lemma boot_machine_fields [simp]:
  "memory_size (boot_machine m) = 0x1000" "memory (boot_machine m) = m"
  "total_threads (boot_machine m) = 4" "threads_per_core (boot_machine m) = 4"
  "num_cores (boot_machine m) = 1" "enable_cosim (boot_machine m) = False"
  "breakpoints (boot_machine m) = []" "thread_enable_mask (boot_machine m) = 1"
  by (simp_all add: boot_machine_def)

lemma boot_machine_ok [simp]: "machine_ok (boot_machine m)" "single_core (boot_machine m)"
  by (simp_all add: machine_ok_def single_core_def boot_machine_def init_core_def)

text \<open>
  for a configuration of at most 32 threads (without wrap-around of the product) and a memory
  size that is a multiple of the cache line, \<open>init_processor\<close> returns a processor that satisfies
  the machine invariant, whose first thread alone is enabled, all of whose threads start at
  address 0 in supervisor mode with the MMU off, and whose TLBs match no address.
\<close>

theorem init_processor_ok:
  assumes "unat nc * unat tpc \<le> 32" "0 < nc" "0 < tpc" "64 dvd unat msize" "device_ok d"
  shows "\<exists>s. init_processor msize nc tpc rnd shared (Some m) junk cs d rs = Inr (Some s)
     \<and> machine_ok s \<and> total_threads s = unat nc * unat tpc \<and> thread_enable_mask s = 1
     \<and> (\<forall>c t. pc (thr s c t) = 0 \<and> enable_supervisor (thr s c t) \<and> \<not> enable_mmu (thr s c t))
     \<and> (\<forall>c i a. virtual_address (itlb (cores s c) i) \<noteq> ROUND_TO_PAGE a
                \<and> virtual_address (dtlb (cores s c) i) \<noteq> ROUND_TO_PAGE a)"
proof -
  have u: "unat (nc * tpc) = unat nc * unat tpc" using assms(1) by (simp add: unat_mult_no_wrap)
  then have le: "nc * tpc \<le> 32" using assms(1) by (simp add: word_le_nat_alt)
  have pos: "0 < unat nc" "0 < unat tpc" using assms(2,3) by (simp_all add: word_less_nat_alt)
  then have "1 < (2 :: nat) ^ (unat nc * unat tpc)" by (intro one_less_power) simp_all
  then show ?thesis
    using le u assms(1,4,5)
    by (simp add: init_processor_def split_def Let_def machine_ok_def thr_def init_core_def
        init_thread_def mult.commute [of tpc] initial_tlb_unaligned [symmetric])
qed

theorem init_processor_ok_witness:
  "unat (2 :: u32) * unat (4 :: u32) \<le> 32 \<and> 64 dvd unat (0x1000 :: u32) \<and> device_ok boot_device \<and>
   (\<exists>s. init_processor 0x1000 2 4 False False (Some (\<lambda>_. 0)) (\<lambda>_. \<lparr>tlb_asid = 0, virtual_address = 0,
        phys_addr_and_flags = 0\<rparr>) boot_cosim boot_device (1, 2) = Inr (Some s)
     \<and> machine_ok s \<and> total_threads s = 8 \<and> thread_enable_mask s = 1)"
  using init_processor_ok [where nc = 2 and tpc = 4 and msize = "0x1000" and d = boot_device
      and rnd = False and shared = False and m = "\<lambda>_. 0"
      and junk = "\<lambda>_. \<lparr>tlb_asid = 0, virtual_address = 0, phys_addr_and_flags = 0\<rparr>"
      and cs = boot_cosim and rs = "(1, 2)"]
  by auto

end
