(* ===== verification/Emu_Trap.thy ===== *)
theory Emu_Trap
  imports Emu_State
begin

text \<open>
  Traps and interrupts of \<open>tools/emulator/processor.c\<close>: \<open>raise_trap\<close> with its two save slots,
  the return from a trap, and the delivery of interrupts to all threads. The lemmas show that a
  return undoes a trap exactly, also for a trap inside a trap handler, and that an interrupt
  resumes at the instruction that was about to run.
\<close>

definition get_pending_interrupts :: "nat \<Rightarrow> nat \<Rightarrow> machine \<Rightarrow> u32" where
  "get_pending_interrupts c t s =
     (is_level_triggered (cores s c) AND interrupt_levels s)
     OR (NOT (is_level_triggered (cores s c)) AND latched_interrupts (thr s c t))"

text \<open>The part of \<open>raise_trap\<close> after the check for a fatal fault.\<close>

definition enter_trap ::
  "core \<Rightarrow> u32 \<Rightarrow> trap_type \<Rightarrow> bool \<Rightarrow> bool \<Rightarrow> u32 \<Rightarrow> thread \<Rightarrow> thread" where
  "enter_trap co trap_address type is_store is_data_cache syscall_index' th =
     th\<lparr>saved_trap_state1 := saved_trap_state0 th,
        saved_trap_state0 := (saved_trap_state0 th)\<lparr>
          ts_trap_cause := trap_code type OR (if is_store then 0x10 else 0)
            OR (if is_data_cache then 0x20 else 0),
          ts_pc := (if subcycle th \<noteq> 0 \<and> type = TT_INTERRUPT then pc th else pc th - 4),
          ts_enable_interrupt := enable_interrupt th,
          ts_enable_mmu := enable_mmu th,
          ts_enable_supervisor := enable_supervisor th,
          ts_subcycle := subcycle th,
          ts_access_address := trap_address,
          ts_syscall_index := syscall_index'\<rparr>,
        enable_interrupt := False,
        pc := (if type = TT_TLB_MISS then tlb_miss_handler_pc co else trap_handler_pc co),
        enable_mmu := (if type = TT_TLB_MISS then False else enable_mmu th),
        subcycle := 0,
        enable_supervisor := True\<rparr>"

definition fatal_fault :: "nat \<Rightarrow> trap_type \<Rightarrow> machine \<Rightarrow> bool" where
  "fatal_fault c type s \<longleftrightarrow> (stop_on_fault s \<or> trap_handler_pc (cores s c) = 0)
     \<and> type \<noteq> TT_TLB_MISS \<and> type \<noteq> TT_INTERRUPT \<and> type \<noteq> TT_SYSCALL"

definition raise_trap ::
  "nat \<Rightarrow> nat \<Rightarrow> u32 \<Rightarrow> trap_type \<Rightarrow> bool \<Rightarrow> bool \<Rightarrow> u32 \<Rightarrow> machine \<Rightarrow> machine" where
  "raise_trap c t trap_address type is_store is_data_cache syscall_index' s =
     (if fatal_fault c type s
      then (upd_thr c t (\<lambda>th. th\<lparr>pc := pc th - 4\<rparr>) s)\<lparr>crashed := True\<rparr>
      else upd_thr c t (enter_trap (cores s c) trap_address type is_store is_data_cache
                          syscall_index') s)"

definition try_to_dispatch_interrupt :: "nat \<Rightarrow> nat \<Rightarrow> machine \<Rightarrow> machine" where
  "try_to_dispatch_interrupt c t s =
     (let pending = get_pending_interrupts c t s; th = thr s c t in
      if \<not> enable_interrupt th then s
      else if pending AND interrupt_mask th \<noteq> 0
      then raise_trap c t 0 TT_INTERRUPT False False 0
             (if subcycle th = 0 then upd_thr c t (\<lambda>th. th\<lparr>pc := pc th + 4\<rparr>) s else s)
      else s)"

definition raise_interrupt :: "u32 \<Rightarrow> machine \<Rightarrow> machine" where
  "raise_interrupt int_bitmap s =
     fold (\<lambda>c. fold (\<lambda>t s. try_to_dispatch_interrupt c t
              (upd_thr c t (\<lambda>th. th\<lparr>latched_interrupts := latched_interrupts th OR int_bitmap\<rparr>) s))
            [0..<threads_per_core s])
       [0..<num_cores s] (s\<lparr>interrupt_levels := interrupt_levels s OR int_bitmap\<rparr>)"

definition clear_interrupt :: "u32 \<Rightarrow> machine \<Rightarrow> machine" where
  "clear_interrupt int_bitmap s =
     s\<lparr>interrupt_levels := interrupt_levels s AND NOT int_bitmap\<rparr>"

abbreviation (input) INT_COSIM :: u32 where "INT_COSIM \<equiv> 1"
abbreviation (input) INT_TIMER :: u32 where "INT_TIMER \<equiv> 2"
abbreviation (input) INT_UART_RX :: u32 where "INT_UART_RX \<equiv> 4"
abbreviation (input) INT_PS2_RX :: u32 where "INT_PS2_RX \<equiv> 8"
abbreviation (input) INT_VGA_FRAME :: u32 where "INT_VGA_FRAME \<equiv> 16"

definition cosim_interrupt :: "nat \<Rightarrow> u32 \<Rightarrow> machine \<Rightarrow> machine cres" where
  "cosim_interrupt thread_id pc' s =
     bindE (get_thread s thread_id) (\<lambda>(c, t).
       Inr (try_to_dispatch_interrupt c t
         (upd_thr c t (\<lambda>th. th\<lparr>subcycle := (if pc' \<noteq> pc th then 0 else subcycle th),
            pc := pc', latched_interrupts := latched_interrupts th OR INT_COSIM\<rparr>) s)))"

text \<open>The case \<open>BRANCH_ERET\<close> of \<open>execute_branch_inst\<close>, after its privilege check.\<close>

definition return_from_trap :: "nat \<Rightarrow> nat \<Rightarrow> machine \<Rightarrow> machine" where
  "return_from_trap c t s =
     (let s' = upd_thr c t (\<lambda>th. th\<lparr>
            enable_interrupt := ts_enable_interrupt (saved_trap_state0 th),
            enable_mmu := ts_enable_mmu (saved_trap_state0 th),
            pc := ts_pc (saved_trap_state0 th),
            subcycle := ts_subcycle (saved_trap_state0 th),
            enable_supervisor := ts_enable_supervisor (saved_trap_state0 th),
            saved_trap_state0 := saved_trap_state1 th\<rparr>) s
      in if enable_interrupt (thr s' c t) then try_to_dispatch_interrupt c t s' else s')"

subsection \<open>Invariant\<close>

lemma raise_trap_ok [simp]:
  "machine_ok (raise_trap c t a ty st d i s) = machine_ok s"
  "single_core (raise_trap c t a ty st d i s) = single_core s"
  by (simp_all add: raise_trap_def)

lemma try_to_dispatch_interrupt_ok [simp]:
  "machine_ok (try_to_dispatch_interrupt c t s) = machine_ok s"
  "single_core (try_to_dispatch_interrupt c t s) = single_core s"
  by (simp_all add: try_to_dispatch_interrupt_def Let_def)

lemma return_from_trap_ok [simp]:
  "machine_ok (return_from_trap c t s) = machine_ok s"
  "single_core (return_from_trap c t s) = single_core s"
  by (simp_all add: return_from_trap_def Let_def)

subsection \<open>Interrupt delivery, thread by thread\<close>

text \<open>What the delivery of the lines \<open>pending\<close> does to one thread.\<close>

definition interrupted_thread :: "core \<Rightarrow> u32 \<Rightarrow> thread \<Rightarrow> thread" where
  "interrupted_thread co levels th =
     (let pending = (is_level_triggered co AND levels)
            OR (NOT (is_level_triggered co) AND latched_interrupts th)
      in if enable_interrupt th \<and> pending AND interrupt_mask th \<noteq> 0
         then enter_trap co 0 TT_INTERRUPT False False 0
                (if subcycle th = 0 then th\<lparr>pc := pc th + 4\<rparr> else th)
         else th)"

lemma upd_thr_compose: "upd_thr c t g (upd_thr c t f s) = upd_thr c t (g \<circ> f) s"
  by (simp add: upd_thr_def upd_core_def)

lemma upd_thr_id: "f (thr s c t) = thr s c t \<Longrightarrow> upd_thr c t f s = s"
  by (simp add: upd_thr_def upd_core_def thr_def)

lemma upd_thr_cong: "f (thr s c t) = g (thr s c t) \<Longrightarrow> upd_thr c t f s = upd_thr c t g s"
  by (simp add: upd_thr_def upd_core_def thr_def)

lemma enter_trap_core [simp]:
  "enter_trap (co\<lparr>threads := x\<rparr>) = enter_trap co"
  by (simp add: enter_trap_def fun_eq_iff)

lemma enter_trap_upd_thr [simp]: "enter_trap (cores (upd_thr c t f s) c') = enter_trap (cores s c')"
  by (simp add: enter_trap_def fun_eq_iff)

lemma interrupted_thread_upd_thr [simp]:
  "interrupted_thread (cores (upd_thr c t f s) c') = interrupted_thread (cores s c')"
  by (simp add: interrupted_thread_def fun_eq_iff)

lemma try_to_dispatch_pointwise:
  "try_to_dispatch_interrupt c t s =
     upd_thr c t (interrupted_thread (cores s c) (interrupt_levels s)) s"
proof (cases "enable_interrupt (thr s c t)
    \<and> get_pending_interrupts c t s AND interrupt_mask (thr s c t) \<noteq> 0")
  case False
  then show ?thesis
    by (auto simp: try_to_dispatch_interrupt_def interrupted_thread_def get_pending_interrupts_def
        Let_def intro!: upd_thr_id [symmetric])
next
  case True
  then show ?thesis
    by (auto simp: try_to_dispatch_interrupt_def interrupted_thread_def get_pending_interrupts_def
        Let_def raise_trap_def fatal_fault_def upd_thr_compose intro!: upd_thr_cong)
qed

text \<open>One thread's iteration of the loops in \<open>raise_interrupt\<close>.\<close>

definition latch_and_deliver :: "core \<Rightarrow> u32 \<Rightarrow> u32 \<Rightarrow> thread \<Rightarrow> thread" where
  "latch_and_deliver co levels bits th =
     interrupted_thread co levels (th\<lparr>latched_interrupts := latched_interrupts th OR bits\<rparr>)"

lemma raise_interrupt_step:
  "try_to_dispatch_interrupt c t
     (upd_thr c t (\<lambda>th. th\<lparr>latched_interrupts := latched_interrupts th OR bits\<rparr>) s)
   = upd_thr c t (latch_and_deliver (cores s c) (interrupt_levels s) bits) s"
  by (simp add: try_to_dispatch_pointwise upd_thr_compose)
    (rule upd_thr_cong, simp add: latch_and_deliver_def)

lemma latch_and_deliver_threads [simp]:
  "latch_and_deliver (co\<lparr>threads := x\<rparr>) = latch_and_deliver co"
  by (simp add: latch_and_deliver_def interrupted_thread_def fun_eq_iff)

text \<open>The inner loop over the first \<open>n\<close> threads of a core, and the outer loop over cores.\<close>

definition deliver_core :: "u32 \<Rightarrow> u32 \<Rightarrow> nat \<Rightarrow> core \<Rightarrow> core" where
  "deliver_core levels bits n co = co\<lparr>threads := \<lambda>t.
     if t < n then latch_and_deliver co levels bits (threads co t) else threads co t\<rparr>"

lemma raise_interrupt_inner:
  "fold (\<lambda>t s. upd_thr c t (latch_and_deliver (cores s c) (interrupt_levels s) bits) s) [0..<n] s
     = upd_core c (deliver_core (interrupt_levels s) bits n) s"
proof (induction n)
  case 0
  then show ?case by (simp add: upd_core_def deliver_core_def)
next
  case (Suc n)
  then show ?case
    by (simp add: upd_thr_def upd_core_def deliver_core_def fun_eq_iff less_Suc_eq)
qed

lemma raise_interrupt_outer:
  "fold (\<lambda>c s. upd_core c (deliver_core (interrupt_levels s) bits n) s) [0..<k] s
     = s\<lparr>cores := \<lambda>c. if c < k then deliver_core (interrupt_levels s) bits n (cores s c) else cores s c\<rparr>"
proof (induction k)
  case 0
  then show ?case by simp
next
  case (Suc k)
  then show ?case by (simp add: upd_core_def fun_eq_iff less_Suc_eq)
qed

lemma raise_interrupt_pointwise:
  "raise_interrupt bits s = (let levels = interrupt_levels s OR bits in
     s\<lparr>interrupt_levels := levels,
       cores := \<lambda>c. if c < num_cores s then deliver_core levels bits (threads_per_core s) (cores s c)
                    else cores s c\<rparr>)"
  unfolding raise_interrupt_def raise_interrupt_step raise_interrupt_inner raise_interrupt_outer
  by (simp add: Let_def cong: if_cong)

lemma raise_interrupt_ok [simp]:
  "machine_ok (raise_interrupt bits s) = machine_ok s"
  "single_core (raise_interrupt bits s) = single_core s"
  by (simp_all add: raise_interrupt_pointwise Let_def machine_ok_def single_core_def
      deliver_core_def if_distrib [of next_itlb_way] if_distrib [of next_dtlb_way] cong: if_cong)

lemma clear_interrupt_ok [simp]:
  "machine_ok (clear_interrupt bits s) = machine_ok s"
  "single_core (clear_interrupt bits s) = single_core s"
  by (simp_all add: clear_interrupt_def)

subsection \<open>Returning from a trap\<close>

lemma quiet_dispatch:
  "\<not> enable_interrupt (thr s c t) \<or> get_pending_interrupts c t s AND interrupt_mask (thr s c t) = 0
     \<Longrightarrow> try_to_dispatch_interrupt c t s = s"
  by (auto simp: try_to_dispatch_interrupt_def Let_def)

lemma return_undoes_trap:
  assumes "\<not> fatal_fault c type s" "type \<noteq> TT_INTERRUPT"
    and quiet: "\<not> enable_interrupt (thr s c t)
      \<or> get_pending_interrupts c t s AND interrupt_mask (thr s c t) = 0"
  shows "return_from_trap c t (raise_trap c t addr type is_store is_data idx s)
    = upd_thr c t (\<lambda>th. th\<lparr>pc := pc th - 4, saved_trap_state1 := saved_trap_state0 th\<rparr>) s"
    (is "_ = ?s")
proof -
  have "try_to_dispatch_interrupt c t ?s = ?s"
    using quiet by (intro quiet_dispatch) (auto simp: get_pending_interrupts_def)
  moreover have "upd_thr c t (\<lambda>th. th\<lparr>
            enable_interrupt := ts_enable_interrupt (saved_trap_state0 th),
            enable_mmu := ts_enable_mmu (saved_trap_state0 th),
            pc := ts_pc (saved_trap_state0 th),
            subcycle := ts_subcycle (saved_trap_state0 th),
            enable_supervisor := ts_enable_supervisor (saved_trap_state0 th),
            saved_trap_state0 := saved_trap_state1 th\<rparr>)
       (raise_trap c t addr type is_store is_data idx s) = ?s"
    using assms(1,2) by (auto simp: raise_trap_def enter_trap_def upd_thr_compose intro!: upd_thr_cong)
  ultimately show ?thesis by (simp add: return_from_trap_def Let_def)
qed

subsection \<open>Properties\<close>

text \<open>
  C6: a trap that is taken followed by a return from trap puts the thread back before the trapped
  instruction with its flags, registers and saved state as they were (only the second save slot
  keeps a copy of the first), and changes nothing else in the machine, provided no enabled
  interrupt is waiting.
\<close>

theorem trap_return_roundtrip:
  assumes "\<not> fatal_fault c type s" "type \<noteq> TT_INTERRUPT"
    and "\<not> enable_interrupt (thr s c t) \<or> get_pending_interrupts c t s AND interrupt_mask (thr s c t) = 0"
  shows "return_from_trap c t (raise_trap c t addr type is_store is_data idx s)
    = upd_thr c t (\<lambda>th. th\<lparr>pc := pc th - 4, saved_trap_state1 := saved_trap_state0 th\<rparr>) s"
  using assms by (rule return_undoes_trap)

theorem trap_return_roundtrip_witness:
  "\<not> fatal_fault 0 TT_SYSCALL (boot_machine (\<lambda>_. 0)) \<and>
   return_from_trap 0 1 (raise_trap 0 1 0 TT_SYSCALL False False 7 (boot_machine (\<lambda>_. 0)))
    = upd_thr 0 1 (\<lambda>th. th\<lparr>pc := pc th - 4, saved_trap_state1 := saved_trap_state0 th\<rparr>)
        (boot_machine (\<lambda>_. 0))"
proof -
  have "\<not> enable_interrupt (thr (boot_machine (\<lambda>_. 0)) 0 1)"
    by (simp add: boot_machine_def thr_def init_core_def init_thread_def)
  moreover have "\<not> fatal_fault 0 TT_SYSCALL (boot_machine (\<lambda>_. 0))" by (simp add: fatal_fault_def)
  ultimately show ?thesis using trap_return_roundtrip [of 0 TT_SYSCALL "boot_machine (\<lambda>_. 0)" 1] by simp
qed

text \<open>
  the two save slots nest: when a TLB miss (or any other trap) is taken inside a trap handler
  that has left interrupts off and the saved state alone, two returns bring the thread back to
  the instruction that the first trap interrupted, with its flags and subcycle.
\<close>

theorem nested_trap_return:
  assumes first: "\<not> fatal_fault c ty1 s" "ty1 \<noteq> TT_INTERRUPT"
    and second: "\<not> fatal_fault c ty2 s" "ty2 \<noteq> TT_INTERRUPT"
    and handler: "\<And>th. saved_trap_state0 (handler th) = saved_trap_state0 th"
      "\<And>th. enable_interrupt (handler th) = enable_interrupt th"
    and handler_end: "\<And>th. saved_trap_state0 (handler_end th) = saved_trap_state0 th"
    and quiet: "\<not> enable_interrupt (thr s c t)"
    and result: "s' = return_from_trap c t (upd_thr c t handler_end (return_from_trap c t
          (raise_trap c t a2 ty2 st2 d2 i2 (upd_thr c t handler (raise_trap c t a1 ty1 st1 d1 i1 s)))))"
  shows "pc (thr s' c t) = pc (thr s c t) - 4 \<and> enable_mmu (thr s' c t) = enable_mmu (thr s c t)
    \<and> enable_supervisor (thr s' c t) = enable_supervisor (thr s c t)
    \<and> enable_interrupt (thr s' c t) = enable_interrupt (thr s c t)
    \<and> subcycle (thr s' c t) = subcycle (thr s c t)"
proof -
  let ?s1 = "upd_thr c t handler (raise_trap c t a1 ty1 st1 d1 i1 s)"
  have nf: "\<not> fatal_fault c ty2 ?s1"
    using second(1) by (auto simp: fatal_fault_def raise_trap_def)
  have en: "\<not> enable_interrupt (thr ?s1 c t)"
    using first by (simp add: handler raise_trap_def enter_trap_def)
  have sv: "saved_trap_state0 (thr ?s1 c t) = saved_trap_state0 (enter_trap (cores s c) a1 ty1 st1 d1 i1 (thr s c t))"
    using first by (simp add: handler raise_trap_def)
  have "return_from_trap c t (raise_trap c t a2 ty2 st2 d2 i2 ?s1)
      = upd_thr c t (\<lambda>th. th\<lparr>pc := pc th - 4, saved_trap_state1 := saved_trap_state0 th\<rparr>) ?s1"
    using nf second(2) en by (intro return_undoes_trap) simp_all
  then show ?thesis
    using sv quiet first(2) unfolding result
    by (simp add: return_from_trap_def Let_def handler_end enter_trap_def)
qed

theorem nested_trap_return_witness:
  "\<not> fatal_fault 0 TT_SYSCALL (boot_machine (\<lambda>_. 0)) \<and> \<not> fatal_fault 0 TT_TLB_MISS (boot_machine (\<lambda>_. 0)) \<and>
   (let s' = return_from_trap 0 1 (upd_thr 0 1 id (return_from_trap 0 1
       (raise_trap 0 1 64 TT_TLB_MISS False True 0 (upd_thr 0 1 (\<lambda>th. th\<lparr>pc := 0x100\<rparr>)
         (raise_trap 0 1 0 TT_SYSCALL False False 7 (boot_machine (\<lambda>_. 0)))))))
    in pc (thr s' 0 1) = pc (thr (boot_machine (\<lambda>_. 0)) 0 1) - 4)"
proof -
  have "\<not> enable_interrupt (thr (boot_machine (\<lambda>_. 0)) 0 1)"
    by (simp add: boot_machine_def thr_def init_core_def init_thread_def)
  moreover have nf: "\<not> fatal_fault 0 TT_SYSCALL (boot_machine (\<lambda>_. 0))"
    "\<not> fatal_fault 0 TT_TLB_MISS (boot_machine (\<lambda>_. 0))" by (simp_all add: fatal_fault_def)
  ultimately show ?thesis
    using nested_trap_return [of 0 TT_SYSCALL "boot_machine (\<lambda>_. 0)" TT_TLB_MISS
        "\<lambda>th. th\<lparr>pc := 0x100\<rparr>" id 1 _ 64 False True 0 0 False False 7]
    by (simp add: Let_def)
qed

text \<open>
  C7: an interrupt that is delivered between two instructions, handled by code that leaves the
  saved state alone, masks or acknowledges the line and returns, resumes at exactly the
  instruction that was about to run, in the same subcycle of a multi-cycle instruction, with the
  same flags.
\<close>

theorem interrupt_resumes:
  assumes "enable_interrupt (thr s c t)"
    and "get_pending_interrupts c t s AND interrupt_mask (thr s c t) \<noteq> 0"
    and handler: "\<And>th. saved_trap_state0 (handler th) = saved_trap_state0 th"
    and result: "s' = upd_thr c t handler (try_to_dispatch_interrupt c t s)"
    and quiet: "get_pending_interrupts c t s' AND interrupt_mask (thr s' c t) = 0"
  shows "pc (thr (return_from_trap c t s') c t) = pc (thr s c t)
    \<and> subcycle (thr (return_from_trap c t s') c t) = subcycle (thr s c t)
    \<and> enable_mmu (thr (return_from_trap c t s') c t) = enable_mmu (thr s c t)
    \<and> enable_supervisor (thr (return_from_trap c t s') c t) = enable_supervisor (thr s c t)
    \<and> enable_interrupt (thr (return_from_trap c t s') c t)"
proof -
  let ?th = "enter_trap (cores s c) 0 TT_INTERRUPT False False 0
     (if subcycle (thr s c t) = 0 then (thr s c t)\<lparr>pc := pc (thr s c t) + 4\<rparr> else thr s c t)"
  have th: "thr s' c t = handler ?th"
    using assms(1,2) unfolding result
    by (simp add: try_to_dispatch_pointwise interrupted_thread_def Let_def get_pending_interrupts_def)
  have sv: "ts_pc (saved_trap_state0 ?th) = pc (thr s c t)"
    "ts_subcycle (saved_trap_state0 ?th) = subcycle (thr s c t)"
    "ts_enable_mmu (saved_trap_state0 ?th) = enable_mmu (thr s c t)"
    "ts_enable_supervisor (saved_trap_state0 ?th) = enable_supervisor (thr s c t)"
    "ts_enable_interrupt (saved_trap_state0 ?th)"
    using assms(1) by (simp_all add: enter_trap_def)
  have "return_from_trap c t s' = upd_thr c t (\<lambda>th. th\<lparr>
            enable_interrupt := ts_enable_interrupt (saved_trap_state0 th),
            enable_mmu := ts_enable_mmu (saved_trap_state0 th),
            pc := ts_pc (saved_trap_state0 th),
            subcycle := ts_subcycle (saved_trap_state0 th),
            enable_supervisor := ts_enable_supervisor (saved_trap_state0 th),
            saved_trap_state0 := saved_trap_state1 th\<rparr>) s'"
    using quiet by (simp add: return_from_trap_def Let_def quiet_dispatch get_pending_interrupts_def)
  then show ?thesis using sv by (simp add: th handler)
qed

theorem interrupt_resumes_witness:
  "let s = upd_thr 0 1 (\<lambda>th. th\<lparr>pc := 0x40, subcycle := 3, enable_interrupt := True, interrupt_mask := 2,
         latched_interrupts := 2\<rparr>) (boot_machine (\<lambda>_. 0));
       s' = upd_thr 0 1 (\<lambda>th. th\<lparr>latched_interrupts := 0\<rparr>) (try_to_dispatch_interrupt 0 1 s)
   in pc (thr (return_from_trap 0 1 s') 0 1) = 0x40 \<and> subcycle (thr (return_from_trap 0 1 s') 0 1) = 3"
proof -
  define s where "s = upd_thr 0 1 (\<lambda>th. th\<lparr>pc := 0x40, subcycle := 3, enable_interrupt := True,
      interrupt_mask := 2, latched_interrupts := 2\<rparr>) (boot_machine (\<lambda>_. 0))"
  define s' where "s' = upd_thr 0 1 (\<lambda>th. th\<lparr>latched_interrupts := 0\<rparr>) (try_to_dispatch_interrupt 0 1 s)"
  have th: "enable_interrupt (thr s 0 1)" "get_pending_interrupts 0 1 s AND interrupt_mask (thr s 0 1) \<noteq> 0"
    "pc (thr s 0 1) = 0x40" "subcycle (thr s 0 1) = 3" "is_level_triggered (cores s 0) = 0"
    by (simp_all add: s_def get_pending_interrupts_def boot_machine_def init_core_def upd_thr_def thr_def)
  have "get_pending_interrupts 0 1 s' AND interrupt_mask (thr s' 0 1) = 0"
    by (simp add: s'_def get_pending_interrupts_def try_to_dispatch_pointwise th)
  then show ?thesis
    using interrupt_resumes [OF th(1,2) _ s'_def] th
    unfolding Let_def s_def [symmetric] s'_def [symmetric] by simp
qed

text \<open>
  \<open>raise_interrupt\<close> reaches every thread of every core and no other: each one latches the
  lines, and one that has interrupts enabled and one of its unmasked lines pending enters its
  trap handler with interrupts off, all independently of the other threads.
\<close>

theorem raise_interrupt_all_threads:
  assumes "s' = raise_interrupt bits s"
  shows "thr s' c t = (if c < num_cores s \<and> t < threads_per_core s
      then latch_and_deliver (cores s c) (interrupt_levels s OR bits) bits (thr s c t) else thr s c t)
    \<and> interrupt_levels s' = interrupt_levels s OR bits \<and> memory s' = memory s \<and> crashed s' = crashed s"
  unfolding assms by (simp add: raise_interrupt_pointwise Let_def thr_def deliver_core_def)

theorem raise_interrupt_all_threads_witness:
  "let s = upd_thr 0 2 (\<lambda>th. th\<lparr>enable_interrupt := True, interrupt_mask := 2\<rparr>) (boot_machine (\<lambda>_. 0));
       s' = raise_interrupt 2 s
   in thr s' 0 2 = latch_and_deliver (cores s 0) 2 2 (thr s 0 2)
      \<and> \<not> enable_interrupt (thr s' 0 2) \<and> latched_interrupts (thr s' 0 1) = 2"
proof -
  define s where "s = upd_thr 0 2 (\<lambda>th. th\<lparr>enable_interrupt := True, interrupt_mask := 2\<rparr>) (boot_machine (\<lambda>_. 0))"
  have th: "thr s 0 2 = (init_thread 2)\<lparr>enable_interrupt := True, interrupt_mask := 2\<rparr>"
    "thr s 0 (Suc 0) = init_thread 1" "is_level_triggered (cores s 0) = 0" "interrupt_levels s = 0"
    "num_cores s = 1" "threads_per_core s = 4"
    by (simp_all add: s_def boot_machine_def thr_def init_core_def upd_thr_def)
  have "thr (raise_interrupt 2 s) 0 2 = latch_and_deliver (cores s 0) 2 2 (thr s 0 2)"
    "thr (raise_interrupt 2 s) 0 1 = latch_and_deliver (cores s 0) 2 2 (thr s 0 1)"
    using raise_interrupt_all_threads [OF refl, of 2 s 0 2]
      raise_interrupt_all_threads [OF refl, of 2 s 0 1] th by simp_all
  then show ?thesis
    by (simp add: s_def [symmetric] Let_def latch_and_deliver_def interrupted_thread_def th
        init_thread_def enter_trap_def)
qed

end
