(* ===== verification/Emu_Mmu.thy ===== *)
theory Emu_Mmu
  imports Emu_Trap
begin

text \<open>
  Address translation and the TLBs of \<open>tools/emulator/processor.c\<close>: \<open>translate_address\<close> and
  \<open>execute_cache_control_inst\<close>. A TLB is an array of 16 sets of 4 ways. The lemmas show what a
  successful translation guarantees, that an inserted entry is found and an invalidated one is
  not, and that entries stay in the set that their address selects.
\<close>

definition tlb_set :: "u32 \<Rightarrow> nat" where
  "tlb_set va = unat (va div PAGE_SIZE) mod TLB_SETS"

definition tlb_match :: "u32 \<Rightarrow> u32 \<Rightarrow> tlb_entry \<Rightarrow> bool" where
  "tlb_match asid' page e \<longleftrightarrow> virtual_address e = page
     \<and> (phys_addr_and_flags e AND TLB_GLOBAL \<noteq> 0 \<or> tlb_asid e = asid')"

definition find_way :: "(nat \<Rightarrow> tlb_entry) \<Rightarrow> u32 \<Rightarrow> u32 \<Rightarrow> nat option" where
  "find_way tlb asid' page =
     find (\<lambda>way. tlb_match asid' page (tlb (tlb_set page * TLB_WAYS + way))) [0..<TLB_WAYS]"

text \<open>The checks on a matching entry, in the order of the code.\<close>

definition tlb_fault :: "bool \<Rightarrow> bool \<Rightarrow> bool \<Rightarrow> u32 \<Rightarrow> trap_type option" where
  "tlb_fault supervisor is_store is_data_access flags =
     (if flags AND TLB_PRESENT = 0 then Some TT_PAGE_FAULT
      else if flags AND TLB_SUPERVISOR \<noteq> 0 \<and> \<not> supervisor then Some TT_SUPERVISOR_ACCESS
      else if flags AND TLB_EXECUTABLE = 0 \<and> \<not> is_data_access then Some TT_NOT_EXECUTABLE
      else if is_store \<and> flags AND TLB_WRITE_ENABLE = 0 then Some TT_ILLEGAL_STORE
      else None)"

definition translate_address ::
  "nat \<Rightarrow> nat \<Rightarrow> u32 \<Rightarrow> bool \<Rightarrow> bool \<Rightarrow> machine \<Rightarrow> u32 option \<times> machine" where
  "translate_address c t va is_store is_data_access s =
   (let th = thr s c t; tlb = (if is_data_access then dtlb (cores s c) else itlb (cores s c)) in
    if \<not> enable_mmu th then
      (if memory_size s \<le> va \<and> va < DEVICE_BASE_ADDRESS then (None, s\<lparr>crashed := True\<rparr>)
       else (Some va, s))
    else case find_way tlb (asid th) (ROUND_TO_PAGE va) of
      None \<Rightarrow> (None, raise_trap c t va TT_TLB_MISS is_store is_data_access 0 s)
    | Some way \<Rightarrow>
        let flags = phys_addr_and_flags (tlb (tlb_set va * TLB_WAYS + way));
            pa = ROUND_TO_PAGE flags OR PAGE_OFFSET va
        in case tlb_fault (enable_supervisor th) is_store is_data_access flags of
          Some TT_NOT_EXECUTABLE \<Rightarrow> (None, raise_trap c t va TT_NOT_EXECUTABLE False False 0 s)
        | Some TT_ILLEGAL_STORE \<Rightarrow> (None, raise_trap c t va TT_ILLEGAL_STORE True is_data_access 0 s)
        | Some ty \<Rightarrow> (None, raise_trap c t va ty is_store is_data_access 0 s)
        | None \<Rightarrow>
            if memory_size s \<le> pa \<and> pa < DEVICE_BASE_ADDRESS then (None, s\<lparr>crashed := True\<rparr>)
            else (Some pa, s))"

subsection \<open>Cache control\<close>

text \<open>The cases \<open>CC_DTLB_INSERT\<close> and \<open>CC_ITLB_INSERT\<close> on one TLB and its way counter.\<close>

definition tlb_insert ::
  "u32 \<Rightarrow> u32 \<Rightarrow> u32 \<Rightarrow> (nat \<Rightarrow> tlb_entry) \<Rightarrow> nat \<Rightarrow> (nat \<Rightarrow> tlb_entry)" where
  "tlb_insert asid' page phys tlb next_way =
     (case find_way tlb asid' page of
        Some way \<Rightarrow>
          let i = tlb_set page * TLB_WAYS + way in tlb(i := (tlb i)\<lparr>phys_addr_and_flags := phys\<rparr>)
      | None \<Rightarrow>
          let i = tlb_set page * TLB_WAYS + next_way
          in tlb(i := (tlb i)\<lparr>virtual_address := page, phys_addr_and_flags := phys, tlb_asid := asid'\<rparr>))"

definition tlb_invalidate :: "u32 \<Rightarrow> (nat \<Rightarrow> tlb_entry) \<Rightarrow> nat \<Rightarrow> tlb_entry" where
  "tlb_invalidate page tlb = (\<lambda>i.
     if tlb_set page * TLB_WAYS \<le> i \<and> i < tlb_set page * TLB_WAYS + TLB_WAYS
        \<and> virtual_address (tlb i) = page
     then (tlb i)\<lparr>virtual_address := INVALID_ADDR\<rparr> else tlb i)"

definition tlb_invalidate_all :: "(nat \<Rightarrow> tlb_entry) \<Rightarrow> nat \<Rightarrow> tlb_entry" where
  "tlb_invalidate_all tlb = (\<lambda>i. if i < TLB_SETS * TLB_WAYS
     then (tlb i)\<lparr>virtual_address := INVALID_ADDR\<rparr> else tlb i)"

definition reg_field :: "u32 \<Rightarrow> nat \<Rightarrow> nat" where
  "reg_field instruction low = unat (extract_unsigned_bits instruction low 5)"

definition execute_cache_control_inst :: "nat \<Rightarrow> nat \<Rightarrow> u32 \<Rightarrow> machine \<Rightarrow> machine" where
  "execute_cache_control_inst c t instruction s =
   (let op = extract_unsigned_bits instruction 25 3;
        th = thr s c t;
        ptr = scalar_reg th (reg_field instruction 0);
        offset = extract_signed_bits instruction 15 10;
        privileged = raise_trap c t 0 TT_PRIVILEGED_OP False False 0 s
    in if op = CC_DINVALIDATE \<and> \<not> enable_supervisor th then privileged
       else if op = CC_DINVALIDATE \<or> op = CC_DFLUSH
       then snd (translate_address c t (ptr + offset) False True s)
       else if op = CC_DTLB_INSERT \<or> op = CC_ITLB_INSERT then
         (if \<not> enable_supervisor th then privileged
          else let page = ROUND_TO_PAGE ptr; phys = scalar_reg th (reg_field instruction 5) in
            if op = CC_DTLB_INSERT
            then upd_core c (\<lambda>co. co\<lparr>dtlb := tlb_insert (asid th) page phys (dtlb co) (next_dtlb_way co),
                   next_dtlb_way := (next_dtlb_way co + 1) mod TLB_WAYS\<rparr>) s
            else upd_core c (\<lambda>co. co\<lparr>itlb := tlb_insert (asid th) page phys (itlb co) (next_itlb_way co),
                   next_itlb_way := (next_itlb_way co + 1) mod TLB_WAYS\<rparr>) s)
       else if op = CC_INVALIDATE_TLB then
         (if \<not> enable_supervisor th then privileged
          else let page = ROUND_TO_PAGE (ptr + offset) in
            upd_core c (\<lambda>co. co\<lparr>itlb := tlb_invalidate page (itlb co),
              dtlb := tlb_invalidate page (dtlb co)\<rparr>) s)
       else if op = CC_INVALIDATE_TLB_ALL then
         (if \<not> enable_supervisor th then privileged
          else upd_core c (\<lambda>co. co\<lparr>itlb := tlb_invalidate_all (itlb co),
                 dtlb := tlb_invalidate_all (dtlb co)\<rparr>) s)
       else s)"

subsection \<open>Pages\<close>

lemma page_masks: "PAGE_SIZE - 1 = (mask 12 :: u32)"
  by (simp add: mask_eq_exp_minus_1)

lemma bit_page:
  "bit (ROUND_TO_PAGE a) i \<longleftrightarrow> 12 \<le> i \<and> bit a i"
  "bit (PAGE_OFFSET a) i \<longleftrightarrow> i < 12 \<and> bit a i"
  unfolding ROUND_TO_PAGE_def PAGE_OFFSET_def page_masks
  by (auto simp: bit_simps dest: bit_imp_le_length)

lemma page_compose [simp]:
  "ROUND_TO_PAGE (ROUND_TO_PAGE a OR PAGE_OFFSET b) = ROUND_TO_PAGE a"
  "PAGE_OFFSET (ROUND_TO_PAGE a OR PAGE_OFFSET b) = PAGE_OFFSET b"
  "ROUND_TO_PAGE (ROUND_TO_PAGE a) = ROUND_TO_PAGE a"
  "ROUND_TO_PAGE a OR PAGE_OFFSET a = a"
  by (rule bit_word_eqI, auto simp: bit_page bit_simps)+

lemma page_offset_low:
  "k \<le> 12 \<Longrightarrow> PAGE_OFFSET a = PAGE_OFFSET b \<Longrightarrow> a AND mask k = b AND mask k"
  by (rule bit_word_eqI) (metis bit_page(2) bit_and_iff bit_mask_iff less_le_trans)

lemma tlb_set_page [simp]: "tlb_set (ROUND_TO_PAGE va) = tlb_set va"
proof -
  have "(0x1000 :: u32) = 2 ^ 12" by simp
  moreover have "drop_bit 12 (ROUND_TO_PAGE va) = drop_bit 12 va"
    by (rule bit_word_eqI) (simp add: bit_drop_bit_eq bit_page)
  ultimately have "ROUND_TO_PAGE va div 0x1000 = va div 0x1000"
    by (metis drop_bit_eq_div)
  then show ?thesis by (simp add: tlb_set_def)
qed

lemma tlb_set_bound [simp]: "tlb_set va < 16"
  by (simp add: tlb_set_def)

lemma reg_field_bound [simp]: "reg_field i lo < 32"
  using extract_unsigned_bits_bound [of i lo 5] by (simp add: reg_field_def)

subsection \<open>Finding an entry\<close>

lemma find_way_Some:
  assumes "find_way tlb a page = Some way"
  shows "way < 4" "tlb_match a page (tlb (tlb_set page * 4 + way))"
  using assms by (auto simp: find_way_def find_Some_iff)

lemma find_way_None:
  "find_way tlb a page = None \<longleftrightarrow> (\<forall>way<4. \<not> tlb_match a page (tlb (tlb_set page * 4 + way)))"
  by (simp add: find_way_def find_None_iff atLeast0LessThan [symmetric] del: upt.simps)

lemma find_way_cong:
  assumes "\<And>way. way < 4 \<Longrightarrow> tlb_match a page (tlb (tlb_set page * 4 + way))
      = tlb_match a page (tlb' (tlb_set page * 4 + way))"
  shows "find_way tlb a page = find_way tlb' a page"
  unfolding find_way_def by (rule find_cong) (use assms in auto)

lemma set_index_inject:
  "w < 4 \<Longrightarrow> w' < 4 \<Longrightarrow> m * 4 + w = m' * 4 + w' \<longleftrightarrow> m = m' \<and> w = (w' :: nat)"
  by presburger

subsection \<open>Translation\<close>

lemma translate_address_result:
  obtains pa where "translate_address c t va st d s = (Some pa, s)"
  | "translate_address c t va st d s = (None, s\<lparr>crashed := True\<rparr>)"
  | ty st' d' where "translate_address c t va st d s = (None, raise_trap c t va ty st' d' 0 s)"
proof (cases "enable_mmu (thr s c t)")
  case False
  show thesis
  proof (cases "memory_size s \<le> va \<and> va < 0xffff0000")
    case True
    with False show thesis by (intro that(2)) (simp add: translate_address_def)
  next
    case in_range: False
    with False show thesis by (intro that(1)) (auto simp: translate_address_def)
  qed
next
  case mmu: True
  let ?tlb = "if d then dtlb (cores s c) else itlb (cores s c)"
  show thesis
  proof (cases "find_way ?tlb (asid (thr s c t)) (ROUND_TO_PAGE va)")
    case None
    with mmu show thesis by (intro that(3)) (simp add: translate_address_def)
  next
    case (Some way)
    let ?flags = "phys_addr_and_flags (?tlb (tlb_set va * 4 + way))"
    show thesis
    proof (cases "tlb_fault (enable_supervisor (thr s c t)) st d ?flags")
      case no_fault: None
      let ?pa = "ROUND_TO_PAGE ?flags OR PAGE_OFFSET va"
      show thesis
      proof (cases "memory_size s \<le> ?pa \<and> ?pa < 0xffff0000")
        case True
        with mmu Some no_fault show thesis by (intro that(2)) (simp add: translate_address_def Let_def)
      next
        case False
        with mmu Some no_fault show thesis by (intro that(1)) (auto simp: translate_address_def Let_def)
      qed
    next
      case fault: (Some ty)
      with mmu Some show thesis by (cases ty) (auto simp: translate_address_def Let_def intro: that(3))
    qed
  qed
qed

lemma translate_address_ok:
  assumes "machine_ok s" "single_core s"
  shows "machine_ok (snd (translate_address c t va st d s))" "single_core (snd (translate_address c t va st d s))"
  using assms by (cases c t va st d s rule: translate_address_result; simp)+

lemma translate_Some_state:
  assumes "translate_address c t va st d s = (Some pa, s')"
  shows "s' = s" "pa < memory_size s \<or> DEVICE_BASE_ADDRESS \<le> pa" "PAGE_OFFSET pa = PAGE_OFFSET va"
  using assms
  by (auto simp: translate_address_def Let_def split: option.splits trap_type.splits if_splits)

lemma tlb_fault_None:
  "tlb_fault su st d flags = None \<longleftrightarrow> flags AND TLB_PRESENT \<noteq> 0
     \<and> (flags AND TLB_SUPERVISOR \<noteq> 0 \<longrightarrow> su) \<and> (\<not> d \<longrightarrow> flags AND TLB_EXECUTABLE \<noteq> 0)
     \<and> (st \<longrightarrow> flags AND TLB_WRITE_ENABLE \<noteq> 0)"
  by (auto simp: tlb_fault_def)

lemma translate_found:
  assumes "enable_mmu (thr s c t)"
    and "find_way (if d then dtlb (cores s c) else itlb (cores s c)) (asid (thr s c t)) (ROUND_TO_PAGE va) = Some way"
    and "flags = phys_addr_and_flags ((if d then dtlb (cores s c) else itlb (cores s c)) (tlb_set va * 4 + way))"
    and "tlb_fault (enable_supervisor (thr s c t)) st d flags = None"
    and "ROUND_TO_PAGE flags OR PAGE_OFFSET va < memory_size s
       \<or> DEVICE_BASE_ADDRESS \<le> ROUND_TO_PAGE flags OR PAGE_OFFSET va"
  shows "translate_address c t va st d s = (Some (ROUND_TO_PAGE flags OR PAGE_OFFSET va), s)"
  using assms by (auto simp: translate_address_def Let_def)

lemma translate_missing:
  assumes "enable_mmu (thr s c t)"
    and "find_way (if d then dtlb (cores s c) else itlb (cores s c)) (asid (thr s c t)) (ROUND_TO_PAGE va) = None"
  shows "translate_address c t va st d s = (None, raise_trap c t va TT_TLB_MISS st d 0 s)"
  using assms by (simp add: translate_address_def Let_def)

subsection \<open>Inserting and invalidating\<close>

lemma find_way_insert:
  assumes n: "n < 4"
    and keep: "\<And>w. find_way tlb a page = Some w \<Longrightarrow>
      phys AND TLB_GLOBAL \<noteq> 0 \<or> tlb_asid (tlb (tlb_set page * 4 + w)) = a"
  obtains way where "find_way (tlb_insert a page phys tlb n) a page = Some way"
    and "phys_addr_and_flags (tlb_insert a page phys tlb n (tlb_set page * 4 + way)) = phys"
proof (cases "find_way tlb a page")
  case None
  let ?tlb = "tlb_insert a page phys tlb n"
  have new: "?tlb (tlb_set page * 4 + n) = (tlb (tlb_set page * 4 + n))
      \<lparr>virtual_address := page, phys_addr_and_flags := phys, tlb_asid := a\<rparr>"
    using None by (simp add: tlb_insert_def Let_def)
  have other: "\<not> tlb_match a page (?tlb (tlb_set page * 4 + w))" if "w < 4" "w \<noteq> n" for w
    using None that find_way_None [of tlb a page] by (simp add: tlb_insert_def Let_def)
  have "find_way ?tlb a page \<noteq> None"
    unfolding find_way_None using n new by (auto simp: tlb_match_def)
  then obtain way where way: "find_way ?tlb a page = Some way" by auto
  with other find_way_Some [OF way] have "way = n" by metis
  with way new show thesis by (intro that) auto
next
  case (Some w)
  let ?i = "tlb_set page * 4 + w"
  have up: "tlb_insert a page phys tlb n = tlb(?i := (tlb ?i)\<lparr>phys_addr_and_flags := phys\<rparr>)"
    using Some by (simp add: tlb_insert_def Let_def)
  have "tlb_match a page (tlb (tlb_set page * 4 + v))
      = tlb_match a page (tlb_insert a page phys tlb n (tlb_set page * 4 + v))" for v
    using find_way_Some [OF Some] keep [OF Some] by (auto simp: up tlb_match_def)
  then have "find_way (tlb_insert a page phys tlb n) a page = Some w"
    using Some find_way_cong by metis
  then show thesis by (intro that) (auto simp: up)
qed

lemma find_way_insert_other:
  assumes "tlb_set page' \<noteq> tlb_set page" "n < 4"
  shows "find_way (tlb_insert a page phys tlb n) a' page' = find_way tlb a' page'"
proof (rule find_way_cong)
  fix v :: nat
  assume "v < 4"
  then have "tlb_insert a page phys tlb n (tlb_set page' * 4 + v) = tlb (tlb_set page' * 4 + v)"
    using assms find_way_Some(1) [of tlb a page]
    by (auto simp: tlb_insert_def Let_def set_index_inject split: option.split)
  then show "tlb_match a' page' (tlb_insert a page phys tlb n (tlb_set page' * 4 + v))
      = tlb_match a' page' (tlb (tlb_set page' * 4 + v))" by simp
qed

lemma find_way_invalidate:
  "find_way (tlb_invalidate (ROUND_TO_PAGE va) tlb) a (ROUND_TO_PAGE va) = None"
  unfolding find_way_None
  using initial_tlb_unaligned [of va] by (auto simp: tlb_invalidate_def tlb_match_def)

lemma find_way_invalidate_other:
  "page \<noteq> ROUND_TO_PAGE va \<Longrightarrow> page \<noteq> INVALID_ADDR
     \<Longrightarrow> find_way (tlb_invalidate (ROUND_TO_PAGE va) tlb) a page = find_way tlb a page"
  by (rule find_way_cong) (auto simp: tlb_invalidate_def tlb_match_def)

lemma find_way_invalidate_all: "find_way (tlb_invalidate_all tlb) a (ROUND_TO_PAGE va) = None"
proof -
  have "tlb_set va * 4 + way < 64" if "way < 4" for way
    using that tlb_set_bound [of va] by linarith
  then show ?thesis
    unfolding find_way_None
    using initial_tlb_unaligned [of va] by (auto simp: tlb_invalidate_all_def tlb_match_def)
qed

lemma execute_cache_control_inst_ok:
  assumes "machine_ok s" "single_core s"
  shows "machine_ok (execute_cache_control_inst c t i s)" "single_core (execute_cache_control_inst c t i s)"
  using assms translate_address_ok [OF assms]
  by (auto simp: execute_cache_control_inst_def Let_def intro!: machine_ok_upd_core)
    (simp_all add: machine_ok_def)

subsection \<open>What a translation guarantees\<close>

lemma translate_protected:
  assumes "enable_mmu (thr s c t)" "translate_address c t va is_store is_data s = (Some pa, s')"
  shows "s' = s \<and> (\<exists>e. e \<in> range (if is_data then dtlb (cores s c) else itlb (cores s c))
     \<and> virtual_address e = ROUND_TO_PAGE va
     \<and> (phys_addr_and_flags e AND TLB_GLOBAL \<noteq> 0 \<or> tlb_asid e = asid (thr s c t))
     \<and> phys_addr_and_flags e AND TLB_PRESENT \<noteq> 0
     \<and> (phys_addr_and_flags e AND TLB_SUPERVISOR \<noteq> 0 \<longrightarrow> enable_supervisor (thr s c t))
     \<and> (\<not> is_data \<longrightarrow> phys_addr_and_flags e AND TLB_EXECUTABLE \<noteq> 0)
     \<and> (is_store \<longrightarrow> phys_addr_and_flags e AND TLB_WRITE_ENABLE \<noteq> 0)
     \<and> ROUND_TO_PAGE pa = ROUND_TO_PAGE (phys_addr_and_flags e))
     \<and> PAGE_OFFSET pa = PAGE_OFFSET va \<and> (pa < memory_size s \<or> DEVICE_BASE_ADDRESS \<le> pa)"
proof -
  let ?tlb = "if is_data then dtlb (cores s c) else itlb (cores s c)"
  note st = translate_Some_state [OF assms(2)]
  from assms obtain way where way: "find_way ?tlb (asid (thr s c t)) (ROUND_TO_PAGE va) = Some way"
    and ok: "tlb_fault (enable_supervisor (thr s c t)) is_store is_data
        (phys_addr_and_flags (?tlb (tlb_set va * 4 + way))) = None"
    and pa: "pa = ROUND_TO_PAGE (phys_addr_and_flags (?tlb (tlb_set va * 4 + way))) OR PAGE_OFFSET va"
    by (auto simp: translate_address_def Let_def split: option.splits trap_type.splits if_splits)
  have m: "tlb_match (asid (thr s c t)) (ROUND_TO_PAGE va) (?tlb (tlb_set va * 4 + way))"
    using find_way_Some(2) [OF way] by simp
  show ?thesis
    using st ok m pa unfolding tlb_fault_None tlb_match_def
    by (intro conjI exI [of _ "?tlb (tlb_set va * 4 + way)"] rangeI) simp_all
qed

lemma find_way_entries:
  assumes "entries = filter (tlb_match a page) (map (\<lambda>way. tlb (tlb_set page * TLB_WAYS + way)) [0..<TLB_WAYS])"
  shows "entries = [] \<Longrightarrow> find_way tlb a page = None"
    and "entries = e # rest \<Longrightarrow> \<exists>way. find_way tlb a page = Some way \<and> tlb (tlb_set page * TLB_WAYS + way) = e"
proof -
  have upt: "[0..<4] = [0, 1, 2, 3 :: nat]" by (simp add: upt_rec)
  show "entries = [] \<Longrightarrow> find_way tlb a page = None"
    using assms by (simp add: find_way_def upt split: if_splits)
  show "entries = e # rest \<Longrightarrow> \<exists>way. find_way tlb a page = Some way \<and> tlb (tlb_set page * TLB_WAYS + way) = e"
    using assms by (simp add: find_way_def upt split: if_splits)
qed

text \<open>The outcomes for a matching entry.\<close>

lemma decision_order:
  fixes pa :: "'w::linorder"
  shows "(if np then a else if \<not> ns \<and> \<not> u then b else if nx \<and> \<not> d then x else if st \<and> nw then w
     else if size' \<le> pa \<and> pa < dev' then crash else ok) =
   (if \<not> np \<and> (\<not> ns \<longrightarrow> u) \<and> (\<not> d \<longrightarrow> \<not> nx) \<and> (st \<longrightarrow> \<not> nw) then (if pa < size' \<or> dev' \<le> pa then ok else crash)
    else if np then a else if \<not> ns \<and> \<not> u then b else if \<not> d \<and> nx then x else w)"
  by (cases "size' \<le> pa"; cases "pa < dev'") (auto simp: not_le not_less)

lemma translate_checked:
  assumes mmu: "enable_mmu (thr s c t)"
    and way: "find_way (if d then dtlb (cores s c) else itlb (cores s c)) (asid (thr s c t)) (ROUND_TO_PAGE va) = Some way"
    and flags: "flags = phys_addr_and_flags ((if d then dtlb (cores s c) else itlb (cores s c)) (tlb_set va * TLB_WAYS + way))"
  shows "translate_address c t va st d s =
    (if flags AND TLB_PRESENT = 0 then (None, raise_trap c t va TT_PAGE_FAULT st d 0 s)
     else if flags AND TLB_SUPERVISOR \<noteq> 0 \<and> \<not> enable_supervisor (thr s c t)
     then (None, raise_trap c t va TT_SUPERVISOR_ACCESS st d 0 s)
     else if flags AND TLB_EXECUTABLE = 0 \<and> \<not> d then (None, raise_trap c t va TT_NOT_EXECUTABLE False False 0 s)
     else if st \<and> flags AND TLB_WRITE_ENABLE = 0 then (None, raise_trap c t va TT_ILLEGAL_STORE True d 0 s)
     else if memory_size s \<le> ROUND_TO_PAGE flags OR PAGE_OFFSET va \<and> ROUND_TO_PAGE flags OR PAGE_OFFSET va < DEVICE_BASE_ADDRESS
     then (None, s\<lparr>crashed := True\<rparr>)
     else (Some (ROUND_TO_PAGE flags OR PAGE_OFFSET va), s))"
  using mmu way unfolding flags translate_address_def Let_def tlb_fault_def by simp

subsection \<open>Properties\<close>

text \<open>
  C5: memory protection with the MMU on, as a decision over the entries of the address's set that
  match it (same page, and global or of the thread's address space). Without one the access traps
  to the TLB miss handler. Otherwise the first match decides: an entry that is not present, a
  supervisor page in user mode, a fetch from a page that is not executable and a store to a page
  that is not writable raise, in this order, the trap of that name; a permitted access returns the
  entry's frame with the offset of the address and leaves the machine unchanged, except that a
  frame outside memory and below the device range stops the emulator.
\<close>

theorem translate_address_protection:
  assumes mmu: "enable_mmu (thr s c t)"
    and tlb: "tlb = (if is_data then dtlb (cores s c) else itlb (cores s c))"
    and entries: "entries = filter (\<lambda>e. virtual_address e = ROUND_TO_PAGE va
          \<and> (phys_addr_and_flags e AND TLB_GLOBAL \<noteq> 0 \<or> tlb_asid e = asid (thr s c t)))
        (map (\<lambda>way. tlb (tlb_set va * TLB_WAYS + way)) [0..<TLB_WAYS])"
  shows "translate_address c t va is_store is_data s =
    (case entries of
       [] \<Rightarrow> (None, raise_trap c t va TT_TLB_MISS is_store is_data 0 s)
     | e # _ \<Rightarrow>
         let flags = phys_addr_and_flags e; pa = ROUND_TO_PAGE flags OR PAGE_OFFSET va in
         if flags AND TLB_PRESENT \<noteq> 0
            \<and> (flags AND TLB_SUPERVISOR \<noteq> 0 \<longrightarrow> enable_supervisor (thr s c t))
            \<and> (\<not> is_data \<longrightarrow> flags AND TLB_EXECUTABLE \<noteq> 0)
            \<and> (is_store \<longrightarrow> flags AND TLB_WRITE_ENABLE \<noteq> 0)
         then (if pa < memory_size s \<or> DEVICE_BASE_ADDRESS \<le> pa then (Some pa, s)
               else (None, s\<lparr>crashed := True\<rparr>))
         else if flags AND TLB_PRESENT = 0
         then (None, raise_trap c t va TT_PAGE_FAULT is_store is_data 0 s)
         else if flags AND TLB_SUPERVISOR \<noteq> 0 \<and> \<not> enable_supervisor (thr s c t)
         then (None, raise_trap c t va TT_SUPERVISOR_ACCESS is_store is_data 0 s)
         else if \<not> is_data \<and> flags AND TLB_EXECUTABLE = 0
         then (None, raise_trap c t va TT_NOT_EXECUTABLE False False 0 s)
         else (None, raise_trap c t va TT_ILLEGAL_STORE True is_data 0 s))"
proof -
  have m: "entries = filter (tlb_match (asid (thr s c t)) (ROUND_TO_PAGE va))
      (map (\<lambda>way. tlb (tlb_set (ROUND_TO_PAGE va) * TLB_WAYS + way)) [0..<TLB_WAYS])"
    unfolding entries by (simp add: tlb_match_def [abs_def] del: upt.simps)
  show ?thesis
  proof (cases entries)
    case Nil
    have "translate_address c t va is_store is_data s = (None, raise_trap c t va TT_TLB_MISS is_store is_data 0 s)"
      using find_way_entries(1) [OF m Nil] by (intro translate_missing [OF mmu]) (simp add: tlb)
    with Nil show ?thesis by simp
  next
    case (Cons e rest)
    obtain way where way: "find_way tlb (asid (thr s c t)) (ROUND_TO_PAGE va) = Some way" "tlb (tlb_set va * 4 + way) = e"
      using find_way_entries(2) [OF m Cons] by auto
    show ?thesis
      unfolding Cons list.case Let_def way(2) [symmetric] decision_order [symmetric] unfolding tlb
      by (rule translate_checked [OF mmu way(1) [unfolded tlb] refl])
  qed
qed

text \<open>
  after a supervisor thread has executed the instruction that inserts a data TLB entry, every
  address of that page translates in its address space to the new frame, for the accesses that
  the new flags allow. The condition excludes replacing another address space's global entry by
  a non-global one.
\<close>

theorem dtlb_insert_translates:
  assumes ok: "machine_ok s" and super: "enable_supervisor (thr s c t)" "enable_mmu (thr s c t)"
    and op: "extract_unsigned_bits i 25 3 = CC_DTLB_INSERT"
    and page: "ROUND_TO_PAGE va = ROUND_TO_PAGE (scalar_reg (thr s c t) (reg_field i 0))"
    and phys: "phys = scalar_reg (thr s c t) (reg_field i 5)"
    and keep: "\<And>w. find_way (dtlb (cores s c)) (asid (thr s c t)) (ROUND_TO_PAGE va) = Some w \<Longrightarrow>
      phys AND TLB_GLOBAL \<noteq> 0 \<or> tlb_asid (dtlb (cores s c) (tlb_set va * 4 + w)) = asid (thr s c t)"
    and allowed: "tlb_fault True is_store True phys = None"
    and inside: "ROUND_TO_PAGE phys OR PAGE_OFFSET va < memory_size s"
  shows "translate_address c t va is_store True (execute_cache_control_inst c t i s)
    = (Some (ROUND_TO_PAGE phys OR PAGE_OFFSET va), execute_cache_control_inst c t i s)"
proof -
  let ?s = "execute_cache_control_inst c t i s" and ?n = "next_dtlb_way (cores s c)"
  let ?a = "asid (thr s c t)"
  have s': "?s = upd_core c (\<lambda>co. co\<lparr>dtlb := tlb_insert ?a (ROUND_TO_PAGE va) phys (dtlb co) (next_dtlb_way co),
      next_dtlb_way := (next_dtlb_way co + 1) mod 4\<rparr>) s"
    using super op by (simp add: execute_cache_control_inst_def Let_def page phys)
  have "?n < 4" using ok by (simp add: machine_ok_def)
  with keep obtain way where "find_way (dtlb (cores ?s c)) ?a (ROUND_TO_PAGE va) = Some way"
    "phys_addr_and_flags (dtlb (cores ?s c) (tlb_set va * 4 + way)) = phys"
    using find_way_insert [of ?n "dtlb (cores s c)" ?a "ROUND_TO_PAGE va" phys]
    by (auto simp: s')
  then show ?thesis
    using super allowed inside
    by (intro translate_found [where way = way]) (simp_all add: s' thr_upd_core thr_def [symmetric])
qed

text \<open>
  after a supervisor thread has executed a TLB invalidation for a page, any access to that
  page with the MMU on, fetch or data, misses the TLB and traps to the TLB miss handler, in every
  thread of the core.
\<close>

theorem tlb_invalidate_misses:
  assumes super: "enable_supervisor (thr s c t)"
    and op: "extract_unsigned_bits i 25 3 = CC_INVALIDATE_TLB"
    and page: "ROUND_TO_PAGE va = ROUND_TO_PAGE (scalar_reg (thr s c t) (reg_field i 0)
      + extract_signed_bits i 15 10)"
    and mmu: "enable_mmu (thr s c t')"
    and result: "s' = execute_cache_control_inst c t i s"
  shows "translate_address c t' va is_store is_data s'
    = (None, raise_trap c t' va TT_TLB_MISS is_store is_data 0 s')"
proof -
  have s': "s' = upd_core c (\<lambda>co. co\<lparr>itlb := tlb_invalidate (ROUND_TO_PAGE va) (itlb co),
      dtlb := tlb_invalidate (ROUND_TO_PAGE va) (dtlb co)\<rparr>) s"
    using super op unfolding result by (simp add: execute_cache_control_inst_def Let_def page)
  show ?thesis
    using mmu by (intro translate_missing)
      (simp_all add: s' thr_upd_core thr_def [symmetric] find_way_invalidate)
qed

text \<open>
  \<open>CC_DTLB_INSERT\<close> matches an entry of another address space when that entry is global, but
  then replaces only its frame and flags and not its address space: when the new flags are not
  global and the page had no other match, the page still misses in the address space that has
  just inserted it.
\<close>

theorem dtlb_insert_keeps_foreign_asid:
  assumes super: "enable_supervisor (thr s c t)"
    and op: "extract_unsigned_bits i 25 3 = CC_DTLB_INSERT"
    and page: "ROUND_TO_PAGE va = ROUND_TO_PAGE (scalar_reg (thr s c t) (reg_field i 0))"
    and local: "scalar_reg (thr s c t) (reg_field i 5) AND TLB_GLOBAL = 0"
    and w: "w < 4" and other: "virtual_address (dtlb (cores s c) (tlb_set va * 4 + w)) = ROUND_TO_PAGE va"
      "phys_addr_and_flags (dtlb (cores s c) (tlb_set va * 4 + w)) AND TLB_GLOBAL \<noteq> 0"
      "tlb_asid (dtlb (cores s c) (tlb_set va * 4 + w)) \<noteq> asid (thr s c t)"
    and unique: "\<And>v. v < 4 \<Longrightarrow> v \<noteq> w \<Longrightarrow> virtual_address (dtlb (cores s c) (tlb_set va * 4 + v)) \<noteq> ROUND_TO_PAGE va"
    and mmu: "enable_mmu (thr s c t)" and result: "s' = execute_cache_control_inst c t i s"
  shows "translate_address c t va is_store True s'
    = (None, raise_trap c t va TT_TLB_MISS is_store True 0 s')"
proof -
  let ?a = "asid (thr s c t)" and ?tlb = "dtlb (cores s c)" and ?i = "tlb_set va * 4 + w"
  have only: "tlb_match ?a (ROUND_TO_PAGE va) (?tlb (tlb_set va * 4 + v)) \<longleftrightarrow> v = w" if "v < 4" for v
    using that other unique by (auto simp: tlb_match_def)
  have "find_way ?tlb ?a (ROUND_TO_PAGE va) \<noteq> None"
    unfolding find_way_None using only [OF w] w by auto
  then obtain v where v: "find_way ?tlb ?a (ROUND_TO_PAGE va) = Some v" by auto
  with find_way_Some [OF v] only have found: "find_way ?tlb ?a (ROUND_TO_PAGE va) = Some w" by simp
  let ?new = "?tlb(?i := (?tlb ?i)\<lparr>phys_addr_and_flags := scalar_reg (thr s c t) (reg_field i 5)\<rparr>)"
  have tlb': "dtlb (cores s' c) = ?new"
    using super op found unfolding result
    by (simp add: execute_cache_control_inst_def Let_def page [symmetric] tlb_insert_def)
  have th': "thr s' c t = thr s c t"
    using super op unfolding result
    by (simp add: execute_cache_control_inst_def Let_def thr_upd_core thr_def [symmetric])
  have "find_way ?new ?a (ROUND_TO_PAGE va) = None"
    unfolding find_way_None using only other local by (auto simp: tlb_match_def)
  then show ?thesis using mmu tlb' th' by (intro translate_missing) simp_all
qed

subsection \<open>Examples\<close>

text \<open>Thread 0 with the MMU on, a page address in register 1 and a frame with flags in register 2.\<close>

definition mmu_machine :: machine where
  "mmu_machine = upd_thr 0 0 (\<lambda>th. th\<lparr>enable_mmu := True,
     scalar_reg := (\<lambda>r. if r = 1 then 0x5000 else if r = 2 then 0x7 else 0)\<rparr>) (boot_machine (\<lambda>_. 0))"

lemma mmu_machine_thread:
  "enable_mmu (thr mmu_machine 0 0)" "enable_supervisor (thr mmu_machine 0 0)"
  "asid (thr mmu_machine 0 0) = 0" "scalar_reg (thr mmu_machine 0 0) 1 = 0x5000"
  "scalar_reg (thr mmu_machine 0 0) 2 = 7" "memory_size mmu_machine = 0x1000"
  by (simp_all add: mmu_machine_def boot_machine_def thr_def upd_thr_def upd_core_def init_core_def
      init_thread_def)

lemma mmu_machine_ok: "machine_ok mmu_machine"
  by (simp add: mmu_machine_def)

lemma mmu_machine_tlb:
  "virtual_address (dtlb (cores mmu_machine 0) i) = 0xffffffff"
  by (simp add: mmu_machine_def boot_machine_def init_core_def)

lemma insert_example_fields:
  "extract_unsigned_bits 0xe0000041 25 3 = 0" "reg_field 0xe0000041 0 = 1" "reg_field 0xe0000041 5 = 2"
  by (simp_all add: extract_unsigned_bits_def reg_field_def)

theorem dtlb_insert_translates_witness:
  "machine_ok mmu_machine \<and> enable_mmu (thr mmu_machine 0 0) \<and>
   translate_address 0 0 0x5010 True True (execute_cache_control_inst 0 0 0xe0000041 mmu_machine)
     = (Some 0x10, execute_cache_control_inst 0 0 0xe0000041 mmu_machine)"
proof -
  have "find_way (dtlb (cores mmu_machine 0)) 0 (ROUND_TO_PAGE 0x5010) = None"
    unfolding find_way_None tlb_match_def mmu_machine_tlb using initial_tlb_unaligned by metis
  then have "translate_address 0 0 0x5010 True True (execute_cache_control_inst 0 0 0xe0000041 mmu_machine)
      = (Some (ROUND_TO_PAGE 7 OR PAGE_OFFSET 0x5010), execute_cache_control_inst 0 0 0xe0000041 mmu_machine)"
    by (intro dtlb_insert_translates)
      (simp_all add: mmu_machine_ok mmu_machine_thread mmu_machine_thread(4) [simplified] insert_example_fields [simplified] tlb_fault_def ROUND_TO_PAGE_def PAGE_OFFSET_def)
  then show ?thesis by (simp add: mmu_machine_ok mmu_machine_thread ROUND_TO_PAGE_def PAGE_OFFSET_def)
qed

lemma invalidate_example_fields:
  "extract_unsigned_bits 0xea000001 25 3 = 5" "reg_field 0xea000001 0 = 1"
  "extract_signed_bits 0xea000001 15 10 = 0"
  by (simp_all add: extract_unsigned_bits_def extract_signed_bits_def reg_field_def)

theorem tlb_invalidate_misses_witness:
  "enable_supervisor (thr mmu_machine 0 0) \<and> enable_mmu (thr mmu_machine 0 0) \<and>
   translate_address 0 0 0x5010 True True (execute_cache_control_inst 0 0 0xea000001 mmu_machine)
     = (None, raise_trap 0 0 0x5010 TT_TLB_MISS True True 0
                (execute_cache_control_inst 0 0 0xea000001 mmu_machine))"
proof -
  have "ROUND_TO_PAGE 0x5010 = ROUND_TO_PAGE (scalar_reg (thr mmu_machine 0 0) (reg_field 0xea000001 0)
      + extract_signed_bits 0xea000001 15 10)"
    unfolding invalidate_example_fields mmu_machine_thread by (simp add: ROUND_TO_PAGE_def)
  from tlb_invalidate_misses [OF mmu_machine_thread(2) invalidate_example_fields(1) this
      mmu_machine_thread(1) refl]
  show ?thesis by (simp add: mmu_machine_thread)
qed

text \<open>The same machine with an entry for the page at way 0 of its set.\<close>

definition mapped_machine :: "u32 \<Rightarrow> u32 \<Rightarrow> machine" where
  "mapped_machine a phys = upd_core 0 (\<lambda>co. co\<lparr>dtlb := (dtlb co)
     (tlb_set 0x5000 * 4 := \<lparr>tlb_asid = a, virtual_address = 0x5000, phys_addr_and_flags = phys\<rparr>)\<rparr>) mmu_machine"

lemma mapped_machine_thread [simp]: "thr (mapped_machine a phys) 0 0 = thr mmu_machine 0 0"
  by (simp add: mapped_machine_def thr_def)

lemma mapped_machine_size: "memory_size (mapped_machine a phys) = 0x1000"
  by (simp add: mapped_machine_def mmu_machine_thread)

lemma mapped_machine_tlb:
  "dtlb (cores (mapped_machine a phys) 0) (tlb_set 0x5010 * 4)
     = \<lparr>tlb_asid = a, virtual_address = 0x5000, phys_addr_and_flags = phys\<rparr>"
  "0 < v \<Longrightarrow> virtual_address (dtlb (cores (mapped_machine a phys) 0) (tlb_set 0x5010 * 4 + v)) = 0xffffffff"
  by (simp_all add: mapped_machine_def mmu_machine_tlb tlb_set_def)

lemma round_5010: "ROUND_TO_PAGE 0x5010 = 0x5000" "ROUND_TO_PAGE 0x5000 = 0x5000"
  by (simp_all add: ROUND_TO_PAGE_def)

text \<open>
  A page with frame 0 at virtual page 5, present, writable and executable: a store to it is permitted.
\<close>

theorem translate_address_protection_witness:
  "enable_mmu (thr (mapped_machine 0 7) 0 0) \<and>
   translate_address 0 0 0x5010 True True (mapped_machine 0 7) = (Some 0x10, mapped_machine 0 7)"
proof -
  have mmu: "enable_mmu (thr (mapped_machine 0 7) 0 0)" by (simp add: mmu_machine_thread)
  have upt: "[0..<4] = [0, 1, 2, 3 :: nat]" by (simp add: upt_rec)
  have pa: "ROUND_TO_PAGE 7 OR PAGE_OFFSET 0x5010 = (0x10 :: u32)" by (simp add: ROUND_TO_PAGE_def PAGE_OFFSET_def)
  show ?thesis
    using translate_address_protection [OF mmu refl refl, of "0x5010" True True] mmu
    by (simp add: upt mapped_machine_tlb round_5010 pa mmu_machine_thread mapped_machine_size)
qed

theorem dtlb_insert_keeps_foreign_asid_witness:
  "tlb_asid (dtlb (cores (mapped_machine 1 0x17) 0) (tlb_set 0x5010 * 4)) \<noteq> asid (thr (mapped_machine 1 0x17) 0 0) \<and>
   translate_address 0 0 0x5010 True True (execute_cache_control_inst 0 0 0xe0000041 (mapped_machine 1 0x17))
     = (None, raise_trap 0 0 0x5010 TT_TLB_MISS True True 0
                (execute_cache_control_inst 0 0 0xe0000041 (mapped_machine 1 0x17)))"
proof -
  have "translate_address 0 0 0x5010 True True (execute_cache_control_inst 0 0 0xe0000041 (mapped_machine 1 0x17))
     = (None, raise_trap 0 0 0x5010 TT_TLB_MISS True True 0
                (execute_cache_control_inst 0 0 0xe0000041 (mapped_machine 1 0x17)))"
    by (rule dtlb_insert_keeps_foreign_asid [where w = 0 and i = "0xe0000041"])
      (simp_all add: mmu_machine_thread mmu_machine_thread(4) [simplified] mapped_machine_tlb
        insert_example_fields [simplified] round_5010)
  then show ?thesis by (simp add: mapped_machine_tlb mmu_machine_thread)
qed

end
