(* ===== verification/Emu_Arith.thy ===== *)
theory Emu_Arith
  imports Emu_Mmu
begin

text \<open>
  Arithmetic instructions of \<open>tools/emulator/processor.c\<close>: \<open>scalar_arithmetic_op\<close>,
  \<open>execute_register_arith_inst\<close> and \<open>execute_immediate_arith_inst\<close>. The lane loops that fill an
  array are functions on lane numbers; the loops that pack comparison results are folds, and a
  lemma gives the bits of the packed word.
\<close>

definition scalar_arithmetic_op :: "u32 \<Rightarrow> u32 \<Rightarrow> u32 \<Rightarrow> u32" where
  "scalar_arithmetic_op operation value1 value2 =
   (if operation = OP_OR then value1 OR value2
    else if operation = OP_AND then value1 AND value2
    else if operation = OP_XOR then value1 XOR value2
    else if operation = OP_ADD_I then value1 + value2
    else if operation = OP_SUB_I then value1 - value2
    else if operation = OP_MULL_I then value1 * value2
    else if operation = OP_MULH_U then ucast (drop_bit 32 (ucast value1 * ucast value2 :: u64))
    else if operation = OP_ASHR then signed_drop_bit (unat (value2 AND 31)) value1
    else if operation = OP_SHR then drop_bit (unat (value2 AND 31)) value1
    else if operation = OP_SHL then push_bit (unat (value2 AND 31)) value1
    else if operation = OP_CLZ then (if value2 = 0 then 32 else of_nat (builtin_clz value2))
    else if operation = OP_CTZ then (if value2 = 0 then 32 else of_nat (builtin_ctz value2))
    else if operation = OP_MOVE then value2
    else if operation = OP_CMPEQ_I then of_cbool (value1 = value2)
    else if operation = OP_CMPNE_I then of_cbool (value1 \<noteq> value2)
    else if operation = OP_CMPGT_I then of_cbool (sint value1 > sint value2)
    else if operation = OP_CMPGE_I then of_cbool (sint value1 \<ge> sint value2)
    else if operation = OP_CMPLT_I then of_cbool (sint value1 < sint value2)
    else if operation = OP_CMPLE_I then of_cbool (sint value1 \<le> sint value2)
    else if operation = OP_CMPGT_U then of_cbool (value1 > value2)
    else if operation = OP_CMPGE_U then of_cbool (value1 \<ge> value2)
    else if operation = OP_CMPLT_U then of_cbool (value1 < value2)
    else if operation = OP_CMPLE_U then of_cbool (value1 \<le> value2)
    else if operation = OP_FTOI then f_to_int32 value2
    else if operation = OP_RECIPROCAL then
      (let fresult = f_recip (value2 AND 0xfffe0000)
       in if f_isnan fresult then fresult else fresult AND 0xfffe0000)
    else if operation = OP_SEXT8 then scast (ucast value2 :: u8)
    else if operation = OP_SEXT16 then scast (ucast value2 :: u16)
    else if operation = OP_MULH_I then
      ucast (signed_drop_bit 32 (scast value1 * scast value2 :: u64))
    else if operation = OP_ADD_F then f_add value1 value2
    else if operation = OP_SUB_F then f_sub value1 value2
    else if operation = OP_MUL_F then f_mul value1 value2
    else if operation = OP_ITOF then f_of_int32 value2
    else if operation = OP_CMPGT_F then of_cbool (f_lt value2 value1)
    else if operation = OP_CMPGE_F then of_cbool (f_le value2 value1)
    else if operation = OP_CMPLT_F then of_cbool (f_lt value1 value2)
    else if operation = OP_CMPLE_F then of_cbool (f_le value1 value2)
    else if operation = OP_CMPEQ_F then of_cbool (f_eq value1 value2)
    else if operation = OP_CMPNE_F then of_cbool (\<not> f_eq value1 value2)
    else 0)"

definition is_compare_op :: "u32 \<Rightarrow> bool" where
  "is_compare_op op \<longleftrightarrow> OP_CMPEQ_I \<le> op \<and> op \<le> OP_CMPLE_U \<or> OP_CMPGT_F \<le> op \<and> op \<le> OP_CMPNE_F"

text \<open>The loop that packs one comparison result per lane into the low 16 bits.\<close>

definition pack_compare :: "(nat \<Rightarrow> bool) \<Rightarrow> u32" where
  "pack_compare p =
     fold (\<lambda>lane result. drop_bit 1 result OR (if p lane then 0x8000 else 0)) [0..<NUM_VECTOR_LANES] 0"

definition execute_register_arith_inst :: "nat \<Rightarrow> nat \<Rightarrow> u32 \<Rightarrow> machine \<Rightarrow> machine" where
  "execute_register_arith_inst c t instruction s =
   (let fmt = extract_unsigned_bits instruction 26 3;
        op = extract_unsigned_bits instruction 20 6;
        op1reg = reg_field instruction 0;
        op2reg = reg_field instruction 15;
        destreg = reg_field instruction 5;
        maskreg = reg_field instruction 10;
        th = thr s c t;
        illegal = raise_trap c t 0 TT_ILLEGAL_INSTRUCTION False False 0 s
    in if op = OP_BREAKPOINT then raise_trap c t 0 TT_BREAKPOINT False False 0 s
       else if op = OP_GETLANE
       then set_scalar_reg c t destreg (vector_reg th op1reg (unat (scalar_reg th op2reg AND 0xf))) s
       else if is_compare_op op then
         (if fmt = FMT_RA_SS
          then set_scalar_reg c t destreg
                 (if scalar_arithmetic_op op (scalar_reg th op1reg) (scalar_reg th op2reg) \<noteq> 0
                  then 0xffff else 0) s
          else if fmt = FMT_RA_VS \<or> fmt = FMT_RA_VS_M
          then set_scalar_reg c t destreg (pack_compare (\<lambda>lane.
                 scalar_arithmetic_op op (vector_reg th op1reg lane) (scalar_reg th op2reg) \<noteq> 0)) s
          else if fmt = FMT_RA_VV \<or> fmt = FMT_RA_VV_M
          then set_scalar_reg c t destreg (pack_compare (\<lambda>lane.
                 scalar_arithmetic_op op (vector_reg th op1reg lane) (vector_reg th op2reg lane) \<noteq> 0)) s
          else illegal)
       else if fmt = FMT_RA_SS
       then set_scalar_reg c t destreg
              (scalar_arithmetic_op op (scalar_reg th op1reg) (scalar_reg th op2reg)) s
       else if fmt \<noteq> FMT_RA_VS \<and> fmt \<noteq> FMT_RA_VS_M \<and> fmt \<noteq> FMT_RA_VV \<and> fmt \<noteq> FMT_RA_VV_M then illegal
       else let mask' = (if fmt = FMT_RA_VS_M \<or> fmt = FMT_RA_VV_M then scalar_reg th maskreg else 0xffff);
                result = (if op = OP_SHUFFLE
                  then (\<lambda>lane. vector_reg th op1reg (unat (vector_reg th op2reg lane AND 0xf)))
                  else if fmt = FMT_RA_VS \<or> fmt = FMT_RA_VS_M
                  then (\<lambda>lane. scalar_arithmetic_op op (vector_reg th op1reg lane) (scalar_reg th op2reg))
                  else (\<lambda>lane. scalar_arithmetic_op op (vector_reg th op1reg lane) (vector_reg th op2reg lane)))
            in set_vector_reg c t destreg mask' result s)"

definition immediate_value :: "u32 \<Rightarrow> u32" where
  "immediate_value instruction =
     (let fmt = extract_unsigned_bits instruction 29 2 in
      if fmt = FMT_IMM_VM then extract_signed_bits instruction 15 9
      else if fmt = FMT_IMM_MOVEHI
      then push_bit 18 (extract_unsigned_bits instruction 10 14)
           OR push_bit 13 (extract_unsigned_bits instruction 0 5)
      else extract_signed_bits instruction 10 14)"

definition execute_immediate_arith_inst :: "nat \<Rightarrow> nat \<Rightarrow> u32 \<Rightarrow> machine \<Rightarrow> machine" where
  "execute_immediate_arith_inst c t instruction s =
   (let fmt = extract_unsigned_bits instruction 29 2;
        imm_value = immediate_value instruction;
        op = extract_unsigned_bits instruction 24 5;
        op1reg = reg_field instruction 0;
        maskreg = reg_field instruction 10;
        destreg = reg_field instruction 5;
        th = thr s c t
    in if op = OP_SYSCALL
       then raise_trap c t 0 TT_SYSCALL False False (extract_unsigned_bits instruction 10 14) s
       else if op = OP_GETLANE
       then set_scalar_reg c t destreg (vector_reg th op1reg (unat (imm_value AND 0xf))) s
       else if is_compare_op op then
         (if fmt = FMT_IMM_V \<or> fmt = FMT_IMM_VM
          then set_scalar_reg c t destreg (pack_compare (\<lambda>lane.
                 scalar_arithmetic_op op (vector_reg th op1reg lane) imm_value \<noteq> 0)) s
          else if fmt = FMT_IMM_S
          then set_scalar_reg c t destreg
                 (if scalar_arithmetic_op op (scalar_reg th op1reg) imm_value \<noteq> 0 then 0xffff else 0) s
          else raise_trap c t 0 TT_ILLEGAL_INSTRUCTION False False 0 s)
       else if fmt = FMT_IMM_S \<or> fmt = FMT_IMM_MOVEHI
       then set_scalar_reg c t destreg (scalar_arithmetic_op op (scalar_reg th op1reg) imm_value) s
       else set_vector_reg c t destreg (if fmt = FMT_IMM_VM then scalar_reg th maskreg else 0xffff)
              (\<lambda>lane. scalar_arithmetic_op op (vector_reg th op1reg lane) imm_value) s)"

subsection \<open>Invariant\<close>

lemma execute_register_arith_inst_ok [simp]:
  "machine_ok (execute_register_arith_inst c t i s) = machine_ok s"
  "single_core (execute_register_arith_inst c t i s) = single_core s"
  by (simp_all add: execute_register_arith_inst_def Let_def)

lemma execute_immediate_arith_inst_ok [simp]:
  "machine_ok (execute_immediate_arith_inst c t i s) = machine_ok s"
  "single_core (execute_immediate_arith_inst c t i s) = single_core s"
  by (simp_all add: execute_immediate_arith_inst_def Let_def)

subsection \<open>Packed comparisons\<close>

lemma pack_fold_bits:
  assumes "n \<le> 16"
  shows "bit (fold (\<lambda>lane result. drop_bit 1 result OR (if p lane then 0x8000 else 0)) [0..<n] (0 :: u32)) i
     \<longleftrightarrow> 16 - n \<le> i \<and> i < 16 \<and> p (i - (16 - n))"
  using assms
proof (induction n arbitrary: i)
  case 0
  then show ?case by simp
next
  case (Suc n)
  have "(0x8000 :: u32) = push_bit 15 1" by simp
  then have "bit (0x8000 :: u32) i \<longleftrightarrow> bit (push_bit 15 1 :: u32) i" by (rule arg_cong)
  also have "\<dots> \<longleftrightarrow> i = 15" unfolding bit_push_bit_iff bit_1_iff by auto
  finally have b: "bit (if p n then 0x8000 else 0 :: u32) i \<longleftrightarrow> i = 15 \<and> p n" by simp
  let ?f = "fold (\<lambda>lane result. drop_bit 1 result OR (if p lane then 0x8000 else 0)) [0..<n] (0 :: u32)"
  have IH: "bit ?f (Suc i) \<longleftrightarrow> 16 - n \<le> Suc i \<and> Suc i < 16 \<and> p (Suc i - (16 - n))"
    using Suc by simp
  have step: "bit (drop_bit 1 ?f OR (if p n then 0x8000 else 0)) i \<longleftrightarrow> bit ?f (Suc i) \<or> i = 15 \<and> p n"
    by (simp only: bit_or_iff bit_drop_bit_eq b comp_apply plus_1_eq_Suc)
  have fs: "fold (\<lambda>lane result. drop_bit 1 result OR (if p lane then 0x8000 else 0)) [0..<Suc n] (0 :: u32)
      = drop_bit 1 ?f OR (if p n then 0x8000 else 0)" by simp
  have a: "15 - (16 - Suc n) = n" "Suc i - (16 - n) = i - (16 - Suc n)" "16 - n \<le> Suc i \<longleftrightarrow> 16 - Suc n \<le> i"
    using Suc.prems by linarith+
  show ?case unfolding fs step IH a(2,3) using a(1) by (cases "i = 15") auto
qed

lemma bit_pack_compare: "bit (pack_compare p) i \<longleftrightarrow> i < 16 \<and> p i"
  unfolding pack_compare_def pack_fold_bits [OF order.refl] by auto

subsection \<open>Wide multiplication\<close>

lemma unat_ucast_u64: "unat (ucast (v :: u32) :: u64) = unat v"
  by (simp add: unsigned_ucast_eq take_bit_nat_eq_self_iff) (rule less_trans [OF unat_u32_bound], simp)

lemma unat_mulh_u:
  "unat (ucast (drop_bit 32 (ucast a * ucast b :: u64)) :: u32) = unat (a :: u32) * unat (b :: u32) div 2 ^ 32"
proof -
  have le: "unat a \<le> 2 ^ 32 - 1" "unat b \<le> 2 ^ 32 - 1"
    using unat_u32_bound [of a] unat_u32_bound [of b] by simp_all
  have "unat a * unat b \<le> (2 ^ 32 - 1) * (2 ^ 32 - 1)" by (rule mult_le_mono [OF le])
  then have lt: "unat a * unat b < 2 ^ 64" by simp
  then have p: "unat (ucast a * ucast b :: u64) = unat a * unat b"
    by (simp add: unat_word_ariths unat_ucast_u64)
  have "unat a * unat b div 2 ^ 32 < 2 ^ 32"
    using lt by (simp add: div_less_iff_less_mult)
  then show ?thesis
    unfolding unsigned_ucast_eq unat_drop_bit_eq p drop_bit_eq_div [where 'a = nat]
    by (simp add: take_bit_nat_eq_self)
qed

subsection \<open>Properties\<close>

text \<open>
  a vector comparison leaves in its destination register exactly one bit per lane: bit \<open>i\<close> is
  the result of comparing lane \<open>i\<close> of the operands, and bits 16 to 31 are zero.
\<close>

theorem vector_compare_bits:
  assumes "extract_unsigned_bits i 26 3 = FMT_RA_VV" and "is_compare_op (extract_unsigned_bits i 20 6)"
    and "s' = execute_register_arith_inst c t i s"
  shows "bit (scalar_reg (thr s' c t) (reg_field i 5)) n \<longleftrightarrow> n < 16 \<and>
      scalar_arithmetic_op (extract_unsigned_bits i 20 6)
        (vector_reg (thr s c t) (reg_field i 0) n) (vector_reg (thr s c t) (reg_field i 15) n) \<noteq> 0"
proof -
  have "extract_unsigned_bits i 20 6 \<noteq> OP_BREAKPOINT" "extract_unsigned_bits i 20 6 \<noteq> OP_GETLANE"
    using assms(2) by (auto simp: is_compare_op_def)
  with assms show ?thesis
    by (simp add: execute_register_arith_inst_def Let_def set_scalar_reg_def bit_pack_compare)
qed

text \<open>\<open>cmplt_i v0, v1, v2\<close> (vector, vector) into register 3\<close>

theorem vector_compare_bits_witness:
  "extract_unsigned_bits 0xd1410061 26 3 = FMT_RA_VV \<and>
   is_compare_op (extract_unsigned_bits 0xd1410061 20 6) \<and>
   bit (scalar_reg (thr (execute_register_arith_inst 0 0 0xd1410061
     (upd_thr 0 0 (\<lambda>th. th\<lparr>vector_reg := (\<lambda>r lane. if r = 1 then of_nat lane else 5)\<rparr>)
        (boot_machine (\<lambda>_. 0)))) 0 0) 3) 4"
proof -
  define s where "s = upd_thr 0 0 (\<lambda>th. th\<lparr>vector_reg := (\<lambda>r lane. if r = 1 then of_nat lane else 5)\<rparr>)
        (boot_machine (\<lambda>_. 0))"
  have f: "extract_unsigned_bits 0xd1410061 26 3 = FMT_RA_VV" "extract_unsigned_bits 0xd1410061 20 6 = OP_CMPLT_I"
    "reg_field 0xd1410061 5 = 3" "reg_field 0xd1410061 0 = 1" "reg_field 0xd1410061 15 = 2"
    by (simp_all add: extract_unsigned_bits_def reg_field_def)
  moreover have "is_compare_op OP_CMPLT_I" by (simp add: is_compare_op_def)
  moreover have "vector_reg (thr s 0 0) 1 4 = 4" "vector_reg (thr s 0 0) 2 4 = 5" by (simp_all add: s_def)
  ultimately show ?thesis
    using vector_compare_bits [of "0xd1410061" _ 0 0 s 4] unfolding s_def [symmetric]
    by (simp add: scalar_arithmetic_op_def)
qed

text \<open>
  the two unsigned halves of a product that the multiply instructions compute are the exact
  64-bit product of the operands.
\<close>

theorem multiply_high_low:
  "unat (scalar_arithmetic_op OP_MULH_U a b) * 2 ^ 32 + unat (scalar_arithmetic_op OP_MULL_I a b)
     = unat a * unat b"
proof -
  have "unat (scalar_arithmetic_op OP_MULL_I a b) = unat a * unat b mod 2 ^ 32"
    by (simp add: scalar_arithmetic_op_def unat_word_ariths)
  moreover have "unat (scalar_arithmetic_op OP_MULH_U a b) = unat a * unat b div 2 ^ 32"
    using unat_mulh_u [of a b] by (simp add: scalar_arithmetic_op_def)
  ultimately show ?thesis by (metis div_mult_mod_eq)
qed

end
