(* ===== verification/Emu_Device.thy ===== *)
theory Emu_Device
  imports Emu_Trap
begin

text \<open>
  \<open>tools/emulator/device.c\<close>: the memory mapped peripherals. Keyboard and serial input are ring
  buffers of 64 entries that raise an interrupt line while they hold data and drop the oldest
  entry on overflow. The locale \<open>input_queue\<close> is the contract of such a buffer, a queue of at
  most 63 entries; both buffers are interpretations of it. Writes to the host interrupt pipe
  (\<open>send_host_interrupt\<close> of \<open>main.c\<close>) are taken to succeed.
\<close>

abbreviation (input) KEY_BUFFER_SIZE :: nat where "KEY_BUFFER_SIZE \<equiv> 64"
abbreviation (input) SERIAL_BUFFER_SIZE :: nat where "SERIAL_BUFFER_SIZE \<equiv> 64"

abbreviation (input) REG_HOST_INTERRUPT :: u32 where "REG_HOST_INTERRUPT \<equiv> 0xffff0018"
abbreviation (input) REG_SERIAL_STATUS :: u32 where "REG_SERIAL_STATUS \<equiv> 0xffff0040"
abbreviation (input) REG_SERIAL_INPUT :: u32 where "REG_SERIAL_INPUT \<equiv> 0xffff0044"
abbreviation (input) REG_SERIAL_OUTPUT :: u32 where "REG_SERIAL_OUTPUT \<equiv> 0xffff0048"
abbreviation (input) REG_KEYBOARD_STATUS :: u32 where "REG_KEYBOARD_STATUS \<equiv> 0xffff0080"
abbreviation (input) REG_KEYBOARD_READ :: u32 where "REG_KEYBOARD_READ \<equiv> 0xffff0084"
abbreviation (input) REG_SD_WRITE_DATA :: u32 where "REG_SD_WRITE_DATA \<equiv> 0xffff00c0"
abbreviation (input) REG_SD_READ_DATA :: u32 where "REG_SD_READ_DATA \<equiv> 0xffff00c4"
abbreviation (input) REG_SD_STATUS :: u32 where "REG_SD_STATUS \<equiv> 0xffff00c8"
abbreviation (input) REG_SD_CONTROL :: u32 where "REG_SD_CONTROL \<equiv> 0xffff00cc"
abbreviation (input) REG_VGA_ENABLE :: u32 where "REG_VGA_ENABLE \<equiv> 0xffff0180"
abbreviation (input) REG_VGA_BASE :: u32 where "REG_VGA_BASE \<equiv> 0xffff0188"
abbreviation (input) REG_TIMER_INT :: u32 where "REG_TIMER_INT \<equiv> 0xffff0240"

subsection \<open>Operations\<close>

definition enable_frame_buffer :: "bool \<Rightarrow> device_state \<Rightarrow> device_state" where
  "enable_frame_buffer enable d = d\<lparr>fb_enabled := enable\<rparr>"

definition set_frame_buffer_address :: "u32 \<Rightarrow> device_state \<Rightarrow> device_state" where
  "set_frame_buffer_address address d = d\<lparr>fb_address := address\<rparr>"

definition send_host_interrupt :: "u32 \<Rightarrow> device_state \<Rightarrow> device_state" where
  "send_host_interrupt num d =
     d\<lparr>host_interrupts := map_option (\<lambda>out. out @ [ucast num]) (host_interrupts d)\<rparr>"

definition write_device_register :: "u32 \<Rightarrow> u32 \<Rightarrow> machine \<Rightarrow> machine cres" where
  "write_device_register address value s =
     (let d = dev s in
      if address = REG_SERIAL_OUTPUT
      then Inr (s\<lparr>dev := d\<lparr>serial_out := serial_out d @ [ucast (value AND 0xff)]\<rparr>\<rparr>)
      else if address = REG_SD_WRITE_DATA
      then bindE (transfer_sdmmc_byte value (sdmmc d) (rng s)) (\<lambda>(r, sd', rs').
             Inr (s\<lparr>dev := d\<lparr>last_sdmmc_response := r, sdmmc := sd'\<rparr>, rng := rs'\<rparr>))
      else if address = REG_SD_CONTROL
      then Inr (s\<lparr>dev := d\<lparr>sdmmc := set_sdmmc_cs (value AND 1) (sdmmc d)\<rparr>\<rparr>)
      else if address = REG_VGA_ENABLE
      then Inr (s\<lparr>dev := enable_frame_buffer (value AND 1 \<noteq> 0) d\<rparr>)
      else if address = REG_VGA_BASE
      then Inr (s\<lparr>dev := set_frame_buffer_address value d\<rparr>)
      else if address = REG_HOST_INTERRUPT
      then Inr (s\<lparr>dev := send_host_interrupt value d\<rparr>)
      else Inr s)"

definition serial_get :: "device_state \<Rightarrow> u32 \<times> device_state" where
  "serial_get d =
     (if serial_read_buf_head d \<noteq> serial_read_buf_tail d
      then (ucast (serial_read_buf d (serial_read_buf_tail d)),
            d\<lparr>serial_read_buf_tail := (serial_read_buf_tail d + 1) mod SERIAL_BUFFER_SIZE\<rparr>)
      else (0, d))"

definition key_get :: "device_state \<Rightarrow> u32 \<times> device_state" where
  "key_get d =
     (if key_buf_head d \<noteq> key_buf_tail d
      then (key_buf d (key_buf_tail d),
            d\<lparr>key_buf_tail := (key_buf_tail d + 1) mod KEY_BUFFER_SIZE\<rparr>)
      else (0, d))"

definition read_device_register :: "u32 \<Rightarrow> machine \<Rightarrow> u32 \<times> machine" where
  "read_device_register address s =
     (let d = dev s in
      if address = REG_SERIAL_STATUS
      then (1 OR (if serial_read_buf_head d \<noteq> serial_read_buf_tail d then 2 else 0), s)
      else if address = REG_SERIAL_INPUT then
        (let (value, d') = serial_get d; s' = s\<lparr>dev := d'\<rparr>
         in (value, if serial_read_buf_head d' = serial_read_buf_tail d'
                    then clear_interrupt INT_UART_RX s' else s'))
      else if address = REG_KEYBOARD_STATUS
      then (if key_buf_head d \<noteq> key_buf_tail d then 1 else 0, s)
      else if address = REG_KEYBOARD_READ then
        (let (value, d') = key_get d; s' = s\<lparr>dev := d'\<rparr>
         in (value, if key_buf_head d' = key_buf_tail d'
                    then clear_interrupt INT_PS2_RX s' else s'))
      else if address = REG_SD_READ_DATA then (last_sdmmc_response d, s)
      else if address = REG_SD_STATUS then (1, s)
      else (0xffffffff, s))"

definition key_put :: "u32 \<Rightarrow> device_state \<Rightarrow> device_state" where
  "key_put scan_code d =
     (let head = (key_buf_head d + 1) mod KEY_BUFFER_SIZE in
      d\<lparr>key_buf := (key_buf d)(key_buf_head d := scan_code), key_buf_head := head,
        key_buf_tail := (if head = key_buf_tail d then (key_buf_tail d + 1) mod KEY_BUFFER_SIZE
                         else key_buf_tail d)\<rparr>)"

definition enqueue_key :: "u32 \<Rightarrow> machine \<Rightarrow> machine" where
  "enqueue_key scan_code s = raise_interrupt INT_PS2_RX (s\<lparr>dev := key_put scan_code (dev s)\<rparr>)"

definition serial_put :: "u32 \<Rightarrow> device_state \<Rightarrow> device_state" where
  "serial_put ch d =
     (let head = (serial_read_buf_head d + 1) mod SERIAL_BUFFER_SIZE in
      d\<lparr>serial_read_buf := (serial_read_buf d)(serial_read_buf_head d := ucast ch),
        serial_read_buf_head := head,
        serial_read_buf_tail := (if head = serial_read_buf_tail d
           then (serial_read_buf_tail d + 1) mod SERIAL_BUFFER_SIZE else serial_read_buf_tail d)\<rparr>)"

definition enqueue_serial_char :: "u32 \<Rightarrow> machine \<Rightarrow> machine" where
  "enqueue_serial_char ch s = raise_interrupt INT_UART_RX (s\<lparr>dev := serial_put ch (dev s)\<rparr>)"

subsection \<open>Invariant\<close>

lemma write_device_register_ok:
  assumes "machine_ok s" "single_core s"
  shows "specE clean_exit (write_device_register a v s) (\<lambda>s'. machine_ok s' \<and> single_core s')"
proof -
  have d: "device_ok (dev s)" using assms(1) by (simp add: machine_ok_def)
  then have sd: "sd_ok (sdmmc (dev s))" by (simp add: device_ok_def)
  have "specE clean_exit (transfer_sdmmc_byte v (sdmmc (dev s)) (rng s)) (\<lambda>(r, sd', rs').
      machine_ok (s\<lparr>dev := (dev s)\<lparr>last_sdmmc_response := r, sdmmc := sd'\<rparr>, rng := rs'\<rparr>))"
    using transfer_sdmmc_byte_ok [OF sd, of v "rng s"]
    by (rule specE_mono) (use assms(1) d in \<open>auto simp: machine_ok_def device_ok_def\<close>)
  then show ?thesis
    using assms d
    by (auto simp: write_device_register_def Let_def split_def device_ok_def enable_frame_buffer_def
        set_frame_buffer_address_def send_host_interrupt_def specE_conj intro!: machine_ok_dev elim: specE_mono)
qed

lemma device_ok_get [simp]:
  "device_ok d \<Longrightarrow> device_ok (snd (serial_get d))" "device_ok d \<Longrightarrow> device_ok (snd (key_get d))"
  "device_ok d \<Longrightarrow> device_ok (key_put v d)" "device_ok d \<Longrightarrow> device_ok (serial_put v d)"
  by (simp_all add: device_ok_def serial_get_def key_get_def key_put_def serial_put_def Let_def)

lemma read_device_register_ok:
  assumes "machine_ok s"
  shows "machine_ok (snd (read_device_register a s))"
    "single_core (snd (read_device_register a s)) = single_core s"
proof -
  have "device_ok (dev s)" using assms by (simp add: machine_ok_def)
  then show "machine_ok (snd (read_device_register a s))"
    using assms by (simp add: read_device_register_def Let_def split_def machine_ok_dev)
  show "single_core (snd (read_device_register a s)) = single_core s"
    by (simp add: read_device_register_def Let_def split_def)
qed

lemma read_device_register_thr [simp]: "thr (snd (read_device_register a s)) c t = thr s c t"
  by (simp add: read_device_register_def Let_def split_def clear_interrupt_def)

subsection \<open>The contract of an input buffer\<close>

locale input_queue =
  fixes put :: "u32 \<Rightarrow> 's \<Rightarrow> 's"
    and get :: "'s \<Rightarrow> u32 \<times> 's"
    and inv :: "'s \<Rightarrow> bool"
    and content :: "'s \<Rightarrow> u32 list"
    and conv :: "u32 \<Rightarrow> u32"
  assumes inv_put: "inv d \<Longrightarrow> inv (put v d)"
    and inv_get: "inv d \<Longrightarrow> inv (snd (get d))"
    and content_bound: "inv d \<Longrightarrow> length (content d) \<le> 63"
    and content_put: "inv d \<Longrightarrow> content (put v d) =
      (if length (content d) = 63 then tl (content d) else content d) @ [conv v]"
    and get_empty: "inv d \<Longrightarrow> content d = [] \<Longrightarrow> get d = (0, d)"
    and get_front: "inv d \<Longrightarrow> content d \<noteq> [] \<Longrightarrow>
      fst (get d) = hd (content d) \<and> content (snd (get d)) = tl (content d)"
begin

primrec get_many :: "nat \<Rightarrow> 's \<Rightarrow> u32 list \<times> 's" where
  "get_many 0 d = ([], d)"
| "get_many (Suc n) d = (let (v, d') = get d; (vs, d'') = get_many n d' in (v # vs, d''))"

lemma inv_put_many: "inv d \<Longrightarrow> inv (fold put vs d)"
  by (induction vs arbitrary: d) (simp_all add: inv_put)

lemma content_put_many:
  "inv d \<Longrightarrow> content (fold put vs d)
     = drop (length (content d) + length vs - 63) (content d @ map conv vs)"
proof (induction vs arbitrary: d)
  case Nil
  then show ?case using content_bound [of d] by simp
next
  case (Cons v vs)
  have b: "length (content d) \<le> 63" using Cons.prems by (rule content_bound)
  show ?case
  proof (cases "length (content d) = 63")
    case True
    then have "content d \<noteq> []" by auto
    then obtain x q where "content d = x # q" by (cases "content d") auto
    with Cons True b show ?thesis by (simp add: inv_put content_put del: drop_append)
  next
    case False
    with Cons b show ?thesis by (simp add: inv_put content_put del: drop_append)
  qed
qed

lemma get_many_content:
  "inv d \<Longrightarrow> n \<le> length (content d) \<Longrightarrow>
     fst (get_many n d) = take n (content d) \<and> content (snd (get_many n d)) = drop n (content d)"
proof (induction n arbitrary: d)
  case 0
  then show ?case by simp
next
  case (Suc n)
  then have ne: "content d \<noteq> []" by auto
  obtain v d' where g: "get d = (v, d')" by (cases "get d") auto
  have f: "v = hd (content d)" "content d' = tl (content d)" using get_front [OF Suc.prems(1) ne] g by simp_all
  have "inv d'" using inv_get [OF Suc.prems(1)] g by simp
  then have "fst (get_many n d') = take n (content d') \<and> content (snd (get_many n d')) = drop n (content d')"
    using Suc.prems(2) f by (intro Suc.IH) simp_all
  with ne f g show ?case by (cases "content d") (simp_all add: split_def Let_def)
qed

text \<open>What is typed is read back in order; past 63 unread entries the oldest are lost.\<close>

lemma typed_is_read:
  assumes "inv d" "content d = []" "length vs \<le> 63"
  shows "fst (get_many (length vs) (fold put vs d)) = map conv vs"
proof -
  have "content (fold put vs d) = map conv vs"
    using content_put_many [OF assms(1), of vs] assms(2,3) by simp
  then show ?thesis using get_many_content [of "fold put vs d" "length vs"] inv_put_many [OF assms(1)] by simp
qed

end

subsection \<open>Ring buffers\<close>

definition ring_content :: "(nat \<Rightarrow> 'a) \<Rightarrow> nat \<Rightarrow> nat \<Rightarrow> 'a list" where
  "ring_content buf head tail =
     map (\<lambda>i. buf ((tail + i) mod 64)) [0..<(if tail \<le> head then head - tail else head + 64 - tail)]"

lemma mod_64: "x < 128 \<Longrightarrow> x mod 64 = (if x < 64 then x else x - 64 :: nat)"
  by (simp add: mod_if)

lemma ring_content_bound: "head < 64 \<Longrightarrow> tail < 64 \<Longrightarrow> length (ring_content buf head tail) \<le> 63"
  by (auto simp: ring_content_def)

lemma ring_content_empty:
  "head < 64 \<Longrightarrow> tail < 64 \<Longrightarrow> ring_content buf head tail = [] \<longleftrightarrow> head = tail"
  by (auto simp: ring_content_def)

lemma ring_content_length:
  "length (ring_content buf head tail) = (if tail \<le> head then head - tail else head + 64 - tail)"
  by (simp add: ring_content_def)

lemma ring_content_nth:
  "i < length (ring_content buf head tail) \<Longrightarrow> ring_content buf head tail ! i = buf ((tail + i) mod 64)"
  by (simp add: ring_content_def)

lemma ring_get:
  assumes "head < 64" "tail < 64" "head \<noteq> tail"
  shows "ring_content buf head tail = buf tail # ring_content buf head ((tail + 1) mod 64)"
proof (rule nth_equalityI)
  show len: "length (ring_content buf head tail) = length (buf tail # ring_content buf head ((tail + 1) mod 64))"
    using assms by (auto simp: ring_content_length mod_64)
  fix i
  assume i: "i < length (ring_content buf head tail)"
  show "ring_content buf head tail ! i = (buf tail # ring_content buf head ((tail + 1) mod 64)) ! i"
    using i len assms(2)
    by (cases i) (simp_all add: ring_content_nth mod_simps)
qed

lemma ring_put:
  assumes "head < 64" "tail < 64" "(head + 1) mod 64 \<noteq> tail"
  shows "ring_content (buf(head := v)) ((head + 1) mod 64) tail = ring_content buf head tail @ [v]"
proof (rule nth_equalityI)
  show len: "length (ring_content (buf(head := v)) ((head + 1) mod 64) tail)
      = length (ring_content buf head tail @ [v])"
    using assms by (auto simp: ring_content_length mod_64 split: if_splits)
  fix i
  assume i: "i < length (ring_content (buf(head := v)) ((head + 1) mod 64) tail)"
  let ?n = "length (ring_content buf head tail)"
  have n: "?n = (if tail \<le> head then head - tail else head + 64 - tail)" by (rule ring_content_length)
  show "ring_content (buf(head := v)) ((head + 1) mod 64) tail ! i = (ring_content buf head tail @ [v]) ! i"
  proof (cases "i < ?n")
    case True
    then have "(tail + i) mod 64 \<noteq> head" using n assms(1,2) by (auto simp: mod_64 split: if_splits)
    with True i show ?thesis by (simp add: ring_content_nth nth_append)
  next
    case False
    with i len have "i = ?n" by simp
    moreover have "(tail + ?n) mod 64 = head" using n assms(1,2) by (auto simp: mod_64 split: if_splits)
    ultimately show ?thesis using i by (simp add: ring_content_nth nth_append)
  qed
qed

lemma ring_full:
  assumes "head < 64" "tail < 64"
  shows "length (ring_content buf head tail) = 63 \<longleftrightarrow> (head + 1) mod 64 = tail"
  using assms by (auto simp: ring_content_length mod_64)

text \<open>A full buffer first loses its oldest entry, which has the same effect as advancing both ends.\<close>

lemma ring_put_full:
  assumes "head < 64" "tail < 64" "(head + 1) mod 64 = tail"
  shows "ring_content (buf(head := v)) ((head + 1) mod 64) ((tail + 1) mod 64)
    = tl (ring_content buf head tail) @ [v]"
proof -
  have "head \<noteq> tail" using assms by (auto simp: mod_64 split: if_splits)
  then have "tl (ring_content buf head tail) = ring_content buf head ((tail + 1) mod 64)"
    using assms by (simp add: ring_get [of head tail])
  moreover have "(head + 1) mod 64 \<noteq> (tail + 1) mod 64" using assms \<open>head \<noteq> tail\<close>
    by (auto simp: mod_64 split: if_splits)
  ultimately show ?thesis using ring_put [of head "(tail + 1) mod 64" buf v] assms(1) by simp
qed

lemma ring_enqueue:
  assumes "head < 64" "tail < 64"
  shows "ring_content (buf(head := v)) (Suc head mod 64) (if Suc head mod 64 = tail then Suc tail mod 64 else tail)
    = (if length (ring_content buf head tail) = 63 then tl (ring_content buf head tail)
       else ring_content buf head tail) @ [v]"
proof (cases "(head + 1) mod 64 = tail")
  case True
  then show ?thesis using ring_put_full [OF assms True, of buf v] ring_full [OF assms, of buf] by simp
next
  case False
  then show ?thesis using ring_put [OF assms False, of buf v] ring_full [OF assms, of buf] by simp
qed

subsection \<open>The keyboard and serial buffers meet the contract\<close>

definition key_content :: "device_state \<Rightarrow> u32 list" where
  "key_content d = ring_content (key_buf d) (key_buf_head d) (key_buf_tail d)"

definition serial_content :: "device_state \<Rightarrow> u32 list" where
  "serial_content d = map ucast (ring_content (serial_read_buf d) (serial_read_buf_head d) (serial_read_buf_tail d))"

interpretation key_queue: input_queue key_put key_get device_ok key_content "\<lambda>v. v"
proof
  fix d v
  assume ok: "device_ok d"
  then have b: "key_buf_head d < 64" "key_buf_tail d < 64" by (simp_all add: device_ok_def)
  show "device_ok (key_put v d)" "device_ok (snd (key_get d))" using ok by simp_all
  show "length (key_content d) \<le> 63" unfolding key_content_def by (rule ring_content_bound [OF b])
  show "key_content (key_put v d) = (if length (key_content d) = 63 then tl (key_content d) else key_content d) @ [v]"
    by (simp add: key_content_def key_put_def Let_def ring_enqueue [OF b] cong: if_cong split del: if_split)
  show "key_get d = (0, d)" if "key_content d = []"
    using that by (simp add: key_content_def key_get_def ring_content_empty [OF b])
  show "fst (key_get d) = hd (key_content d) \<and> key_content (snd (key_get d)) = tl (key_content d)"
    if "key_content d \<noteq> []"
    using that ring_get [OF b, of "key_buf d"] by (simp add: key_content_def key_get_def ring_content_empty [OF b])
qed

interpretation serial_queue: input_queue serial_put serial_get device_ok serial_content "\<lambda>v. ucast (ucast v :: u8)"
proof
  fix d v
  assume ok: "device_ok d"
  then have b: "serial_read_buf_head d < 64" "serial_read_buf_tail d < 64" by (simp_all add: device_ok_def)
  show "device_ok (serial_put v d)" "device_ok (snd (serial_get d))" using ok by simp_all
  show "length (serial_content d) \<le> 63" using ring_content_bound [OF b] by (simp add: serial_content_def)
  show "serial_content (serial_put v d)
      = (if length (serial_content d) = 63 then tl (serial_content d) else serial_content d) @ [ucast (ucast v :: u8)]"
    by (simp add: serial_content_def serial_put_def Let_def ring_enqueue [OF b] map_tl
        if_distrib [of "map _"] cong: if_cong split del: if_split)
  show "serial_get d = (0, d)" if "serial_content d = []"
    using that by (simp add: serial_content_def serial_get_def ring_content_empty [OF b])
  show "fst (serial_get d) = hd (serial_content d) \<and> serial_content (snd (serial_get d)) = tl (serial_content d)"
    if "serial_content d \<noteq> []"
    using that ring_get [OF b, of "serial_read_buf d"] by (simp add: serial_content_def serial_get_def ring_content_empty [OF b])
qed

subsection \<open>Properties\<close>

text \<open>
  C30: the keyboard buffer is a queue that keeps the newest 63 unread scan codes: after any
  sequence of key events it holds the previous contents followed by the new codes, with the
  oldest dropped, and reads take entries from the front.
\<close>

theorem key_buffer_refines_queue:
  assumes "device_ok d" "n \<le> length (key_content (fold key_put vs d))"
  shows "key_content (fold key_put vs d)
      = drop (length (key_content d) + length vs - 63) (key_content d @ vs)
    \<and> fst (key_queue.get_many n (fold key_put vs d)) = take n (key_content (fold key_put vs d))"
  using key_queue.content_put_many [OF assms(1), of vs]
    key_queue.get_many_content [OF key_queue.inv_put_many [OF assms(1)] assms(2)] by simp

theorem key_buffer_refines_queue_witness:
  "device_ok boot_device \<and> key_content (fold key_put [7, 8] boot_device) = [7, 8] \<and>
   fst (key_queue.get_many 2 (fold key_put [7, 8] boot_device)) = [7, 8]"
proof -
  have e: "key_content boot_device = []" by (simp add: key_content_def boot_device_def ring_content_def)
  have "key_content (fold key_put [7, 8] boot_device) = [7, 8]"
    using key_buffer_refines_queue [OF boot_device_ok, of 0 "[7, 8]"] by (simp add: e del: fold.simps)
  then show ?thesis using key_buffer_refines_queue [OF boot_device_ok, of 2 "[7, 8]"] by (simp del: fold.simps)
qed

text \<open>
  serial input of up to 63 characters into an empty buffer is read back from the device in
  order, each as its low eight bits.
\<close>

theorem serial_input_in_order:
  assumes "device_ok d" "serial_content d = []" "length vs \<le> 63"
  shows "fst (serial_queue.get_many (length vs) (fold serial_put vs d)) = map (\<lambda>v. ucast (ucast v :: u8)) vs"
  using assms by (rule serial_queue.typed_is_read)

theorem serial_input_in_order_witness:
  "device_ok boot_device \<and> serial_content boot_device = [] \<and>
   fst (serial_queue.get_many 2 (fold serial_put [0x141, 0x42] boot_device)) = [0x41, 0x42]"
proof -
  have e: "serial_content boot_device = []" by (simp add: serial_content_def boot_device_def ring_content_def)
  show ?thesis
    using serial_input_in_order [OF boot_device_ok e, of "[0x141, 0x42]"] e
    by (simp del: fold.simps add: numeral_2_eq_2 [symmetric])
qed

end
