(* ===== verification/Emu_Memory.thy ===== *)
theory Emu_Memory
  imports Emu_Arith Emu_Device
begin

text \<open>
  Load and store instructions of \<open>tools/emulator/processor.c\<close>: scalar accesses (with synchronized
  load and store and device registers), block accesses of a whole vector, and scatter and gather
  accesses, which transfer one lane per step of the emulator and keep the lane number in the
  thread's \<open>subcycle\<close>.
\<close>

definition scalar_access_size :: "u32 \<Rightarrow> nat" where
  "scalar_access_size op =
     (if op = MEM_BYTE \<or> op = MEM_BYTE_SEXT then 1
      else if op = MEM_SHORT \<or> op = MEM_SHORT_EXT then 2 else 4)"

definition scalar_load :: "nat \<Rightarrow> nat \<Rightarrow> u32 \<Rightarrow> nat \<Rightarrow> u32 \<Rightarrow> machine \<Rightarrow> machine cres" where
  "scalar_load c t op destsrcreg pa s =
     (if op = MEM_LONG then
        (if DEVICE_BASE_ADDRESS \<le> pa
         then let (value, s') = read_device_register pa s in Inr (set_scalar_reg c t destsrcreg value s')
         else bindE (load32 s pa) (\<lambda>value. Inr (set_scalar_reg c t destsrcreg value s)))
      else if op = MEM_BYTE
      then bindE (load8 s pa) (\<lambda>value. Inr (set_scalar_reg c t destsrcreg (ucast value) s))
      else if op = MEM_BYTE_SEXT
      then bindE (load8 s pa) (\<lambda>value. Inr (set_scalar_reg c t destsrcreg (scast value) s))
      else if op = MEM_SHORT
      then bindE (load16 s pa) (\<lambda>value. Inr (set_scalar_reg c t destsrcreg (ucast value) s))
      else if op = MEM_SHORT_EXT
      then bindE (load16 s pa) (\<lambda>value. Inr (set_scalar_reg c t destsrcreg (scast value) s))
      else if op = MEM_SYNC
      then bindE (load32 s pa) (\<lambda>value. Inr (set_scalar_reg c t destsrcreg value
             (upd_thr c t (\<lambda>th. th\<lparr>last_sync_load_addr := pa div CACHE_LINE_LENGTH\<rparr>) s)))
      else if op = MEM_CONTROL_REG then Inl Assert_failed
      else Inr (raise_trap c t 0 TT_ILLEGAL_INSTRUCTION False False 0 s))"

text \<open>What follows a store that changed memory.\<close>

definition finish_store :: "nat \<Rightarrow> nat \<Rightarrow> u32 \<Rightarrow> u32 \<Rightarrow> nat \<Rightarrow> u32 \<Rightarrow> machine \<Rightarrow> machine cres" where
  "finish_store c t pa va access_size value_to_store s =
     bindE (invalidate_sync_address c pa s) (\<lambda>s'.
       Inr (if enable_cosim s'
            then s'\<lparr>cosim := cosim_check_scalar_store (pc (thr s' c t) - 4) va access_size
                              value_to_store (cosim s')\<rparr>
            else s'))"

definition scalar_store ::
  "nat \<Rightarrow> nat \<Rightarrow> u32 \<Rightarrow> nat \<Rightarrow> u32 \<Rightarrow> u32 \<Rightarrow> machine \<Rightarrow> machine cres" where
  "scalar_store c t op destsrcreg pa va s =
     (let value_to_store = scalar_reg (thr s c t) destsrcreg;
          finish = finish_store c t pa va (scalar_access_size op) value_to_store;
          set_result = (\<lambda>v. upd_thr c t (\<lambda>th. th\<lparr>scalar_reg := (scalar_reg th)(destsrcreg := v)\<rparr>))
      in if op = MEM_BYTE \<or> op = MEM_BYTE_SEXT then bindE (store8 pa (ucast value_to_store) s) finish
         else if op = MEM_SHORT \<or> op = MEM_SHORT_EXT
         then bindE (store16 pa (ucast value_to_store) s) finish
         else if op = MEM_LONG then
           (if DEVICE_BASE_ADDRESS \<le> pa then
              (if pa = REG_TIMER_INT then Inr (s\<lparr>current_timer_count := value_to_store\<rparr>)
               else write_device_register pa value_to_store s)
            else bindE (store32 pa value_to_store s) finish)
         else if op = MEM_SYNC then
           (if pa div CACHE_LINE_LENGTH = last_sync_load_addr (thr s c t)
            then bindE (store32 pa value_to_store (set_result 1 s)) finish
            else Inr (set_result 0 s))
         else if op = MEM_CONTROL_REG then Inl Assert_failed
         else Inr (raise_trap c t 0 TT_ILLEGAL_INSTRUCTION False False 0 s))"

definition execute_scalar_load_store_inst :: "nat \<Rightarrow> nat \<Rightarrow> u32 \<Rightarrow> machine \<Rightarrow> machine cres" where
  "execute_scalar_load_store_inst c t instruction s =
   (let op = extract_unsigned_bits instruction 25 4;
        ptrreg = reg_field instruction 0;
        offset = extract_signed_bits instruction 10 15;
        destsrcreg = reg_field instruction 5;
        is_load = (extract_unsigned_bits instruction 29 1 \<noteq> 0);
        va = scalar_reg (thr s c t) ptrreg + offset
    in if unat va mod scalar_access_size op \<noteq> 0
       then Inr (raise_trap c t va TT_UNALIGNED_ACCESS (\<not> is_load) True 0 s)
       else case translate_address c t va (\<not> is_load) True s of
         (None, s') \<Rightarrow> Inr s'
       | (Some pa, s') \<Rightarrow>
           if DEVICE_BASE_ADDRESS \<le> pa \<and> op \<noteq> MEM_LONG then Inr (s'\<lparr>crashed := True\<rparr>)
           else if is_load then scalar_load c t op destsrcreg pa s'
           else scalar_store c t op destsrcreg pa va s')"

subsection \<open>Block accesses\<close>

text \<open>The byte address of \<open>block_ptr[lane]\<close>.\<close>

definition block_index :: "u32 \<Rightarrow> nat \<Rightarrow> nat" where
  "block_index pa lane = 4 * (unat pa div 4 + lane)"

definition block_load :: "nat \<Rightarrow> nat \<Rightarrow> nat \<Rightarrow> u32 \<Rightarrow> u32 \<Rightarrow> machine \<Rightarrow> machine cres" where
  "block_load c t destsrcreg mask' pa s =
     (if block_index pa 15 + 4 \<le> unat (memory_size s)
      then Inr (set_vector_reg c t destsrcreg mask' (\<lambda>lane. get32 (memory s) (block_index pa lane)) s)
      else Inl Out_of_bounds)"

definition block_store :: "nat \<Rightarrow> nat \<Rightarrow> nat \<Rightarrow> u32 \<Rightarrow> u32 \<Rightarrow> u32 \<Rightarrow> machine \<Rightarrow> machine cres" where
  "block_store c t destsrcreg mask' pa va s =
     (let store_value = vector_reg (thr s c t) destsrcreg;
          s' = (if enable_cosim s
                then s\<lparr>cosim := cosim_check_vector_store (pc (thr s c t) - 4) va mask' store_value (cosim s)\<rparr>
                else s)
      in if list_all (\<lambda>lane. bit mask' lane \<longrightarrow> block_index pa lane + 4 \<le> unat (memory_size s))
              [0..<NUM_VECTOR_LANES]
         then invalidate_sync_address c pa
                (s'\<lparr>memory := fold (\<lambda>lane m. if bit mask' lane
                        then put32 (block_index pa lane) (store_value lane) m else m)
                      [0..<NUM_VECTOR_LANES] (memory s')\<rparr>)
         else Inl Out_of_bounds)"

definition vector_access_mask_offset :: "u32 \<Rightarrow> u32 \<Rightarrow> thread \<Rightarrow> (u32 \<times> u32) cres" where
  "vector_access_mask_offset unmasked instruction th =
     (let op = extract_unsigned_bits instruction 25 4 in
      if op = unmasked then Inr (0xffff, extract_signed_bits instruction 10 15)
      else if op = unmasked + 1
      then Inr (scalar_reg th (reg_field instruction 10), extract_signed_bits instruction 15 10)
      else Inl Assert_failed)"

definition execute_block_load_store_inst :: "nat \<Rightarrow> nat \<Rightarrow> u32 \<Rightarrow> machine \<Rightarrow> machine cres" where
  "execute_block_load_store_inst c t instruction s =
   (let ptrreg = reg_field instruction 0;
        destsrcreg = reg_field instruction 5;
        is_load = (extract_unsigned_bits instruction 29 1 \<noteq> 0)
    in bindE (vector_access_mask_offset MEM_BLOCK_VECTOR instruction (thr s c t)) (\<lambda>(mask', offset).
       let va = scalar_reg (thr s c t) ptrreg + offset in
       if va AND 63 \<noteq> 0 then Inr (raise_trap c t va TT_UNALIGNED_ACCESS (\<not> is_load) True 0 s)
       else case translate_address c t va (\<not> is_load) True s of
         (None, s') \<Rightarrow> Inr s'
       | (Some pa, s') \<Rightarrow>
           if DEVICE_BASE_ADDRESS \<le> pa then Inr (s'\<lparr>crashed := True\<rparr>)
           else if is_load then block_load c t destsrcreg mask' pa s'
           else if mask' AND 0xffff = 0 then Inr s'
           else block_store c t destsrcreg mask' pa va s'))"

subsection \<open>Scatter and gather\<close>

definition advance_subcycle :: "thread \<Rightarrow> thread" where
  "advance_subcycle th =
     (if subcycle th + 1 = of_nat NUM_VECTOR_LANES then th\<lparr>subcycle := 0\<rparr>
      else th\<lparr>subcycle := subcycle th + 1, pc := pc th - 4\<rparr>)"

definition gather_lane :: "nat \<Rightarrow> nat \<Rightarrow> nat \<Rightarrow> nat \<Rightarrow> bool \<Rightarrow> u32 \<Rightarrow> machine \<Rightarrow> machine cres" where
  "gather_lane c t destsrcreg lane enabled pa s =
     (if enabled
      then bindE (load32 s pa) (\<lambda>value.
             Inr (set_vector_reg c t destsrcreg (push_bit lane 1) ((\<lambda>_. 0)(lane := value)) s))
      else Inr (set_vector_reg c t destsrcreg 0 (\<lambda>_. 0) s))"

definition scatter_lane :: "nat \<Rightarrow> nat \<Rightarrow> nat \<Rightarrow> nat \<Rightarrow> bool \<Rightarrow> u32 \<Rightarrow> u32 \<Rightarrow> machine \<Rightarrow> machine cres" where
  "scatter_lane c t destsrcreg lane enabled pa va s =
     (if enabled
      then let value = vector_reg (thr s c t) destsrcreg lane in
           bindE (store32 pa value s) (finish_store c t pa va 4 value)
      else Inr s)"

definition execute_scatter_gather_inst :: "nat \<Rightarrow> nat \<Rightarrow> u32 \<Rightarrow> machine \<Rightarrow> machine cres" where
  "execute_scatter_gather_inst c t instruction s =
   (let ptrreg = reg_field instruction 0;
        destsrcreg = reg_field instruction 5;
        is_load = (extract_unsigned_bits instruction 29 1 \<noteq> 0);
        lane = unat (subcycle (thr s c t))
    in bindE (vector_access_mask_offset MEM_SCGATH instruction (thr s c t)) (\<lambda>(mask', offset).
       if \<not> lane < NUM_VECTOR_LANES then Inl Out_of_bounds
       else let va = vector_reg (thr s c t) ptrreg lane + offset; enabled = bit mask' lane in
       if enabled \<and> va AND 3 \<noteq> 0 then Inr (raise_trap c t va TT_UNALIGNED_ACCESS (\<not> is_load) True 0 s)
       else case translate_address c t va (\<not> is_load) True s of
         (None, s') \<Rightarrow> Inr s'
       | (Some pa, s') \<Rightarrow>
           if DEVICE_BASE_ADDRESS \<le> pa then Inr (s'\<lparr>crashed := True\<rparr>)
           else bindE (if is_load then gather_lane c t destsrcreg lane enabled pa s'
                       else scatter_lane c t destsrcreg lane enabled pa va s')
                  (\<lambda>s''. Inr (upd_thr c t advance_subcycle s''))))"

subsection \<open>Memory accesses are in bounds\<close>

definition good :: "machine \<Rightarrow> bool" where
  "good s \<longleftrightarrow> machine_ok s \<and> single_core s"

lemma good_simps [simp]:
  "good (upd_thr c t f s) = good s"
  "good (s\<lparr>memory := m\<rparr>) = good s"
  "good (s\<lparr>cosim := cs\<rparr>) = good s"
  "good (s\<lparr>crashed := b\<rparr>) = good s"
  "good (s\<lparr>current_timer_count := w\<rparr>) = good s"
  "good (s\<lparr>total_instructions := n\<rparr>) = good s"
  "good (s\<lparr>single_stepping := b\<rparr>) = good s"
  "good (set_scalar_reg c t r v s) = good s"
  "good (set_vector_reg c t r k vs s) = good s"
  "good (raise_trap c t a ty st d i s) = good s"
  by (simp_all add: good_def)

lemma good_machine_ok: "good s \<Longrightarrow> machine_ok s"
  by (simp add: good_def)

lemmas load_good = load_in_memory [OF good_machine_ok]
lemmas store_good = store_in_memory [OF good_machine_ok]

lemma translate_address_good: "good s \<Longrightarrow> good (snd (translate_address c t va st d s))"
  by (simp add: good_def translate_address_ok)

lemma translate_cases:
  obtains (fault) s' where "translate_address c t va st d s = (None, s')"
  | (ok) pa where "translate_address c t va st d s = (Some pa, s)"
      "pa < memory_size s \<or> DEVICE_BASE_ADDRESS \<le> pa" "PAGE_OFFSET pa = PAGE_OFFSET va"
proof (cases "translate_address c t va st d s")
  case (Pair r s')
  then show thesis
    using translate_Some_state [of c t va st d s] by (cases r) (auto intro: that)
qed

lemma finish_store_good [spec_rules]:
  "good s \<Longrightarrow> specE E (finish_store c t pa va n v s) good"
  unfolding finish_store_def specE_bindE good_def
  by (rule specE_mono [OF invalidate_sync_address_ok]) simp_all

lemma write_device_register_good:
  "good s \<Longrightarrow> specE clean_exit (write_device_register a v s) good"
  unfolding good_def [abs_def] by (rule write_device_register_ok) simp_all

lemma scalar_load_good:
  assumes "good s" "pa < memory_size s \<or> DEVICE_BASE_ADDRESS \<le> pa \<and> op = MEM_LONG"
    and "op \<noteq> MEM_CONTROL_REG"
  shows "specE E (scalar_load c t op r pa s) good"
proof (cases "DEVICE_BASE_ADDRESS \<le> pa \<and> op = MEM_LONG")
  case True
  then show ?thesis
    using read_device_register_ok [of s pa] assms(1)
    by (simp add: scalar_load_def split_def Let_def good_def)
next
  case False
  with assms show ?thesis
    by (auto simp: scalar_load_def load_good)
qed

lemma scalar_store_good:
  assumes "good s" "pa < memory_size s \<or> DEVICE_BASE_ADDRESS \<le> pa \<and> op = MEM_LONG"
    and "op \<noteq> MEM_CONTROL_REG"
  shows "specE clean_exit (scalar_store c t op r pa va s) good"
proof (cases "DEVICE_BASE_ADDRESS \<le> pa \<and> op = MEM_LONG")
  case True
  then show ?thesis
    using assms(1) by (simp add: scalar_store_def Let_def write_device_register_good)
next
  case False
  have st: "store32 pa v s' = Inr (s'\<lparr>memory := put32 (4 * (unat pa div 4)) v (memory s')\<rparr>)"
    "store16 pa v2 s' = Inr (s'\<lparr>memory := put16 (2 * (unat pa div 2)) v2 (memory s')\<rparr>)"
    "store8 pa v1 s' = Inr (s'\<lparr>memory := (memory s')(unat pa := v1)\<rparr>)"
    if "good s'" "memory_size s' = memory_size s" for s' v v2 v1
    using that assms(2) False by (auto simp: store_good)
  from False assms show ?thesis
    by (auto simp: scalar_store_def Let_def st intro!: finish_store_good)
qed

text \<open>The codes for which \<open>execute_memory_access_inst\<close> calls the scalar routine.\<close>

definition is_scalar_access :: "u32 \<Rightarrow> bool" where
  "is_scalar_access op \<longleftrightarrow> op = MEM_BYTE \<or> op = MEM_BYTE_SEXT \<or> op = MEM_SHORT \<or> op = MEM_SHORT_EXT
     \<or> op = MEM_LONG \<or> op = MEM_SYNC"

lemma execute_scalar_load_store_good:
  assumes "good s" "is_scalar_access (extract_unsigned_bits i 25 4)"
  shows "specE clean_exit (execute_scalar_load_store_inst c t i s) good"
proof -
  let ?op = "extract_unsigned_bits i 25 4"
  let ?va = "scalar_reg (thr s c t) (reg_field i 0) + extract_signed_bits i 10 15"
  let ?st = "\<not> extract_unsigned_bits i 29 1 \<noteq> 0"
  have nc: "?op \<noteq> MEM_CONTROL_REG" using assms(2) by (auto simp: is_scalar_access_def)
  show ?thesis
  proof (cases c t ?va ?st True s rule: translate_cases)
    case (fault s')
    then show ?thesis
      using assms(1) translate_address_good [OF assms(1), of c t ?va ?st True]
      by (simp add: execute_scalar_load_store_inst_def Let_def)
  next
    case (ok pa)
    have "specE clean_exit (if DEVICE_BASE_ADDRESS \<le> pa \<and> ?op \<noteq> MEM_LONG then Inr (s\<lparr>crashed := True\<rparr>)
        else if \<not> ?st then scalar_load c t ?op (reg_field i 5) pa s
        else scalar_store c t ?op (reg_field i 5) pa ?va s) good"
      using assms(1) ok(2) nc scalar_load_good [of s pa ?op clean_exit c t "reg_field i 5"]
        scalar_store_good [of s pa ?op c t "reg_field i 5" ?va] by auto
    with assms(1) show ?thesis
      unfolding execute_scalar_load_store_inst_def Let_def ok(1) prod.case option.case
      by (auto split: if_splits)
  qed
qed

lemma aligned_64:
  assumes "va AND 63 = 0" "PAGE_OFFSET pa = PAGE_OFFSET va"
  shows "\<exists>k. unat pa = 64 * k"
proof -
  have m: "(63 :: u32) = mask 6" by (simp add: mask_eq_exp_minus_1)
  have "pa AND 63 = 0"
    using page_offset_low [OF _ assms(2), of 6] assms(1) unfolding m by simp
  then have "unat pa mod 64 = 0"
    using unat_take_bit_mod [of 6 pa] unfolding and_63 by simp
  then show ?thesis by (metis mod_0_imp_dvd dvdE)
qed

lemma block_inside:
  assumes "good s" "pa < memory_size s" "PAGE_OFFSET pa = PAGE_OFFSET va" "va AND 63 = 0" "lane < 16"
  shows "block_index pa lane + 4 \<le> unat (memory_size s)"
proof -
  obtain k where k: "unat pa = 64 * k" using aligned_64 [OF assms(4,3)] by auto
  have "64 dvd unat (memory_size s)" using assms(1) by (simp add: good_def machine_ok_def)
  then have "64 * (unat pa div 64) + 64 \<le> unat (memory_size s)"
    using assms(2) by (intro aligned_access) (simp_all add: word_less_nat_alt)
  with k assms(5) show ?thesis by (simp add: block_index_def)
qed

lemma block_load_good:
  assumes "good s" "pa < memory_size s" "PAGE_OFFSET pa = PAGE_OFFSET va" "va AND 63 = 0"
  shows "specE E (block_load c t r k pa s) good"
  using assms(1) block_inside [OF assms, of 15] by (simp add: block_load_def)

lemma block_store_good:
  assumes "good s" "pa < memory_size s" "PAGE_OFFSET pa = PAGE_OFFSET va" "va AND 63 = 0"
  shows "specE E (block_store c t r k pa va' s) good"
proof -
  have inside: "list_all (\<lambda>lane. bit k lane \<longrightarrow> block_index pa lane + 4 \<le> unat (memory_size s)) [0..<16]"
    using block_inside [OF assms] by (simp add: list_all_iff del: upt.simps)
  have inv: "good s' \<Longrightarrow> specE E (invalidate_sync_address c pa s') good" for s'
    unfolding good_def [abs_def] by (rule invalidate_sync_address_ok) simp_all
  show ?thesis
    unfolding block_store_def Let_def using inside assms(1) by (simp add: inv del: upt.simps)
qed

lemma vector_access_good:
  "extract_unsigned_bits i 25 4 = u \<or> extract_unsigned_bits i 25 4 = u + 1 \<Longrightarrow>
     \<exists>k off. vector_access_mask_offset u i th = Inr (k, off)"
  by (auto simp: vector_access_mask_offset_def Let_def)

lemma execute_block_load_store_good:
  assumes "good s"
    and "extract_unsigned_bits i 25 4 = MEM_BLOCK_VECTOR \<or> extract_unsigned_bits i 25 4 = MEM_BLOCK_VECTOR_MASK"
  shows "specE E (execute_block_load_store_inst c t i s) good"
proof -
  obtain k off where ko: "vector_access_mask_offset MEM_BLOCK_VECTOR i (thr s c t) = Inr (k, off)"
    using vector_access_good [of i MEM_BLOCK_VECTOR "thr s c t"] assms(2) by auto
  let ?va = "scalar_reg (thr s c t) (reg_field i 0) + off"
  let ?st = "\<not> extract_unsigned_bits i 29 1 \<noteq> 0"
  show ?thesis
  proof (cases c t ?va ?st True s rule: translate_cases)
    case (fault s')
    then show ?thesis
      using assms(1) translate_address_good [OF assms(1), of c t ?va ?st True]
      by (simp add: execute_block_load_store_inst_def Let_def ko)
  next
    case (ok pa)
    show ?thesis
      unfolding execute_block_load_store_inst_def Let_def ko bindE_simps prod.case ok(1) option.case
      using assms(1) ok(2,3) block_load_good [OF assms(1) _ ok(3)] block_store_good [OF assms(1) _ ok(3)]
      by auto
  qed
qed

lemma gather_lane_good:
  "good s \<Longrightarrow> pa < memory_size s \<Longrightarrow> specE E (gather_lane c t r l e pa s) good"
  by (simp add: gather_lane_def load_good)

lemma scatter_lane_good:
  "good s \<Longrightarrow> pa < memory_size s \<Longrightarrow> specE E (scatter_lane c t r l e pa va s) good"
  by (simp add: scatter_lane_def Let_def store_good finish_store_good)

lemma execute_scatter_gather_good:
  assumes "good s" "subcycle (thr s c t) < 16"
    and "extract_unsigned_bits i 25 4 = MEM_SCGATH \<or> extract_unsigned_bits i 25 4 = MEM_SCGATH_MASK"
  shows "specE E (execute_scatter_gather_inst c t i s) good"
proof -
  obtain k off where ko: "vector_access_mask_offset MEM_SCGATH i (thr s c t) = Inr (k, off)"
    using vector_access_good [of i MEM_SCGATH "thr s c t"] assms(3) by auto
  let ?va = "vector_reg (thr s c t) (reg_field i 0) (unat (subcycle (thr s c t))) + off"
  let ?st = "\<not> extract_unsigned_bits i 29 1 \<noteq> 0"
  have lane: "unat (subcycle (thr s c t)) < 16" using assms(2) by (simp add: word_less_nat_alt)
  show ?thesis
  proof (cases c t ?va ?st True s rule: translate_cases)
    case (fault s')
    then show ?thesis
      using assms(1) lane translate_address_good [OF assms(1), of c t ?va ?st True]
      by (simp add: execute_scatter_gather_inst_def Let_def ko)
  next
    case (ok pa)
    show ?thesis
      unfolding execute_scatter_gather_inst_def Let_def ko bindE_simps prod.case ok(1) option.case
      using assms(1) ok(2) lane gather_lane_good [OF assms(1), of pa] scatter_lane_good [OF assms(1), of pa]
      by auto
  qed
qed

subsection \<open>Synchronized stores\<close>

lemma line_not_invalid: "(pa :: u32) div 64 \<noteq> 0xffffffff"
proof
  assume "pa div 64 = 0xffffffff"
  then have "unat (pa div 64) = 0xffffffff" by simp
  moreover have "unat (pa div 64) \<le> unat pa div 64" by (simp add: unat_div)
  moreover have "unat pa div 64 < 0xffffffff" using unat_u32_bound [of pa] by simp
  ultimately show False by simp
qed

lemma invalidate_clears:
  assumes "single_core s" "invalidate_sync_address c pa s = Inr s'" "t < total_threads s"
  shows "last_sync_load_addr (thr s' c t) \<noteq> pa div 64" "memory s' = memory s"
    "scalar_reg (thr s' c t') = scalar_reg (thr s c t')"
proof -
  have s': "s' = upd_core c (\<lambda>co. co\<lparr>threads := (\<lambda>t.
      if t < total_threads s \<and> last_sync_load_addr (threads co t) = pa div 64
      then (threads co t)\<lparr>last_sync_load_addr := 0xffffffff\<rparr> else threads co t)\<rparr>) s"
    using assms(1,2) by (simp add: invalidate_sync_address_eq single_core_def not_less split: if_splits)
  show "last_sync_load_addr (thr s' c t) \<noteq> pa div 64"
    using assms(3) line_not_invalid [of pa] unfolding s' by (simp add: thr_upd_core)
  show "memory s' = memory s" "scalar_reg (thr s' c t') = scalar_reg (thr s c t')"
    unfolding s' by (simp_all add: thr_upd_core thr_def)
qed

text \<open>
  without a conflicting store in between, a synchronized store that follows a synchronized load
  of the same word succeeds: it writes the register's value to memory, leaves 1 in the register, and
  ends the reservations of all threads for that line.
\<close>

theorem sync_load_store_succeeds:
  assumes ok: "machine_ok s" "single_core s" and pa: "pa < memory_size s" and r: "r \<noteq> r'"
    and t: "t' < total_threads s"
    and ld: "scalar_load c t MEM_SYNC r' pa s = Inr s1"
  shows "\<exists>s2. scalar_store c t MEM_SYNC r pa va s1 = Inr s2 \<and> scalar_reg (thr s2 c t) r = 1
    \<and> memory s2 = put32 (4 * (unat pa div 4)) (scalar_reg (thr s c t) r) (memory s)
    \<and> last_sync_load_addr (thr s2 c t') \<noteq> pa div CACHE_LINE_LENGTH"
proof -
  have s1: "s1 = set_scalar_reg c t r' (get32 (memory s) (4 * (unat pa div 4)))
      (upd_thr c t (\<lambda>th. th\<lparr>last_sync_load_addr := pa div 64\<rparr>) s)"
    using ld load_in_memory(1) [OF ok(1) pa] by (simp add: scalar_load_def)
  have g: "machine_ok s1" "single_core s1" "memory_size s1 = memory_size s" "memory s1 = memory s"
    "total_threads s1 = total_threads s"
    "last_sync_load_addr (thr s1 c t) = pa div 64" "scalar_reg (thr s1 c t) r = scalar_reg (thr s c t) r"
    using ok r unfolding s1 by (simp_all add: set_scalar_reg_def Let_def)
  define s3 where "s3 = (upd_thr c t (\<lambda>th. th\<lparr>scalar_reg := (scalar_reg th)(r := 1)\<rparr>) s1)
      \<lparr>memory := put32 (4 * (unat pa div 4)) (scalar_reg (thr s c t) r) (memory s)\<rparr>"
  have st: "store32 pa (scalar_reg (thr s c t) r) (upd_thr c t (\<lambda>th. th\<lparr>scalar_reg := (scalar_reg th)(r := 1)\<rparr>) s1)
      = Inr s3"
    using store_in_memory(1) [of "upd_thr c t (\<lambda>th. th\<lparr>scalar_reg := (scalar_reg th)(r := 1)\<rparr>) s1" pa] g pa
    by (simp add: s3_def)
  have s3: "single_core s3" "total_threads s3 = total_threads s" "scalar_reg (thr s3 c t) r = 1"
    "memory s3 = put32 (4 * (unat pa div 4)) (scalar_reg (thr s c t) r) (memory s)"
    using g by (simp_all add: s3_def)
  then obtain s4 where s4: "invalidate_sync_address c pa s3 = Inr s4"
    by (simp add: invalidate_sync_address_eq single_core_def)
  note cl = invalidate_clears [OF s3(1) s4]
  show ?thesis
    using g st s4 s3 cl(1) [of t'] cl(2,3) [OF t [folded s3(2)]] t
    by (auto simp: scalar_store_def Let_def finish_store_def)
qed

theorem sync_load_store_succeeds_witness:
  "\<exists>s1 s2. scalar_load 0 1 MEM_SYNC 2 0x40 (boot_machine (\<lambda>_. 0)) = Inr s1
     \<and> scalar_store 0 1 MEM_SYNC 3 0x40 0x40 s1 = Inr s2 \<and> scalar_reg (thr s2 0 1) 3 = 1"
proof -
  obtain s1 where s1: "scalar_load 0 1 MEM_SYNC 2 0x40 (boot_machine (\<lambda>_. 0)) = Inr s1"
    by (simp add: scalar_load_def load32_def)
  have f: "0x40 < memory_size (boot_machine (\<lambda>_. 0))" "(0 :: nat) < total_threads (boot_machine (\<lambda>_. 0))" by simp_all
  show ?thesis
    using sync_load_store_succeeds [OF boot_machine_ok f(1) _ f(2) s1, of 3 "0x40"] s1 by auto
qed

subsection \<open>A gather instruction as a whole\<close>

text \<open>One more execution of the same instruction: the fetch has advanced the program counter.\<close>

definition repeat_step :: "nat \<Rightarrow> nat \<Rightarrow> u32 \<Rightarrow> machine \<Rightarrow> machine cres" where
  "repeat_step c t i s = execute_scatter_gather_inst c t i (upd_thr c t (\<lambda>th. th\<lparr>pc := pc th + 4\<rparr>) s)"

primrec repeat_lanes :: "nat \<Rightarrow> nat \<Rightarrow> nat \<Rightarrow> u32 \<Rightarrow> machine \<Rightarrow> machine cres" where
  "repeat_lanes 0 c t i s = Inr s"
| "repeat_lanes (Suc n) c t i s = bindE (repeat_lanes n c t i s) (repeat_step c t i)"

text \<open>The thread after \<open>k\<close> lanes have been loaded.\<close>

definition gathered :: "mem \<Rightarrow> nat \<Rightarrow> (nat \<Rightarrow> u32) \<Rightarrow> nat \<Rightarrow> thread \<Rightarrow> thread" where
  "gathered m d addr k th = th\<lparr>subcycle := of_nat k,
     vector_reg := (vector_reg th)(d := \<lambda>lane. if lane < k then get32 m (4 * (unat (addr lane) div 4))
                                        else vector_reg th d lane)\<rparr>"

lemma gather_step:
  assumes i: "extract_unsigned_bits i 25 4 = MEM_SCGATH" "extract_unsigned_bits i 29 1 \<noteq> 0"
    and s: "machine_ok s" "\<not> enable_cosim s" "\<not> enable_mmu (thr s c t)" and k: "k < 16"
    and addr: "\<And>lane. addr lane = vector_reg (thr s c t) (reg_field i 0) lane + extract_signed_bits i 10 15"
    and ok: "addr k AND 3 = 0" "addr k < memory_size s" "addr k < DEVICE_BASE_ADDRESS"
  shows "repeat_step c t i (upd_thr c t (gathered (memory s) (reg_field i 5) addr k) s)
    = Inr (upd_thr c t (\<lambda>th. advance_subcycle ((gathered (memory s) (reg_field i 5) addr (Suc k) th)
        \<lparr>subcycle := of_nat k, pc := pc th + 4\<rparr>)) s)"
proof -
  let ?d = "reg_field i 5" and ?p = "reg_field i 0"
  let ?s0 = "upd_thr c t (\<lambda>th. th\<lparr>pc := pc th + 4\<rparr>) (upd_thr c t (gathered (memory s) ?d addr k) s)"
  have lane: "unat (of_nat k :: u32) = k" using k by (simp add: unat_of_nat take_bit_nat_eq_self)
  have va: "vector_reg (thr ?s0 c t) ?p k + extract_signed_bits i 10 15 = addr k"
    by (simp add: gathered_def addr)
  have "\<not> memory_size s \<le> addr k" "\<not> DEVICE_BASE_ADDRESS \<le> addr k" using ok(2,3) by simp_all
  then have tr: "translate_address c t (addr k) b True ?s0 = (Some (addr k), ?s0)" and nd: "\<not> 0xffff0000 \<le> addr k" for b
    using s(3) by (simp_all add: translate_address_def gathered_def)
  have ld: "load32 ?s0 (addr k) = Inr (get32 (memory s) (4 * (unat (addr k) div 4)))"
    using load_in_memory(1) [of ?s0 "addr k"] s(1) ok(2) by simp
  have bits: "bit (0xffff :: u32) k"
  proof -
    have m: "(0xffff :: u32) = mask 16" by (simp add: mask_eq_exp_minus_1)
    show ?thesis unfolding m using k by (simp add: bit_simps)
  qed
  have "repeat_step c t i (upd_thr c t (gathered (memory s) ?d addr k) s)
    = bindE (gather_lane c t ?d k True (addr k) ?s0) (\<lambda>s''. Inr (upd_thr c t advance_subcycle s''))"
    using i k va tr nd ok(1) bits lane
    by (simp add: repeat_step_def execute_scatter_gather_inst_def vector_access_mask_offset_def Let_def gathered_def)
  also have "\<dots> = Inr (upd_thr c t advance_subcycle (set_vector_reg c t ?d (push_bit k 1)
      ((\<lambda>_. 0)(k := get32 (memory s) (4 * (unat (addr k) div 4)))) ?s0))"
    using ld by (simp add: gather_lane_def)
  also have "\<dots> = Inr (upd_thr c t (\<lambda>th. advance_subcycle ((gathered (memory s) ?d addr (Suc k) th)
        \<lparr>subcycle := of_nat k, pc := pc th + 4\<rparr>)) s)"
    using s(2) k
    by (auto simp: set_vector_reg_def Let_def upd_thr_compose gathered_def fun_eq_iff bit_simps less_Suc_eq
        intro!: upd_thr_cong arg_cong [of _ _ advance_subcycle])
  finally show ?thesis .
qed

lemma advance_middle:
  assumes "k < 15"
  shows "advance_subcycle ((gathered m d addr (Suc k) th)\<lparr>subcycle := of_nat k, pc := pc th + 4\<rparr>)
    = gathered m d addr (Suc k) th"
proof -
  have "of_nat (Suc k) \<noteq> (16 :: u32)"
  proof
    assume "of_nat (Suc k) = (16 :: u32)"
    then have "unat (of_nat (Suc k) :: u32) = 16" by simp
    moreover have "unat (of_nat (Suc k) :: u32) = Suc k"
      using assms by (simp add: unat_of_nat take_bit_nat_eq_self del: of_nat_Suc)
    ultimately show False using assms by simp
  qed
  then show ?thesis by (simp add: advance_subcycle_def gathered_def add.commute)
qed

lemma advance_last:
  "advance_subcycle (th\<lparr>subcycle := of_nat 15, pc := p\<rparr>) = th\<lparr>subcycle := 0, pc := p\<rparr>"
  by (simp add: advance_subcycle_def)

text \<open>
  a gather instruction that starts in subcycle 0 and is executed sixteen times loads every lane
  of its destination from the address in the corresponding lane of the pointer register, also when
  the two registers are the same, and leaves the thread after the instruction in subcycle 0; no
  memory and no other state changes.
\<close>

theorem gather_loads_all_lanes:
  assumes i: "extract_unsigned_bits i 25 4 = MEM_SCGATH" "extract_unsigned_bits i 29 1 \<noteq> 0"
    and s: "machine_ok s" "\<not> enable_cosim s" "\<not> enable_mmu (thr s c t)" "subcycle (thr s c t) = 0"
    and addr: "\<And>lane. addr lane = vector_reg (thr s c t) (reg_field i 0) lane + extract_signed_bits i 10 15"
    and ok: "\<And>lane. lane < 16 \<Longrightarrow> addr lane AND 3 = 0 \<and> addr lane < memory_size s \<and> addr lane < DEVICE_BASE_ADDRESS"
  shows "repeat_lanes 16 c t i s = Inr (upd_thr c t (\<lambda>th. th\<lparr>pc := pc th + 4,
      vector_reg := (vector_reg th)(reg_field i 5 := \<lambda>lane.
        if lane < 16 then get32 (memory s) (4 * (unat (addr lane) div 4)) else vector_reg th (reg_field i 5) lane)\<rparr>) s)"
proof -
  let ?G = "gathered (memory s) (reg_field i 5) addr"
  have step: "repeat_step c t i (upd_thr c t (?G k) s)
      = Inr (upd_thr c t (\<lambda>th. advance_subcycle ((?G (Suc k) th)\<lparr>subcycle := of_nat k, pc := pc th + 4\<rparr>)) s)"
    if "k < 16" for k
    using ok [OF that] by (intro gather_step [OF i s(1-3) that addr]) simp_all
  have lanes: "repeat_lanes k c t i s = Inr (upd_thr c t (?G k) s)" if "k \<le> 15" for k
    using that
  proof (induction k)
    case 0
    have "upd_thr c t (?G 0) s = s" using s(4) by (intro upd_thr_id) (simp add: gathered_def)
    then show ?case by simp
  next
    case (Suc k)
    then show ?case using step [of k] by (simp add: advance_middle)
  qed
  have "repeat_lanes (Suc 15) c t i s = Inr (upd_thr c t (\<lambda>th. (?G (Suc 15) th)\<lparr>subcycle := 0, pc := pc th + 4\<rparr>) s)"
    unfolding repeat_lanes.simps lanes [OF order.refl] bindE_simps
    using step [of 15] by (simp add: advance_last [simplified])
  then have "repeat_lanes 16 c t i s = Inr (upd_thr c t (\<lambda>th. (?G 16 th)\<lparr>subcycle := 0, pc := pc th + 4\<rparr>) s)"
    by simp
  also have "\<dots> = Inr (upd_thr c t (\<lambda>th. th\<lparr>pc := pc th + 4,
      vector_reg := (vector_reg th)(reg_field i 5 := \<lambda>lane.
        if lane < 16 then get32 (memory s) (4 * (unat (addr lane) div 4)) else vector_reg th (reg_field i 5) lane)\<rparr>) s)"
    using s(4) by (intro arg_cong [of _ _ Inr] upd_thr_cong) (simp add: gathered_def)
  finally show ?thesis .
qed

text \<open>\<open>load_gath v2, (v1)\<close> with the address 8 in each lane of \<open>v1\<close>\<close>

theorem gather_loads_all_lanes_witness:
  "let s = upd_thr 0 0 (\<lambda>th. th\<lparr>vector_reg := (\<lambda>_ _. 8)\<rparr>) (boot_machine of_nat)
   in \<exists>s'. repeat_lanes 16 0 0 0xba000041 s = Inr s' \<and> vector_reg (thr s' 0 0) 2 3 = get32 of_nat 8"
proof -
  define s where "s = upd_thr 0 0 (\<lambda>th. th\<lparr>vector_reg := (\<lambda>_ _. 8)\<rparr>) (boot_machine of_nat)"
  have f: "extract_unsigned_bits 0xba000041 25 4 = MEM_SCGATH" "extract_unsigned_bits 0xba000041 29 1 \<noteq> 0"
    "reg_field 0xba000041 5 = 2" "extract_signed_bits 0xba000041 10 15 = 0"
    by (simp_all add: extract_unsigned_bits_def extract_signed_bits_def reg_field_def)
  have s: "machine_ok s" "\<not> enable_cosim s" "\<not> enable_mmu (thr s 0 0)" "subcycle (thr s 0 0) = 0"
    "vector_reg (thr s 0 0) = (\<lambda>_ _. 8)" "memory_size s = 0x1000" "memory s = of_nat"
    by (simp_all add: s_def) (simp_all add: thr_def boot_machine_def init_core_def init_thread_def)
  have a: "(8 :: u32) = vector_reg (thr s 0 0) (reg_field 0xba000041 0) lane + extract_signed_bits 0xba000041 10 15" for lane
    by (simp add: f(4) s(5))
  from gather_loads_all_lanes [OF f(1,2) s(1-4) a] show ?thesis
    unfolding Let_def s_def [symmetric] by (simp add: f(3) s(6,7) del: repeat_lanes.simps)
qed

end
