(* ===== verification/Emu_Control.thy ===== *)
theory Emu_Control
  imports Emu_Memory
begin

text \<open>
  Control registers, branches and the dispatch of memory instructions of
  \<open>tools/emulator/processor.c\<close>. User mode threads cannot reach the control registers; the lemmas
  at the end show that no control register write breaks the machine invariant, and in particular
  that only existing threads can be enabled.
\<close>

definition flags_word :: "bool \<Rightarrow> bool \<Rightarrow> bool \<Rightarrow> u32" where
  "flags_word interrupt mmu supervisor =
     (if interrupt then 1 else 0) OR (if mmu then 2 else 0) OR (if supervisor then 4 else 0)"

definition read_control_register :: "nat \<Rightarrow> nat \<Rightarrow> u32 \<Rightarrow> nat \<Rightarrow> machine \<Rightarrow> machine" where
  "read_control_register c t cr_index dst_src_reg s =
   (let th = thr s c t; saved = saved_trap_state0 th; co = cores s c;
        value =
          (if cr_index = CR_THREAD_ID then tid th
           else if cr_index = CR_TRAP_HANDLER then trap_handler_pc co
           else if cr_index = CR_TRAP_PC then ts_pc saved
           else if cr_index = CR_TRAP_REASON then ts_trap_cause saved
           else if cr_index = CR_FLAGS
           then flags_word (enable_interrupt th) (enable_mmu th) (enable_supervisor th)
           else if cr_index = CR_SAVED_FLAGS
           then flags_word (ts_enable_interrupt saved) (ts_enable_mmu saved) (ts_enable_supervisor saved)
           else if cr_index = CR_CURRENT_ASID then asid th
           else if cr_index = CR_PAGE_DIR then page_dir th
           else if cr_index = CR_TRAP_ACCESS_ADDR then ts_access_address saved
           else if cr_index = CR_CYCLE_COUNT then ucast (total_instructions s)
           else if cr_index = CR_TLB_MISS_HANDLER then tlb_miss_handler_pc co
           else if cr_index = CR_SCRATCHPAD0 then ts_scratchpad0 saved
           else if cr_index = CR_SCRATCHPAD1 then ts_scratchpad1 saved
           else if cr_index = CR_SUBCYCLE then ts_subcycle saved
           else if cr_index = CR_INTERRUPT_PENDING
           then get_pending_interrupts c t s AND interrupt_mask th
           else if cr_index = CR_INTERRUPT_ENABLE then interrupt_mask th
           else if cr_index = CR_INTERRUPT_TRIGGER then is_level_triggered co
           else if cr_index = CR_SYSCALL_INDEX then ts_syscall_index saved
           else 0xffffffff)
    in set_scalar_reg c t dst_src_reg value s)"

text \<open>The mask \<open>(1ull << total_threads) - 1\<close>, converted to 32 bits by the assignment.\<close>

definition all_threads_mask :: "nat \<Rightarrow> u32" where
  "all_threads_mask n = ucast (push_bit n 1 - 1 :: u64)"

definition write_control_register :: "nat \<Rightarrow> nat \<Rightarrow> u32 \<Rightarrow> nat \<Rightarrow> machine \<Rightarrow> machine" where
  "write_control_register c t cr_index dst_src_reg s =
   (let value = scalar_reg (thr s c t) dst_src_reg;
        upd = (\<lambda>f. upd_thr c t f s);
        upd_saved = (\<lambda>f. upd_thr c t (\<lambda>th. th\<lparr>saved_trap_state0 := f (saved_trap_state0 th)\<rparr>) s)
    in if cr_index = CR_TRAP_HANDLER then upd_core c (\<lambda>co. co\<lparr>trap_handler_pc := value\<rparr>) s
       else if cr_index = CR_TRAP_PC then upd_saved (\<lambda>ts. ts\<lparr>ts_pc := value\<rparr>)
       else if cr_index = CR_FLAGS then
         (let s' = upd (\<lambda>th. th\<lparr>enable_interrupt := (value AND 1 \<noteq> 0),
                enable_mmu := (value AND 2 \<noteq> 0), enable_supervisor := (value AND 4 \<noteq> 0)\<rparr>)
          in if enable_interrupt (thr s' c t) then try_to_dispatch_interrupt c t s' else s')
       else if cr_index = CR_SAVED_FLAGS
       then upd_saved (\<lambda>ts. ts\<lparr>ts_enable_interrupt := (value AND 1 \<noteq> 0),
              ts_enable_mmu := (value AND 2 \<noteq> 0), ts_enable_supervisor := (value AND 4 \<noteq> 0)\<rparr>)
       else if cr_index = CR_CURRENT_ASID then upd (\<lambda>th. th\<lparr>asid := value\<rparr>)
       else if cr_index = CR_PAGE_DIR then upd (\<lambda>th. th\<lparr>page_dir := value\<rparr>)
       else if cr_index = CR_TLB_MISS_HANDLER then upd_core c (\<lambda>co. co\<lparr>tlb_miss_handler_pc := value\<rparr>) s
       else if cr_index = CR_SCRATCHPAD0 then upd_saved (\<lambda>ts. ts\<lparr>ts_scratchpad0 := value\<rparr>)
       else if cr_index = CR_SCRATCHPAD1 then upd_saved (\<lambda>ts. ts\<lparr>ts_scratchpad1 := value\<rparr>)
       else if cr_index = CR_SUBCYCLE then upd_saved (\<lambda>ts. ts\<lparr>ts_subcycle := value\<rparr>)
       else if cr_index = CR_INTERRUPT_ENABLE then upd (\<lambda>th. th\<lparr>interrupt_mask := value\<rparr>)
       else if cr_index = CR_INTERRUPT_ACK
       then upd (\<lambda>th. th\<lparr>latched_interrupts := latched_interrupts th AND NOT value\<rparr>)
       else if cr_index = CR_INTERRUPT_TRIGGER then upd_core c (\<lambda>co. co\<lparr>is_level_triggered := value\<rparr>) s
       else if cr_index = CR_SUSPEND_THREAD
       then s\<lparr>thread_enable_mask := thread_enable_mask s AND NOT value\<rparr>
       else if cr_index = CR_RESUME_THREAD
       then s\<lparr>thread_enable_mask := thread_enable_mask s OR (value AND all_threads_mask (total_threads s))\<rparr>
       else s)"

definition execute_control_register_inst :: "nat \<Rightarrow> nat \<Rightarrow> u32 \<Rightarrow> machine \<Rightarrow> machine" where
  "execute_control_register_inst c t instruction s =
   (let cr_index = extract_unsigned_bits instruction 0 5;
        dst_src_reg = reg_field instruction 5
    in if \<not> enable_supervisor (thr s c t) then raise_trap c t 0 TT_PRIVILEGED_OP False False 0 s
       else if extract_unsigned_bits instruction 29 1 \<noteq> 0
       then read_control_register c t cr_index dst_src_reg s
       else write_control_register c t cr_index dst_src_reg s)"

definition execute_memory_access_inst :: "nat \<Rightarrow> nat \<Rightarrow> u32 \<Rightarrow> machine \<Rightarrow> machine cres" where
  "execute_memory_access_inst c t instruction s =
   (let type = extract_unsigned_bits instruction 25 4 in
    if is_scalar_access type then execute_scalar_load_store_inst c t instruction s
    else if type = MEM_CONTROL_REG then Inr (execute_control_register_inst c t instruction s)
    else if type = MEM_BLOCK_VECTOR \<or> type = MEM_BLOCK_VECTOR_MASK
    then execute_block_load_store_inst c t instruction s
    else if type = MEM_SCGATH \<or> type = MEM_SCGATH_MASK
    then execute_scatter_gather_inst c t instruction s
    else Inr (raise_trap c t 0 TT_ILLEGAL_INSTRUCTION False False 0 s))"

definition execute_branch_inst :: "nat \<Rightarrow> nat \<Rightarrow> u32 \<Rightarrow> machine \<Rightarrow> machine" where
  "execute_branch_inst c t instruction s =
   (let src_reg = reg_field instruction 0;
        offset20 = extract_signed_bits instruction 5 20 * 4 - 4;
        offset25 = extract_signed_bits instruction 0 25 * 4 - 4;
        type = extract_unsigned_bits instruction 25 3;
        th = thr s c t;
        jump = (\<lambda>target. upd_thr c t (\<lambda>th. th\<lparr>pc := target th\<rparr>))
    in if type = BRANCH_REGISTER then jump (\<lambda>th. scalar_reg th src_reg) s
       else if type = BRANCH_ZERO
       then (if scalar_reg th src_reg = 0 then jump (\<lambda>th. pc th + offset20) s else s)
       else if type = BRANCH_NOT_ZERO
       then (if scalar_reg th src_reg \<noteq> 0 then jump (\<lambda>th. pc th + offset20) s else s)
       else if type = BRANCH_ALWAYS then jump (\<lambda>th. pc th + offset25) s
       else if type = BRANCH_CALL_OFFSET
       then jump (\<lambda>th. pc th + offset25) (set_scalar_reg c t LINK_REG (pc th) s)
       else if type = BRANCH_CALL_REGISTER
       then jump (\<lambda>th. scalar_reg th src_reg) (set_scalar_reg c t LINK_REG (pc th) s)
       else if type = BRANCH_ERET then
         (if \<not> enable_supervisor th then raise_trap c t 0 TT_PRIVILEGED_OP False False 0 s
          else return_from_trap c t s)
       else raise_trap c t 0 TT_ILLEGAL_INSTRUCTION False False 0 s)"

subsection \<open>Invariant\<close>

lemma bit_all_threads_mask:
  assumes "n \<le> 32" shows "bit (all_threads_mask n) i \<longleftrightarrow> i < n"
proof -
  have "(push_bit n 1 - 1 :: u64) = mask n" by (simp add: mask_eq_exp_minus_1 push_bit_eq_mult)
  then show ?thesis using assms by (auto simp: all_threads_mask_def bit_simps)
qed

lemma unat_less_exp_iff: "n \<le> 32 \<Longrightarrow> unat (w :: u32) < 2 ^ n \<longleftrightarrow> (\<forall>i\<ge>n. \<not> bit w i)"
proof -
  assume n: "n \<le> 32"
  have "unat w < 2 ^ n \<longleftrightarrow> take_bit n w = w"
  proof -
    have "take_bit n w = w \<longleftrightarrow> unat (take_bit n w) = unat w" by (simp add: word_unat_eq_iff)
    then show ?thesis unfolding unat_take_bit_mod by (metis mod_less mod_less_divisor zero_less_numeral zero_less_power)
  qed
  also have "\<dots> \<longleftrightarrow> (\<forall>i\<ge>n. \<not> bit w i)"
    by (metis bit_take_bit_iff bit_word_eqI linorder_not_le)
  finally show ?thesis .
qed

lemma machine_ok_mask:
  assumes "machine_ok s" "\<And>i. bit w i \<Longrightarrow> bit (thread_enable_mask s) i \<or> i < total_threads s"
  shows "machine_ok (s\<lparr>thread_enable_mask := w\<rparr>)"
proof -
  have n: "total_threads s \<le> 32" using assms(1) by (simp add: machine_ok_def)
  have "\<forall>i\<ge>total_threads s. \<not> bit (thread_enable_mask s) i"
    using assms(1) unat_less_exp_iff [OF n] by (simp add: machine_ok_def)
  then have "unat w < 2 ^ total_threads s"
    using assms(2) unat_less_exp_iff [OF n] by (metis not_le)
  with assms(1) show ?thesis by (simp add: machine_ok_def)
qed

lemma machine_ok_core_fields:
  assumes "machine_ok s"
  shows "machine_ok (upd_core c (\<lambda>co. co\<lparr>trap_handler_pc := v\<rparr>) s)"
    "machine_ok (upd_core c (\<lambda>co. co\<lparr>tlb_miss_handler_pc := v\<rparr>) s)"
    "machine_ok (upd_core c (\<lambda>co. co\<lparr>is_level_triggered := v\<rparr>) s)"
  using assms by (intro machine_ok_upd_core; simp add: machine_ok_def)+

lemma good_dispatch [simp]:
  "good (try_to_dispatch_interrupt c t s) = good s"
  "good (return_from_trap c t s) = good s"
  "good (raise_interrupt b s) = good s"
  by (simp_all add: good_def)

lemma read_control_register_good [simp]: "good (read_control_register c t cr r s) = good s"
  by (simp add: read_control_register_def Let_def)

lemma write_control_register_good:
  assumes "good s" shows "good (write_control_register c t cr r s)"
proof -
  have ok: "machine_ok s" "single_core s" using assms by (simp_all add: good_def)
  have n: "total_threads s \<le> 32" using ok(1) by (simp add: machine_ok_def)
  have "machine_ok (s\<lparr>thread_enable_mask := thread_enable_mask s AND NOT v\<rparr>)"
    "machine_ok (s\<lparr>thread_enable_mask := thread_enable_mask s OR (v AND all_threads_mask (total_threads s))\<rparr>)" for v
    by (rule machine_ok_mask [OF ok(1)], auto simp: bit_simps bit_all_threads_mask [OF n])+
  with assms machine_ok_core_fields [OF ok(1)] ok(2) show ?thesis
    unfolding write_control_register_def Let_def by (simp add: good_def)
qed

lemma execute_control_register_inst_good: "good s \<Longrightarrow> good (execute_control_register_inst c t i s)"
  by (simp add: execute_control_register_inst_def Let_def write_control_register_good)

lemma execute_branch_inst_good [simp]: "good (execute_branch_inst c t i s) = good s"
  by (simp add: execute_branch_inst_def Let_def)

lemma execute_memory_access_inst_good:
  assumes "good s" "subcycle (thr s c t) < 16"
  shows "specE clean_exit (execute_memory_access_inst c t i s) good"
  using assms execute_scalar_load_store_good [OF assms(1), of i c t]
    execute_block_load_store_good [OF assms(1), of i clean_exit c t]
    execute_scatter_gather_good [OF assms, of i clean_exit] execute_control_register_inst_good [OF assms(1), of c t i]
  by (auto simp: execute_memory_access_inst_def Let_def)

end
