(* ===== verification/Emu_Exec.thy ===== *)
theory Emu_Exec
  imports Emu_Control
begin

text \<open>
  The instruction cycle and the scheduler of \<open>tools/emulator/processor.c\<close>: fetch, decode,
  breakpoints, the timer, and the loop that picks the next enabled thread. A Boolean result is
  the C result: false when a breakpoint stopped the execution loop.
\<close>

definition lookup_breakpoint :: "machine \<Rightarrow> u32 \<Rightarrow> breakpoint option" where
  "lookup_breakpoint s addr = find (\<lambda>b. bp_address b = addr) (breakpoints s)"

text \<open>Assigning the \<open>restart\<close> field of the breakpoint that \<open>lookup_breakpoint\<close> returned.\<close>

fun set_restart :: "u32 \<Rightarrow> bool \<Rightarrow> breakpoint list \<Rightarrow> breakpoint list" where
  "set_restart addr v [] = []"
| "set_restart addr v (b # bs) =
     (if bp_address b = addr then b\<lparr>restart := v\<rparr> # bs else b # set_restart addr v bs)"

definition execute_decoded :: "nat \<Rightarrow> nat \<Rightarrow> u32 \<Rightarrow> machine \<Rightarrow> machine cres" where
  "execute_decoded c t instruction s =
     (if instruction AND 0xe0000000 = 0xc0000000 then Inr (execute_register_arith_inst c t instruction s)
      else if instruction AND 0x80000000 = 0 then
        Inr (if instruction \<noteq> INSTRUCTION_NOP then execute_immediate_arith_inst c t instruction s else s)
      else if instruction AND 0xc0000000 = 0x80000000 then execute_memory_access_inst c t instruction s
      else if instruction AND 0xf0000000 = 0xf0000000 then Inr (execute_branch_inst c t instruction s)
      else if instruction AND 0xf0000000 = 0xe0000000
      then Inr (execute_cache_control_inst c t instruction s)
      else Inr s)"

text \<open>The branch for \<open>BREAKPOINT_INST\<close>; \<open>goto restart\<close> decodes the original instruction.\<close>

definition execute_breakpoint :: "nat \<Rightarrow> nat \<Rightarrow> machine \<Rightarrow> (bool \<times> machine) cres" where
  "execute_breakpoint c t s =
     (let addr = pc (thr s c t) - 4 in
      case lookup_breakpoint s addr of
        None \<Rightarrow> Inr (True, raise_trap c t 0 TT_ILLEGAL_INSTRUCTION False False 0 s)
      | Some b \<Rightarrow>
          if restart b \<or> single_stepping s then
            (if original_instruction b = BREAKPOINT_INST then Inl Assert_failed
             else bindE (execute_decoded c t (original_instruction b)
                    (s\<lparr>breakpoints := set_restart addr False (breakpoints s)\<rparr>)) (\<lambda>s'. Inr (True, s')))
          else Inr (False, upd_thr c t (\<lambda>th. th\<lparr>pc := pc th - 4\<rparr>)
                     (s\<lparr>breakpoints := set_restart addr True (breakpoints s)\<rparr>)))"

definition execute_instruction :: "nat \<Rightarrow> nat \<Rightarrow> machine \<Rightarrow> (bool \<times> machine) cres" where
  "execute_instruction c t s =
     (let fetch_pc = pc (thr s c t);
          s1 = upd_thr c t (\<lambda>th. th\<lparr>pc := pc th + 4\<rparr>) s
      in if fetch_pc AND 3 \<noteq> 0
         then Inr (True, raise_trap c t (pc (thr s1 c t)) TT_UNALIGNED_ACCESS False False 0 s1)
         else case translate_address c t fetch_pc False False s1 of
           (None, s2) \<Rightarrow> Inr (True, s2)
         | (Some physical_pc, s2) \<Rightarrow>
             bindE (load32 s2 physical_pc) (\<lambda>instruction.
               let s3 = s2\<lparr>total_instructions := total_instructions s2 + 1\<rparr> in
               if instruction = BREAKPOINT_INST then execute_breakpoint c t s3
               else bindE (execute_decoded c t instruction s3) (\<lambda>s'. Inr (True, s'))))"

definition timer_tick :: "machine \<Rightarrow> machine" where
  "timer_tick s =
     (if current_timer_count s > 0 then
        (let s' = s\<lparr>current_timer_count := current_timer_count s - 1\<rparr>
         in if current_timer_count s = 1 then raise_interrupt INT_TIMER s' else s')
      else s)"

text \<open>One iteration of either loop of \<open>execute_instructions\<close>, for the thread it has picked.\<close>

definition run_thread :: "nat \<Rightarrow> machine \<Rightarrow> (bool \<times> machine) cres" where
  "run_thread thread_id s =
     bindE (get_thread s thread_id) (\<lambda>(c, t).
       bindE (execute_instruction c t s) (\<lambda>(ok, s').
         Inr (ok, if ok then timer_tick s' else s')))"

text \<open>The thread that the round robin loop picks after thread \<open>n\<close>.\<close>

definition pick_next :: "u32 \<Rightarrow> nat \<Rightarrow> nat" where
  "pick_next enabled n = next_set_bit enabled ((n + 31) mod 32)"

primrec run_round_robin :: "nat \<Rightarrow> nat \<Rightarrow> machine \<Rightarrow> (bool \<times> machine) cres" where
  "run_round_robin 0 next_thread s = Inr (True, s)"
| "run_round_robin (Suc n) next_thread s =
     (if thread_enable_mask s = 0 \<or> crashed s then Inr (False, s)
      else let next_thread' = pick_next (thread_enable_mask s) next_thread in
        bindE (run_thread next_thread' s) (\<lambda>(ok, s').
          if ok then run_round_robin n next_thread' s' else Inr (False, s')))"

primrec run_random :: "nat \<Rightarrow> machine \<Rightarrow> (bool \<times> machine) cres" where
  "run_random 0 s = Inr (True, s)"
| "run_random (Suc n) s =
     (if thread_enable_mask s = 0 \<or> crashed s then Inr (False, s)
      else if total_threads s = 0 then Inl Out_of_bounds
      else let (r, rs') = next_random (rng s);
               s1 = s\<lparr>rng := rs'\<rparr>;
               next_thread = next_set_bit (thread_enable_mask s)
                 (unat (ucast r :: u32) mod total_threads s)
           in bindE (run_thread next_thread s1) (\<lambda>(ok, s').
                if ok then run_random n s' else Inr (False, s')))"

definition execute_instructions :: "nat \<Rightarrow> machine \<Rightarrow> (bool \<times> machine) cres" where
  "execute_instructions n s =
     (let s' = s\<lparr>single_stepping := False\<rparr>
      in if random_thread_sched s' then run_random n s' else run_round_robin n 0 s')"

definition dbg_single_step :: "nat \<Rightarrow> machine \<Rightarrow> machine cres" where
  "dbg_single_step thread_id s =
     bindE (get_thread s thread_id) (\<lambda>(c, t).
       bindE (execute_instruction c t (s\<lparr>single_stepping := True\<rparr>)) (\<lambda>(ok, s'). Inr (timer_tick s')))"

subsection \<open>The instruction cycle keeps the invariant\<close>

lemma set_restart_address [simp]: "map bp_address (set_restart a v bs) = map bp_address bs"
  by (induction bs) simp_all

lemma set_restart_ok: "\<forall>b\<in>set bs. breakpoint_ok m b \<Longrightarrow> \<forall>b\<in>set (set_restart a v bs). breakpoint_ok m b"
proof (induction bs)
  case (Cons b bs)
  have "breakpoint_ok m (b\<lparr>restart := v\<rparr>) = breakpoint_ok m b" by (simp add: breakpoint_ok_def)
  with Cons show ?case by simp
qed simp

lemma good_set_restart [simp]:
  "good s \<Longrightarrow> good (s\<lparr>breakpoints := set_restart a v (breakpoints s)\<rparr>)"
  using set_restart_ok [of "breakpoints s" "memory_size s" a v]
  by (simp add: good_def machine_ok_def single_core_def)

lemma execute_decoded_good:
  assumes "good s" "subcycle (thr s c t) < 16"
  shows "specE clean_exit (execute_decoded c t i s) good"
proof -
  have "good (execute_register_arith_inst c t i s)" "good (execute_immediate_arith_inst c t i s)"
    "good (execute_cache_control_inst c t i s)"
    using assms(1) execute_cache_control_inst_ok by (simp_all add: good_def)
  with assms execute_memory_access_inst_good [OF assms, of i] show ?thesis
    by (simp add: execute_decoded_def)
qed

lemma lookup_breakpoint_in: "lookup_breakpoint s a = Some b \<Longrightarrow> b \<in> set (breakpoints s) \<and> bp_address b = a"
  by (auto simp: lookup_breakpoint_def find_Some_iff)

lemma execute_breakpoint_good:
  assumes "good s" "subcycle (thr s c t) < 16"
  shows "specE clean_exit (execute_breakpoint c t s) (\<lambda>(ok, s'). good s')"
proof (cases "lookup_breakpoint s (pc (thr s c t) - 4)")
  case None
  then show ?thesis using assms(1) by (simp add: execute_breakpoint_def)
next
  case (Some b)
  then have "original_instruction b \<noteq> BREAKPOINT_INST"
    using assms(1) lookup_breakpoint_in [OF Some] by (auto simp: good_def machine_ok_def breakpoint_ok_def)
  with Some assms show ?thesis by (simp add: execute_breakpoint_def Let_def execute_decoded_good)
qed

text \<open>The fetch does not go to a device register: memory is what the program counter leads to.\<close>

definition fetch_in_memory :: "nat \<Rightarrow> nat \<Rightarrow> machine \<Rightarrow> bool" where
  "fetch_in_memory c t s =
     (case fst (translate_address c t (pc (thr s c t)) False False s) of
        None \<Rightarrow> True | Some pa \<Rightarrow> pa < memory_size s)"

lemma translate_upd_pc:
  "fst (translate_address c t va st d (upd_thr c t (\<lambda>th. th\<lparr>pc := f th\<rparr>) s))
     = fst (translate_address c t va st d s)"
  by (simp add: translate_address_def Let_def if_distrib [of fst] option.case_distrib [of fst]
      trap_type.case_distrib [of fst] cong: if_cong option.case_cong trap_type.case_cong split del: if_split)

lemma execute_instruction_good:
  assumes "good s" "subcycle (thr s c t) < 16" "fetch_in_memory c t s"
  shows "specE clean_exit (execute_instruction c t s) (\<lambda>(ok, s'). good s')"
proof -
  let ?s1 = "upd_thr c t (\<lambda>th. th\<lparr>pc := pc th + 4\<rparr>) s" and ?va = "pc (thr s c t)"
  show ?thesis
  proof (cases c t ?va False False ?s1 rule: translate_cases)
    case (fault s')
    then show ?thesis
      using assms(1) translate_address_good [of ?s1 c t ?va False False]
      by (simp add: execute_instruction_def Let_def)
  next
    case (ok pa)
    have "fst (translate_address c t ?va False False s) = Some pa"
      using translate_upd_pc [of c t ?va False False "\<lambda>th. pc th + 4" s] ok(1) by simp
    then have "pa < memory_size s" using assms(3) by (simp add: fetch_in_memory_def)
    then have ld: "load32 ?s1 pa = Inr (get32 (memory s) (4 * (unat pa div 4)))"
      using assms(1) by (simp add: load_good)
    let ?s3 = "?s1\<lparr>total_instructions := total_instructions ?s1 + 1\<rparr>"
    have s3: "good ?s3" "subcycle (thr ?s3 c t) < 16" using assms(1,2) by simp_all
    show ?thesis
      unfolding execute_instruction_def Let_def ok(1) prod.case option.case ld bindE_simps
      using execute_breakpoint_good [OF s3] execute_decoded_good [OF s3] assms(1) by simp
  qed
qed

lemma timer_tick_good [simp]: "good (timer_tick s) = good s"
  by (simp add: timer_tick_def Let_def)

subsection \<open>The scheduler\<close>

lemma enabled_thread_exists:
  assumes "machine_ok s" "bit (thread_enable_mask s) i"
  shows "i < total_threads s"
proof (rule ccontr)
  assume "\<not> i < total_threads s"
  moreover have "total_threads s \<le> 32" "unat (thread_enable_mask s) < 2 ^ total_threads s"
    using assms(1) by (simp_all add: machine_ok_def)
  ultimately show False using assms(2) unat_less_exp_iff by (metis not_le)
qed

text \<open>How far below thread \<open>n\<close>, counted downwards and around, thread \<open>i\<close> is.\<close>

definition turns_until :: "nat \<Rightarrow> nat \<Rightarrow> nat" where
  "turns_until i n = (if i < n then n - i else n + 32 - i)"

lemma pick_next_closer:
  assumes "bit enabled i" "n < 32"
  shows "pick_next enabled n = i \<or> turns_until i (pick_next enabled n) < turns_until i n"
proof -
  have i: "i < 32" using bit_imp_le_length [OF assms(1)] by simp
  have nz: "enabled \<noteq> 0" using assms(1) by auto
  have lt: "pick_next enabled n < 32" using next_set_bit_set [OF nz] by (simp add: pick_next_def)
  show ?thesis
  proof (cases "0 < n \<and> i \<le> n - 1")
    case True
    then have "(n + 31) mod 32 = n - 1" using assms(2) by (simp add: mod_if)
    moreover have "n - 1 < 32" using assms(2) by simp
    ultimately have "pick_next enabled n \<le> n - 1" "i \<le> pick_next enabled n"
      using True assms(1) next_set_bit_below [of "n - 1" enabled i] by (simp_all add: pick_next_def)
    with True show ?thesis by (auto simp: turns_until_def)
  next
    case False
    show ?thesis
    proof (cases "\<exists>j. 0 < n \<and> j \<le> n - 1 \<and> bit enabled j")
      case True
      then obtain j where j: "0 < n" "j \<le> n - 1" "bit enabled j" by auto
      have "(n + 31) mod 32 = n - 1" using assms(2) j(1) by (simp add: mod_if)
      then have "pick_next enabled n \<le> n - 1"
        using next_set_bit_below [of "n - 1" enabled j] j assms(2) by (simp add: pick_next_def)
      with False i j(1) assms(2) show ?thesis by (auto simp: turns_until_def)
    next
      case none: False
      have "i \<le> pick_next enabled n"
      proof (cases "n = 0")
        case True
        then show ?thesis using next_set_bit_below [of 31 enabled i] assms(1) i by (simp add: pick_next_def)
      next
        case nz: False
        then have "(n + 31) mod 32 = n - 1" using assms(2) by (simp add: mod_if)
        with nz none assms show ?thesis
          using next_set_bit_wrap [of "n - 1" enabled i] by (auto simp: pick_next_def)
      qed
      with False i lt assms(2) show ?thesis by (auto simp: turns_until_def)
    qed
  qed
qed

lemma pick_next_bound: "enabled \<noteq> 0 \<Longrightarrow> pick_next enabled n < 32"
  using next_set_bit_set by (simp add: pick_next_def)

lemma turns_until_bound: "i < 32 \<Longrightarrow> n < 32 \<Longrightarrow> 0 < turns_until i n \<and> turns_until i n \<le> 32"
  by (auto simp: turns_until_def)

text \<open>Every turn that does not run thread \<open>i\<close> brings it closer, whatever the other enable bits do.\<close>

lemma round_robin_reaches:
  assumes "run_round_robin m n s = Inr (True, s')" "n < 32" "turns_until i n \<le> m" and i: "i < 32"
    and "\<And>k s1. k < m \<Longrightarrow> run_round_robin k n s = Inr (True, s1) \<Longrightarrow> bit (thread_enable_mask s1) i"
  shows "\<exists>k s1 s2. k < turns_until i n \<and> run_round_robin k n s = Inr (True, s1)
    \<and> run_thread i s1 = Inr (True, s2) \<and> run_round_robin (m - 1 - k) i s2 = Inr (True, s')"
  using assms(1-3,5)
proof (induction m arbitrary: n s)
  case 0
  with turns_until_bound [OF i "0.prems"(2)] show ?case by simp
next
  case (Suc m)
  let ?j = "pick_next (thread_enable_mask s) n"
  have b: "bit (thread_enable_mask s) i" using Suc.prems(4) [of 0 s] by simp
  then have nz: "thread_enable_mask s \<noteq> 0" by auto
  from Suc.prems(1) nz obtain s1 where s1: "run_thread ?j s = Inr (True, s1)" "run_round_robin m ?j s1 = Inr (True, s')"
    and nc: "\<not> crashed s"
    by (auto simp: Let_def bindE_eq_Inr split: if_splits)
  have step: "run_round_robin (Suc k) n s = run_round_robin k ?j s1" for k
    using nz nc s1(1) by (simp add: Let_def)
  show ?case
  proof (cases "?j = i")
    case True
    then show ?thesis
      using s1 turns_until_bound [OF i Suc.prems(2)]
      by (intro exI [of _ 0] exI [of _ s] exI [of _ s1]) simp
  next
    case False
    then have lt: "turns_until i ?j < turns_until i n"
      using pick_next_closer [OF b Suc.prems(2)] by simp
    then have "turns_until i ?j \<le> m" using Suc.prems(3) by simp
    moreover have "bit (thread_enable_mask s2) i" if "k < m" "run_round_robin k ?j s1 = Inr (True, s2)" for k s2
      using Suc.prems(4) [of "Suc k" s2] that step by simp
    ultimately obtain k s2 s3 where "k < turns_until i ?j" "run_round_robin k ?j s1 = Inr (True, s2)"
      "run_thread i s2 = Inr (True, s3)" "run_round_robin (m - 1 - k) i s3 = Inr (True, s')"
      using Suc.IH [OF s1(2) pick_next_bound [OF nz]] by blast
    with lt step show ?thesis
      by (intro exI [of _ "Suc k"] exI [of _ s2] exI [of _ s3]) simp
  qed
qed

subsection \<open>Properties\<close>

text \<open>
  C1: safety of the instruction cycle. In a processor of one core that satisfies the machine
  invariant, executing one instruction of any thread, whatever its encoding, never accesses
  memory, registers, TLBs or device buffers out of bounds and never fails an assertion, and it
  re-establishes the invariant; the only other outcome is the deliberate \<open>exit(1)\<close> of the SD card
  model. It is required that the fetch does not go to a device register and that the subcycle
  counter is a lane number.
\<close>

theorem execute_instruction_safe:
  assumes "machine_ok s" "single_core s" "subcycle (thr s c t) < 16" "fetch_in_memory c t s"
  shows "specE clean_exit (execute_instruction c t s) (\<lambda>(ok, s'). machine_ok s' \<and> single_core s')"
  using execute_instruction_good [of s c t] assms by (simp add: good_def)

theorem execute_instruction_safe_witness:
  "machine_ok (boot_machine (\<lambda>_. 0)) \<and> single_core (boot_machine (\<lambda>_. 0)) \<and>
   fetch_in_memory 0 0 (boot_machine (\<lambda>_. 0)) \<and>
   specE clean_exit (execute_instruction 0 0 (boot_machine (\<lambda>_. 0))) (\<lambda>(ok, s'). machine_ok s' \<and> single_core s')"
proof -
  have th: "subcycle (thr (boot_machine (\<lambda>_. 0)) 0 0) < 16" "fetch_in_memory 0 0 (boot_machine (\<lambda>_. 0))"
    by (simp_all add: boot_machine_def thr_def init_core_def init_thread_def fetch_in_memory_def
        translate_address_def)
  then show ?thesis using execute_instruction_safe [OF boot_machine_ok th] by simp
qed

text \<open>
  C28: the round robin loop is fair. In a run of at least 32 turns that neither stops nor crashes,
  a thread that stays enabled is executed within the first 32 turns, wherever the loop starts and
  whichever other threads are enabled or suspended meanwhile: the run consists of fewer than 32
  turns, a turn of this thread, and the rest, which goes on after this thread.
\<close>

theorem round_robin_fair:
  assumes run: "run_round_robin m n s = Inr (True, s')" and m: "32 \<le> m" and n: "n < 32"
    and enabled: "\<And>k s1. k < m \<Longrightarrow> run_round_robin k n s = Inr (True, s1) \<Longrightarrow> bit (thread_enable_mask s1) i"
  shows "\<exists>k s1 s2. k < 32 \<and> run_round_robin k n s = Inr (True, s1)
    \<and> run_thread i s1 = Inr (True, s2) \<and> run_round_robin (m - 1 - k) i s2 = Inr (True, s')"
proof -
  have "bit (thread_enable_mask s) i" using enabled [of 0 s] m by simp
  then have i: "i < 32" using bit_imp_le_length by fastforce
  then have le: "turns_until i n \<le> 32" using turns_until_bound n by blast
  with m have "turns_until i n \<le> m" by simp
  from round_robin_reaches [OF run n this i] enabled obtain k s1 s2 where "k < turns_until i n"
    "run_round_robin k n s = Inr (True, s1)" "run_thread i s1 = Inr (True, s2)"
    "run_round_robin (m - 1 - k) i s2 = Inr (True, s')" by blast
  with le show ?thesis by (intro exI [of _ k] exI [of _ s1] exI [of _ s2]) simp
qed

text \<open>Threads 0 and 2 of a machine whose memory holds only \<open>INSTRUCTION_NOP\<close>.\<close>

definition nop_machine :: "nat \<Rightarrow> machine \<Rightarrow> bool" where
  "nop_machine b s \<longleftrightarrow> memory s = (\<lambda>_. 0) \<and> memory_size s = 0x1000 \<and> total_threads s = 4
     \<and> threads_per_core s = 4 \<and> num_cores s = 1 \<and> thread_enable_mask s = 5 \<and> \<not> crashed s \<and> current_timer_count s = 0
     \<and> (\<forall>t. \<not> enable_mmu (thr s 0 t) \<and> pc (thr s 0 t) AND 3 = 0 \<and> unat (pc (thr s 0 t)) \<le> b)"

lemma aligned_add4: "x AND 3 = 0 \<Longrightarrow> (x + 4) AND 3 = 0" for x :: u32
proof -
  have m: "w AND 3 = 0 \<longleftrightarrow> unat w mod 4 = 0" for w :: u32
    using unat_take_bit_mod [of 2 w] by (simp add: take_bit_eq_mask mask_eq_exp_minus_1 word_unat_eq_iff)
  have "unat (x + 4) mod 4 = unat x mod 4"
    unfolding unat_word_ariths(1) by (simp add: mod_mod_cancel)
  then show "x AND 3 = 0 \<Longrightarrow> (x + 4) AND 3 = 0" by (simp only: m)
qed

lemma nop_turn:
  assumes "nop_machine b s" "b + 8 < 0x1000" "i < 4"
  shows "\<exists>s'. run_thread i s = Inr (True, s') \<and> nop_machine (b + 4) s'"
proof -
  let ?pc = "pc (thr s 0 i)"
  have th: "\<not> enable_mmu (thr s 0 i)" "?pc AND 3 = 0" "unat ?pc \<le> b" using assms(1) by (simp_all add: nop_machine_def)
  have lt: "unat ?pc < 0x1000" and lt': "?pc < 0x1000" using th(3) assms(2) by (simp_all add: word_less_nat_alt)
  let ?s1 = "upd_thr 0 i (\<lambda>th. th\<lparr>pc := pc th + 4\<rparr>) s"
  have ld: "load32 ?s1 ?pc = Inr 0"
  proof -
    have "unat ?pc div 4 \<le> 0x3ff" using lt by simp
    then show ?thesis using assms(1) by (simp add: load32_def nop_machine_def Let_def get32_def)
  qed
  have g: "get_thread s i = Inr (0, i)"
    using assms(1,3) by (simp add: get_thread_def nop_machine_def)
  have "\<not> memory_size s \<le> ?pc" using lt' assms(1) by (simp add: nop_machine_def)
  with th ld g assms(1) have run: "run_thread i s = Inr (True, ?s1\<lparr>total_instructions := total_instructions s + 1\<rparr>)"
    by (simp add: run_thread_def execute_instruction_def Let_def translate_address_def execute_decoded_def
        timer_tick_def nop_machine_def)
  have "unat (?pc + 4) = unat ?pc + 4" using lt unat_plus_no_wrap [of ?pc 4] by simp
  moreover have "(?pc + 4) AND 3 = 0" using th(2) by (rule aligned_add4)
  ultimately have "nop_machine (b + 4) (?s1\<lparr>total_instructions := total_instructions s + 1\<rparr>)"
    using assms(1) by (auto simp: nop_machine_def intro: le_trans [of _ b])
  with run show ?thesis by blast
qed

lemma next_set_bit_5: "next_set_bit 5 n < 4"
proof -
  have "bit (5 :: u32) (next_set_bit 5 n)" using next_set_bit_set [of 5 n] by simp
  moreover have "\<forall>i\<ge>3. \<not> bit (5 :: u32) i" using unat_less_exp_iff [of 3 5] by simp
  ultimately have "next_set_bit 5 n < 3" by (meson not_le)
  then show ?thesis by simp
qed

lemma nop_run:
  "nop_machine b s \<Longrightarrow> b + 4 * m + 8 < 0x1000 \<Longrightarrow>
     \<exists>s'. run_round_robin m n s = Inr (True, s') \<and> nop_machine (b + 4 * m) s'"
proof (induction m arbitrary: b n s)
  case (Suc m)
  let ?j = "pick_next (thread_enable_mask s) n"
  have s: "thread_enable_mask s = 5" "\<not> crashed s" using Suc.prems(1) by (simp_all add: nop_machine_def)
  then have "?j < 4" using next_set_bit_5 by (simp add: pick_next_def)
  then obtain s1 where s1: "run_thread ?j s = Inr (True, s1)" "nop_machine (b + 4) s1"
    using nop_turn [OF Suc.prems(1)] Suc.prems(2) by auto
  then obtain s' where "run_round_robin m ?j s1 = Inr (True, s')" "nop_machine (b + 4 + 4 * m) s'"
    using Suc.IH [OF s1(2)] Suc.prems(2) by fastforce
  with s s1(1) show ?case by (simp add: add.assoc)
qed simp

theorem round_robin_fair_witness:
  "let s = (boot_machine (\<lambda>_. 0))\<lparr>thread_enable_mask := 5\<rparr> in
   \<exists>k s1 s2. k < 32 \<and> run_round_robin k 0 s = Inr (True, s1) \<and> run_thread 2 s1 = Inr (True, s2)"
proof -
  define s where "s = (boot_machine (\<lambda>_. 0))\<lparr>thread_enable_mask := 5\<rparr>"
  have nop: "nop_machine 0 s"
    by (simp add: s_def nop_machine_def boot_machine_def init_core_def thr_def init_thread_def)
  obtain s' where run: "run_round_robin 32 0 s = Inr (True, s')" using nop_run [OF nop, of 32 0] by auto
  have "\<exists>k s1 s2. k < 32 \<and> run_round_robin k 0 s = Inr (True, s1)
    \<and> run_thread 2 s1 = Inr (True, s2) \<and> run_round_robin (32 - 1 - k) 2 s2 = Inr (True, s')"
  proof (rule round_robin_fair [OF run])
    fix k s1
    assume "k < 32" "run_round_robin k 0 s = Inr (True, s1)"
    then show "bit (thread_enable_mask s1) 2"
      using nop_run [OF nop, of k 0] by (auto simp: nop_machine_def)
  qed simp_all
  then show ?thesis unfolding Let_def s_def [symmetric] by blast
qed

text \<open>
  the scheduler only ever runs threads that exist and are enabled: whatever index it starts
  from, the thread it picks has its bit set in the enable mask and its number resolves to a core
  and a thread inside the processor's arrays.
\<close>

theorem scheduler_picks_enabled:
  assumes "machine_ok s" "thread_enable_mask s \<noteq> 0" "i = next_set_bit (thread_enable_mask s) n"
  shows "bit (thread_enable_mask s) i \<and> i < total_threads s
    \<and> get_thread s i = Inr (i div threads_per_core s, i mod threads_per_core s)
    \<and> i div threads_per_core s < num_cores s \<and> i mod threads_per_core s < threads_per_core s"
proof -
  have b: "bit (thread_enable_mask s) i" using next_set_bit_set [OF assms(2)] assms(3) by simp
  note lt = enabled_thread_exists [OF assms(1) b]
  from b lt get_thread_valid [OF assms(1) lt] show ?thesis by simp
qed

theorem scheduler_picks_enabled_witness:
  "machine_ok (boot_machine (\<lambda>_. 0)) \<and> thread_enable_mask (boot_machine (\<lambda>_. 0)) \<noteq> 0 \<and>
   next_set_bit (thread_enable_mask (boot_machine (\<lambda>_. 0))) 5 < total_threads (boot_machine (\<lambda>_. 0))"
proof -
  have "thread_enable_mask (boot_machine (\<lambda>_. 0)) \<noteq> 0" by (simp add: boot_machine_def)
  then show ?thesis using scheduler_picks_enabled [OF boot_machine_ok(1) _ refl, of "\<lambda>_. 0" 5] by simp
qed

end
