(* ===== verification/Emu_Debug.thy ===== *)
theory Emu_Debug
  imports Emu_Exec
begin

text \<open>
  The debugger interface of \<open>tools/emulator/processor.c\<close> (register and memory access, breakpoints)
  and the part of \<open>cosimulation.c\<close> that drives the emulator one instruction at a time. A line of
  the hardware trace is given as \<open>sscanf\<close> has split it into numbers; the vector text is parsed by
  \<open>parse_hex_vector\<close>. The result of the set and clear operations is true for the C result 0.
\<close>

subsection \<open>Registers and memory\<close>

definition dbg_get_pc :: "nat \<Rightarrow> machine \<Rightarrow> u32 cres" where
  "dbg_get_pc thread_id s = bindE (get_thread s thread_id) (\<lambda>(c, t). Inr (pc (thr s c t)))"

definition dbg_get_scalar_reg :: "nat \<Rightarrow> nat \<Rightarrow> machine \<Rightarrow> u32 cres" where
  "dbg_get_scalar_reg thread_id reg_id s =
     bindE (get_thread s thread_id) (\<lambda>(c, t).
       if reg_id < NUM_REGISTERS then Inr (scalar_reg (thr s c t) reg_id) else Inl Out_of_bounds)"

definition dbg_set_scalar_reg :: "nat \<Rightarrow> nat \<Rightarrow> u32 \<Rightarrow> machine \<Rightarrow> machine cres" where
  "dbg_set_scalar_reg thread_id reg_id value s =
     bindE (get_thread s thread_id) (\<lambda>(c, t).
       if reg_id < NUM_REGISTERS then Inr (set_scalar_reg c t reg_id value s) else Inl Out_of_bounds)"

definition dbg_get_vector_reg :: "nat \<Rightarrow> nat \<Rightarrow> machine \<Rightarrow> u32 list cres" where
  "dbg_get_vector_reg thread_id reg_id s =
     bindE (get_thread s thread_id) (\<lambda>(c, t).
       if reg_id < NUM_REGISTERS then Inr (map (vector_reg (thr s c t) reg_id) [0..<NUM_VECTOR_LANES])
       else Inl Out_of_bounds)"

definition dbg_set_vector_reg :: "nat \<Rightarrow> nat \<Rightarrow> u32 list \<Rightarrow> machine \<Rightarrow> machine cres" where
  "dbg_set_vector_reg thread_id reg_id values s =
     bindE (get_thread s thread_id) (\<lambda>(c, t).
       if reg_id < NUM_REGISTERS \<and> NUM_VECTOR_LANES \<le> length values
       then Inr (upd_thr c t (\<lambda>th. th\<lparr>vector_reg := (vector_reg th)(reg_id :=
              \<lambda>lane. if lane < NUM_VECTOR_LANES then values ! lane else vector_reg th reg_id lane)\<rparr>) s)
       else Inl Out_of_bounds)"

definition dbg_read_memory_byte :: "u32 \<Rightarrow> machine \<Rightarrow> u32" where
  "dbg_read_memory_byte address s =
     (if memory_size s \<le> address then 0xff else ucast (memory s (unat address)))"

definition dbg_write_memory_byte :: "u32 \<Rightarrow> u8 \<Rightarrow> machine \<Rightarrow> machine" where
  "dbg_write_memory_byte address b s =
     (if address < memory_size s then s\<lparr>memory := (memory s)(unat address := b)\<rparr> else s)"

definition dbg_set_stop_on_fault :: "bool \<Rightarrow> machine \<Rightarrow> machine" where
  "dbg_set_stop_on_fault stop s = s\<lparr>stop_on_fault := stop\<rparr>"

subsection \<open>Breakpoints\<close>

definition dbg_set_breakpoint :: "u32 \<Rightarrow> machine \<Rightarrow> (bool \<times> machine) cres" where
  "dbg_set_breakpoint addr s =
     (if lookup_breakpoint s addr \<noteq> None then Inr (False, s)
      else if memory_size s \<le> addr \<or> addr AND 3 \<noteq> 0 then Inr (False, s)
      else bindE (load32 s addr) (\<lambda>original.
        let b = \<lparr>bp_address = addr,
                 original_instruction = (if original = BREAKPOINT_INST then INSTRUCTION_NOP else original),
                 restart = False\<rparr>
        in bindE (store32 addr BREAKPOINT_INST (s\<lparr>breakpoints := b # breakpoints s\<rparr>))
             (\<lambda>s'. Inr (True, s'))))"

fun remove_breakpoint :: "u32 \<Rightarrow> breakpoint list \<Rightarrow> (breakpoint \<times> breakpoint list) option" where
  "remove_breakpoint addr [] = None"
| "remove_breakpoint addr (b # bs) =
     (if bp_address b = addr then Some (b, bs)
      else case remove_breakpoint addr bs of
        None \<Rightarrow> None | Some (r, bs') \<Rightarrow> Some (r, b # bs'))"

definition dbg_clear_breakpoint :: "u32 \<Rightarrow> machine \<Rightarrow> (bool \<times> machine) cres" where
  "dbg_clear_breakpoint addr s =
     (case remove_breakpoint addr (breakpoints s) of
        None \<Rightarrow> Inr (False, s)
      | Some (b, bs) \<Rightarrow>
          bindE (store32 addr (original_instruction b) s) (\<lambda>s'. Inr (True, s'\<lparr>breakpoints := bs\<rparr>)))"

subsection \<open>Cosimulation\<close>

primrec step_until_event :: "nat \<Rightarrow> nat \<Rightarrow> machine \<Rightarrow> machine cres" where
  "step_until_event 0 thread_id s = Inr s"
| "step_until_event (Suc n) thread_id s =
     (if cosim_event_triggered (cosim s) then Inr s
      else bindE (dbg_single_step thread_id s) (step_until_event n thread_id))"

definition run_until_next_event :: "nat \<Rightarrow> machine \<Rightarrow> (bool \<times> machine) cres" where
  "run_until_next_event thread_id s =
     bindE (step_until_event 500 thread_id
              (s\<lparr>cosim := (cosim s)\<lparr>cosim_mismatch := False, cosim_event_triggered := False\<rparr>\<rparr>))
       (\<lambda>s'. Inr (cosim_event_triggered (cosim s') \<and> \<not> cosim_mismatch (cosim s'), s'))"

text \<open>A line of the trace that one of the patterns of \<open>run_cosimulation\<close> matches, and any other.\<close>

datatype trace_line =
    Store_line u32 nat u32 u64 string
  | Vwriteback_line u32 nat u32 u64 string
  | Swriteback_line u32 nat u32 u32
  | Halted_line
  | Interrupt_line nat u32
  | Other_line

definition expect_vector :: "cosim_event \<Rightarrow> u32 \<Rightarrow> nat \<Rightarrow> u64 \<Rightarrow> u32 list \<Rightarrow> cosim_state \<Rightarrow> cosim_state" where
  "expect_vector ev pc' thread_id write_mask values cs =
     cs\<lparr>expected_event := ev, expected_pc := pc', expected_thread := of_nat thread_id,
        expected_mask := write_mask, expected_values := (\<lambda>i. if i < NUM_VECTOR_LANES then values ! i else 0)\<rparr>"

text \<open>
  The loop over the trace. The Boolean is false for the return value -1; \<open>None\<close> is the end of
  the trace without the \<open>HALTED\<close> line, which also returns -1.
\<close>

fun run_trace :: "trace_line list \<Rightarrow> machine \<Rightarrow> (bool option \<times> machine) cres" where
  "run_trace [] s = Inr (None, s)"
| "run_trace (Halted_line # ls) s = Inr (Some True, s)"
| "run_trace (Other_line # ls) s = run_trace ls s"
| "run_trace (Interrupt_line thread_id pc' # ls) s =
     bindE (cosim_interrupt thread_id pc' s) (run_trace ls)"
| "run_trace (Swriteback_line pc' thread_id reg value # ls) s =
     bindE (run_until_next_event thread_id (s\<lparr>cosim := (cosim s)\<lparr>
         expected_event := EVENT_SCALAR_WRITEBACK, expected_pc := pc', expected_thread := of_nat thread_id,
         expected_register := reg, expected_values := (expected_values (cosim s))(0 := value)\<rparr>\<rparr>))
       (\<lambda>(ok, s'). if ok then run_trace ls s' else Inr (Some False, s'))"
| "run_trace (Store_line pc' thread_id address write_mask value_str # ls) s =
     (case parse_hex_vector value_str True of
        None \<Rightarrow> Inr (Some False, s)
      | Some values \<Rightarrow>
          bindE (run_until_next_event thread_id (s\<lparr>cosim :=
              (expect_vector EVENT_MEM_STORE pc' thread_id write_mask values (cosim s))
                \<lparr>expected_address := address\<rparr>\<rparr>))
            (\<lambda>(ok, s'). if ok then run_trace ls s' else Inr (Some False, s')))"
| "run_trace (Vwriteback_line pc' thread_id reg write_mask value_str # ls) s =
     (case parse_hex_vector value_str False of
        None \<Rightarrow> Inr (Some False, s)
      | Some values \<Rightarrow>
          bindE (run_until_next_event thread_id (s\<lparr>cosim :=
              (expect_vector EVENT_VECTOR_WRITEBACK pc' thread_id write_mask values (cosim s))
                \<lparr>expected_register := reg\<rparr>\<rparr>))
            (\<lambda>(ok, s'). if ok then run_trace ls s' else Inr (Some False, s')))"

text \<open>
  The loop that lets the emulator halt too, with a bound on its iterations: \<open>None\<close> when the
  emulator is still running after \<open>fuel\<close> instructions.
\<close>

primrec run_until_halted :: "nat \<Rightarrow> machine \<Rightarrow> (bool option \<times> machine) cres" where
  "run_until_halted 0 s = Inr (if is_proc_halted s then Some True else None, s)"
| "run_until_halted (Suc fuel) s =
     (if is_proc_halted s then Inr (Some True, s)
      else bindE (execute_instructions 1 s) (\<lambda>(ok, s').
        if cosim_mismatch (cosim s') then Inr (Some False, s') else run_until_halted fuel s'))"

definition run_cosimulation :: "nat \<Rightarrow> trace_line list \<Rightarrow> machine \<Rightarrow> (bool option \<times> machine) cres" where
  "run_cosimulation fuel ls s =
     bindE (run_trace ls (enable_cosimulation s)) (\<lambda>(r, s').
       if r = Some True
       then run_until_halted fuel (s'\<lparr>cosim := (cosim s')\<lparr>cosim_event_triggered := False,
              expected_event := EVENT_NONE\<rparr>\<rparr>)
       else Inr (Some False, s'))"

subsection \<open>Breakpoints and the invariant\<close>

lemma lookup_None_address: "lookup_breakpoint s a = None \<longleftrightarrow> a \<notin> set (map bp_address (breakpoints s))"
  by (auto simp: lookup_breakpoint_def find_None_iff)

lemma set_breakpoint_form:
  assumes "machine_ok s" "lookup_breakpoint s a = None" "a < memory_size s" "a AND 3 = 0"
    and orig: "original = get32 (memory s) (4 * (unat a div 4))"
  shows "dbg_set_breakpoint a s = Inr (True,
      s\<lparr>breakpoints := \<lparr>bp_address = a,
           original_instruction = (if original = BREAKPOINT_INST then INSTRUCTION_NOP else original),
           restart = False\<rparr> # breakpoints s,
        memory := put32 (4 * (unat a div 4)) BREAKPOINT_INST (memory s)\<rparr>)"
proof -
  have na: "\<not> memory_size s \<le> a" using assms(3) by simp
  have bound: "4 * (unat a div 4) + 4 \<le> unat (memory_size s)"
    using aligned_access [OF machine_ok_dvd(1) [OF assms(1)], of "unat a"] assms(3)
    by (simp add: word_less_nat_alt)
  show ?thesis
    using assms(2,4) na bound unfolding orig
    by (simp add: dbg_set_breakpoint_def Let_def load32_def store32_def)
qed

lemma set_breakpoint_ok:
  assumes "machine_ok s"
  shows "specE E (dbg_set_breakpoint a s) (\<lambda>(ok, s'). machine_ok s')"
proof (cases "lookup_breakpoint s a = None \<and> a < memory_size s \<and> a AND 3 = 0")
  case True
  then have "a \<notin> bp_address ` set (breakpoints s)" using lookup_None_address [of s a] by simp
  with True assms show ?thesis
    by (simp add: set_breakpoint_form machine_ok_def breakpoint_ok_def)
next
  case False
  then show ?thesis using assms by (auto simp: dbg_set_breakpoint_def)
qed

lemma remove_breakpoint_subset:
  "remove_breakpoint a bs = Some (b, bs') \<Longrightarrow>
     b \<in> set bs \<and> bp_address b = a \<and> set bs' \<subseteq> set bs \<and> (distinct (map bp_address bs) \<longrightarrow> distinct (map bp_address bs'))"
proof (induction bs arbitrary: bs')
  case Nil
  then show ?case by simp
next
  case (Cons x bs)
  show ?case
  proof (cases "bp_address x = a")
    case True
    with Cons.prems show ?thesis by auto
  next
    case False
    with Cons.prems obtain q where q: "remove_breakpoint a bs = Some (b, q)" "bs' = x # q"
      by (auto split: option.splits)
    with Cons.IH [OF q(1)] show ?thesis by auto
  qed
qed

lemma clear_breakpoint_ok:
  assumes "machine_ok s"
  shows "specE E (dbg_clear_breakpoint a s) (\<lambda>(ok, s'). machine_ok s')"
proof (cases "remove_breakpoint a (breakpoints s)")
  case None
  then show ?thesis using assms by (simp add: dbg_clear_breakpoint_def)
next
  case (Some r)
  obtain b bs where r: "r = (b, bs)" by (cases r)
  note sub = remove_breakpoint_subset [OF Some [unfolded r]]
  have "breakpoint_ok (memory_size s) b" using assms sub by (auto simp: machine_ok_def)
  then have "a < memory_size s" using sub by (simp add: breakpoint_ok_def)
  with assms have "store32 a (original_instruction b) s
      = Inr (s\<lparr>memory := put32 (4 * (unat a div 4)) (original_instruction b) (memory s)\<rparr>)"
    by (rule store_in_memory)
  moreover have "machine_ok (s\<lparr>memory := m, breakpoints := bs\<rparr>)" for m
    using assms sub by (auto simp: machine_ok_def)
  ultimately show ?thesis using Some r by (simp add: dbg_clear_breakpoint_def)
qed

lemma find_set_restart:
  "find (\<lambda>b. bp_address b = a) bs = Some b \<Longrightarrow>
     find (\<lambda>b. bp_address b = a) (set_restart a v bs) = Some (b\<lparr>restart := v\<rparr>)"
  by (induction bs) (auto split: if_splits)

lemma find_set_restart_other:
  "a' \<noteq> a \<Longrightarrow> find (\<lambda>b. bp_address b = a') (set_restart a v bs) = find (\<lambda>b. bp_address b = a') bs"
  by (induction bs) auto

lemma set_restart_back:
  "find (\<lambda>b. bp_address b = a) bs = Some b \<Longrightarrow> \<not> restart b \<Longrightarrow> set_restart a False (set_restart a True bs) = bs"
  by (induction bs) (auto split: if_splits)

lemma translate_fst_cong:
  assumes "memory_size s' = memory_size s" "itlb (cores s' c) = itlb (cores s c)" "dtlb (cores s' c) = dtlb (cores s c)"
    "enable_mmu (thr s' c t) = enable_mmu (thr s c t)" "asid (thr s' c t) = asid (thr s c t)"
    "enable_supervisor (thr s' c t) = enable_supervisor (thr s c t)"
  shows "fst (translate_address c t va st d s') = fst (translate_address c t va st d s)"
  using assms
  by (simp add: translate_address_def Let_def if_distrib [of fst] option.case_distrib [of fst]
      trap_type.case_distrib [of fst] cong: if_cong option.case_cong trap_type.case_cong split del: if_split)

subsection \<open>Properties\<close>

text \<open>
  setting a breakpoint at an aligned address in memory that has none succeeds and keeps the
  machine invariant, and clearing it restores the whole machine, memory included.
\<close>

theorem breakpoint_set_clear:
  assumes "machine_ok s" "lookup_breakpoint s a = None" "a < memory_size s" "a AND 3 = 0"
    and "load32 s a \<noteq> Inr BREAKPOINT_INST"
  shows "\<exists>s1. dbg_set_breakpoint a s = Inr (True, s1) \<and> machine_ok s1 \<and> load32 s1 a = Inr BREAKPOINT_INST
    \<and> dbg_clear_breakpoint a s1 = Inr (True, s)"
proof -
  let ?i = "4 * (unat a div 4)"
  have orig: "get32 (memory s) ?i \<noteq> BREAKPOINT_INST"
    using assms(5) load_in_memory(1) [OF assms(1,3)] by simp
  define s1 where "s1 = s\<lparr>breakpoints := \<lparr>bp_address = a, original_instruction = get32 (memory s) ?i,
      restart = False\<rparr> # breakpoints s, memory := put32 ?i BREAKPOINT_INST (memory s)\<rparr>"
  have set: "dbg_set_breakpoint a s = Inr (True, s1)"
    using set_breakpoint_form [OF assms(1-4) refl] orig by (simp add: s1_def)
  have ok: "machine_ok s1" using set_breakpoint_ok [OF assms(1), of "\<lambda>_. False" a] set by simp
  have lt: "a < memory_size s1" using assms(3) by (simp add: s1_def)
  have "load32 s1 a = Inr BREAKPOINT_INST"
    using load_in_memory(1) [OF ok lt] by (simp add: s1_def)
  moreover have "dbg_clear_breakpoint a s1 = Inr (True, s)"
    using store_in_memory(1) [OF ok lt] by (simp add: dbg_clear_breakpoint_def s1_def)
  ultimately show ?thesis using set ok by blast
qed

theorem breakpoint_set_clear_witness:
  "machine_ok (boot_machine (\<lambda>_. 0)) \<and> load32 (boot_machine (\<lambda>_. 0)) 64 \<noteq> Inr BREAKPOINT_INST \<and>
   (\<exists>s1. dbg_set_breakpoint 64 (boot_machine (\<lambda>_. 0)) = Inr (True, s1) \<and> machine_ok s1
     \<and> load32 s1 64 = Inr BREAKPOINT_INST
     \<and> dbg_clear_breakpoint 64 s1 = Inr (True, boot_machine (\<lambda>_. 0)))"
proof -
  have f: "lookup_breakpoint (boot_machine (\<lambda>_. 0)) 64 = None" "64 < memory_size (boot_machine (\<lambda>_. 0))"
    "load32 (boot_machine (\<lambda>_. 0)) 64 \<noteq> Inr BREAKPOINT_INST"
    by (simp_all add: boot_machine_def lookup_breakpoint_def load32_def Let_def get32_def)
  then show ?thesis using breakpoint_set_clear [OF boot_machine_ok(1) f(1,2) _ f(3)] by simp
qed



end
