(* ===== verification/Emu_Isolation.thy ===== *)
theory Emu_Isolation
  imports Emu_Exec
begin

text \<open>
  What a thread in user mode can change. The privileged state is what the operating system relies
  on: both TLBs, the trap handler addresses and interrupt configuration of every core, the address
  space, page directory and interrupt state of every thread, and the mask of enabled threads. The
  locale \<open>frame_relation\<close> states how a relation between the states before and after an operation
  passes through sequential composition; it is instantiated for the privileged state and for
  memory.
\<close>

locale frame_relation =
  fixes R :: "machine \<Rightarrow> machine \<Rightarrow> bool"
  assumes refl: "R s s"
    and trans: "R s s1 \<Longrightarrow> R s1 s2 \<Longrightarrow> R s s2"
begin

lemma pure_step: "R s s1 \<Longrightarrow> specE E m (R s1) \<Longrightarrow> specE E m (R s)"
  using trans by (auto elim: specE_mono)

lemma step:
  assumes "specE E m (R s)" "\<And>s1. R s s1 \<Longrightarrow> specE E (f s1) (R s1)"
  shows "specE E (bindE m f) (R s)"
  using assms by (cases m) (auto intro: pure_step)

lemma return: "R s s' \<Longrightarrow> specE E (Inr s') (R s)"
  by simp

end

subsection \<open>Privileged state\<close>

definition priv_core :: "core \<Rightarrow> u32 \<times> u32 \<times> u32 \<times> (nat \<Rightarrow> tlb_entry) \<times> (nat \<Rightarrow> tlb_entry) \<times> nat \<times> nat" where
  "priv_core co = (trap_handler_pc co, tlb_miss_handler_pc co, is_level_triggered co, itlb co, dtlb co,
     next_itlb_way co, next_dtlb_way co)"

definition priv_thread :: "thread \<Rightarrow> u32 \<times> u32 \<times> u32 \<times> u32 \<times> u32" where
  "priv_thread th = (tid th, asid th, page_dir th, interrupt_mask th, latched_interrupts th)"

definition same_priv :: "machine \<Rightarrow> machine \<Rightarrow> bool" where
  "same_priv s s' \<longleftrightarrow> (\<forall>c. priv_core (cores s' c) = priv_core (cores s c))
     \<and> (\<forall>c t. priv_thread (thr s' c t) = priv_thread (thr s c t))
     \<and> thread_enable_mask s' = thread_enable_mask s"

text \<open>Privileged state and privilege of the running thread unchanged.\<close>

definition quiet :: "nat \<Rightarrow> nat \<Rightarrow> machine \<Rightarrow> machine \<Rightarrow> bool" where
  "quiet c t s s' \<longleftrightarrow> same_priv s s' \<and> enable_supervisor (thr s' c t) = enable_supervisor (thr s c t)
     \<and> enable_mmu (thr s' c t) = enable_mmu (thr s c t)"

text \<open>The same, or the thread has entered one of the handlers that the core designates.\<close>

definition confined :: "nat \<Rightarrow> nat \<Rightarrow> machine \<Rightarrow> machine \<Rightarrow> bool" where
  "confined c t s s' \<longleftrightarrow> same_priv s s'
     \<and> (enable_supervisor (thr s' c t) \<longrightarrow> enable_supervisor (thr s c t)
         \<or> pc (thr s' c t) = trap_handler_pc (cores s c) \<or> pc (thr s' c t) = tlb_miss_handler_pc (cores s c))"

interpretation quiet: frame_relation "quiet c t" for c t
  by unfold_locales (simp_all add: quiet_def same_priv_def)

lemma quiet_confined: "quiet c t s s' \<Longrightarrow> confined c t s s'"
  by (simp add: quiet_def confined_def)

lemma quiet_then_confined: "quiet c t s s1 \<Longrightarrow> confined c t s1 s2 \<Longrightarrow> confined c t s s2"
  by (auto simp: quiet_def confined_def same_priv_def priv_core_def)

lemma quiet_upd_thr:
  assumes "\<And>th. priv_thread (f th) = priv_thread th" "\<And>th. enable_supervisor (f th) = enable_supervisor th"
    "\<And>th. enable_mmu (f th) = enable_mmu th"
  shows "quiet c t s (upd_thr c t' f s)"
  using assms by (simp add: quiet_def same_priv_def priv_core_def)

lemma quiet_fields [simp]:
  "quiet c t s (s\<lparr>memory := m\<rparr>)" "quiet c t s (s\<lparr>cosim := cs\<rparr>)" "quiet c t s (s\<lparr>crashed := b\<rparr>)"
  "quiet c t s (s\<lparr>dev := d\<rparr>)" "quiet c t s (s\<lparr>rng := r\<rparr>)" "quiet c t s (s\<lparr>breakpoints := bps\<rparr>)"
  "quiet c t s (s\<lparr>interrupt_levels := w\<rparr>)" "quiet c t s (s\<lparr>total_instructions := n\<rparr>)"
  "quiet c t s (s\<lparr>current_timer_count := w\<rparr>)" "quiet c t s (s\<lparr>dev := d, rng := r\<rparr>)"
  by (simp_all add: quiet_def same_priv_def)

lemma quiet_registers [simp]:
  "quiet c t s (set_scalar_reg c t r v s)" "quiet c t s (set_vector_reg c t r k vs s)"
  by (simp_all add: set_scalar_reg_def set_vector_reg_def Let_def quiet_def same_priv_def priv_core_def priv_thread_def)

lemma quiet_refl [simp]: "quiet c t s s"
  by (rule quiet.refl)

lemma confined_simps [simp]:
  "confined c t s s" "confined c t s (s\<lparr>crashed := b\<rparr>)"
  "confined c t s (set_scalar_reg c t r v s)" "confined c t s (set_vector_reg c t r k vs s)"
  by (simp_all add: quiet_confined)

lemma confined_raise_trap [simp]: "confined c t s (raise_trap c t a ty st d i s)"
  by (auto simp: confined_def raise_trap_def enter_trap_def same_priv_def priv_core_def priv_thread_def)

lemma confined_upd_pc [simp]: "confined c t s (upd_thr c t (\<lambda>th. th\<lparr>pc := f th\<rparr>) s)"
  by (intro quiet_confined quiet_upd_thr) (simp_all add: priv_thread_def)

lemma confined_translate: "confined c t s (snd (translate_address c t va st d s))"
  by (cases c t va st d s rule: translate_address_result; simp)

lemma quiet_invalidate: "specE E' (invalidate_sync_address c a s) (quiet c t s)" if "E' Out_of_bounds"
  using that
  by (simp add: invalidate_sync_address_eq quiet_def same_priv_def priv_core_def thr_upd_core
      priv_thread_def thr_def)

lemma quiet_load_store:
  assumes "E Out_of_bounds"
  shows "specE E (store32 a v s) (quiet c t s)" "specE E (store16 a v2 s) (quiet c t s)"
    "specE E (store8 a v1 s) (quiet c t s)"
  using assms by (simp_all add: store32_def store16_def store8_def Let_def)

lemma quiet_finish_store:
  assumes "E Out_of_bounds" shows "specE E (finish_store c t pa va n v s) (quiet c t s)"
  unfolding finish_store_def
  by (rule quiet.step) (simp_all add: quiet_invalidate assms)

lemma quiet_write_device:
  assumes "\<And>e. E e"
  shows "specE E (write_device_register a v s) (quiet c t s)"
proof -
  have "specE E m (\<lambda>_. True)" for m :: "(u32 \<times> sd_card \<times> random_state) cres"
    using assms by (cases m) simp_all
  then show ?thesis by (simp add: write_device_register_def Let_def split_def)
qed

lemma quiet_read_device: "quiet c t s (snd (read_device_register a s))"
  by (simp add: read_device_register_def Let_def split_def clear_interrupt_def quiet_def same_priv_def)

text \<open>Every fault is allowed here: the statements are about the runs that return.\<close>

abbreviation (input) any_fault :: "c_fault \<Rightarrow> bool" where "any_fault \<equiv> \<lambda>_. True"

lemma confined_scalar_load: "specE any_fault (scalar_load c t op r pa s) (confined c t s)"
proof -
  have "quiet c t s (set_scalar_reg c t r v (snd (read_device_register pa s)))" for v
    by (rule quiet.trans [OF quiet_read_device quiet_registers(1)])
  moreover have "quiet c t s (upd_thr c t (\<lambda>th. th\<lparr>last_sync_load_addr := w\<rparr>) s)" for w
    by (rule quiet_upd_thr) (simp_all add: priv_thread_def)
  then have "quiet c t s (set_scalar_reg c t r v (upd_thr c t (\<lambda>th. th\<lparr>last_sync_load_addr := w\<rparr>) s))" for v w
    using quiet.trans by (meson quiet_registers(1))
  ultimately show ?thesis
    by (simp add: scalar_load_def load32_def load16_def load8_def Let_def split_def quiet_confined)
qed

lemma confined_scalar_store: "specE any_fault (scalar_store c t op r pa va s) (confined c t s)"
proof -
  have st: "specE any_fault (bindE (store32 pa v s') (finish_store c t pa va n w)) (quiet c t s')"
    "specE any_fault (bindE (store16 pa v2 s') (finish_store c t pa va n w)) (quiet c t s')"
    "specE any_fault (bindE (store8 pa v1 s') (finish_store c t pa va n w)) (quiet c t s')"
    for s' v v2 v1 n w
    by (rule quiet.step, simp_all only: quiet_load_store quiet_finish_store)+
  have set: "quiet c t s (upd_thr c t (\<lambda>th. th\<lparr>scalar_reg := (scalar_reg th)(r := v)\<rparr>) s)" for v
    by (rule quiet_upd_thr) (simp_all add: priv_thread_def)
  have mono: "specE any_fault m (quiet c t s) \<Longrightarrow> specE any_fault m (confined c t s)" for m
    by (erule specE_mono) (rule quiet_confined)
  have sync: "specE any_fault (bindE (store32 pa v (upd_thr c t (\<lambda>th. th\<lparr>scalar_reg := (scalar_reg th)(r := 1)\<rparr>) s))
      (finish_store c t pa va n w)) (quiet c t s)" for v n w
    using quiet.pure_step [OF set st(1)] .
  show ?thesis
    unfolding scalar_store_def Let_def
    by (simp only: specE_if mono st sync mono [OF quiet_write_device] set quiet_fields quiet_confined
        specE_Inr specE_Inl confined_raise_trap if_cancel)
qed

lemma confined_block_load: "specE any_fault (block_load c t r k pa s) (confined c t s)"
  by (simp add: block_load_def)

lemma confined_block_store: "specE any_fault (block_store c t r k pa va s) (confined c t s)"
proof -
  have "specE any_fault (invalidate_sync_address c pa s') (quiet c t s)" if "quiet c t s s'" for s'
    by (rule quiet.pure_step [OF that]) (simp add: quiet_invalidate)
  moreover have "quiet c t s (s\<lparr>cosim := cs, memory := m\<rparr>)" for cs m
    by (simp add: quiet_def same_priv_def)
  ultimately have "specE any_fault (block_store c t r k pa va s) (quiet c t s)"
    unfolding block_store_def Let_def by (simp del: upt.simps)
  then show ?thesis by (rule specE_mono) (rule quiet_confined)
qed

lemma confined_lane:
  "specE any_fault (gather_lane c t r l e pa s) (quiet c t s)"
  "specE any_fault (scatter_lane c t r l e pa va s) (quiet c t s)"
proof -
  show "specE any_fault (gather_lane c t r l e pa s) (quiet c t s)"
    by (simp add: gather_lane_def load32_def Let_def)
  have "specE any_fault (bindE (store32 pa v s) (finish_store c t pa va n w)) (quiet c t s)" for v n w
    by (rule quiet.step, simp_all only: quiet_load_store quiet_finish_store)
  then show "specE any_fault (scatter_lane c t r l e pa va s) (quiet c t s)"
    by (simp only: scatter_lane_def Let_def specE_if specE_Inr quiet_refl if_cancel)
qed

lemma confined_subcycle: "quiet c t s (upd_thr c t advance_subcycle s)"
  by (rule quiet_upd_thr) (simp_all add: priv_thread_def advance_subcycle_def)

lemma confined_translated:
  assumes "\<And>pa. specE any_fault (f pa s) (confined c t s)"
  shows "specE any_fault (case translate_address c t va st d s of (None, s') \<Rightarrow> Inr s' | (Some pa, s') \<Rightarrow> f pa s')
    (confined c t s)"
  using assms by (cases c t va st d s rule: translate_address_result; simp)

lemma confined_scatter_gather: "specE any_fault (execute_scatter_gather_inst c t i s) (confined c t s)"
proof -
  have lane: "specE any_fault (bindE m (\<lambda>s'. Inr (upd_thr c t advance_subcycle s'))) (confined c t s)"
    if "specE any_fault m (quiet c t s)" for m
  proof (rule specE_mono [OF quiet.step [OF that]])
    show "specE any_fault (Inr (upd_thr c t advance_subcycle s1)) (quiet c t s1)" for s1
      using confined_subcycle by simp
  qed (rule quiet_confined)
  show ?thesis
  proof (cases "vector_access_mask_offset MEM_SCGATH i (thr s c t)")
    case (Inr ko)
    obtain k off where "ko = (k, off)" by (cases ko)
    with Inr show ?thesis
      by (auto simp: execute_scatter_gather_inst_def Let_def lane confined_lane
          intro!: confined_translated simp del: specE_bindE)
  qed (simp add: execute_scatter_gather_inst_def)
qed

lemma confined_block: "specE any_fault (execute_block_load_store_inst c t i s) (confined c t s)"
proof (cases "vector_access_mask_offset MEM_BLOCK_VECTOR i (thr s c t)")
  case (Inr ko)
  obtain k off where "ko = (k, off)" by (cases ko)
  with Inr show ?thesis
    by (auto simp: execute_block_load_store_inst_def Let_def confined_block_load confined_block_store
        intro!: confined_translated)
qed (simp add: execute_block_load_store_inst_def)

lemma confined_scalar: "specE any_fault (execute_scalar_load_store_inst c t i s) (confined c t s)"
  by (auto simp: execute_scalar_load_store_inst_def Let_def confined_scalar_load confined_scalar_store
      intro!: confined_translated)

lemma confined_memory_access:
  assumes "\<not> enable_supervisor (thr s c t)"
  shows "specE any_fault (execute_memory_access_inst c t i s) (confined c t s)"
  using assms
  by (simp add: execute_memory_access_inst_def Let_def confined_scalar confined_block confined_scatter_gather
      execute_control_register_inst_def)

lemma confined_arith [simp]:
  "confined c t s (execute_register_arith_inst c t i s)"
  "confined c t s (execute_immediate_arith_inst c t i s)"
  by (simp_all add: execute_register_arith_inst_def execute_immediate_arith_inst_def Let_def)

lemma confined_branch:
  assumes "\<not> enable_supervisor (thr s c t)"
  shows "confined c t s (execute_branch_inst c t i s)"
proof -
  have "confined c t s (upd_thr c t (\<lambda>th. th\<lparr>pc := f th\<rparr>) (set_scalar_reg c t r v s))" for f r v
    using quiet_then_confined [OF quiet_registers(1) confined_upd_pc] .
  with assms show ?thesis by (simp add: execute_branch_inst_def Let_def)
qed

lemma confined_cache_control:
  assumes "\<not> enable_supervisor (thr s c t)"
  shows "confined c t s (execute_cache_control_inst c t i s)"
  using assms confined_translate by (simp add: execute_cache_control_inst_def Let_def)

lemma confined_decoded:
  assumes "\<not> enable_supervisor (thr s c t)"
  shows "specE any_fault (execute_decoded c t i s) (confined c t s)"
  using assms by (simp add: execute_decoded_def confined_memory_access confined_branch confined_cache_control)

lemma confined_breakpoint:
  assumes "\<not> enable_supervisor (thr s c t)"
  shows "specE any_fault (execute_breakpoint c t s) (\<lambda>(ok, s'). confined c t s s')"
proof (cases "lookup_breakpoint s (pc (thr s c t) - 4)")
  case (Some b)
  let ?s = "\<lambda>v. s\<lparr>breakpoints := set_restart (pc (thr s c t) - 4) v (breakpoints s)\<rparr>"
  have q: "quiet c t s (?s v)" for v by simp
  have "specE any_fault (execute_decoded c t (original_instruction b) (?s False)) (confined c t s)"
    by (rule specE_mono [OF confined_decoded]) (use assms quiet_then_confined [OF q] in simp_all)
  moreover have "confined c t s (upd_thr c t (\<lambda>th. th\<lparr>pc := pc th - 4\<rparr>) (?s True))"
    by (rule quiet_then_confined [OF q confined_upd_pc])
  ultimately show ?thesis using Some by (simp add: execute_breakpoint_def Let_def)
qed (simp add: execute_breakpoint_def)

lemma confined_instruction:
  assumes "\<not> enable_supervisor (thr s c t)"
  shows "specE any_fault (execute_instruction c t s) (\<lambda>(ok, s'). confined c t s s')"
proof -
  let ?s1 = "upd_thr c t (\<lambda>th. th\<lparr>pc := pc th + 4\<rparr>) s"
  let ?s3 = "?s1\<lparr>total_instructions := total_instructions ?s1 + 1\<rparr>"
  have q1: "quiet c t s ?s1" by (rule quiet_upd_thr) (simp_all add: priv_thread_def)
  then have q3: "quiet c t s ?s3" by (rule quiet.trans) simp
  have u: "\<not> enable_supervisor (thr ?s3 c t)" using assms by simp
  have run1: "specE any_fault (execute_breakpoint c t ?s3) (\<lambda>(ok, s'). confined c t s s')"
    by (rule specE_mono [OF confined_breakpoint [OF u]]) (clarify, rule quiet_then_confined [OF q3])
  have run2: "specE any_fault (execute_decoded c t i ?s3) (confined c t s)" for i
    by (rule specE_mono [OF confined_decoded [OF u]]) (rule quiet_then_confined [OF q3])
  have trap: "confined c t s (raise_trap c t a ty st d n ?s1)" for a ty st d n
    by (rule quiet_then_confined [OF q1]) simp
  have crash: "confined c t s (?s1\<lparr>crashed := True\<rparr>)"
    by (rule quiet_then_confined [OF q1]) simp
  show ?thesis
  proof (cases c t "pc (thr s c t)" False False ?s1 rule: translate_address_result)
    case (1 pa)
    with run1 run2 trap show ?thesis by (simp add: execute_instruction_def Let_def load32_def)
  qed (simp_all add: execute_instruction_def Let_def trap crash)
qed

subsection \<open>Memory changes only through translated stores\<close>

definition in_page :: "u32 \<Rightarrow> nat \<Rightarrow> bool" where
  "in_page pa a \<longleftrightarrow> a < 2 ^ 32 \<and> ROUND_TO_PAGE (of_nat a) = ROUND_TO_PAGE pa"

definition touches :: "u32 \<Rightarrow> machine \<Rightarrow> machine \<Rightarrow> bool" where
  "touches pa s s' \<longleftrightarrow> (\<forall>a. memory s' a \<noteq> memory s a \<longrightarrow> in_page pa a)"

interpretation touches: frame_relation "touches pa" for pa
  by unfold_locales (simp add: touches_def, unfold touches_def, metis)

lemma round_eq_div:
  "unat a div 4096 = unat b div 4096 \<Longrightarrow> ROUND_TO_PAGE a = ROUND_TO_PAGE b"
proof -
  assume e: "unat a div 4096 = unat b div 4096"
  have "unat (drop_bit 12 w) = unat w div 4096" for w :: u32
    unfolding unat_drop_bit_eq drop_bit_eq_div [where 'a = nat] by simp
  with e have "drop_bit 12 a = drop_bit 12 b" by (simp add: word_unat_eq_iff)
  then have "bit a (12 + i) = bit b (12 + i)" for i by (metis bit_drop_bit_eq comp_apply)
  then show ?thesis
    by (intro bit_word_eqI) (metis bit_page(1) le_add_diff_inverse)
qed

lemma in_pageI:
  assumes "a div 4096 = unat pa div 4096" shows "in_page pa a"
proof -
  have "unat pa div 4096 < 1048576" using unat_u32_bound [of pa] by (simp add: div_less_iff_less_mult)
  with assms have "a div 4096 < 1048576" by (simp only:)
  then have lt: "a < 2 ^ 32" by (simp add: div_less_iff_less_mult)
  then have "unat (of_nat a :: u32) = a" by (simp add: unat_of_nat take_bit_nat_eq_self)
  with assms have "unat (of_nat a :: u32) div 4096 = unat pa div 4096" by (simp only:)
  from round_eq_div [OF this] lt show ?thesis by (simp add: in_page_def)
qed

lemma word_in_page:
  assumes "4 * (unat pa div 4) \<le> a" "a < 4 * (unat pa div 4) + 4" shows "in_page pa a"
proof (rule in_pageI)
  have "a div 4 = unat pa div 4" using assms by (simp add: div_nat_eqI)
  then have "a div 4 div 1024 = unat pa div 4 div 1024" by simp
  then show "a div 4096 = unat pa div 4096" by (simp add: div_mult2_eq [symmetric])
qed

lemma touches_stores:
  "specE any_fault (store32 pa v s) (touches pa s)"
  "specE any_fault (store16 pa v2 s) (touches pa s)"
  "specE any_fault (store8 pa v1 s) (touches pa s)"
proof -
  show "specE any_fault (store32 pa v s) (touches pa s)"
  proof -
    have "in_page pa a" if "put32 (4 * (unat pa div 4)) v (memory s) a \<noteq> memory s a" for a
      using that put32_outside [of a "4 * (unat pa div 4)"] word_in_page [of pa a] by (meson not_le)
    then show ?thesis by (simp add: store32_def Let_def touches_def)
  qed
  have "4 * (unat pa div 4) \<le> 2 * (unat pa div 2)" "2 * (unat pa div 2) + 2 \<le> 4 * (unat pa div 4) + 4"
    by presburger+
  then have "in_page pa a" if "put16 (2 * (unat pa div 2)) v2 (memory s) a \<noteq> memory s a" for a
    using that put16_outside [of a "2 * (unat pa div 2)"] word_in_page [of pa a]
    by (meson le_trans less_le_trans not_le)
  then show "specE any_fault (store16 pa v2 s) (touches pa s)"
    by (simp add: store16_def Let_def touches_def)
  have "in_page pa (unat pa)" by (rule in_pageI) simp
  then show "specE any_fault (store8 pa v1 s) (touches pa s)"
    by (simp add: store8_def touches_def)
qed

lemma touches_same: "memory s' = memory s \<Longrightarrow> touches pa s s'"
  by (simp add: touches_def)

lemma same_memory [simp]:
  "memory (set_scalar_reg c t r v s) = memory s"
  "memory (set_vector_reg c t r k vs s) = memory s"
  "memory (raise_trap c t a ty st d i s) = memory s"
  "memory (try_to_dispatch_interrupt c t s) = memory s"
  "memory (return_from_trap c t s) = memory s"
  "memory (snd (read_device_register a s)) = memory s"
  by (simp_all add: set_scalar_reg_def set_vector_reg_def raise_trap_def try_to_dispatch_interrupt_def
      return_from_trap_def read_device_register_def clear_interrupt_def Let_def split_def)

lemma same_memory_instructions [simp]:
  "memory (execute_register_arith_inst c t i s) = memory s"
  "memory (execute_immediate_arith_inst c t i s) = memory s"
  "memory (execute_control_register_inst c t i s) = memory s"
  "memory (execute_branch_inst c t i s) = memory s"
  by (simp_all add: execute_register_arith_inst_def execute_immediate_arith_inst_def
      execute_control_register_inst_def read_control_register_def write_control_register_def
      execute_branch_inst_def Let_def)

lemma same_memory_translate [simp]: "memory (snd (translate_address c t va st d s)) = memory s"
  by (cases c t va st d s rule: translate_address_result; simp)

lemma same_memory_cache [simp]: "memory (execute_cache_control_inst c t i s) = memory s"
  by (simp add: execute_cache_control_inst_def Let_def)

lemma touches_invalidate: "specE any_fault (invalidate_sync_address c a s) (touches pa s)"
  by (simp add: invalidate_sync_address_eq touches_same)

lemma touches_finish: "specE any_fault (finish_store c t a va n v s) (touches pa s)"
  unfolding finish_store_def
  by (rule touches.step) (simp_all add: touches_invalidate touches_same)

lemma touches_write_device: "specE any_fault (write_device_register a v s) (touches pa s)"
proof -
  have "specE any_fault m (\<lambda>_. True)" for m :: "(u32 \<times> sd_card \<times> random_state) cres"
    by (cases m) simp_all
  then show ?thesis by (simp add: write_device_register_def Let_def split_def touches_same)
qed

lemma touches_scalar_load: "specE any_fault (scalar_load c t op r pa s) (touches pa' s)"
  by (simp add: scalar_load_def load32_def load16_def load8_def Let_def split_def touches_same)

lemma touches_scalar_store: "specE any_fault (scalar_store c t op r pa va s) (touches pa s)"
proof -
  have st: "specE any_fault (bindE (store32 pa v s') (finish_store c t pa va n w)) (touches pa s')"
    "specE any_fault (bindE (store16 pa v2 s') (finish_store c t pa va n w)) (touches pa s')"
    "specE any_fault (bindE (store8 pa v1 s') (finish_store c t pa va n w)) (touches pa s')"
    for s' v v2 v1 n w
    by (rule touches.step, simp_all only: touches_stores touches_finish)+
  have sync: "specE any_fault (bindE (store32 pa v (upd_thr c t f s)) (finish_store c t pa va n w)) (touches pa s)"
    for f v n w
    by (rule touches.pure_step [OF touches_same st(1)]) simp
  show ?thesis
    unfolding scalar_store_def Let_def
    by (simp only: specE_if st sync touches_write_device specE_Inr specE_Inl if_cancel touches_same
        same_memory upd_thr_fields) (simp add: touches_same)
qed

lemma block_in_page:
  assumes "va AND 63 = 0" "PAGE_OFFSET pa = PAGE_OFFSET va" "lane < 16"
    "block_index pa lane \<le> a" "a < block_index pa lane + 4"
  shows "in_page pa a"
proof (rule in_pageI)
  obtain k where k: "unat pa = 64 * k" using aligned_64 [OF assms(1,2)] by auto
  then have "64 * k \<le> a" "a < 64 * k + 64" using assms(3-5) by (auto simp: block_index_def)
  then have "a div 64 = k" by (simp add: div_nat_eqI mult.commute)
  then have "a div 64 div 64 = unat pa div 64 div 64" using k by simp
  then show "a div 4096 = unat pa div 4096" by (simp add: div_mult2_eq [symmetric])
qed

lemma fold_put32_outside:
  assumes "\<And>x. x \<in> set xs \<Longrightarrow> p x \<Longrightarrow> a < f x \<or> f x + 4 \<le> a"
  shows "fold (\<lambda>x m. if p x then put32 (f x) (g x) m else m) xs m a = m a"
  using assms by (induction xs arbitrary: m) (simp_all add: put32_outside)

lemma touches_block_store:
  assumes "va' AND 63 = 0" "PAGE_OFFSET pa = PAGE_OFFSET va'"
  shows "specE any_fault (block_store c t r k pa va s) (touches pa s)"
proof -
  let ?m = "\<lambda>v m. fold (\<lambda>lane m. if bit k lane then put32 (block_index pa lane) (v lane) m else m) [0..<16] m"
  have page: "in_page pa a" if "?m v m a \<noteq> m a" for v m a
  proof -
    have "\<exists>lane<16. \<not> (a < block_index pa lane \<or> block_index pa lane + 4 \<le> a)"
      using fold_put32_outside [of "[0..<16]" "bit k" a "block_index pa" v m] that by (auto simp del: upt.simps)
    then show ?thesis using block_in_page [OF assms] by (meson not_le)
  qed
  have "specE any_fault (invalidate_sync_address c pa (s'\<lparr>memory := ?m v (memory s')\<rparr>)) (touches pa s)"
    if "memory s' = memory s" for s' v
    by (rule touches.pure_step [OF _ touches_invalidate]) (use that page in \<open>simp add: touches_def del: upt.simps\<close>)
  then show ?thesis unfolding block_store_def Let_def by (simp del: upt.simps)
qed

text \<open>The store that may change a byte has passed the TLB with write permission.\<close>

definition store_allowed :: "nat \<Rightarrow> nat \<Rightarrow> machine \<Rightarrow> nat \<Rightarrow> bool" where
  "store_allowed c t s a \<longleftrightarrow> (\<exists>e\<in>range (dtlb (cores s c)).
     (phys_addr_and_flags e AND TLB_GLOBAL \<noteq> 0 \<or> tlb_asid e = asid (thr s c t))
     \<and> phys_addr_and_flags e AND TLB_PRESENT \<noteq> 0
     \<and> phys_addr_and_flags e AND TLB_WRITE_ENABLE \<noteq> 0
     \<and> (phys_addr_and_flags e AND TLB_SUPERVISOR \<noteq> 0 \<longrightarrow> enable_supervisor (thr s c t))
     \<and> in_page (phys_addr_and_flags e) a)"

definition stores_allowed :: "nat \<Rightarrow> nat \<Rightarrow> machine \<Rightarrow> machine \<Rightarrow> bool" where
  "stores_allowed c t s s' \<longleftrightarrow> (\<forall>a. memory s' a \<noteq> memory s a \<longrightarrow> store_allowed c t s a)"

lemma stores_allowed_same: "memory s' = memory s \<Longrightarrow> stores_allowed c t s s'"
  by (simp add: stores_allowed_def)

lemma translated_store_allowed:
  assumes "enable_mmu (thr s c t)" "translate_address c t va True True s = (Some pa, s)" "touches pa s s'"
  shows "stores_allowed c t s s'"
proof -
  obtain e where "e \<in> range (dtlb (cores s c))"
    "phys_addr_and_flags e AND TLB_GLOBAL \<noteq> 0 \<or> tlb_asid e = asid (thr s c t)"
    "phys_addr_and_flags e AND TLB_PRESENT \<noteq> 0" "phys_addr_and_flags e AND TLB_WRITE_ENABLE \<noteq> 0"
    "phys_addr_and_flags e AND TLB_SUPERVISOR \<noteq> 0 \<longrightarrow> enable_supervisor (thr s c t)"
    "ROUND_TO_PAGE pa = ROUND_TO_PAGE (phys_addr_and_flags e)"
    using translate_protected [OF assms(1,2)] by auto
  then have "store_allowed c t s a" if "in_page pa a" for a
    using that unfolding store_allowed_def in_page_def by metis
  with assms(3) show ?thesis by (simp add: stores_allowed_def touches_def)
qed

lemma stores_allowed_translated:
  assumes mmu: "enable_mmu (thr s c t)"
    and load: "\<And>pa. \<not> st \<Longrightarrow> specE any_fault (f pa s) (\<lambda>s'. memory s' = memory s)"
    and store: "\<And>pa. st \<Longrightarrow> PAGE_OFFSET pa = PAGE_OFFSET va \<Longrightarrow> specE any_fault (f pa s) (touches pa s)"
  shows "specE any_fault (case translate_address c t va st True s of (None, s') \<Rightarrow> Inr s' | (Some pa, s') \<Rightarrow> f pa s')
    (stores_allowed c t s)"
proof (cases c t va st True s rule: translate_address_result)
  case (1 pa)
  show ?thesis
  proof (cases st)
    case True
    with 1 have tr: "translate_address c t va True True s = (Some pa, s)" by simp
    have "specE any_fault (f pa s) (stores_allowed c t s)"
      by (rule specE_mono [OF store [OF True translate_Some_state(3) [OF 1]] translated_store_allowed [OF mmu tr]])
    with 1 show ?thesis by simp
  next
    case False
    have "specE any_fault (f pa s) (stores_allowed c t s)"
      using specE_mono [OF load [OF False] stores_allowed_same] .
    with 1 show ?thesis by simp
  qed
qed (simp_all add: stores_allowed_same)

lemma load_same_memory:
  "specE any_fault (scalar_load c t op r pa s) (\<lambda>s'. memory s' = memory s)"
  "specE any_fault (block_load c t r k pa s) (\<lambda>s'. memory s' = memory s)"
  "specE any_fault (gather_lane c t r l e pa s) (\<lambda>s'. memory s' = memory s)"
  by (simp_all add: scalar_load_def block_load_def gather_lane_def load32_def load16_def load8_def Let_def split_def)

lemma scalar_stores_allowed:
  assumes "enable_mmu (thr s c t)"
  shows "specE any_fault (execute_scalar_load_store_inst c t i s) (stores_allowed c t s)"
  unfolding execute_scalar_load_store_inst_def Let_def
  using load_same_memory(1) touches_scalar_store
  by (auto simp: stores_allowed_same touches_same intro!: stores_allowed_translated [OF assms])

lemma block_stores_allowed:
  assumes "enable_mmu (thr s c t)"
  shows "specE any_fault (execute_block_load_store_inst c t i s) (stores_allowed c t s)"
proof (cases "vector_access_mask_offset MEM_BLOCK_VECTOR i (thr s c t)")
  case (Inr ko)
  obtain k off where "ko = (k, off)" by (cases ko)
  with Inr show ?thesis
    by (auto simp: execute_block_load_store_inst_def Let_def load_same_memory touches_same stores_allowed_same
        intro!: stores_allowed_translated [OF assms] touches_block_store)
qed (simp add: execute_block_load_store_inst_def)

lemma touches_scatter: "specE any_fault (scatter_lane c t r l e pa va s) (touches pa s)"
proof -
  have "specE any_fault (bindE (store32 pa v s) (finish_store c t pa va n w)) (touches pa s)" for v n w
    by (rule touches.step, simp_all only: touches_stores touches_finish)
  then show ?thesis
    by (simp only: scatter_lane_def Let_def specE_if specE_Inr touches.refl if_cancel)
qed

lemma scatter_stores_allowed:
  assumes "enable_mmu (thr s c t)"
  shows "specE any_fault (execute_scatter_gather_inst c t i s) (stores_allowed c t s)"
proof (cases "vector_access_mask_offset MEM_SCGATH i (thr s c t)")
  case (Inr ko)
  obtain k off where "ko = (k, off)" by (cases ko)
  moreover have "specE any_fault (bindE m (\<lambda>s'. Inr (upd_thr c t f s'))) (touches pa s)"
    if "specE any_fault m (touches pa s)" for m f pa
    by (rule touches.step [OF that]) (simp add: touches_same)
  ultimately show ?thesis
    using Inr touches_scatter load_same_memory(3)
    by (auto simp: execute_scatter_gather_inst_def Let_def touches_same stores_allowed_same
        intro!: stores_allowed_translated [OF assms] elim: specE_mono)
qed (simp add: execute_scatter_gather_inst_def)

lemma decoded_stores_allowed:
  assumes "enable_mmu (thr s c t)"
  shows "specE any_fault (execute_decoded c t i s) (stores_allowed c t s)"
  using assms
  by (simp add: execute_decoded_def execute_memory_access_inst_def Let_def scalar_stores_allowed
      block_stores_allowed scatter_stores_allowed stores_allowed_same)

lemma stores_allowed_quiet:
  assumes "quiet c t s s1" "memory s1 = memory s" "stores_allowed c t s1 s2"
  shows "stores_allowed c t s s2"
proof -
  have "priv_core (cores s1 c) = priv_core (cores s c)" "priv_thread (thr s1 c t) = priv_thread (thr s c t)"
    "enable_supervisor (thr s1 c t) = enable_supervisor (thr s c t)"
    using assms(1) by (simp_all add: quiet_def same_priv_def)
  then have "store_allowed c t s1 a = store_allowed c t s a" for a
    by (simp add: store_allowed_def priv_core_def priv_thread_def)
  with assms(2,3) show ?thesis by (simp add: stores_allowed_def)
qed

lemma breakpoint_stores_allowed:
  assumes "enable_mmu (thr s c t)"
  shows "specE any_fault (execute_breakpoint c t s) (\<lambda>(ok, s'). stores_allowed c t s s')"
proof (cases "lookup_breakpoint s (pc (thr s c t) - 4)")
  case (Some b)
  let ?s = "s\<lparr>breakpoints := set_restart (pc (thr s c t) - 4) False (breakpoints s)\<rparr>"
  have m: "enable_mmu (thr ?s c t)" using assms by simp
  have "specE any_fault (execute_decoded c t (original_instruction b) ?s) (stores_allowed c t s)"
    by (rule specE_mono [OF decoded_stores_allowed [OF m]]) (rule stores_allowed_quiet, simp_all)
  with Some show ?thesis by (simp add: execute_breakpoint_def Let_def stores_allowed_same)
qed (simp add: execute_breakpoint_def stores_allowed_same)

lemma instruction_stores_allowed:
  assumes "enable_mmu (thr s c t)"
  shows "specE any_fault (execute_instruction c t s) (\<lambda>(ok, s'). stores_allowed c t s s')"
proof -
  let ?s1 = "upd_thr c t (\<lambda>th. th\<lparr>pc := pc th + 4\<rparr>) s"
  let ?s3 = "?s1\<lparr>total_instructions := total_instructions ?s1 + 1\<rparr>"
  have "quiet c t s ?s1" by (rule quiet_upd_thr) (simp_all add: priv_thread_def)
  then have q3: "quiet c t s ?s3" by (rule quiet.trans) simp
  have m3: "memory ?s3 = memory s" "enable_mmu (thr ?s3 c t)" using assms by simp_all
  have run1: "specE any_fault (execute_breakpoint c t ?s3) (\<lambda>(ok, s'). stores_allowed c t s s')"
    by (rule specE_mono [OF breakpoint_stores_allowed [OF m3(2)]])
      (clarify, rule stores_allowed_quiet [OF q3 m3(1)])
  have run2: "specE any_fault (execute_decoded c t i ?s3) (stores_allowed c t s)" for i
    by (rule specE_mono [OF decoded_stores_allowed [OF m3(2)]]) (rule stores_allowed_quiet [OF q3 m3(1)])
  show ?thesis
  proof (cases c t "pc (thr s c t)" False False ?s1 rule: translate_address_result)
    case (1 pa)
    with run1 run2 show ?thesis by (simp add: execute_instruction_def Let_def load32_def stores_allowed_same)
  qed (simp_all add: execute_instruction_def Let_def stores_allowed_same)
qed

subsection \<open>Properties\<close>

text \<open>
  C3: isolation of the privileged state. Whatever instruction a user mode thread executes, it
  leaves every TLB, trap handler address and interrupt configuration, the address space, page
  directory and interrupt state of every thread and the mask of enabled threads as they were,
  and it gains supervisor mode only by entering the trap handler or TLB miss handler of its core.
\<close>

theorem user_mode_confined:
  assumes "\<not> enable_supervisor (thr s c t)" "execute_instruction c t s = Inr (ok, s')"
  shows "(\<forall>c'. itlb (cores s' c') = itlb (cores s c') \<and> dtlb (cores s' c') = dtlb (cores s c')
      \<and> trap_handler_pc (cores s' c') = trap_handler_pc (cores s c')
      \<and> tlb_miss_handler_pc (cores s' c') = tlb_miss_handler_pc (cores s c'))
    \<and> (\<forall>c' t'. asid (thr s' c' t') = asid (thr s c' t') \<and> page_dir (thr s' c' t') = page_dir (thr s c' t')
      \<and> interrupt_mask (thr s' c' t') = interrupt_mask (thr s c' t'))
    \<and> thread_enable_mask s' = thread_enable_mask s
    \<and> (enable_supervisor (thr s' c t) \<longrightarrow>
         pc (thr s' c t) = trap_handler_pc (cores s c) \<or> pc (thr s' c t) = tlb_miss_handler_pc (cores s c))"
proof -
  have "confined c t s s'" using confined_instruction [OF assms(1)] assms(2) by simp
  then show ?thesis
    using assms(1) by (auto simp: confined_def same_priv_def priv_core_def priv_thread_def)
qed

text \<open>
  C4: memory protection. With the MMU on, an instruction changes a byte of memory only if the data
  TLB of its core holds a present, writable entry for the byte's frame that belongs to the
  thread's address space or is global, and that is no supervisor page unless the thread is in
  supervisor mode.
\<close>

theorem store_protection:
  assumes "enable_mmu (thr s c t)" "execute_instruction c t s = Inr (ok, s')" "memory s' a \<noteq> memory s a"
  shows "\<exists>e\<in>range (dtlb (cores s c)).
     (phys_addr_and_flags e AND TLB_GLOBAL \<noteq> 0 \<or> tlb_asid e = asid (thr s c t))
     \<and> phys_addr_and_flags e AND TLB_PRESENT \<noteq> 0
     \<and> phys_addr_and_flags e AND TLB_WRITE_ENABLE \<noteq> 0
     \<and> (phys_addr_and_flags e AND TLB_SUPERVISOR \<noteq> 0 \<longrightarrow> enable_supervisor (thr s c t))
     \<and> ROUND_TO_PAGE (of_nat a) = ROUND_TO_PAGE (phys_addr_and_flags e)"
proof -
  have "store_allowed c t s a"
    using instruction_stores_allowed [OF assms(1)] assms(2,3) by (simp add: stores_allowed_def)
  then show ?thesis unfolding store_allowed_def in_page_def by blast
qed

subsection \<open>Examples\<close>

text \<open>A user mode thread with identity mapped pages, about to execute the given instruction.\<close>

definition user_machine :: "u32 \<Rightarrow> machine" where
  "user_machine instruction =
     upd_core 0 (\<lambda>co. co\<lparr>itlb := (\<lambda>_. \<lparr>tlb_asid = 0, virtual_address = 0, phys_addr_and_flags = 5\<rparr>),
         dtlb := (\<lambda>_. \<lparr>tlb_asid = 0, virtual_address = 0, phys_addr_and_flags = 3\<rparr>)\<rparr>)
       (upd_thr 0 0 (\<lambda>th. th\<lparr>enable_mmu := True, enable_supervisor := False, scalar_reg := (\<lambda>r. of_nat r)\<rparr>)
         (boot_machine (put32 0 instruction (\<lambda>_. 0))))"

lemma user_machine_thread:
  "thr (user_machine i) 0 0 = (init_thread 0)\<lparr>enable_mmu := True, enable_supervisor := False, scalar_reg := of_nat\<rparr>"
  by (simp add: user_machine_def thr_upd_core) (simp add: upd_thr_def boot_machine_def init_core_def)

lemma user_machine_fields:
  "itlb (cores (user_machine i) 0) = (\<lambda>_. \<lparr>tlb_asid = 0, virtual_address = 0, phys_addr_and_flags = 5\<rparr>)"
  "dtlb (cores (user_machine i) 0) = (\<lambda>_. \<lparr>tlb_asid = 0, virtual_address = 0, phys_addr_and_flags = 3\<rparr>)"
  "memory_size (user_machine i) = 0x1000" "memory (user_machine i) = put32 0 i (\<lambda>_. 0)"
  "enable_cosim (user_machine i) = False" "total_threads (user_machine i) = 4" "threads_per_core (user_machine i) = 4"
  by (simp_all add: user_machine_def boot_machine_def)

lemma user_translate:
  assumes "thr s 0 0 = (init_thread 0)\<lparr>enable_mmu := True, enable_supervisor := False, scalar_reg := rs, pc := p\<rparr>"
    and "itlb (cores s 0) = (\<lambda>_. \<lparr>tlb_asid = 0, virtual_address = 0, phys_addr_and_flags = 5\<rparr>)"
    "dtlb (cores s 0) = (\<lambda>_. \<lparr>tlb_asid = 0, virtual_address = 0, phys_addr_and_flags = 3\<rparr>)"
    "memory_size s = 0x1000" "va < 0x1000"
  shows "translate_address 0 0 va d d s = (Some va, s)"
proof -
  have r: "ROUND_TO_PAGE va = 0"
  proof (rule bit_word_eqI)
    fix i
    have "unat va < 2 ^ 12" using assms(5) by (simp add: word_less_nat_alt)
    then have "\<forall>j\<ge>12. \<not> bit va j" using unat_less_exp_iff [of 12 va] by simp
    then show "bit (ROUND_TO_PAGE va) i = bit (0 :: u32) i" by (auto simp: bit_page)
  qed
  then have o: "PAGE_OFFSET va = va" using page_compose(4) [of va] by simp
  have f: "ROUND_TO_PAGE 5 = 0" "ROUND_TO_PAGE 3 = 0" by (simp_all add: ROUND_TO_PAGE_def)
  have "find_way (if d then dtlb (cores s 0) else itlb (cores s 0)) (asid (thr s 0 0)) (ROUND_TO_PAGE va) = Some 0"
    using assms(1-3) by (simp add: find_way_def r tlb_match_def init_thread_def upt_conv_Cons)
  then show ?thesis
    using assms translate_found [of s 0 0 d va 0 "if d then 3 else 5" d]
    by (cases d) (simp_all add: init_thread_def tlb_fault_def f o)
qed

theorem user_mode_confined_witness:
  "\<not> enable_supervisor (thr (user_machine 0) 0 0) \<and>
   (\<exists>s'. execute_instruction 0 0 (user_machine 0) = Inr (True, s') \<and> thread_enable_mask s' = 1)"
proof -
  have u: "\<not> enable_supervisor (thr (user_machine 0) 0 0)" by (simp add: user_machine_thread)
  let ?s1 = "upd_thr 0 0 (\<lambda>th. th\<lparr>pc := pc th + 4\<rparr>) (user_machine 0)"
  have "translate_address 0 0 0 False False ?s1 = (Some 0, ?s1)"
    by (rule user_translate [where p = 4]) (simp_all add: user_machine_thread user_machine_fields init_thread_def)
  then obtain s' where s': "execute_instruction 0 0 (user_machine 0) = Inr (True, s')"
    by (simp add: execute_instruction_def Let_def load32_def user_machine_fields execute_decoded_def
        user_machine_thread init_thread_def put32_def get32_def)
  moreover have "thread_enable_mask (user_machine 0) = 1" by (simp add: user_machine_def boot_machine_def)
  ultimately show ?thesis using user_mode_confined [OF u s'] u by auto
qed

text \<open>\<open>store_32 s1, 0x40(s0)\<close>\<close>

lemma store_example_fields:
  "extract_unsigned_bits 0x88010020 25 4 = 4" "extract_unsigned_bits 0x88010020 29 (Suc 0) = 0"
  "extract_signed_bits 0x88010020 10 15 = 0x40" "reg_field 0x88010020 0 = 0" "reg_field 0x88010020 5 = 1"
  by (simp_all add: extract_unsigned_bits_def extract_signed_bits_def reg_field_def)

theorem store_protection_witness:
  "enable_mmu (thr (user_machine 0x88010020) 0 0) \<and>
   (\<exists>s'. execute_instruction 0 0 (user_machine 0x88010020) = Inr (True, s')
     \<and> memory s' 0x40 \<noteq> memory (user_machine 0x88010020) 0x40
     \<and> (\<exists>e\<in>range (dtlb (cores (user_machine 0x88010020) 0)). phys_addr_and_flags e AND TLB_WRITE_ENABLE \<noteq> 0))"
proof -
  let ?s = "user_machine 0x88010020"
  let ?s1 = "upd_thr 0 0 (\<lambda>th. th\<lparr>pc := pc th + 4\<rparr>) ?s"
  let ?s3 = "?s1\<lparr>total_instructions := total_instructions ?s1 + 1\<rparr>"
  have mmu: "enable_mmu (thr ?s 0 0)" by (simp add: user_machine_thread)
  have t1: "translate_address 0 0 0 False False ?s1 = (Some 0, ?s1)"
    by (rule user_translate [where p = 4]) (simp_all add: user_machine_thread user_machine_fields init_thread_def)
  have t2: "translate_address 0 0 0x40 True True ?s3 = (Some 0x40, ?s3)"
    by (rule user_translate [where p = 4]) (simp_all add: user_machine_thread user_machine_fields init_thread_def)
  have fetch: "load32 ?s1 0 = Inr 0x88010020" by (simp add: load32_def user_machine_fields)
  have regs: "scalar_reg (thr ?s3 0 0) 0 = 0" "scalar_reg (thr ?s3 0 0) 1 = 1"
    by (simp_all add: user_machine_thread)
  have "\<exists>s'. execute_scalar_load_store_inst 0 0 0x88010020 ?s3 = Inr s' \<and> memory s' 0x40 = 1"
    using t2 regs
    by (simp add: execute_scalar_load_store_inst_def Let_def store_example_fields scalar_access_size_def
        scalar_store_def store32_def user_machine_fields finish_store_def invalidate_sync_address_eq put32_def)
  then obtain s' where s': "execute_scalar_load_store_inst 0 0 0x88010020 ?s3 = Inr s'" "memory s' 0x40 = 1" by auto
  have ex: "execute_instruction 0 0 ?s = Inr (True, s')"
    using t1 fetch s'(1)
    by (simp add: execute_instruction_def Let_def user_machine_thread init_thread_def execute_decoded_def
        execute_memory_access_inst_def store_example_fields is_scalar_access_def)
  have ne: "memory s' 0x40 \<noteq> memory ?s 0x40" using s'(2) by (simp add: user_machine_fields put32_def)
  from store_protection [OF mmu ex ne] ex ne mmu show ?thesis by blast
qed

end
