(* ===== verification/Emu_Sync.thy ===== *)
theory Emu_Sync
  imports Emu_Isolation
begin

text \<open>
  Synchronized loads and stores of \<open>tools/emulator/processor.c\<close>. A synchronized load reserves its
  cache line for the thread (\<open>last_sync_load_addr\<close>), every store to a line ends the reservations of
  the line (\<open>invalidate_sync_address\<close>), and a synchronized store succeeds only with a reservation.
  The relations below state what an instruction does to the reservation of one thread; together
  they show that the pair of a synchronized load and a successful synchronized store is atomic.
\<close>

abbreviation reserved_line :: "nat \<Rightarrow> nat \<Rightarrow> machine \<Rightarrow> u32" where
  "reserved_line c t s \<equiv> last_sync_load_addr (thr s c t)"

text \<open>Neither memory nor the reservation of thread \<open>t\<close> changes.\<close>

definition calm :: "nat \<Rightarrow> nat \<Rightarrow> machine \<Rightarrow> machine \<Rightarrow> bool" where
  "calm c t s s' \<longleftrightarrow> memory s' = memory s \<and> total_threads s' = total_threads s
     \<and> reserved_line c t s' = reserved_line c t s"

text \<open>A reservation that thread \<open>t\<close> still holds is old, and the bytes of its line are unchanged.\<close>

definition line_kept :: "nat \<Rightarrow> nat \<Rightarrow> machine \<Rightarrow> machine \<Rightarrow> bool" where
  "line_kept c t s s' \<longleftrightarrow> total_threads s' = total_threads s
     \<and> (reserved_line c t s' \<noteq> INVALID_ADDR \<longrightarrow> reserved_line c t s = reserved_line c t s'
          \<and> (\<forall>a. a div 64 = unat (reserved_line c t s') \<longrightarrow> memory s' a = memory s a))"

interpretation calm: frame_relation "calm c t" for c t
  by unfold_locales (simp_all add: calm_def)

interpretation line_kept: frame_relation "line_kept c t" for c t
  by unfold_locales (auto simp: line_kept_def)

lemma calm_line_kept: "calm c t s s' \<Longrightarrow> line_kept c t s s'"
  by (simp add: calm_def line_kept_def)

subsection \<open>Operations that leave reservations alone\<close>

lemma calm_fields [simp]:
  "calm c t s s" "calm c t s (s\<lparr>cosim := cs\<rparr>)" "calm c t s (s\<lparr>crashed := b\<rparr>)" "calm c t s (s\<lparr>dev := d\<rparr>)"
  "calm c t s (s\<lparr>dev := d, rng := r\<rparr>)" "calm c t s (s\<lparr>breakpoints := bps\<rparr>)"
  "calm c t s (s\<lparr>total_instructions := n\<rparr>)" "calm c t s (s\<lparr>current_timer_count := w\<rparr>)"
  "calm c t s (clear_interrupt bits s)"
  by (simp_all add: calm_def thr_def clear_interrupt_def)

lemma calm_upd_thr:
  "(\<And>th. last_sync_load_addr (f th) = last_sync_load_addr th) \<Longrightarrow> calm c t s (upd_thr c' t' f s)"
  by (simp add: calm_def)

lemma enter_trap_last_sync [simp]:
  "last_sync_load_addr (enter_trap co a ty st d i th) = last_sync_load_addr th"
  by (simp add: enter_trap_def)

lemma advance_last_sync [simp]: "last_sync_load_addr (advance_subcycle th) = last_sync_load_addr th"
  by (simp add: advance_subcycle_def)

lemma calm_registers [simp]:
  "calm c t s (set_scalar_reg c' t' r v s)" "calm c t s (set_vector_reg c' t' r k vs s)"
  by (simp_all add: set_scalar_reg_def set_vector_reg_def Let_def calm_def)

lemma calm_raise_trap [simp]: "calm c t s (raise_trap c' t' a ty st d i s)"
  by (simp add: raise_trap_def calm_def)

lemma calm_dispatch [simp]: "calm c t s (try_to_dispatch_interrupt c' t' s)"
  by (auto simp: try_to_dispatch_interrupt_def Let_def intro!: calm.trans [OF calm_upd_thr calm_raise_trap])

lemma calm_return [simp]: "calm c t s (return_from_trap c' t' s)"
  by (auto simp: return_from_trap_def Let_def intro!: calm.trans [OF calm_upd_thr calm_dispatch] calm_upd_thr)

lemma calm_raise_interrupt [simp]: "calm c t s (raise_interrupt bits s)"
proof -
  have "last_sync_load_addr (threads (deliver_core l b n co) t) = last_sync_load_addr (threads co t)" for l b n co
    by (simp add: deliver_core_def latch_and_deliver_def interrupted_thread_def Let_def)
  then show ?thesis by (simp add: raise_interrupt_pointwise Let_def calm_def thr_def)
qed

lemma calm_timer [simp]: "calm c t s (timer_tick s)"
  by (auto simp: timer_tick_def Let_def intro: calm.trans [OF calm_fields(8) calm_raise_interrupt])

lemma calm_read_device [simp]: "calm c t s (snd (read_device_register a s))"
  by (auto simp: read_device_register_def Let_def split_def intro: calm.trans [OF calm_fields(4) calm_fields(9)])

lemma calm_write_device: "specE any_fault (write_device_register a v s) (calm c t s)"
proof -
  have "specE any_fault m (\<lambda>_. True)" for m :: "(u32 \<times> sd_card \<times> random_state) cres"
    by (cases m) simp_all
  then show ?thesis by (simp add: write_device_register_def Let_def split_def)
qed

lemma calm_control [simp]: "calm c t s (execute_control_register_inst c' t' i s)"
proof -
  have upd: "calm c t s (upd_core c' (\<lambda>co. co\<lparr>trap_handler_pc := v\<rparr>) s)"
    "calm c t s (upd_core c' (\<lambda>co. co\<lparr>tlb_miss_handler_pc := v\<rparr>) s)"
    "calm c t s (upd_core c' (\<lambda>co. co\<lparr>is_level_triggered := v\<rparr>) s)"
    "calm c t s (s\<lparr>thread_enable_mask := v\<rparr>)" for v
    by (simp_all add: calm_def thr_upd_core thr_def)
  have flags: "calm c t s (try_to_dispatch_interrupt c' t' (upd_thr c' t' f s))"
    if "\<And>th. last_sync_load_addr (f th) = last_sync_load_addr th" for f
    by (rule calm.trans [OF calm_upd_thr calm_dispatch]) (rule that)
  show ?thesis
    by (simp add: execute_control_register_inst_def read_control_register_def write_control_register_def Let_def
        upd flags calm_upd_thr)
qed

lemma calm_arith [simp]:
  "calm c t s (execute_register_arith_inst c' t' i s)" "calm c t s (execute_immediate_arith_inst c' t' i s)"
  by (simp_all add: execute_register_arith_inst_def execute_immediate_arith_inst_def Let_def)

lemma calm_branch [simp]: "calm c t s (execute_branch_inst c' t' i s)"
  by (auto simp: execute_branch_inst_def Let_def calm_upd_thr intro!: calm.trans [OF calm_registers(1) calm_upd_thr])

lemma calm_translate [simp]: "calm c t s (snd (translate_address c' t' va st d s))"
  by (cases c' t' va st d s rule: translate_address_result; simp)

lemma calm_cache [simp]: "calm c t s (execute_cache_control_inst c' t' i s)"
  by (simp add: execute_cache_control_inst_def Let_def) (simp add: calm_def thr_upd_core thr_def)

subsection \<open>Stores end the reservations of their line\<close>

text \<open>Memory has changed in the line of \<open>pa\<close> only, and reservations have not.\<close>

definition changes_line :: "nat \<Rightarrow> nat \<Rightarrow> u32 \<Rightarrow> machine \<Rightarrow> machine \<Rightarrow> bool" where
  "changes_line c t pa s s' \<longleftrightarrow> total_threads s' = total_threads s \<and> reserved_line c t s' = reserved_line c t s
     \<and> (\<forall>a. memory s' a \<noteq> memory s a \<longrightarrow> a div 64 = unat pa div 64)"

lemma invalidate_line_kept:
  assumes "t < total_threads s" "changes_line c t pa s s1"
  shows "specE any_fault (invalidate_sync_address c pa s1) (line_kept c t s)"
proof -
  have other: "memory s1 a = memory s a" if "a div 64 = unat l" "l \<noteq> pa div 64" for a l
  proof (rule ccontr)
    assume "memory s1 a \<noteq> memory s a"
    with assms(2) that(1) have "unat l = unat (pa div 64)" by (simp add: changes_line_def unat_div)
    with that(2) show False by (simp add: word_unat_eq_iff)
  qed
  show ?thesis
    using assms other
    by (auto simp: invalidate_sync_address_eq line_kept_def changes_line_def thr_upd_core thr_def)
qed

lemma finish_line_kept:
  assumes "t < total_threads s" "changes_line c t pa s s1"
  shows "specE any_fault (finish_store c t' pa va n v s1) (line_kept c t s)"
proof -
  have "line_kept c t s2 (s2\<lparr>cosim := x\<rparr>)" for x s2
    by (simp add: calm_line_kept)
  then show ?thesis
    unfolding finish_store_def
    by (intro line_kept.step [OF invalidate_line_kept [OF assms]]) (simp add: line_kept.refl)
qed

lemma word_in_line:
  assumes "4 * (unat pa div 4) \<le> a" "a < 4 * (unat pa div 4) + 4" shows "a div 64 = unat pa div 64"
proof -
  have "a div 4 = unat pa div 4" using assms by (simp add: div_nat_eqI)
  then have "a div 4 div 16 = unat pa div 4 div 16" by simp
  then show ?thesis by (simp add: div_mult2_eq [symmetric])
qed

lemma changes_line_stores:
  "specE any_fault (store32 pa v s) (changes_line c t pa s)"
  "specE any_fault (store16 pa v2 s) (changes_line c t pa s)"
  "specE any_fault (store8 pa v1 s) (changes_line c t pa s)"
proof -
  have "a div 64 = unat pa div 64" if "put32 (4 * (unat pa div 4)) v (memory s) a \<noteq> memory s a" for a
    using that put32_outside [of a "4 * (unat pa div 4)"] word_in_line [of pa a] by (meson not_le)
  then show "specE any_fault (store32 pa v s) (changes_line c t pa s)"
    by (simp add: store32_def Let_def changes_line_def)
  have "4 * (unat pa div 4) \<le> 2 * (unat pa div 2)" "2 * (unat pa div 2) + 2 \<le> 4 * (unat pa div 4) + 4"
    by presburger+
  then have "a div 64 = unat pa div 64" if "put16 (2 * (unat pa div 2)) v2 (memory s) a \<noteq> memory s a" for a
    using that put16_outside [of a "2 * (unat pa div 2)"] word_in_line [of pa a]
    by (meson le_trans less_le_trans not_le)
  then show "specE any_fault (store16 pa v2 s) (changes_line c t pa s)"
    by (simp add: store16_def Let_def changes_line_def)
  show "specE any_fault (store8 pa v1 s) (changes_line c t pa s)"
    by (simp add: store8_def changes_line_def)
qed

lemma store_finish_line_kept:
  assumes "t < total_threads s" "specE any_fault m (changes_line c t pa s)"
  shows "specE any_fault (bindE m (finish_store c t' pa va n v)) (line_kept c t s)"
  using assms finish_line_kept [OF assms(1)] by (cases m) simp_all

lemma scalar_store_line_kept:
  assumes "t < total_threads s"
  shows "specE any_fault (scalar_store c t' op r pa va s) (line_kept c t s)"
proof -
  have st: "specE any_fault (bindE (store32 pa v s) (finish_store c t' pa va n w)) (line_kept c t s)"
    "specE any_fault (bindE (store16 pa v2 s) (finish_store c t' pa va n w)) (line_kept c t s)"
    "specE any_fault (bindE (store8 pa v1 s) (finish_store c t' pa va n w)) (line_kept c t s)"
    if "t < total_threads s" for s v v2 v1 n w
    by (rule store_finish_line_kept [OF that changes_line_stores(1)],
        rule store_finish_line_kept [OF that changes_line_stores(2)],
        rule store_finish_line_kept [OF that changes_line_stores(3)])
  have set: "line_kept c t s (upd_thr c t' (\<lambda>th. th\<lparr>scalar_reg := (scalar_reg th)(r := v)\<rparr>) s)" for v
    by (rule calm_line_kept, rule calm_upd_thr) simp
  have sync: "specE any_fault (bindE (store32 pa v (upd_thr c t' (\<lambda>th. th\<lparr>scalar_reg := (scalar_reg th)(r := 1)\<rparr>) s))
      (finish_store c t' pa va n w)) (line_kept c t s)" for v n w
    using line_kept.pure_step [OF set st(1)] assms by simp
  have dev: "specE any_fault (write_device_register pa v s) (line_kept c t s)" for v
    by (rule specE_mono [OF calm_write_device]) (rule calm_line_kept)
  have timer: "line_kept c t s (s\<lparr>current_timer_count := v\<rparr>)"
    "line_kept c t s (raise_trap c t' a ty st' d i s)" for v a ty st' d i
    by (rule calm_line_kept, simp)+
  show ?thesis
    unfolding scalar_store_def Let_def
    by (simp only: specE_if st [OF assms] sync dev set timer specE_Inr specE_Inl if_cancel)
qed

lemma block_in_line:
  assumes "va AND 63 = 0" "PAGE_OFFSET pa = PAGE_OFFSET va" "lane < 16"
    "block_index pa lane \<le> a" "a < block_index pa lane + 4"
  shows "a div 64 = unat pa div 64"
proof -
  obtain k where k: "unat pa = 64 * k" using aligned_64 [OF assms(1,2)] by auto
  then have "64 * k \<le> a" "a < 64 * k + 64" using assms(3-5) by (auto simp: block_index_def)
  then have "a div 64 = k" by (simp add: div_nat_eqI mult.commute)
  with k show ?thesis by simp
qed

lemma block_store_line_kept:
  assumes "t < total_threads s" "va' AND 63 = 0" "PAGE_OFFSET pa = PAGE_OFFSET va'"
  shows "specE any_fault (block_store c t' r k pa va s) (line_kept c t s)"
proof -
  let ?m = "\<lambda>v m. fold (\<lambda>lane m. if bit k lane then put32 (block_index pa lane) (v lane) m else m) [0..<16] m"
  have line: "a div 64 = unat pa div 64" if "?m v m a \<noteq> m a" for v m a
  proof -
    have "\<exists>lane<16. \<not> (a < block_index pa lane \<or> block_index pa lane + 4 \<le> a)"
      using fold_put32_outside [of "[0..<16]" "bit k" a "block_index pa" v m] that by (auto simp del: upt.simps)
    then show ?thesis using block_in_line [OF assms(2,3)] by (meson not_le)
  qed
  have "specE any_fault (invalidate_sync_address c pa (s'\<lparr>memory := ?m v (memory s')\<rparr>)) (line_kept c t s)"
    if "memory s' = memory s" "total_threads s' = total_threads s" "reserved_line c t s' = reserved_line c t s" for s' v
    by (rule invalidate_line_kept [OF assms(1)]) (use that line in \<open>simp add: changes_line_def del: upt.simps\<close>)
  then show ?thesis unfolding block_store_def Let_def by (simp del: upt.simps)
qed

lemma lane_line_kept:
  assumes "t < total_threads s"
  shows "specE any_fault (scatter_lane c t' r l e pa va s) (line_kept c t s)"
proof -
  have "specE any_fault (bindE (store32 pa v s) (finish_store c t' pa va n w)) (line_kept c t s)" for v n w
    by (rule store_finish_line_kept [OF assms changes_line_stores(1)])
  then show ?thesis
    by (simp only: scatter_lane_def Let_def specE_if specE_Inr line_kept.refl if_cancel)
qed

subsection \<open>Every instruction\<close>

text \<open>
  A step of thread \<open>t'\<close> keeps the reserved line of thread \<open>t\<close>, or it is a load of \<open>t\<close> itself, which
  may take a new reservation and leaves memory as it is.
\<close>

definition reserving :: "nat \<Rightarrow> nat \<Rightarrow> nat \<Rightarrow> machine \<Rightarrow> machine \<Rightarrow> bool" where
  "reserving c t t' s s' \<longleftrightarrow> line_kept c t s s'
     \<or> t' = t \<and> memory s' = memory s \<and> total_threads s' = total_threads s"

lemma line_kept_reserving: "line_kept c t s s' \<Longrightarrow> reserving c t t' s s'"
  by (simp add: reserving_def)

lemma calm_reserving: "calm c t s s' \<Longrightarrow> reserving c t t' s s'"
  by (simp add: line_kept_reserving calm_line_kept)

lemma calm_then_reserving:
  assumes "calm c t s s1" "reserving c t t' s1 s2"
  shows "reserving c t t' s s2"
  using assms line_kept.trans [OF calm_line_kept [OF assms(1)]] by (auto simp: reserving_def calm_def)

lemma reserving_then_calm:
  assumes "reserving c t t' s s1" "calm c t s1 s2"
  shows "reserving c t t' s s2"
  using assms line_kept.trans [OF _ calm_line_kept [OF assms(2)]] by (auto simp: reserving_def calm_def)

lemma scalar_load_reserving: "specE any_fault (scalar_load c t' op r pa s) (reserving c t t' s)"
proof -
  have dev: "calm c t s (set_scalar_reg c t' r v (snd (read_device_register pa s)))" for v
    by (rule calm.trans [OF calm_read_device calm_registers(1)])
  have "reserving c t t' s (upd_thr c t' (\<lambda>th. th\<lparr>last_sync_load_addr := w\<rparr>) s)" for w
    by (simp add: reserving_def line_kept_def)
  then have "reserving c t t' s (set_scalar_reg c t' r v (upd_thr c t' (\<lambda>th. th\<lparr>last_sync_load_addr := w\<rparr>) s))" for v w
    using reserving_then_calm [OF _ calm_registers(1)] by blast
  then show ?thesis
    by (simp add: scalar_load_def load32_def load16_def load8_def Let_def split_def dev calm_reserving)
qed

lemma vector_load_reserving:
  "specE any_fault (block_load c t' r k pa s) (reserving c t t' s)"
  "specE any_fault (gather_lane c t' r l e pa s) (reserving c t t' s)"
  by (simp_all add: block_load_def gather_lane_def load32_def Let_def calm_reserving)

lemma reserving_translated:
  assumes "\<And>pa. PAGE_OFFSET pa = PAGE_OFFSET va \<Longrightarrow> specE any_fault (f pa s) (reserving c t t' s)"
  shows "specE any_fault (case translate_address c t' va st d s of (None, s') \<Rightarrow> Inr s' | (Some pa, s') \<Rightarrow> f pa s')
    (reserving c t t' s)"
  using assms translate_Some_state(3) [of c t' va st d s]
  by (cases c t' va st d s rule: translate_address_result) (simp_all add: calm_reserving)

lemma store_reserving:
  assumes "specE any_fault m (line_kept c t s)" shows "specE any_fault m (reserving c t t' s)"
  by (rule specE_mono [OF assms]) (rule line_kept_reserving)

lemma memory_access_reserving:
  assumes "t < total_threads s"
  shows "specE any_fault (execute_memory_access_inst c t' i s) (reserving c t t' s)"
proof -
  note stores = store_reserving [OF scalar_store_line_kept [OF assms]]
    store_reserving [OF block_store_line_kept [OF assms]] store_reserving [OF lane_line_kept [OF assms]]
  have lane: "specE any_fault (bindE m (\<lambda>s'. Inr (upd_thr c t' advance_subcycle s'))) (reserving c t t' s)"
    if "specE any_fault m (reserving c t t' s)" for m
    using that reserving_then_calm [OF _ calm_upd_thr [of advance_subcycle]] by (cases m) simp_all
  have scalar: "specE any_fault (execute_scalar_load_store_inst c t' i s) (reserving c t t' s)"
    by (auto simp: execute_scalar_load_store_inst_def Let_def scalar_load_reserving stores calm_reserving
        intro!: reserving_translated)
  have block: "specE any_fault (execute_block_load_store_inst c t' i s) (reserving c t t' s)"
    by (cases "vector_access_mask_offset MEM_BLOCK_VECTOR i (thr s c t')")
      (auto simp: execute_block_load_store_inst_def Let_def vector_load_reserving calm_reserving
        intro!: reserving_translated stores(2))
  have scatter: "specE any_fault (execute_scatter_gather_inst c t' i s) (reserving c t t' s)"
    by (cases "vector_access_mask_offset MEM_SCGATH i (thr s c t')")
      (auto simp: execute_scatter_gather_inst_def Let_def vector_load_reserving stores(3) calm_reserving
        simp del: specE_bindE intro!: reserving_translated lane)
  show ?thesis
    by (simp add: execute_memory_access_inst_def Let_def scalar block scatter calm_reserving)
qed

lemma decoded_reserving:
  "t < total_threads s \<Longrightarrow> specE any_fault (execute_decoded c t' i s) (reserving c t t' s)"
  by (simp add: execute_decoded_def memory_access_reserving calm_reserving)

lemma calm_prefix:
  assumes "calm c t s s1" "t < total_threads s"
    and "\<And>s1. t < total_threads s1 \<Longrightarrow> specE any_fault (m s1) (reserving c t t' s1)"
  shows "specE any_fault (m s1) (reserving c t t' s)"
proof -
  have "t < total_threads s1" using assms(1,2) by (simp add: calm_def)
  from specE_mono [OF assms(3) [OF this] calm_then_reserving [OF assms(1)]] show ?thesis .
qed

lemma breakpoint_reserving:
  assumes "t < total_threads s"
  shows "specE any_fault (execute_breakpoint c t' s) (\<lambda>(ok, s'). reserving c t t' s s')"
proof (cases "lookup_breakpoint s (pc (thr s c t') - 4)")
  case (Some b)
  let ?s = "\<lambda>v. s\<lparr>breakpoints := set_restart (pc (thr s c t') - 4) v (breakpoints s)\<rparr>"
  have "specE any_fault (execute_decoded c t' (original_instruction b) (?s False)) (reserving c t t' s)"
    by (rule calm_prefix [OF _ assms decoded_reserving]) simp_all
  moreover have "calm c t s (upd_thr c t' (\<lambda>th. th\<lparr>pc := pc th - 4\<rparr>) (?s True))"
    by (rule calm.trans [OF calm_fields(6) calm_upd_thr]) simp
  ultimately show ?thesis using Some by (simp add: execute_breakpoint_def Let_def calm_reserving)
qed (simp add: execute_breakpoint_def calm_reserving)

lemma instruction_reserving:
  assumes "t < total_threads s"
  shows "specE any_fault (execute_instruction c t' s) (\<lambda>(ok, s'). reserving c t t' s s')"
proof -
  let ?s1 = "upd_thr c t' (\<lambda>th. th\<lparr>pc := pc th + 4\<rparr>) s"
  let ?s3 = "?s1\<lparr>total_instructions := total_instructions ?s1 + 1\<rparr>"
  have q1: "calm c t s ?s1" by (rule calm_upd_thr) simp
  then have q3: "calm c t s ?s3" by (rule calm.trans) simp
  have t3: "t < total_threads ?s3" using assms by simp
  have run1: "specE any_fault (execute_breakpoint c t' ?s3) (\<lambda>(ok, s'). reserving c t t' s s')"
    by (rule specE_mono [OF breakpoint_reserving [OF t3]]) (clarify, rule calm_then_reserving [OF q3])
  have run2: "specE any_fault (execute_decoded c t' i ?s3) (reserving c t t' s)" for i
    by (rule calm_prefix [OF q3 assms decoded_reserving])
  have trap: "reserving c t t' s (raise_trap c t' a ty st d n ?s1)" "reserving c t t' s (?s1\<lparr>crashed := True\<rparr>)"
    for a ty st d n
    by (rule calm_then_reserving [OF q1], simp add: calm_reserving)+
  show ?thesis
  proof (cases c t' "pc (thr s c t')" False False ?s1 rule: translate_address_result)
    case (1 pa)
    with run1 run2 trap show ?thesis by (simp add: execute_instruction_def Let_def load32_def)
  qed (simp_all add: execute_instruction_def Let_def trap)
qed

subsection \<open>Runs\<close>

text \<open>
  The timer and any instruction of any thread of core \<open>c\<close>, except that thread \<open>t\<close> itself takes no new
  reservation.
\<close>

inductive other_step :: "nat \<Rightarrow> nat \<Rightarrow> machine \<Rightarrow> machine \<Rightarrow> bool" for c t where
  execute: "execute_instruction c t' s = Inr (ok, s') \<Longrightarrow>
    t' = t \<longrightarrow> reserved_line c t s' = INVALID_ADDR \<or> reserved_line c t s' = reserved_line c t s \<Longrightarrow>
    other_step c t s s'"
| timer: "other_step c t s (timer_tick s)"

inductive_cases other_stepE: "other_step c t s s'"

lemma other_step_kept: "other_step c t s s' \<Longrightarrow> t < total_threads s \<Longrightarrow> line_kept c t s s'"
proof (erule other_stepE)
  fix t' ok
  assume t: "t < total_threads s" and ex: "execute_instruction c t' s = Inr (ok, s')"
    and own: "t' = t \<longrightarrow> reserved_line c t s' = INVALID_ADDR \<or> reserved_line c t s' = reserved_line c t s"
  have "reserving c t t' s s'" using instruction_reserving [OF t] ex by (metis specE_Inr case_prodD)
  with own show ?thesis by (auto simp: reserving_def line_kept_def)
qed (simp add: calm_line_kept)

lemma other_steps_kept:
  "(other_step c t)\<^sup>*\<^sup>* s s' \<Longrightarrow> t < total_threads s \<Longrightarrow> line_kept c t s s'"
proof (induction rule: rtranclp_induct)
  case base
  show ?case by (rule line_kept.refl)
next
  case (step s1 s2)
  then have "t < total_threads s1" by (simp add: line_kept_def)
  with step show ?case using line_kept.trans other_step_kept by blast
qed

subsection \<open>Properties\<close>

text \<open>
  C8: a synchronized load and a successful synchronized store are atomic. After thread \<open>t\<close> has loaded
  a word with a synchronized load, let the threads of its core execute any instructions in any
  order (\<open>t\<close> itself taking no new reservation) and the timer tick. If a synchronized store of \<open>t\<close> to
  the same cache line then leaves 1 in its register, no byte of the line has changed since the
  load: the register that was loaded still holds the word in memory, and the store replaces it.
\<close>

theorem sync_store_atomic:
  assumes ok: "machine_ok s0" and t: "t < total_threads s0" and pa: "pa < memory_size s0"
    and ld: "scalar_load c t MEM_SYNC r pa s0 = Inr s1"
    and run: "(other_step c t)\<^sup>*\<^sup>* s1 s2"
    and st: "scalar_store c t MEM_SYNC r' pa' va s2 = Inr s3"
    and line: "pa' div CACHE_LINE_LENGTH = pa div CACHE_LINE_LENGTH"
    and success: "scalar_reg (thr s3 c t) r' = 1"
  shows "scalar_reg (thr s1 c t) r = get32 (memory s0) (4 * (unat pa div 4))
    \<and> (\<forall>a. a div 64 = unat pa div 64 \<longrightarrow> memory s2 a = memory s0 a)
    \<and> memory s3 = put32 (4 * (unat pa' div 4)) (scalar_reg (thr s2 c t) r') (memory s2)"
proof -
  have s1: "s1 = set_scalar_reg c t r (get32 (memory s0) (4 * (unat pa div 4)))
      (upd_thr c t (\<lambda>th. th\<lparr>last_sync_load_addr := pa div 64\<rparr>) s0)"
    using ld load_in_memory(1) [OF ok pa] by (simp add: scalar_load_def)
  then have r1: "reserved_line c t s1 = pa div 64" "memory s1 = memory s0" "total_threads s1 = total_threads s0"
    "scalar_reg (thr s1 c t) r = get32 (memory s0) (4 * (unat pa div 4))"
    by (simp_all add: set_scalar_reg_def Let_def)
  have kept: "line_kept c t s1 s2" using other_steps_kept [OF run] t r1(3) by simp
  have held: "reserved_line c t s2 = pa div 64"
  proof (rule ccontr)
    assume "reserved_line c t s2 \<noteq> pa div 64"
    then have "s3 = upd_thr c t (\<lambda>th. th\<lparr>scalar_reg := (scalar_reg th)(r' := 0)\<rparr>) s2"
      using st line by (simp add: scalar_store_def Let_def eq_commute)
    with success show False by simp
  qed
  have "memory s3 = put32 (4 * (unat pa' div 4)) (scalar_reg (thr s2 c t) r') (memory s2)"
    using st held line
    by (auto simp: scalar_store_def Let_def store32_def finish_store_def bindE_eq_Inr invalidate_sync_address_eq
        split: if_splits)
  moreover have "memory s2 a = memory s0 a" if "a div 64 = unat pa div 64" for a
    using kept held line_not_invalid [of pa] that r1(2) by (simp add: line_kept_def unat_div)
  ultimately show ?thesis using r1(4) by blast
qed

text \<open>
  Thread 1 loads the word at 0x80; thread 0 executes \<open>store_32 s1, 0x40(s0)\<close>, a store to another line,
  and the timer ticks; then the synchronized store of thread 1 succeeds.
\<close>

definition sync_machine :: machine where
  "sync_machine = boot_machine (put32 0 0x88010020 (\<lambda>_. 0))"

lemma sync_machine_fields:
  "machine_ok sync_machine" "memory_size sync_machine = 0x1000" "total_threads sync_machine = 4"
  "threads_per_core sync_machine = 4" "enable_cosim sync_machine = False"
  "memory sync_machine = put32 0 0x88010020 (\<lambda>_. 0)" "thr sync_machine 0 t = init_thread (of_nat t)"
  by (simp_all add: sync_machine_def) (simp_all add: boot_machine_def thr_def init_core_def)

lemma sync_machine_store:
  assumes "thr s 0 0 = init_thread 0" "memory_size s = 0x1000" "memory s = put32 0 0x88010020 (\<lambda>_. 0)"
    "total_threads s = 4" "threads_per_core s = 4" "enable_cosim s = False" "reserved_line 0 1 s = 2"
  shows "\<exists>s'. execute_instruction 0 0 s = Inr (True, s') \<and> reserved_line 0 1 s' = 2 \<and> memory_size s' = 0x1000
    \<and> total_threads s' = 4 \<and> threads_per_core s' = 4 \<and> enable_cosim s' = False"
proof -
  let ?s1 = "upd_thr 0 0 (\<lambda>th. th\<lparr>pc := pc th + 4\<rparr>) s"
  let ?s3 = "?s1\<lparr>total_instructions := total_instructions ?s1 + 1\<rparr>"
  have mmu: "\<not> enable_mmu (thr s 0 0)" "pc (thr s 0 0) = 0" "scalar_reg (thr s 0 0) = (\<lambda>_. 0)"
    using assms(1) by (simp_all add: init_thread_def)
  have t1: "translate_address 0 0 0 False False ?s1 = (Some 0, ?s1)"
    "translate_address 0 0 0x40 True True ?s3 = (Some 0x40, ?s3)"
    using mmu assms(2) by (simp_all add: translate_address_def)
  have fetch: "load32 ?s1 0 = Inr 0x88010020" using assms(2,3) by (simp add: load32_def)
  obtain s' where "execute_scalar_load_store_inst 0 0 0x88010020 ?s3 = Inr s'"
    "reserved_line 0 1 s' = 2" "memory_size s' = 0x1000"
    "total_threads s' = 4" "threads_per_core s' = 4" "enable_cosim s' = False"
    using t1(2) mmu assms
    by (simp add: execute_scalar_load_store_inst_def Let_def store_example_fields scalar_access_size_def
        scalar_store_def store32_def finish_store_def invalidate_sync_address_eq thr_upd_core thr_def [symmetric])
  then show ?thesis
    using t1(1) fetch mmu
    by (simp add: execute_instruction_def Let_def execute_decoded_def
        execute_memory_access_inst_def store_example_fields is_scalar_access_def)
qed

theorem sync_store_atomic_witness:
  "\<exists>s1 s2 s3. scalar_load 0 1 MEM_SYNC 2 0x80 sync_machine = Inr s1 \<and> reserved_line 0 1 s1 = 2
     \<and> (other_step 0 1)\<^sup>*\<^sup>* s1 s2 \<and> scalar_store 0 1 MEM_SYNC 3 0x84 0x84 s2 = Inr s3
     \<and> scalar_reg (thr s3 0 1) 3 = 1 \<and> memory s2 0x80 = 0"
proof -
  define s1 where "s1 = set_scalar_reg 0 1 2 0 (upd_thr 0 1 (\<lambda>th. th\<lparr>last_sync_load_addr := 2\<rparr>) sync_machine)"
  have ld: "scalar_load 0 1 MEM_SYNC 2 0x80 sync_machine = Inr s1"
    by (simp add: scalar_load_def load32_def sync_machine_fields s1_def get32_def put32_def)
  have f: "thr s1 0 0 = init_thread 0" "memory_size s1 = 0x1000" "memory s1 = put32 0 0x88010020 (\<lambda>_. 0)"
    "total_threads s1 = 4" "threads_per_core s1 = 4" "enable_cosim s1 = False" "reserved_line 0 1 s1 = 2"
    by (simp_all add: s1_def set_scalar_reg_def sync_machine_fields)
  obtain s2 where s2: "execute_instruction 0 0 s1 = Inr (True, s2)" "reserved_line 0 1 s2 = 2"
    "memory_size s2 = 0x1000" "total_threads s2 = 4" "threads_per_core s2 = 4" "enable_cosim s2 = False"
    using sync_machine_store [OF f] by auto
  have run: "(other_step 0 1)\<^sup>*\<^sup>* s1 s2" by (rule r_into_rtranclp, rule other_step.execute [OF s2(1)]) simp
  obtain s3 where s3: "scalar_store 0 1 MEM_SYNC 3 0x84 0x84 s2 = Inr s3" "scalar_reg (thr s3 0 1) 3 = 1"
    using s2(2-6)
    by (simp add: scalar_store_def Let_def store32_def finish_store_def invalidate_sync_address_eq thr_upd_core
        thr_def [symmetric])
  have "scalar_reg (thr s1 0 1) 2 = get32 (memory sync_machine) 0x80
    \<and> (\<forall>a. a div 64 = 2 \<longrightarrow> memory s2 a = memory sync_machine a)"
    using sync_store_atomic [OF sync_machine_fields(1) _ _ ld run s3(1) _ s3(2)]
    unfolding sync_machine_fields(2,3) by simp
  then have "memory s2 0x80 = 0" by (simp add: sync_machine_fields put32_def)
  with ld f(7) run s3 show ?thesis by (intro exI conjI)
qed

end
