(* ===== verification/Emu_System.thy ===== *)
theory Emu_System
  imports Emu_Debug Emu_Sync
begin

text \<open>
  The emulator as a transition system: the instruction cycle of any thread, the timer, input from
  the host and the debugger interleave in any order. The machine invariant holds in every
  reachable state. The last section shows the three situations that the safety theorem of the
  instruction cycle excludes, and that they do lead outside the program's arrays.
\<close>

inductive machine_step :: "machine \<Rightarrow> machine \<Rightarrow> bool" where
  execute: "get_thread s i = Inr (c, t) \<Longrightarrow> execute_instruction c t s = Inr (ok, s') \<Longrightarrow> machine_step s s'"
| timer: "machine_step s (timer_tick s)"
| key: "machine_step s (enqueue_key k s)"
| serial: "machine_step s (enqueue_serial_char ch s)"
| host_interrupt: "interrupt_id \<le> 16 \<Longrightarrow> machine_step s (raise_interrupt (push_bit interrupt_id 1) s)"
| vga_frame: "machine_step s (clear_interrupt INT_VGA_FRAME (raise_interrupt INT_VGA_FRAME s))"
| stepping: "machine_step s (s\<lparr>single_stepping := b\<rparr>)"
| cosim_int: "cosim_interrupt i p s = Inr s' \<Longrightarrow> machine_step s s'"
| set_breakpoint: "dbg_set_breakpoint a s = Inr (ok, s') \<Longrightarrow> machine_step s s'"
| clear_breakpoint: "dbg_clear_breakpoint a s = Inr (ok, s') \<Longrightarrow> machine_step s s'"
| write_memory: "machine_step s (dbg_write_memory_byte a b s)"
| write_register: "dbg_set_scalar_reg i r v s = Inr s' \<Longrightarrow> machine_step s s'"
| write_vector: "dbg_set_vector_reg i r vs s = Inr s' \<Longrightarrow> machine_step s s'"

inductive_cases machine_stepE: "machine_step s s'"

subsection \<open>Every step keeps the invariant\<close>

lemma scatter_keeps_good:
  assumes "good s"
  shows "specE (\<lambda>_. True) (execute_memory_access_inst c t i s) good"
proof (cases "subcycle (thr s c t) < 16")
  case True
  then show ?thesis by (rule specE_weaken [OF execute_memory_access_inst_good [OF assms]]) simp
next
  case False
  then have lane: "\<not> unat (subcycle (thr s c t)) < 16" by (simp add: word_less_nat_alt)
  have "specE (\<lambda>_. True) (execute_scatter_gather_inst c t i s) good"
    using lane by (simp add: execute_scatter_gather_inst_def Let_def vector_access_mask_offset_def)
  moreover have "specE (\<lambda>_. True) (execute_scalar_load_store_inst c t i s) good"
    if "is_scalar_access (extract_unsigned_bits i 25 4)"
    by (rule specE_weaken [OF execute_scalar_load_store_good [OF assms that]]) simp
  ultimately show ?thesis
    using assms execute_block_load_store_good [OF assms, of i "\<lambda>_. True" c t]
      execute_control_register_inst_good [OF assms, of c t i]
    by (auto simp: execute_memory_access_inst_def Let_def)
qed

lemma decoded_keeps_good: "good s \<Longrightarrow> specE (\<lambda>_. True) (execute_decoded c t i s) good"
proof -
  assume g: "good s"
  then have "good (execute_register_arith_inst c t i s)" "good (execute_immediate_arith_inst c t i s)"
    "good (execute_cache_control_inst c t i s)"
    using execute_cache_control_inst_ok by (simp_all add: good_def)
  with g scatter_keeps_good [OF g, of c t i] show ?thesis by (simp add: execute_decoded_def)
qed

lemma breakpoint_keeps_good: "good s \<Longrightarrow> specE (\<lambda>_. True) (execute_breakpoint c t s) (\<lambda>(ok, s'). good s')"
  by (cases "lookup_breakpoint s (pc (thr s c t) - 4)")
    (simp_all add: execute_breakpoint_def Let_def decoded_keeps_good)

lemma instruction_keeps_good:
  assumes "good s"
  shows "specE (\<lambda>_. True) (execute_instruction c t s) (\<lambda>(ok, s'). good s')"
proof -
  let ?s1 = "upd_thr c t (\<lambda>th. th\<lparr>pc := pc th + 4\<rparr>) s"
  let ?s3 = "?s1\<lparr>total_instructions := total_instructions ?s1 + 1\<rparr>"
  have g: "good ?s3" using assms by simp
  show ?thesis
  proof (cases c t "pc (thr s c t)" False False ?s1 rule: translate_address_result)
    case (1 pa)
    with assms breakpoint_keeps_good [OF g, of c t] decoded_keeps_good [OF g, of c t] show ?thesis
      by (simp add: execute_instruction_def Let_def load32_def)
  qed (use assms in \<open>simp_all add: execute_instruction_def Let_def\<close>)
qed

lemma set_breakpoint_good: "good s \<Longrightarrow> dbg_set_breakpoint a s = Inr (ok, s') \<Longrightarrow> good s'"
  using set_breakpoint_ok [of s "\<lambda>_. False" a]
  by (auto simp: good_def dbg_set_breakpoint_def store32_def load32_def Let_def single_core_def split: if_splits)

lemma clear_breakpoint_good: "good s \<Longrightarrow> dbg_clear_breakpoint a s = Inr (ok, s') \<Longrightarrow> good s'"
  using clear_breakpoint_ok [of s "\<lambda>_. False" a]
  by (auto simp: good_def dbg_clear_breakpoint_def store32_def Let_def single_core_def split: if_splits option.splits)

lemma input_good:
  assumes "good s" shows "good (enqueue_key k s)" "good (enqueue_serial_char k s)"
proof -
  have "device_ok (dev s)" using assms by (simp add: good_def machine_ok_def)
  moreover have "good (s\<lparr>dev := d\<rparr>)" if "device_ok d" for d
    using assms that by (simp add: good_def machine_ok_dev)
  ultimately show "good (enqueue_key k s)" "good (enqueue_serial_char k s)"
    by (simp_all add: enqueue_key_def enqueue_serial_char_def)
qed

lemma machine_step_good: "machine_step s s' \<Longrightarrow> good s \<Longrightarrow> good s'"
proof (induction rule: machine_step.induct)
  case (execute s i c t ok s')
  then show ?case using instruction_keeps_good [of s c t] by simp
next
  case (set_breakpoint a s ok s')
  then show ?case using set_breakpoint_good by blast
next
  case (clear_breakpoint a s ok s')
  then show ?case using clear_breakpoint_good by blast
next
  case (cosim_int i p s s')
  then show ?case by (auto simp: cosim_interrupt_def bindE_eq_Inr)
next
  case (write_register i r v s s')
  then show ?case by (auto simp: dbg_set_scalar_reg_def bindE_eq_Inr split: if_splits)
next
  case (write_vector i r vs s s')
  then show ?case by (auto simp: dbg_set_vector_reg_def bindE_eq_Inr split: if_splits)
next
  case (host_interrupt interrupt_id s)
  then show ?case by (simp add: good_def)
next
  case (vga_frame s)
  then show ?case by (simp add: good_def)
qed (simp_all add: input_good dbg_write_memory_byte_def)

subsection \<open>Properties\<close>

text \<open>
  C2: every state that a processor of one core reaches by any interleaving of instructions of its
  threads, timer ticks, keyboard and serial input, host and frame interrupts and debugger operations satisfies
  the machine invariant: the thread mask names existing threads, TLB way counters, ring buffer
  indices and SD card buffers are in range, and breakpoints are distinct, aligned, inside memory
  and never hide a breakpoint instruction.
\<close>

theorem reachable_machine_ok:
  assumes "machine_step\<^sup>*\<^sup>* s s'" "machine_ok s" "single_core s"
  shows "machine_ok s' \<and> single_core s'"
proof -
  from assms(1) have "good s \<longrightarrow> good s'"
    by (induction rule: rtranclp_induct) (auto dest: machine_step_good)
  with assms(2,3) show ?thesis by (simp add: good_def)
qed

theorem reachable_machine_ok_witness:
  "machine_step\<^sup>*\<^sup>* (boot_machine (\<lambda>_. 0)) (enqueue_key 7 (timer_tick (boot_machine (\<lambda>_. 0)))) \<and>
   machine_ok (enqueue_key 7 (timer_tick (boot_machine (\<lambda>_. 0))))"
proof -
  have r: "machine_step\<^sup>*\<^sup>* (boot_machine (\<lambda>_. 0)) (enqueue_key 7 (timer_tick (boot_machine (\<lambda>_. 0))))"
    by (rule rtranclp.rtrancl_into_rtrancl [OF r_into_rtranclp [of machine_step, OF machine_step.timer] machine_step.key])
  then show ?thesis using reachable_machine_ok [OF r] by simp
qed

text \<open>
  C32: with more than one core every store to memory runs past the thread array of its core, because
  the loop of \<open>invalidate_sync_address\<close> counts the threads of all cores: byte, short and long
  stores, a synchronized store that holds its reservation, a block store with any mask, and an
  enabled lane of a scatter store.
\<close>

theorem store_overruns_with_several_cores:
  assumes "machine_ok s" "threads_per_core s < total_threads s" "pa < memory_size s" "pa < DEVICE_BASE_ADDRESS"
  shows "(\<forall>op\<in>{MEM_BYTE, MEM_BYTE_SEXT, MEM_SHORT, MEM_SHORT_EXT, MEM_LONG}.
            scalar_store c t op r pa va s = Inl Out_of_bounds)
    \<and> (last_sync_load_addr (thr s c t) = pa div CACHE_LINE_LENGTH \<longrightarrow>
         scalar_store c t MEM_SYNC r pa va s = Inl Out_of_bounds)
    \<and> block_store c t r mask' pa va s = Inl Out_of_bounds
    \<and> scatter_lane c t r lane True pa va s = Inl Out_of_bounds"
proof -
  have nd: "\<not> DEVICE_BASE_ADDRESS \<le> pa" using assms(4) by simp
  have fin: "finish_store c t pa va n v s' = Inl Out_of_bounds"
    if "total_threads s' = total_threads s" "threads_per_core s' = threads_per_core s" for n v s'
    using that assms(2) by (simp add: finish_store_def invalidate_sync_address_eq)
  have st: "store32 pa v s' = Inr (s'\<lparr>memory := put32 (4 * (unat pa div 4)) v (memory s')\<rparr>)"
    "store16 pa v2 s' = Inr (s'\<lparr>memory := put16 (2 * (unat pa div 2)) v2 (memory s')\<rparr>)"
    "store8 pa v1 s' = Inr (s'\<lparr>memory := (memory s')(unat pa := v1)\<rparr>)"
    if "machine_ok s'" "memory_size s' = memory_size s" for s' v v2 v1
    using that assms(3) store_in_memory [of s' pa] by simp_all
  show ?thesis
  proof (intro conjI ballI impI)
    fix op :: u32
    assume "op \<in> {MEM_BYTE, MEM_BYTE_SEXT, MEM_SHORT, MEM_SHORT_EXT, MEM_LONG}"
    then show "scalar_store c t op r pa va s = Inl Out_of_bounds"
      using nd assms(1) by (auto simp: scalar_store_def Let_def st fin)
  next
    assume "last_sync_load_addr (thr s c t) = pa div 64"
    then show "scalar_store c t MEM_SYNC r pa va s = Inl Out_of_bounds"
      using assms(1) by (simp add: scalar_store_def Let_def st fin)
  next
    show "block_store c t r mask' pa va s = Inl Out_of_bounds"
      using assms(2) by (simp add: block_store_def Let_def invalidate_sync_address_eq del: upt.simps)
  next
    show "scatter_lane c t r lane True pa va s = Inl Out_of_bounds"
      using assms(1) by (simp add: scatter_lane_def Let_def st fin)
  qed
qed

theorem store_overruns_with_several_cores_witness:
  "let s = (boot_machine (\<lambda>_. 0))\<lparr>num_cores := 2, total_threads := 8\<rparr>
   in machine_ok s \<and> threads_per_core s < total_threads s \<and>
      scalar_store 0 0 MEM_BYTE 3 0x41 0x41 s = Inl Out_of_bounds"
proof -
  define s where "s = (boot_machine (\<lambda>_. 0))\<lparr>num_cores := 2, total_threads := 8\<rparr>"
  have f: "machine_ok s" "threads_per_core s < total_threads s" "0x41 < memory_size s"
    by (simp_all add: s_def machine_ok_def boot_machine_def init_core_def)
  have "scalar_store 0 0 MEM_BYTE 3 0x41 0x41 s = Inl Out_of_bounds"
    using store_overruns_with_several_cores [OF f, of 0 0 3 "0x41"] by simp
  then show ?thesis
    using f unfolding Let_def s_def [symmetric] by simp
qed

text \<open>
  a jump to a device address with the MMU off passes the range check of \<open>translate_address\<close>, and
  the fetch then reads far outside the memory array.
\<close>

theorem fetch_from_device_overruns:
  assumes "\<not> enable_mmu (thr s c t)" "pc (thr s c t) AND 3 = 0" "DEVICE_BASE_ADDRESS \<le> pc (thr s c t)"
    "memory_size s \<le> DEVICE_BASE_ADDRESS"
  shows "execute_instruction c t s = Inl Out_of_bounds"
proof -
  have lt: "\<not> pc (thr s c t) < DEVICE_BASE_ADDRESS" using assms(3) by simp
  have "unat (memory_size s) \<le> 0xffff0000" "0xffff0000 \<le> unat (pc (thr s c t))"
    using assms(3,4) by (simp_all add: word_le_nat_alt)
  moreover have "unat (pc (thr s c t)) < 4 * (unat (pc (thr s c t)) div 4) + 4" by presburger
  ultimately have "\<not> 4 * (unat (pc (thr s c t)) div 4) + 4 \<le> unat (memory_size s)" by linarith
  then show ?thesis
    using assms(1,2) lt by (simp add: execute_instruction_def translate_address_def Let_def load32_def)
qed

theorem fetch_from_device_overruns_witness:
  "let s = upd_thr 0 0 (\<lambda>th. th\<lparr>pc := 0xffff0040\<rparr>) (boot_machine (\<lambda>_. 0))
   in memory_size s \<le> DEVICE_BASE_ADDRESS \<and> execute_instruction 0 0 s = Inl Out_of_bounds"
proof -
  define s where "s = upd_thr 0 0 (\<lambda>th. th\<lparr>pc := 0xffff0040\<rparr>) (boot_machine (\<lambda>_. 0))"
  have f: "\<not> enable_mmu (thr s 0 0)" "pc (thr s 0 0) = 0xffff0040" "memory_size s = 0x1000"
    by (simp_all add: s_def boot_machine_def thr_def init_core_def init_thread_def upd_thr_def)
  show ?thesis
    using fetch_from_device_overruns [of s 0 0] f unfolding Let_def s_def [symmetric] by simp
qed

text \<open>
  the subcycle control register accepts any value: when supervisor code stores 16 or more in it
  and returns from the trap, the next scatter or gather instruction indexes the vector registers
  with that value.
\<close>

theorem subcycle_register_overrun:
  assumes "16 \<le> scalar_reg (thr s c t) r" "\<not> ts_enable_interrupt (saved_trap_state0 (thr s c t))"
    and "s' = return_from_trap c t (write_control_register c t CR_SUBCYCLE r s)"
    and "extract_unsigned_bits i 25 4 = MEM_SCGATH"
  shows "subcycle (thr s' c t) = scalar_reg (thr s c t) r
    \<and> execute_scatter_gather_inst c t i s' = Inl Out_of_bounds"
proof -
  have sub: "subcycle (thr s' c t) = scalar_reg (thr s c t) r"
    using assms(2) unfolding assms(3) by (simp add: write_control_register_def return_from_trap_def Let_def)
  have "\<not> unat (subcycle (thr s' c t)) < 16" using assms(1) sub by (simp add: word_le_nat_alt)
  with sub assms(4) show ?thesis
    by (simp add: execute_scatter_gather_inst_def vector_access_mask_offset_def Let_def)
qed

theorem subcycle_register_overrun_witness:
  "let s = upd_thr 0 0 (\<lambda>th. th\<lparr>scalar_reg := (\<lambda>_. 20)\<rparr>) (boot_machine (\<lambda>_. 0));
       s' = return_from_trap 0 0 (write_control_register 0 0 CR_SUBCYCLE 1 s)
   in execute_scatter_gather_inst 0 0 0x9a000000 s' = Inl Out_of_bounds"
proof -
  define s where "s = upd_thr 0 0 (\<lambda>th. th\<lparr>scalar_reg := (\<lambda>_. 20)\<rparr>) (boot_machine (\<lambda>_. 0))"
  have f: "16 \<le> scalar_reg (thr s 0 0) 1" "\<not> ts_enable_interrupt (saved_trap_state0 (thr s 0 0))"
    by (simp_all add: s_def boot_machine_def thr_def init_core_def init_thread_def upd_thr_def zero_trap_state_def)
  have "extract_unsigned_bits 0x9a000000 25 4 = MEM_SCGATH" by (simp add: extract_unsigned_bits_def)
  from subcycle_register_overrun [OF f refl this] show ?thesis
    unfolding Let_def s_def [symmetric] by simp
qed

end
