(* ===== verification/Kern_List.thy ===== *)
theory Kern_List
  imports Nyuzi_Prelude
begin

text \<open>
  The intrusive doubly linked lists of \<open>software/kernel/list.h\<close>, on a heap that maps the address of
  a \<open>list_node\<close> to its two links. A list head and its nodes form a ring; \<open>ring\<close> relates the heap to
  the sequence of nodes, and every operation is shown to implement its counterpart on sequences.
  The locale \<open>linked_queue\<close> is the contract that the wait lists of the kernel rely on.
\<close>

record list_node =
  ln_prev :: u32
  ln_next :: u32

type_synonym list_heap = "u32 \<Rightarrow> list_node"

abbreviation (input) set_next :: "u32 \<Rightarrow> u32 \<Rightarrow> list_heap \<Rightarrow> list_heap" where
  "set_next p v h \<equiv> h(p := (h p)\<lparr>ln_next := v\<rparr>)"

abbreviation (input) set_prev :: "u32 \<Rightarrow> u32 \<Rightarrow> list_heap \<Rightarrow> list_heap" where
  "set_prev p v h \<equiv> h(p := (h p)\<lparr>ln_prev := v\<rparr>)"

definition list_is_empty :: "list_heap \<Rightarrow> u32 \<Rightarrow> bool" where
  "list_is_empty h node \<longleftrightarrow> ln_next (h node) = node"

definition list_init :: "u32 \<Rightarrow> list_heap \<Rightarrow> list_heap" where
  "list_init l h = set_prev l l (set_next l l h)"

text \<open>The last two statements of every insertion: the neighbours of \<open>node\<close> point back to it.\<close>

definition link_neighbours :: "u32 \<Rightarrow> list_heap \<Rightarrow> list_heap" where
  "link_neighbours node h =
     (let h1 = set_next (ln_prev (h node)) node h in set_prev (ln_next (h1 node)) node h1)"

definition list_add_head :: "u32 \<Rightarrow> u32 \<Rightarrow> list_heap \<Rightarrow> list_heap" where
  "list_add_head l node h =
     (let h1 = set_prev node l h; h2 = set_next node (ln_next (h1 l)) h1 in link_neighbours node h2)"

definition list_add_tail :: "u32 \<Rightarrow> u32 \<Rightarrow> list_heap \<Rightarrow> list_heap" where
  "list_add_tail l node h =
     (let h1 = set_prev node (ln_prev (h l)) h; h2 = set_next node l h1 in link_neighbours node h2)"

definition list_add_after :: "u32 \<Rightarrow> u32 \<Rightarrow> list_heap \<Rightarrow> list_heap" where
  "list_add_after prev node h =
     (let h1 = set_prev node prev h; h2 = set_next node (ln_next (h1 prev)) h1 in link_neighbours node h2)"

definition list_add_before :: "u32 \<Rightarrow> u32 \<Rightarrow> list_heap \<Rightarrow> list_heap" where
  "list_add_before nxt node h =
     (let h1 = set_prev node (ln_prev (h nxt)) h; h2 = set_next node nxt h1 in link_neighbours node h2)"

text \<open>The neighbours of \<open>node\<close> are linked to each other.\<close>

definition unlink :: "u32 \<Rightarrow> list_heap \<Rightarrow> list_heap" where
  "unlink node h =
     (let h1 = set_next (ln_prev (h node)) (ln_next (h node)) h
      in set_prev (ln_next (h1 node)) (ln_prev (h1 node)) h1)"

definition list_remove_node :: "u32 \<Rightarrow> list_heap \<Rightarrow> list_heap" where
  "list_remove_node node h = set_prev node 0 (set_next node 0 (unlink node h))"

definition list_remove_head :: "u32 \<Rightarrow> list_heap \<Rightarrow> u32 \<times> list_heap" where
  "list_remove_head l h =
     (if list_is_empty h l then (0, h) else (ln_next (h l), unlink (ln_next (h l)) h))"

definition list_remove_tail :: "u32 \<Rightarrow> list_heap \<Rightarrow> u32 \<times> list_heap" where
  "list_remove_tail l h =
     (if list_is_empty h l then (0, h) else (ln_prev (h l), unlink (ln_prev (h l)) h))"

definition list_peek_head :: "list_heap \<Rightarrow> u32 \<Rightarrow> u32" where
  "list_peek_head h l = (if list_is_empty h l then 0 else ln_next (h l))"

definition list_peek_tail :: "list_heap \<Rightarrow> u32 \<Rightarrow> u32" where
  "list_peek_tail h l = (if list_is_empty h l then 0 else ln_prev (h l))"

definition list_next :: "list_heap \<Rightarrow> u32 \<Rightarrow> u32 \<Rightarrow> u32" where
  "list_next h l node = (if ln_next (h node) = l then 0 else ln_next (h node))"

definition list_prev :: "list_heap \<Rightarrow> u32 \<Rightarrow> u32 \<Rightarrow> u32" where
  "list_prev h l node = (if ln_prev (h node) = l then 0 else ln_prev (h node))"

text \<open>The nodes that \<open>list_for_each\<close> visits, starting at \<open>node\<close>; \<open>None\<close> when the loop does not end.\<close>

partial_function (option) for_each_from :: "list_heap \<Rightarrow> u32 \<Rightarrow> u32 \<Rightarrow> u32 list option" where
  "for_each_from h l node =
     (if node = l then Some []
      else Option.bind (for_each_from h l (ln_next (h node))) (\<lambda>ns. Some (node # ns)))"

definition list_for_each :: "list_heap \<Rightarrow> u32 \<Rightarrow> u32 list option" where
  "list_for_each h l = for_each_from h l (ln_next (h l))"

subsection \<open>Rings\<close>

fun links :: "list_heap \<Rightarrow> u32 \<Rightarrow> u32 list \<Rightarrow> bool" where
  "links h a [] \<longleftrightarrow> True"
| "links h a (b # bs) \<longleftrightarrow> ln_next (h a) = b \<and> ln_prev (h b) = a \<and> links h b bs"

definition ring :: "list_heap \<Rightarrow> u32 \<Rightarrow> u32 list \<Rightarrow> bool" where
  "ring h l xs \<longleftrightarrow> links h l (xs @ [l]) \<and> distinct (l # xs) \<and> 0 \<notin> set (l # xs)"

lemma links_append: "links h a (xs @ y # ys) \<longleftrightarrow> links h a (xs @ [y]) \<and> links h y ys"
  by (induction xs arbitrary: a) auto

lemma links_cong:
  assumes "links h a xs" "\<And>p. p \<in> set (butlast (a # xs)) \<Longrightarrow> ln_next (h' p) = ln_next (h p)"
    and "\<And>p. p \<in> set xs \<Longrightarrow> ln_prev (h' p) = ln_prev (h p)"
  shows "links h' a xs"
  using assms
proof (induction xs arbitrary: a)
  case (Cons b bs)
  have "links h' b bs" using Cons by (cases bs) auto
  with Cons.prems show ?case by simp
qed simp

lemma links_snoc_last: "links h a (xs @ [y]) \<longleftrightarrow> links h a xs \<and> ln_next (h (last (a # xs))) = y
     \<and> ln_prev (h y) = last (a # xs)"
  by (induction xs arbitrary: a) auto

lemma links_hd: "links h a (ys @ [l]) \<Longrightarrow> ln_next (h a) = hd (ys @ [l]) \<and> ln_prev (h (hd (ys @ [l]))) = a"
  by (cases ys) auto

lemma ring_split:
  "ring h l (xs @ ys) \<longleftrightarrow> links h l xs \<and> links h (hd (ys @ [l])) (tl (ys @ [l]))
     \<and> ln_next (h (last (l # xs))) = hd (ys @ [l]) \<and> ln_prev (h (hd (ys @ [l]))) = last (l # xs)
     \<and> distinct (l # xs @ ys) \<and> 0 \<notin> set (l # xs @ ys)"
proof -
  obtain b zs where b: "ys @ [l] = b # zs" by (cases ys) auto
  then have "links h l ((xs @ ys) @ [l]) \<longleftrightarrow> links h l (xs @ [b]) \<and> links h b zs"
    using links_append [of h l xs b zs] by simp
  then show ?thesis using b unfolding ring_def links_snoc_last by auto
qed

lemma before_after_disjoint:
  assumes "distinct (l # xs @ ys)"
  shows "set (butlast (l # xs)) \<inter> {last (l # xs)} = {}" "hd (ys @ [l]) \<notin> set xs"
    "last (l # xs) \<notin> set ys" "hd (ys @ [l]) \<notin> set (tl (ys @ [l]))"
proof -
  show "set (butlast (l # xs)) \<inter> {last (l # xs)} = {}"
    using assms by (metis append_butlast_last_id distinct.simps(2) distinct_append
        disjoint_insert(1) Int_empty_right inf_bot_right list.distinct(1) list.set(1) list.set(2) append_Cons)
  show "hd (ys @ [l]) \<notin> set xs" using assms by (cases ys) auto
  have "last (l # xs) \<in> set (l # xs)" by (rule last_in_set) simp
  then show "last (l # xs) \<notin> set ys" using assms by auto
  show "hd (ys @ [l]) \<notin> set (tl (ys @ [l]))" using assms by (cases ys) auto
qed

lemma butlast_hd_tl: "butlast (hd (ys @ [l]) # tl (ys @ [l])) = ys"
  by (cases ys) auto

text \<open>Both halves of a ring survive a change of the links between them.\<close>

lemma halves_cong:
  assumes r: "ring h l (xs @ ys)"
    and nx: "\<And>p. p \<in> set (l # xs @ ys) \<Longrightarrow> p \<noteq> last (l # xs) \<Longrightarrow> ln_next (h' p) = ln_next (h p)"
    and pv: "\<And>p. p \<in> set (l # xs @ ys) \<Longrightarrow> p \<noteq> hd (ys @ [l]) \<Longrightarrow> ln_prev (h' p) = ln_prev (h p)"
  shows "links h' l xs \<and> links h' (hd (ys @ [l])) (tl (ys @ [l]))"
proof -
  from r have l: "links h l xs" "links h (hd (ys @ [l])) (tl (ys @ [l]))" and d: "distinct (l # xs @ ys)"
    by (simp_all add: ring_split)
  note dis = before_after_disjoint [OF d]
  have "links h' l xs"
    using l(1) by (rule links_cong) (use dis nx pv in \<open>auto dest: in_set_butlastD split: if_splits\<close>)
  moreover have "links h' (hd (ys @ [l])) (tl (ys @ [l]))"
  proof (rule links_cong [OF l(2)])
    fix p assume "p \<in> set (butlast (hd (ys @ [l]) # tl (ys @ [l])))"
    then show "ln_next (h' p) = ln_next (h p)" using dis(3) nx by (auto simp: butlast_hd_tl)
  next
    fix p assume p: "p \<in> set (tl (ys @ [l]))"
    then have "p \<in> set (l # xs @ ys)" by (cases ys) auto
    with p show "ln_prev (h' p) = ln_prev (h p)" using dis(4) pv by metis
  qed
  ultimately show ?thesis ..
qed

lemma ring_insert:
  assumes r: "ring h l (xs @ ys)" and n: "n \<noteq> 0" "n \<notin> set (l # xs @ ys)"
    and h': "h' = link_neighbours n (h(n := \<lparr>ln_prev = last (l # xs), ln_next = hd (ys @ [l])\<rparr>))"
  shows "ring h' l (xs @ n # ys)"
proof -
  let ?a = "last (l # xs)" and ?b = "hd (ys @ [l])"
  have "?a \<in> set (l # xs)" by (rule last_in_set) simp
  moreover have "?b \<in> set (l # ys)" by (cases ys) auto
  ultimately have ab: "?a \<noteq> n" "?b \<noteq> n" using n(2) by auto
  have "links h' l xs \<and> links h' ?b (tl (ys @ [l]))"
    by (rule halves_cong [OF r]) (use n ab h' in \<open>auto simp: link_neighbours_def Let_def split: if_splits\<close>)
  moreover have "links h' n (ys @ [l]) \<longleftrightarrow> ln_next (h' n) = ?b \<and> ln_prev (h' ?b) = n \<and> links h' ?b (tl (ys @ [l]))"
    by (cases ys) auto
  moreover have "ln_next (h' n) = ?b" "ln_prev (h' ?b) = n" "ln_next (h' ?a) = n" "ln_prev (h' n) = ?a"
    using ab by (auto simp: h' link_neighbours_def Let_def)
  moreover have "distinct (l # xs @ ys)" "0 \<notin> set (l # xs @ ys)" using r by (simp_all add: ring_def)
  ultimately show ?thesis
    using n links_append [of h' l xs n "ys @ [l]"] by (auto simp: ring_def links_snoc_last)
qed

lemma ring_unlink:
  assumes r: "ring h l (xs @ n # ys)"
  shows "ring (unlink n h) l (xs @ ys)" "ring (list_remove_node n h) l (xs @ ys)"
proof -
  let ?a = "last (l # xs)" and ?b = "hd (ys @ [l])"
  have s: "links h l xs" "links h n (ys @ [l])" "ln_next (h ?a) = n" "ln_prev (h n) = ?a"
    and d: "distinct (l # xs @ n # ys)" "0 \<notin> set (l # xs @ n # ys)"
    using r links_append [of h l xs n "ys @ [l]"] by (auto simp: ring_def links_snoc_last)
  have b: "ln_next (h n) = ?b" "links h ?b (tl (ys @ [l]))" using s(2) by (cases ys; auto)+
  have "?a \<in> set (l # xs)" by (rule last_in_set) simp
  moreover have "?b \<in> set (l # ys)" by (cases ys) auto
  ultimately have ab: "?a \<noteq> n" "?b \<noteq> n" using d(1) by auto
  define h0 where "h0 = (h(?a := (h ?a)\<lparr>ln_next := ?b\<rparr>))(?b := ((h(?a := (h ?a)\<lparr>ln_next := ?b\<rparr>)) ?b)\<lparr>ln_prev := ?a\<rparr>)"
  have u: "unlink n h = h0" using s b ab by (simp add: unlink_def Let_def h0_def)
  have d': "distinct (l # xs @ ys)" using d(1) by auto
  note dis = before_after_disjoint [OF d']
  have same: "ln_next (h0 p) = ln_next (h p)" if "p \<noteq> ?a" for p using that by (simp add: h0_def)
  have same': "ln_prev (h0 p) = ln_prev (h p)" if "p \<noteq> ?b" for p using that by (simp add: h0_def)
  have "links h0 l xs"
    using s(1) by (rule links_cong) (use dis(1) same in blast, use dis(2) same' in metis)
  moreover have "links h0 ?b (tl (ys @ [l]))"
    using b(2) by (rule links_cong) (use dis same same' in \<open>metis butlast_hd_tl\<close>)+
  moreover have "ln_next (h0 ?a) = ?b" "ln_prev (h0 ?b) = ?a" by (auto simp: h0_def)
  ultimately show 1: "ring (unlink n h) l (xs @ ys)" using d by (auto simp: ring_split u)
  have "n \<notin> set (l # xs @ ys)" using d(1) by auto
  then have "links (list_remove_node n h) l xs \<and> links (list_remove_node n h) ?b (tl (ys @ [l]))"
    by (intro halves_cong [OF 1]) (auto simp: list_remove_node_def)
  moreover have "ln_next (list_remove_node n h ?a) = ?b" "ln_prev (list_remove_node n h ?b) = ?a"
    using 1 ab by (auto simp: ring_split list_remove_node_def)
  ultimately show "ring (list_remove_node n h) l (xs @ ys)" using d by (auto simp: ring_split)
qed

subsection \<open>The operations on rings\<close>

lemma ring_list_init: "l \<noteq> 0 \<Longrightarrow> ring (list_init l h) l []"
  by (simp add: ring_def list_init_def)

lemma ring_empty: "ring h l xs \<Longrightarrow> list_is_empty h l \<longleftrightarrow> xs = []"
  by (cases xs) (auto simp: ring_def list_is_empty_def)

lemma ring_ends:
  assumes "ring h l xs"
  shows "ln_next (h l) = hd (xs @ [l])" "ln_prev (h l) = last (l # xs)"
  using ring_split [of h l "[]" xs] ring_split [of h l xs "[]"] assms by simp_all

lemma ring_inner:
  assumes "ring h l (xs @ n # ys)"
  shows "ln_next (h n) = hd (ys @ [l])" "ln_prev (h n) = last (l # xs)"
  using ring_split [of h l "xs @ [n]" ys] ring_split [of h l xs "n # ys"] assms by simp_all

lemma node_fields: "(x :: list_node)\<lparr>ln_prev := a, ln_next := b\<rparr> = \<lparr>ln_prev = a, ln_next = b\<rparr>"
  by (cases x) simp

lemma add_link_neighbours:
  "n \<noteq> l \<Longrightarrow> list_add_head l n h = link_neighbours n (h(n := \<lparr>ln_prev = l, ln_next = ln_next (h l)\<rparr>))"
  "list_add_tail l n h = link_neighbours n (h(n := \<lparr>ln_prev = ln_prev (h l), ln_next = l\<rparr>))"
  "n \<noteq> l \<Longrightarrow> list_add_after l n h = link_neighbours n (h(n := \<lparr>ln_prev = l, ln_next = ln_next (h l)\<rparr>))"
  "list_add_before l n h = link_neighbours n (h(n := \<lparr>ln_prev = ln_prev (h l), ln_next = l\<rparr>))"
  by (simp_all add: list_add_head_def list_add_tail_def list_add_after_def list_add_before_def
      Let_def node_fields)

lemma ring_add_head:
  assumes "ring h l xs" "n \<noteq> 0" "n \<notin> set (l # xs)"
  shows "ring (list_add_head l n h) l (n # xs)"
proof -
  have "list_add_head l n h
      = link_neighbours n (h(n := \<lparr>ln_prev = last (l # []), ln_next = hd (xs @ [l])\<rparr>))"
    using assms(3) ring_ends(1) [OF assms(1)] by (simp add: add_link_neighbours)
  from ring_insert [OF _ assms(2) _ this] assms(1,3) show ?thesis by simp
qed

lemma ring_add_tail:
  assumes "ring h l xs" "n \<noteq> 0" "n \<notin> set (l # xs)"
  shows "ring (list_add_tail l n h) l (xs @ [n])"
proof -
  have "list_add_tail l n h
      = link_neighbours n (h(n := \<lparr>ln_prev = last (l # xs), ln_next = hd ([] @ [l])\<rparr>))"
    using ring_ends(2) [OF assms(1)] by (simp add: add_link_neighbours del: last.simps)
  from ring_insert [OF _ assms(2) _ this] assms(1,3) show ?thesis by simp
qed

lemma ring_add_before:
  assumes "ring h l (xs @ y # ys)" "n \<noteq> 0" "n \<notin> set (l # xs @ y # ys)"
  shows "ring (list_add_before y n h) l (xs @ n # y # ys)"
proof -
  have "list_add_before y n h
      = link_neighbours n (h(n := \<lparr>ln_prev = last (l # xs), ln_next = hd ((y # ys) @ [l])\<rparr>))"
    using ring_inner(2) [OF assms(1)] by (simp add: add_link_neighbours del: last.simps)
  from ring_insert [OF assms(1,2,3) this] show ?thesis .
qed

lemma ring_add_after:
  assumes "ring h l (xs @ y # ys)" "n \<noteq> 0" "n \<notin> set (l # xs @ y # ys)"
  shows "ring (list_add_after y n h) l (xs @ y # n # ys)"
proof -
  have "list_add_after y n h
      = link_neighbours n (h(n := \<lparr>ln_prev = last (l # xs @ [y]), ln_next = hd (ys @ [l])\<rparr>))"
    using ring_inner(1) [OF assms(1)] assms(3) by (simp add: add_link_neighbours)
  from ring_insert [OF _ assms(2) _ this] assms(1,3) show ?thesis by simp
qed

lemma ring_remove_head:
  assumes "ring h l xs"
  shows "list_remove_head l h = (0, h) \<and> xs = []
    \<or> (\<exists>h'. list_remove_head l h = (hd xs, h') \<and> xs \<noteq> [] \<and> ring h' l (tl xs))"
proof (cases xs)
  case Nil
  then show ?thesis using ring_empty [OF assms] by (simp add: list_remove_head_def)
next
  case (Cons x zs)
  then show ?thesis
    using ring_empty [OF assms] ring_ends(1) [OF assms] ring_unlink(1) [of h l "[]" x zs] assms
    by (simp add: list_remove_head_def)
qed

lemma ring_remove_tail:
  assumes "ring h l xs"
  shows "list_remove_tail l h = (0, h) \<and> xs = []
    \<or> (\<exists>h'. list_remove_tail l h = (last xs, h') \<and> xs \<noteq> [] \<and> ring h' l (butlast xs))"
proof (cases xs rule: rev_cases)
  case Nil
  then show ?thesis using ring_empty [OF assms] by (simp add: list_remove_tail_def)
next
  case (snoc zs x)
  then show ?thesis
    using ring_empty [OF assms] ring_ends(2) [OF assms] ring_unlink(1) [of h l zs x "[]"] assms
    by (simp add: list_remove_tail_def)
qed

lemma for_each_links:
  "links h a (xs @ [l]) \<Longrightarrow> l \<notin> set xs \<Longrightarrow> for_each_from h l (ln_next (h a)) = Some xs"
proof (induction xs arbitrary: a)
  case Nil
  then show ?case by (simp add: for_each_from.simps)
next
  case (Cons x xs)
  then have "for_each_from h l (ln_next (h x)) = Some xs" by auto
  with Cons.prems show ?case by (auto simp: for_each_from.simps [of h l x])
qed

lemma ring_for_each: "ring h l xs \<Longrightarrow> list_for_each h l = Some xs"
  using for_each_links [of h l xs l] by (simp add: ring_def list_for_each_def)

lemma ring_peek:
  assumes "ring h l xs"
  shows "list_peek_head h l = (if xs = [] then 0 else hd xs)"
    "list_peek_tail h l = (if xs = [] then 0 else last xs)"
  using ring_empty [OF assms] ring_ends [OF assms]
  by (auto simp: list_peek_head_def list_peek_tail_def)

lemma ring_next_prev:
  assumes "ring h l (xs @ n # ys)"
  shows "list_next h l n = (if ys = [] then 0 else hd ys)"
    "list_prev h l n = (if xs = [] then 0 else last xs)"
proof -
  have d: "l \<notin> set xs" "l \<notin> set ys" using assms by (simp_all add: ring_def)
  show "list_next h l n = (if ys = [] then 0 else hd ys)"
    using ring_inner(1) [OF assms] d(2) by (cases ys) (auto simp: list_next_def)
  show "list_prev h l n = (if xs = [] then 0 else last xs)"
    using ring_inner(2) [OF assms] d(1) by (cases xs rule: rev_cases) (auto simp: list_prev_def)
qed

text \<open>
  Operations on one list leave another list alone when their nodes are disjoint: only the links of
  the list's own nodes are written.
\<close>

lemma ring_frame:
  assumes "ring h m zs" "\<And>p. p \<in> set (m # zs) \<Longrightarrow> h' p = h p"
  shows "ring h' m zs"
proof -
  have "links h' m (zs @ [m])"
    by (rule links_cong [of h]) (use assms in \<open>auto simp: ring_def butlast_append\<close>)
  then show ?thesis using assms(1) by (simp add: ring_def)
qed

subsection \<open>Queues\<close>

text \<open>
  What the kernel's wait and ready lists need: \<open>put\<close> appends a node that is in no list, \<open>take\<close>
  removes the first node, and 0 reports an empty list.
\<close>

locale linked_queue =
  fixes holds :: "'h \<Rightarrow> u32 list \<Rightarrow> bool" and fresh :: "u32 \<Rightarrow> u32 list \<Rightarrow> bool"
    and put :: "u32 \<Rightarrow> 'h \<Rightarrow> 'h" and take_first :: "'h \<Rightarrow> u32 \<times> 'h"
  assumes put_law: "holds h xs \<Longrightarrow> fresh n xs \<Longrightarrow> holds (put n h) (xs @ [n])"
    and take_empty: "holds h [] \<Longrightarrow> take_first h = (0, h)"
    and take_law: "holds h (x # xs) \<Longrightarrow> \<exists>h'. take_first h = (x, h') \<and> holds h' xs"
begin

primrec take_all :: "nat \<Rightarrow> 'h \<Rightarrow> u32 list \<times> 'h" where
  "take_all 0 h = ([], h)"
| "take_all (Suc k) h = (let (x, h1) = take_first h; (xs, h2) = take_all k h1 in (x # xs, h2))"

lemma put_all:
  "holds h xs \<Longrightarrow> (\<And>i. i < length ns \<Longrightarrow> fresh (ns ! i) (xs @ take i ns)) \<Longrightarrow> holds (fold put ns h) (xs @ ns)"
proof (induction ns arbitrary: h xs)
  case (Cons n ns)
  have "holds (put n h) (xs @ [n])" using Cons.prems(2) [of 0] by (intro put_law [OF Cons.prems(1)]) simp
  moreover have "fresh (ns ! i) ((xs @ [n]) @ take i ns)" if "i < length ns" for i
    using Cons.prems(2) [of "Suc i"] that by simp
  ultimately show ?case using Cons.IH [of "put n h" "xs @ [n]"] by simp
qed simp

lemma take_all_law: "holds h (xs @ ys) \<Longrightarrow> \<exists>h'. take_all (length xs) h = (xs, h') \<and> holds h' ys"
proof (induction xs arbitrary: h)
  case (Cons x xs)
  then obtain h1 where h1: "take_first h = (x, h1)" "holds h1 (xs @ ys)" using take_law [of h x "xs @ ys"] by auto
  with Cons.IH [OF h1(2)] show ?case by auto
qed simp

lemma first_in_first_out:
  assumes "holds h []" "\<And>i. i < length ns \<Longrightarrow> fresh (ns ! i) (take i ns)"
  shows "\<exists>h'. take_all (length ns) (fold put ns h) = (ns, h') \<and> holds h' []"
  using take_all_law [of "fold put ns h" ns "[]"] put_all [of h "[]" ns] assms by simp

end

interpretation wait_list: linked_queue "\<lambda>h. ring h l" "\<lambda>n xs. n \<noteq> 0 \<and> n \<notin> set (l # xs)" "list_add_tail l" "list_remove_head l"
  for l
proof
  show "ring (list_add_tail l n h) l (xs @ [n])" if "ring h l xs" "n \<noteq> 0 \<and> n \<notin> set (l # xs)" for h xs n
    using ring_add_tail that by blast
  show "list_remove_head l h = (0, h)" if "ring h l []" for h
    using ring_remove_head [OF that] by simp
  show "\<exists>h'. list_remove_head l h = (x, h') \<and> ring h' l xs" if "ring h l (x # xs)" for h x xs
    using ring_remove_head [OF that] by simp
qed

text \<open>
  C34: the list operations implement operations on sequences: on a list that holds \<open>xs @ y # ys\<close>,
  insertion at either end, before or after \<open>y\<close>, removal of \<open>y\<close> or of the first node and the
  neighbours of \<open>y\<close> are those of the sequence, and \<open>list_for_each\<close> ends and visits exactly its nodes
  in order.
\<close>

theorem list_operations_refine:
  assumes "ring h l (xs @ y # ys)" "n \<noteq> 0" "n \<notin> set (l # xs @ y # ys)"
  shows "ring (list_add_head l n h) l (n # xs @ y # ys)
    \<and> ring (list_add_tail l n h) l (xs @ y # ys @ [n])
    \<and> ring (list_add_before y n h) l (xs @ n # y # ys)
    \<and> ring (list_add_after y n h) l (xs @ y # n # ys)
    \<and> ring (list_remove_node y h) l (xs @ ys)
    \<and> fst (list_remove_head l h) = hd (xs @ [y]) \<and> ring (snd (list_remove_head l h)) l (tl (xs @ y # ys))
    \<and> list_next h l y = (if ys = [] then 0 else hd ys) \<and> list_prev h l y = (if xs = [] then 0 else last xs)
    \<and> list_for_each h l = Some (xs @ y # ys)"
proof -
  have "fst (list_remove_head l h) = hd (xs @ [y])" "ring (snd (list_remove_head l h)) l (tl (xs @ y # ys))"
    using ring_remove_head [OF assms(1)] by (cases xs; auto)+
  then show ?thesis
    using ring_add_head [OF assms] ring_add_tail [OF assms] ring_add_before [OF assms] ring_add_after [OF assms]
      ring_unlink(2) [OF assms(1)] ring_next_prev [OF assms(1)] ring_for_each [OF assms(1)] by simp
qed

theorem list_operations_refine_witness:
  "let h = list_add_tail 16 48 (list_add_tail 16 32 (list_init 16 (\<lambda>_. \<lparr>ln_prev = 0, ln_next = 0\<rparr>)))
   in ring h 16 ([32] @ 48 # []) \<and> (64 :: u32) \<notin> set (16 # [32] @ 48 # [])
      \<and> ring (list_add_before 48 64 h) 16 [32, 64, 48] \<and> list_for_each h 16 = Some [32, 48]"
proof -
  define h where "h = list_add_tail 16 48 (list_add_tail 16 32 (list_init 16 (\<lambda>_. \<lparr>ln_prev = 0, ln_next = 0\<rparr>)))"
  have "ring h 16 (([] @ [32]) @ [48])"
    unfolding h_def by (intro ring_add_tail ring_list_init) simp_all
  then have r: "ring h 16 ([32] @ 48 # [])" by simp
  have n: "(64 :: u32) \<noteq> 0" "(64 :: u32) \<notin> set (16 # [32] @ 48 # [])" by simp_all
  show ?thesis unfolding Let_def h_def [symmetric] using r n list_operations_refine [OF r n] by simp
qed

end
