(* ===== verification/Kern_Rwlock.thy ===== *)
theory Kern_Rwlock
  imports Kern_List
begin

text \<open>
  The reader/writer lock of \<open>software/kernel/rwlock.c\<close>. Every section of the code between taking and
  releasing the lock's spinlock is one atomic operation; a function that waits is two of them, the
  part up to \<open>wait\<close> and the part after it, which the thread runs once \<open>make_thread_ready\<close> has been
  called for it. The wait lists are the sequences of the threads in them (see \<open>Kern_List\<close>). The
  operations of any number of threads interleave in any order.
\<close>

record rwlock =
  write_locked :: bool
  active_read_count :: nat
  reader_wait_list :: "nat list"
  writer_wait_list :: "nat list"

definition init_rwlock :: rwlock where
  "init_rwlock = \<lparr>write_locked = False, active_read_count = 0, reader_wait_list = [], writer_wait_list = []\<rparr>"

text \<open>The result tells whether the thread waits.\<close>

definition rwlock_lock_read :: "nat \<Rightarrow> rwlock \<Rightarrow> (bool \<times> rwlock) cres" where
  "rwlock_lock_read t m =
     (if writer_wait_list m \<noteq> [] \<or> write_locked m
      then Inr (True, m\<lparr>reader_wait_list := reader_wait_list m @ [t]\<rparr>)
      else let m' = m\<lparr>active_read_count := active_read_count m + 1\<rparr>
        in if write_locked m' then Inl Assert_failed else Inr (False, m'))"

definition rwlock_lock_read_resume :: "rwlock \<Rightarrow> rwlock cres" where
  "rwlock_lock_read_resume m = (if write_locked m then Inl Assert_failed else Inr m)"

text \<open>The result lists the threads that are made ready.\<close>

definition rwlock_unlock_read :: "rwlock \<Rightarrow> (nat list \<times> rwlock) cres" where
  "rwlock_unlock_read m =
     (if write_locked m \<or> active_read_count m = 0 then Inl Assert_failed
      else let m' = m\<lparr>active_read_count := active_read_count m - 1\<rparr> in
        if active_read_count m' = 0 \<and> writer_wait_list m' \<noteq> []
        then Inr ([hd (writer_wait_list m')],
                  m'\<lparr>write_locked := True, writer_wait_list := tl (writer_wait_list m')\<rparr>)
        else Inr ([], m'))"

definition rwlock_lock_write_resume :: "rwlock \<Rightarrow> rwlock cres" where
  "rwlock_lock_write_resume m =
     (if active_read_count m \<noteq> 0 then Inl Assert_failed else Inr (m\<lparr>write_locked := True\<rparr>))"

definition rwlock_lock_write :: "nat \<Rightarrow> rwlock \<Rightarrow> (bool \<times> rwlock) cres" where
  "rwlock_lock_write t m =
     (if 0 < active_read_count m \<or> write_locked m
      then Inr (True, m\<lparr>writer_wait_list := writer_wait_list m @ [t]\<rparr>)
      else bindE (rwlock_lock_write_resume m) (\<lambda>m'. Inr (False, m')))"

text \<open>The loop of rule 3: every waiting reader is counted and made ready.\<close>

fun wake_readers :: "nat list \<Rightarrow> rwlock \<Rightarrow> nat list \<times> rwlock" where
  "wake_readers [] m = ([], m\<lparr>reader_wait_list := []\<rparr>)"
| "wake_readers (t # ts) m =
     (let (ws, m') = wake_readers ts (m\<lparr>reader_wait_list := ts, active_read_count := active_read_count m + 1\<rparr>)
      in (t # ws, m'))"

definition rwlock_unlock_write :: "rwlock \<Rightarrow> (nat list \<times> rwlock) cres" where
  "rwlock_unlock_write m =
     (if \<not> write_locked m \<or> active_read_count m \<noteq> 0 then Inl Assert_failed
      else if reader_wait_list m \<noteq> []
      then let (ws, m') = wake_readers (reader_wait_list m) m in Inr (ws, m'\<lparr>write_locked := False\<rparr>)
      else if writer_wait_list m \<noteq> []
      then Inr ([hd (writer_wait_list m)], m\<lparr>writer_wait_list := tl (writer_wait_list m)\<rparr>)
      else Inr ([], m\<lparr>write_locked := False\<rparr>))"

subsection \<open>Threads that use the lock\<close>

datatype lock_stage =
  Outside | Read_waiting | Read_woken | Reading | Write_waiting | Write_woken | Writing

datatype lock_action = Lock_read | Unlock_read | Lock_write | Unlock_write | Resume

record lock_system =
  the_lock :: rwlock
  stage :: "nat \<Rightarrow> lock_stage"

text \<open>\<open>make_thread_ready\<close> for the threads \<open>ws\<close>.\<close>

definition wake :: "nat list \<Rightarrow> (nat \<Rightarrow> lock_stage) \<Rightarrow> nat \<Rightarrow> lock_stage" where
  "wake ws st t = (if t \<in> set ws
     then (case st t of Read_waiting \<Rightarrow> Read_woken | Write_waiting \<Rightarrow> Write_woken | x \<Rightarrow> x) else st t)"

text \<open>When a thread may perform an action: it calls functions in matching pairs.\<close>

definition enabled :: "nat \<Rightarrow> lock_action \<Rightarrow> lock_system \<Rightarrow> bool" where
  "enabled t a s = (case a of
       Lock_read \<Rightarrow> stage s t = Outside
     | Lock_write \<Rightarrow> stage s t = Outside
     | Unlock_read \<Rightarrow> stage s t = Reading
     | Unlock_write \<Rightarrow> stage s t = Writing
     | Resume \<Rightarrow> stage s t = Read_woken \<or> stage s t = Write_woken)"

definition perform :: "nat \<Rightarrow> lock_action \<Rightarrow> lock_system \<Rightarrow> lock_system cres" where
  "perform t a s = (let m = the_lock s; st = stage s in case a of
       Lock_read \<Rightarrow> bindE (rwlock_lock_read t m) (\<lambda>(waits, m').
         Inr \<lparr>the_lock = m', stage = st(t := if waits then Read_waiting else Reading)\<rparr>)
     | Lock_write \<Rightarrow> bindE (rwlock_lock_write t m) (\<lambda>(waits, m').
         Inr \<lparr>the_lock = m', stage = st(t := if waits then Write_waiting else Writing)\<rparr>)
     | Unlock_read \<Rightarrow> bindE (rwlock_unlock_read m) (\<lambda>(ws, m').
         Inr \<lparr>the_lock = m', stage = wake ws (st(t := Outside))\<rparr>)
     | Unlock_write \<Rightarrow> bindE (rwlock_unlock_write m) (\<lambda>(ws, m').
         Inr \<lparr>the_lock = m', stage = wake ws (st(t := Outside))\<rparr>)
     | Resume \<Rightarrow>
         (if st t = Read_woken
          then bindE (rwlock_lock_read_resume m) (\<lambda>m'. Inr \<lparr>the_lock = m', stage = st(t := Reading)\<rparr>)
          else bindE (rwlock_lock_write_resume m) (\<lambda>m'. Inr \<lparr>the_lock = m', stage = st(t := Writing)\<rparr>)))"

inductive lock_step :: "lock_system \<Rightarrow> lock_system \<Rightarrow> bool" where
  act: "enabled t a s \<Longrightarrow> perform t a s = Inr s' \<Longrightarrow> lock_step s s'"

inductive_cases lock_stepE: "lock_step s s'"

definition idle_system :: lock_system where
  "idle_system = \<lparr>the_lock = init_rwlock, stage = \<lambda>_. Outside\<rparr>"

subsection \<open>Invariant\<close>

definition readers :: "(nat \<Rightarrow> lock_stage) \<Rightarrow> nat set" where
  "readers st = {t. st t = Reading \<or> st t = Read_woken}"

definition writers :: "(nat \<Rightarrow> lock_stage) \<Rightarrow> nat set" where
  "writers st = {t. st t = Writing \<or> st t = Write_woken}"

definition rwlock_inv :: "lock_system \<Rightarrow> bool" where
  "rwlock_inv s \<longleftrightarrow> (let m = the_lock s; st = stage s in
     distinct (reader_wait_list m) \<and> set (reader_wait_list m) = {t. st t = Read_waiting}
   \<and> distinct (writer_wait_list m) \<and> set (writer_wait_list m) = {t. st t = Write_waiting}
   \<and> finite (readers st) \<and> active_read_count m = card (readers st)
   \<and> (if write_locked m then (\<exists>w. writers st = {w}) \<and> readers st = {} else writers st = {})
   \<and> (writer_wait_list m \<noteq> [] \<longrightarrow> write_locked m \<or> 0 < active_read_count m)
   \<and> (reader_wait_list m \<noteq> [] \<longrightarrow> write_locked m \<or> writer_wait_list m \<noteq> []))"

lemma wake_readers_result:
  "wake_readers ts m = (ts, m\<lparr>reader_wait_list := [], active_read_count := active_read_count m + length ts\<rparr>)"
  by (induction ts arbitrary: m) simp_all

lemma readers_upd:
  "readers (st(t := x)) = (if x = Reading \<or> x = Read_woken then insert t (readers st) else readers st - {t})"
  "writers (st(t := x)) = (if x = Writing \<or> x = Write_woken then insert t (writers st) else writers st - {t})"
  by (auto simp: readers_def writers_def)

lemma stage_upd:
  "{u. (st(t := x)) u = y} = (if x = y then insert t {u. st u = y} else {u. st u = y} - {t})"
  by auto

lemma rwlock_inv_init: "rwlock_inv idle_system"
  by (simp add: rwlock_inv_def idle_system_def init_rwlock_def readers_def writers_def)

lemma rwlock_inv_cases:
  assumes "rwlock_inv s" "m = the_lock s" "st = stage s"
  shows "distinct (reader_wait_list m)" "set (reader_wait_list m) = {t. st t = Read_waiting}"
    "distinct (writer_wait_list m)" "set (writer_wait_list m) = {t. st t = Write_waiting}"
    "finite (readers st)" "active_read_count m = card (readers st)"
    "write_locked m \<Longrightarrow> readers st = {}" "write_locked m \<Longrightarrow> \<exists>w. writers st = {w}"
    "\<not> write_locked m \<Longrightarrow> writers st = {}"
    "writer_wait_list m \<noteq> [] \<Longrightarrow> write_locked m \<or> 0 < active_read_count m"
    "reader_wait_list m \<noteq> [] \<Longrightarrow> write_locked m \<or> writer_wait_list m \<noteq> []"
  using assms by (auto simp: rwlock_inv_def Let_def)

lemma lock_read_inv:
  assumes inv: "rwlock_inv s" and t: "stage s t = Outside"
  shows "specE (\<lambda>_. False) (perform t Lock_read s) rwlock_inv"
proof -
  note i = rwlock_inv_cases [OF inv refl refl]
  have n: "t \<notin> readers (stage s)" "t \<notin> writers (stage s)"
    "t \<notin> set (reader_wait_list (the_lock s))" "t \<notin> set (writer_wait_list (the_lock s))"
    using t by (simp_all add: readers_def writers_def i)
  show ?thesis
    using i n by (auto simp: perform_def Let_def rwlock_lock_read_def rwlock_inv_def readers_upd stage_upd)
qed

lemma lock_write_inv:
  assumes inv: "rwlock_inv s" and t: "stage s t = Outside"
  shows "specE (\<lambda>_. False) (perform t Lock_write s) rwlock_inv"
proof -
  note i = rwlock_inv_cases [OF inv refl refl]
  have n: "t \<notin> readers (stage s)" "t \<notin> writers (stage s)"
    "t \<notin> set (reader_wait_list (the_lock s))" "t \<notin> set (writer_wait_list (the_lock s))"
    using t by (simp_all add: readers_def writers_def i)
  show ?thesis
    using i n by (auto simp: perform_def Let_def rwlock_lock_write_def rwlock_lock_write_resume_def
        rwlock_inv_def readers_upd stage_upd)
qed

lemma resume_inv:
  assumes inv: "rwlock_inv s" and t: "stage s t = Read_woken \<or> stage s t = Write_woken"
  shows "specE (\<lambda>_. False) (perform t Resume s) rwlock_inv"
proof -
  note i = rwlock_inv_cases [OF inv refl refl]
  have n: "t \<notin> set (reader_wait_list (the_lock s))" "t \<notin> set (writer_wait_list (the_lock s))"
    using t by (auto simp: i)
  show ?thesis
  proof (cases "stage s t = Read_woken")
    case True
    then have "t \<in> readers (stage s)" "t \<notin> writers (stage s)" by (simp_all add: readers_def writers_def)
    moreover have "insert t (readers (stage s)) = readers (stage s)" using calculation(1) by auto
    ultimately show ?thesis
      using True i n by (auto simp: perform_def Let_def rwlock_lock_read_resume_def rwlock_inv_def readers_upd stage_upd)
  next
    case False
    then have w: "t \<in> writers (stage s)" using t by (simp add: writers_def)
    then have l: "write_locked (the_lock s)" using i(9) by auto
    then have "writers (stage s) = {t}" using w i(8) by auto
    moreover have "t \<notin> readers (stage s)" using False t by (simp add: readers_def)
    ultimately show ?thesis
      using False t i l n by (auto simp: perform_def Let_def rwlock_lock_write_resume_def rwlock_inv_def readers_upd stage_upd)
  qed
qed

lemma wake_sets:
  "\<forall>t\<in>set ws. st t = Write_waiting \<Longrightarrow> readers (wake ws st) = readers st"
  "\<forall>t\<in>set ws. st t = Write_waiting \<Longrightarrow> writers (wake ws st) = set ws \<union> writers st"
  "\<forall>t\<in>set ws. st t = Write_waiting \<Longrightarrow> {t. wake ws st t = Write_waiting} = {t. st t = Write_waiting} - set ws"
  "\<forall>t\<in>set ws. st t = Write_waiting \<Longrightarrow> {t. wake ws st t = Read_waiting} = {t. st t = Read_waiting}"
  "\<forall>t\<in>set rs. st t = Read_waiting \<Longrightarrow> readers (wake rs st) = set rs \<union> readers st"
  "\<forall>t\<in>set rs. st t = Read_waiting \<Longrightarrow> writers (wake rs st) = writers st"
  "\<forall>t\<in>set rs. st t = Read_waiting \<Longrightarrow> {t. wake rs st t = Write_waiting} = {t. st t = Write_waiting}"
  "\<forall>t\<in>set rs. st t = Read_waiting \<Longrightarrow> {t. wake rs st t = Read_waiting} = {t. st t = Read_waiting} - set rs"
  by (auto simp: readers_def writers_def wake_def split: lock_stage.splits if_splits)

lemma unlock_read_inv:
  assumes inv: "rwlock_inv s" and t: "stage s t = Reading"
  shows "specE (\<lambda>_. False) (perform t Unlock_read s) rwlock_inv"
proof -
  note i = rwlock_inv_cases [OF inv refl refl]
  let ?m = "the_lock s" and ?st = "stage s"
  have r: "t \<in> readers ?st" "t \<notin> writers ?st" using t by (simp_all add: readers_def writers_def)
  have n: "t \<notin> set (reader_wait_list ?m)" "t \<notin> set (writer_wait_list ?m)" using t by (auto simp: i)
  have l: "\<not> write_locked ?m" using r(1) i(7) by auto
  have c: "active_read_count ?m \<noteq> 0" "card (readers ?st - {t}) = active_read_count ?m - 1"
    using r(1) i(5,6) by (auto simp: card_gt_0_iff)
  show ?thesis
  proof (cases "active_read_count ?m - 1 = 0 \<and> writer_wait_list ?m \<noteq> []")
    case True
    then obtain w ws where w: "writer_wait_list ?m = w # ws" by (cases "writer_wait_list ?m") auto
    then have "?st w = Write_waiting" using i(4) by auto
    then have "\<forall>u\<in>set [w]. (?st(t := Outside)) u = Write_waiting" using n w by auto
    note ws = wake_sets(1-4) [of "[w]" "?st(t := Outside)", OF this]
    have "readers ?st - {t} = {}" using True c i(5) by simp
    then show ?thesis
      using True w l c i n by (auto simp: perform_def Let_def rwlock_unlock_read_def rwlock_inv_def ws readers_upd stage_upd)
  next
    case False
    have "wake [] st = st" for st by (auto simp: wake_def)
    then show ?thesis
      using False l c i n r by (auto simp: perform_def Let_def rwlock_unlock_read_def rwlock_inv_def readers_upd stage_upd)
  qed
qed

lemma unlock_write_inv:
  assumes inv: "rwlock_inv s" and t: "stage s t = Writing"
  shows "specE (\<lambda>_. False) (perform t Unlock_write s) rwlock_inv"
proof -
  note i = rwlock_inv_cases [OF inv refl refl]
  let ?m = "the_lock s" and ?st = "stage s"
  have r: "t \<notin> readers ?st" "t \<in> writers ?st" using t by (simp_all add: readers_def writers_def)
  have n: "t \<notin> set (reader_wait_list ?m)" "t \<notin> set (writer_wait_list ?m)" using t by (auto simp: i)
  have l: "write_locked ?m" using r(2) i(9) by auto
  have e: "readers ?st = {}" "active_read_count ?m = 0" using l i(6,7) by auto
  have wt: "writers ?st = {t}" using r(2) i(8) [OF l] by auto
  show ?thesis
  proof (cases "reader_wait_list ?m = []")
    case False
    have "\<forall>u\<in>set (reader_wait_list ?m). (?st(t := Outside)) u = Read_waiting" using n i(2) by auto
    note ws = wake_sets(5-8) [of "reader_wait_list ?m" "?st(t := Outside)", OF this]
    have fin: "finite {u. ?st u = Read_waiting}" "card {u. ?st u = Read_waiting} = length (reader_wait_list ?m)"
      using distinct_card [OF i(1)] by (simp_all add: i(2) [symmetric])
    show ?thesis
      using False l e i n wt fin by (auto simp: perform_def Let_def rwlock_unlock_write_def wake_readers_result
          rwlock_inv_def ws readers_upd stage_upd)
  next
    case nr: True
    show ?thesis
    proof (cases "writer_wait_list ?m")
      case (Cons w ws)
      then have "\<forall>u\<in>set [w]. (?st(t := Outside)) u = Write_waiting" using n i(4) by auto
      note ws = wake_sets(1-4) [of "[w]" "?st(t := Outside)", OF this]
      show ?thesis
        using nr Cons l e i n wt by (auto simp: perform_def Let_def rwlock_unlock_write_def rwlock_inv_def ws readers_upd stage_upd)
    next
      case Nil
      have "wake [] st = st" for st by (auto simp: wake_def)
      then show ?thesis
        using nr Nil l e i n wt by (auto simp: perform_def Let_def rwlock_unlock_write_def rwlock_inv_def readers_upd stage_upd)
    qed
  qed
qed

lemma perform_inv:
  assumes "rwlock_inv s" "enabled t a s"
  shows "\<exists>s'. perform t a s = Inr s' \<and> rwlock_inv s'"
proof -
  have "specE (\<lambda>_. False) (perform t a s) rwlock_inv"
    using assms lock_read_inv lock_write_inv unlock_read_inv unlock_write_inv resume_inv
    by (cases a) (auto simp: enabled_def)
  then show ?thesis by (simp add: specE_False_iff)
qed

lemma lock_reachable_inv: "lock_step\<^sup>*\<^sup>* idle_system s \<Longrightarrow> rwlock_inv s"
proof (induction rule: rtranclp_induct)
  case (step s s')
  from step.hyps(2) obtain t a where "enabled t a s" "perform t a s = Inr s'" by (auto elim: lock_stepE)
  with perform_inv [OF step.IH] show ?case by force
qed (rule rwlock_inv_init)

subsection \<open>Correctness of the lock\<close>

text \<open>
  C10: in every state that any number of threads reach by locking and unlocking in any order, a
  writer excludes readers and other writers, none of the lock's assertions fails whichever thread
  acts next, and no wake-up is lost: while a thread waits, another one holds the lock or has been
  handed it.
\<close>

theorem rwlock_safe:
  assumes "lock_step\<^sup>*\<^sup>* idle_system s"
  shows "(stage s t = Writing \<and> (stage s u = Writing \<or> stage s u = Reading) \<longrightarrow> t = u)
    \<and> (enabled t a s \<longrightarrow> (\<exists>s'. perform t a s = Inr s'))
    \<and> (stage s t = Read_waiting \<or> stage s t = Write_waiting \<longrightarrow>
        (\<exists>v. stage s v \<in> {Reading, Read_woken, Writing, Write_woken}))"
proof -
  have inv: "rwlock_inv s" using assms by (rule lock_reachable_inv)
  note i = rwlock_inv_cases [OF inv refl refl]
  have "t = u" if "stage s t = Writing" "stage s u = Writing \<or> stage s u = Reading"
  proof -
    have w: "t \<in> writers (stage s)" using that by (simp add: writers_def)
    then have l: "write_locked (the_lock s)" using i(9) by auto
    have "u \<in> writers (stage s) \<or> u \<in> readers (stage s)" using that by (auto simp: writers_def readers_def)
    with w i(7,8) [OF l] show ?thesis by auto
  qed
  moreover have "\<exists>v. v \<in> readers (stage s) \<or> v \<in> writers (stage s)" if "stage s t = Read_waiting \<or> stage s t = Write_waiting"
  proof -
    have "reader_wait_list (the_lock s) \<noteq> [] \<or> writer_wait_list (the_lock s) \<noteq> []"
      using that i(2,4) by (metis (mono_tags) empty_iff mem_Collect_eq set_empty)
    then have "write_locked (the_lock s) \<or> 0 < card (readers (stage s))" using i(6,10,11) by auto
    then show ?thesis using i(8) by (metis all_not_in_conv card.empty insertI1 not_less_zero)
  qed
  ultimately show ?thesis using perform_inv [OF inv] by (auto simp: readers_def writers_def)
qed

theorem rwlock_safe_witness:
  "let s = \<lparr>the_lock = \<lparr>write_locked = True, active_read_count = 0, reader_wait_list = [2], writer_wait_list = []\<rparr>,
            stage = (\<lambda>_. Outside)(1 := Writing, 2 := Read_waiting)\<rparr>
   in lock_step\<^sup>*\<^sup>* idle_system s \<and> (\<exists>v. stage s v \<in> {Reading, Read_woken, Writing, Write_woken})
      \<and> (\<exists>s'. perform 1 Unlock_write s = Inr s')"
proof -
  define s where "s = \<lparr>the_lock = \<lparr>write_locked = True, active_read_count = 0, reader_wait_list = [2], writer_wait_list = []\<rparr>,
            stage = (\<lambda>_. Outside)(1 := Writing, 2 := Read_waiting)\<rparr>"
  define s1 where "s1 = \<lparr>the_lock = \<lparr>write_locked = True, active_read_count = 0, reader_wait_list = [], writer_wait_list = []\<rparr>,
            stage = (\<lambda>_. Outside)(1 := Writing)\<rparr>"
  have "lock_step idle_system s1"
    by (rule act [of 1 Lock_write]) (simp_all add: enabled_def perform_def idle_system_def init_rwlock_def
        rwlock_lock_write_def rwlock_lock_write_resume_def s1_def)
  moreover have "lock_step s1 s"
    by (rule act [of 2 Lock_read]) (simp_all add: enabled_def perform_def rwlock_lock_read_def s1_def s_def)
  ultimately have r: "lock_step\<^sup>*\<^sup>* idle_system s" by (meson converse_rtranclp_into_rtranclp rtranclp.rtrancl_refl)
  have "stage s 2 = Read_waiting" "enabled 1 Unlock_write s" by (simp_all add: s_def enabled_def)
  then show ?thesis
    unfolding Let_def s_def [symmetric] using r rwlock_safe [OF r, of 2] rwlock_safe [OF r, of 1 _ Unlock_write] by simp
qed



end
