(* ===== verification/Kern_Area_Map.thy ===== *)
theory Kern_Area_Map
  imports Kern_List
begin

text \<open>
  The area map of \<open>software/kernel/vm_area_map.c\<close>: the ordered list of the areas of an address space
  (a sequence here, see \<open>Kern_List\<close>) and the three ways of placing a new area. Addresses are 32-bit
  words and wrap as in C. A search returns the areas before the new one, the new one and those after
  it. Memory for the area structures comes from the slab allocator and is always found.
\<close>

abbreviation (input) KPAGE_SIZE :: u32 where "KPAGE_SIZE \<equiv> 0x1000"

definition PAGE_ALIGN :: "u32 \<Rightarrow> u32" where
  "PAGE_ALIGN x = x AND NOT (KPAGE_SIZE - 1)"

abbreviation (input) AREA_WIRED :: u32 where "AREA_WIRED \<equiv> 1"
abbreviation (input) AREA_WRITABLE :: u32 where "AREA_WRITABLE \<equiv> 2"
abbreviation (input) AREA_EXECUTABLE :: u32 where "AREA_EXECUTABLE \<equiv> 4"

datatype placement = PLACE_EXACT | PLACE_SEARCH_DOWN | PLACE_SEARCH_UP

record vm_area =
  low_address :: u32
  high_address :: u32
  area_cache :: "nat option"
  area_cache_offset :: u32
  area_cache_length :: u32
  area_flags :: u32
  area_name :: string

record vm_area_map =
  am_low :: u32
  am_high :: u32
  area_list :: "vm_area list"

type_synonym placed = "vm_area list \<times> vm_area \<times> vm_area list"

definition alloc_area :: "u32 \<Rightarrow> u32 \<Rightarrow> vm_area" where
  "alloc_area low sz =
     \<lparr>low_address = low, high_address = low + sz - 1, area_cache = None, area_cache_offset = 0,
      area_cache_length = 0, area_flags = 0, area_name = []\<rparr>"

abbreviation (input) prepend :: "vm_area \<Rightarrow> placed option \<Rightarrow> placed option" where
  "prepend a \<equiv> map_option (\<lambda>(xs, new, ys). (a # xs, new, ys))"

text \<open>The second loop of \<open>search_up\<close> and what follows it.\<close>

fun fit_up :: "u32 \<Rightarrow> u32 \<Rightarrow> u32 \<Rightarrow> vm_area list \<Rightarrow> placed option" where
  "fit_up map_high sz hole_start [] =
     (if sz \<le> map_high - hole_start + 1 then Some ([], alloc_area hole_start sz, []) else None)"
| "fit_up map_high sz hole_start (next_area # areas) =
     (if sz \<le> low_address next_area - hole_start
      then Some ([], alloc_area hole_start sz, next_area # areas)
      else prepend next_area (fit_up map_high sz (high_address next_area + 1) areas))"

text \<open>The first loop: areas below the address are skipped.\<close>

fun skip_up :: "u32 \<Rightarrow> u32 \<Rightarrow> u32 \<Rightarrow> u32 \<Rightarrow> vm_area list \<Rightarrow> placed option" where
  "skip_up map_high address sz hole_start (next_area # areas) =
     (if low_address next_area < address
      then prepend next_area (skip_up map_high address sz (high_address next_area + 1) areas)
      else fit_up map_high sz (if hole_start < address then address else hole_start) (next_area # areas))"
| "skip_up map_high address sz hole_start [] =
     fit_up map_high sz (if hole_start < address then address else hole_start) []"

definition search_up :: "vm_area_map \<Rightarrow> u32 \<Rightarrow> u32 \<Rightarrow> placed option" where
  "search_up m address sz =
     (if am_high m < address + sz then None
      else let address = PAGE_ALIGN (if address < am_low m then am_low m else address) in
        if area_list m = [] then Some ([], alloc_area address sz, [])
        else skip_up (am_high m) address sz (am_low m) (area_list m))"

text \<open>The loops of \<open>search_down\<close>, which walk the list from its end: the lists here are reversed.\<close>

fun fit_down :: "u32 \<Rightarrow> u32 \<Rightarrow> u32 \<Rightarrow> vm_area list \<Rightarrow> placed option" where
  "fit_down map_low sz hole_end [] =
     (if sz \<le> hole_end - map_low + 1 then Some ([], alloc_area (hole_end - sz + 1) sz, []) else None)"
| "fit_down map_low sz hole_end (prev_area # areas) =
     (if sz \<le> hole_end - high_address prev_area + 1
      then Some ([], alloc_area (hole_end - sz + 1) sz, prev_area # areas)
      else prepend prev_area (fit_down map_low sz (low_address prev_area - 1) areas))"

fun skip_down :: "u32 \<Rightarrow> u32 \<Rightarrow> u32 \<Rightarrow> u32 \<Rightarrow> vm_area list \<Rightarrow> placed option" where
  "skip_down map_low address sz hole_end (prev_area # areas) =
     (if address < high_address prev_area
      then prepend prev_area (skip_down map_low address sz (low_address prev_area - 1) areas)
      else fit_down map_low sz (if address < hole_end then address else hole_end) (prev_area # areas))"
| "skip_down map_low address sz hole_end [] =
     fit_down map_low sz (if address < hole_end then address else hole_end) []"

definition search_down :: "vm_area_map \<Rightarrow> u32 \<Rightarrow> u32 \<Rightarrow> placed option" where
  "search_down m address sz =
     (if address - sz < am_low m then None
      else let address = PAGE_ALIGN ((if am_high m < address then am_high m else address) + 1) - 1 in
        if area_list m = [] then Some ([], alloc_area (address - sz + 1) sz, [])
        else map_option (\<lambda>(after, new, before). (rev before, new, rev after))
               (skip_down (am_low m) address sz (am_high m) (rev (area_list m))))"

fun fixed_slot :: "u32 \<Rightarrow> u32 \<Rightarrow> u32 \<Rightarrow> vm_area list \<Rightarrow> placed option" where
  "fixed_slot address sz hole_start [] =
     (if hole_start \<le> address then Some ([], alloc_area address sz, []) else None)"
| "fixed_slot address sz hole_start (next_area # areas) =
     (if address < hole_start then None
      else if address + sz - 1 \<le> low_address next_area
      then Some ([], alloc_area address sz, next_area # areas)
      else prepend next_area (fixed_slot address sz (high_address next_area) areas))"

definition insert_fixed :: "vm_area_map \<Rightarrow> u32 \<Rightarrow> u32 \<Rightarrow> placed option" where
  "insert_fixed m address sz =
     (if address < am_low m \<or> am_high m < address + sz - 1 \<or> address + sz - 1 < address then None
      else if area_list m = [] then Some ([], alloc_area address sz, [])
      else fixed_slot address sz (am_low m) (area_list m))"

definition init_area_map :: "u32 \<Rightarrow> u32 \<Rightarrow> vm_area_map" where
  "init_area_map low high =
     \<lparr>am_low = PAGE_ALIGN low, am_high = PAGE_ALIGN (high + 1) - 1, area_list = []\<rparr>"

text \<open>
  The kernel's \<open>strlcpy (area->name, name, 32)\<close> copies up to 32 characters (and then writes the
  terminator, for a name of 32 characters or more past the end of the field).
\<close>

definition create_vm_area ::
  "vm_area_map \<Rightarrow> u32 \<Rightarrow> u32 \<Rightarrow> placement \<Rightarrow> string \<Rightarrow> u32 \<Rightarrow> (vm_area \<times> vm_area_map) option" where
  "create_vm_area m address sz place name flags =
     (let sz = PAGE_ALIGN (sz + KPAGE_SIZE - 1);
          found = (case place of
              PLACE_EXACT \<Rightarrow> insert_fixed m address sz
            | PLACE_SEARCH_DOWN \<Rightarrow> search_down m address sz
            | PLACE_SEARCH_UP \<Rightarrow> search_up m address sz)
      in map_option (\<lambda>(before, area, after).
           let area = area\<lparr>area_name := take 32 name, area_flags := flags, area_cache := None,
                           area_cache_offset := 0, area_cache_length := 0\<rparr>
           in (area, m\<lparr>area_list := before @ area # after\<rparr>)) found)"

definition destroy_vm_area :: "vm_area \<Rightarrow> vm_area_map \<Rightarrow> vm_area_map" where
  "destroy_vm_area area m = m\<lparr>area_list := filter (\<lambda>a. low_address a \<noteq> low_address area) (area_list m)\<rparr>"

definition first_area :: "vm_area_map \<Rightarrow> vm_area option" where
  "first_area m = (case area_list m of [] \<Rightarrow> None | a # _ \<Rightarrow> Some a)"

definition lookup_area :: "vm_area_map \<Rightarrow> u32 \<Rightarrow> vm_area option" where
  "lookup_area m address =
     find (\<lambda>area. low_address area \<le> address \<and> address \<le> high_address area) (area_list m)"

subsection \<open>Well-formed maps\<close>

abbreviation lo :: "vm_area \<Rightarrow> nat" where "lo a \<equiv> unat (low_address a)"
abbreviation hi :: "vm_area \<Rightarrow> nat" where "hi a \<equiv> unat (high_address a)"

definition area_ok :: "vm_area \<Rightarrow> bool" where
  "area_ok a \<longleftrightarrow> 4096 dvd lo a \<and> 4096 dvd hi a + 1 \<and> lo a < hi a"

text \<open>The areas are in order, do not overlap and lie in \<open>[p, h]\<close>.\<close>

definition areas_within :: "nat \<Rightarrow> nat \<Rightarrow> vm_area list \<Rightarrow> bool" where
  "areas_within p h areas \<longleftrightarrow> sorted_wrt (\<lambda>a b. hi a < lo b) areas
     \<and> (\<forall>a\<in>set areas. area_ok a \<and> p \<le> lo a \<and> hi a \<le> h)"

definition area_map_ok :: "vm_area_map \<Rightarrow> bool" where
  "area_map_ok m \<longleftrightarrow> 4096 dvd unat (am_low m) \<and> 4096 dvd unat (am_high m) + 1
     \<and> 0 < am_low m \<and> am_low m < am_high m \<and> areas_within (unat (am_low m)) (unat (am_high m)) (area_list m)"

lemma areas_within_Nil [simp]: "areas_within p h []"
  by (simp add: areas_within_def)

lemma areas_within_Cons:
  "areas_within p h (a # as) \<longleftrightarrow> area_ok a \<and> p \<le> lo a \<and> hi a \<le> h \<and> areas_within (hi a + 1) h as"
  by (auto simp: areas_within_def area_ok_def)

lemma areas_within_mono: "areas_within p h as \<Longrightarrow> q \<le> p \<Longrightarrow> areas_within q h as"
  by (auto simp: areas_within_def)

lemma areas_within_append:
  "areas_within p h (xs @ ys) \<longleftrightarrow> areas_within p h xs \<and> areas_within p h ys
     \<and> (\<forall>x\<in>set xs. \<forall>y\<in>set ys. hi x < lo y)"
  by (auto simp: areas_within_def sorted_wrt_append)

text \<open>From the end: \<open>e\<close> is the first address after the areas, which are in descending order.\<close>

definition areas_below :: "nat \<Rightarrow> nat \<Rightarrow> vm_area list \<Rightarrow> bool" where
  "areas_below l e areas \<longleftrightarrow> sorted_wrt (\<lambda>a b. hi b < lo a) areas
     \<and> (\<forall>a\<in>set areas. area_ok a \<and> l \<le> lo a \<and> hi a < e)"

lemma areas_below_Nil [simp]: "areas_below l e []"
  by (simp add: areas_below_def)

lemma areas_below_Cons:
  "areas_below l e (a # as) \<longleftrightarrow> area_ok a \<and> l \<le> lo a \<and> hi a < e \<and> areas_below l (lo a) as"
  by (auto simp: areas_below_def area_ok_def)

lemma areas_below_rev: "areas_below l (Suc h) (rev as) \<longleftrightarrow> areas_within l h as"
  by (auto simp: areas_below_def areas_within_def sorted_wrt_rev)

subsection \<open>Page arithmetic\<close>

lemma PAGE_ALIGN_minus: "PAGE_ALIGN x = x - take_bit 12 x"
proof -
  have low: "(0x1000 - 1 :: u32) = mask 12" by (simp add: mask_eq_exp_minus_1)
  have "PAGE_ALIGN x = push_bit 12 (drop_bit 12 x)"
    unfolding PAGE_ALIGN_def low by (intro bit_word_eqI) (auto simp: bit_and_iff bit_not_iff bit_mask_iff bit_push_bit_iff bit_drop_bit_eq)
  then show ?thesis using bits_ident [of 12 x] by (metis add_diff_cancel_right')
qed

lemma unat_PAGE_ALIGN: "unat (PAGE_ALIGN x) = unat x - unat x mod 4096"
proof -
  have t: "unat (take_bit 12 x) = unat x mod 4096" by (simp add: unat_word_ariths take_bit_eq_mod unsigned_take_bit_eq)
  then show ?thesis by (simp add: PAGE_ALIGN_minus unat_minus_no_wrap)
qed

lemma PAGE_ALIGN_dvd [simp]: "4096 dvd unat (PAGE_ALIGN x)"
  by (simp add: unat_PAGE_ALIGN minus_mod_eq_mult_div)

lemma PAGE_ALIGN_le: "unat (PAGE_ALIGN x) \<le> unat x"
  by (simp add: unat_PAGE_ALIGN)

lemma PAGE_ALIGN_aligned: "4096 dvd unat x \<Longrightarrow> PAGE_ALIGN x = x"
  by (simp add: unat_PAGE_ALIGN word_unat_eq_iff)

lemma aligned_le: "4096 dvd a \<Longrightarrow> 4096 dvd (b :: nat) \<Longrightarrow> a \<le> b + 4095 \<Longrightarrow> a \<le> b"
  by (elim dvdE) simp

lemma alloc_area_ok:
  assumes "4096 dvd unat p" "4096 dvd unat sz" "0 < sz" "unat p + unat sz \<le> 4294967296"
  shows "area_ok (alloc_area p sz)" "lo (alloc_area p sz) = unat p" "hi (alloc_area p sz) + 1 = unat p + unat sz"
proof -
  have s: "4096 \<le> unat sz" using assms(2,3) by (simp add: dvd_imp_le word_less_nat_alt)
  have "1 \<le> unat sz" using s by simp
  then have "unat (sz - 1) = unat sz - 1" by (simp add: unat_minus_no_wrap)
  then have h: "unat (p + sz - 1) + 1 = unat p + unat sz"
    using assms(4) s unat_plus_no_wrap [of p "sz - 1"] by (simp add: add_diff_eq)
  then show "hi (alloc_area p sz) + 1 = unat p + unat sz" "lo (alloc_area p sz) = unat p"
    by (simp_all add: alloc_area_def)
  have "4096 dvd unat (p + sz - 1) + 1" unfolding h using assms(1,2) by simp
  then show "area_ok (alloc_area p sz)" using assms(1) h s by (simp add: area_ok_def alloc_area_def)
qed

subsection \<open>Placement\<close>

text \<open>What every placement guarantees: \<open>p\<close> and \<open>h\<close> bound the hole that was searched.\<close>

definition placed_ok :: "u32 \<Rightarrow> nat \<Rightarrow> nat \<Rightarrow> vm_area list \<Rightarrow> placed \<Rightarrow> bool" where
  "placed_ok sz p h areas r \<longleftrightarrow> (case r of (xs, new, ys) \<Rightarrow>
     areas = xs @ ys \<and> areas_within p h (xs @ new # ys) \<and> hi new + 1 = lo new + unat sz)"

lemma placed_prepend:
  assumes "placed_ok sz (hi a + 1) h as r" "areas_within p h (a # as)"
  shows "placed_ok sz p h (a # as) (case r of (xs, new, ys) \<Rightarrow> (a # xs, new, ys))"
  using assms by (auto simp: placed_ok_def areas_within_Cons split: prod.splits)

lemma unat_hole: "p \<le> unat (h :: u32) + 1 \<Longrightarrow> unat (h - of_nat p + 1) = (unat h + 1 - p) mod 4294967296"
proof -
  assume p: "p \<le> unat h + 1"
  have "of_nat (unat h + 1 - p) = (h - of_nat p + 1 :: u32)" using p by (simp add: of_nat_diff)
  then have "unat (h - of_nat p + 1) = unat (of_nat (unat h + 1 - p) :: u32)" by simp
  then show ?thesis by (simp add: unat_of_nat)
qed

lemma hole_here:
  assumes "hs = of_nat p" "p < 4294967296" "4096 dvd p" "4096 dvd unat sz" "0 < sz" "p + unat sz \<le> h + 1"
    "areas_within (h + 1) e as" "h \<le> e" "e < 4294967296"
  shows "placed_ok sz p e as ([], alloc_area hs sz, as)"
proof -
  have u: "unat hs = p" using assms(1,2) by (simp add: unat_of_nat)
  note a = alloc_area_ok [of hs sz, unfolded u, OF assms(3,4,5)]
  have "area_ok (alloc_area hs sz)" "lo (alloc_area hs sz) = p" "hi (alloc_area hs sz) + 1 = p + unat sz"
    using a assms(6,8,9) by auto
  moreover have "areas_within (hi (alloc_area hs sz) + 1) e as"
    using assms(6,7) calculation(3) by (auto intro: areas_within_mono)
  ultimately show ?thesis using assms(6,8) by (auto simp: placed_ok_def areas_within_Cons)
qed

lemma fit_up_ok:
  assumes "fit_up mh sz hs as = Some r" "areas_within p (unat mh) as" "hs = of_nat p" "p \<le> unat mh + 1"
    "4096 dvd p" "4096 dvd unat sz" "0 < sz"
  shows "placed_ok sz p (unat mh) as r"
  using assms
proof (induction as arbitrary: hs p r)
  case Nil
  from Nil.prems have "unat sz \<le> (unat mh + 1 - p) mod 4294967296"
    by (simp add: word_le_nat_alt unat_hole split: if_splits)
  then have fits: "unat sz \<le> unat mh + 1 - p" using mod_less_eq_dividend order_trans by blast
  moreover have "0 < unat sz" using Nil.prems(7) by (simp add: word_less_nat_alt)
  ultimately have "p < 4294967296" "p + unat sz \<le> unat mh + 1" using unat_u32_bound [of mh] by auto
  then show ?case using Nil.prems hole_here [of hs p sz "unat mh" "unat mh" "[]"] unat_u32_bound [of mh]
    by (simp split: if_splits)
next
  case (Cons a as)
  have p: "p < 4294967296" "unat hs = p" "area_ok a" "p \<le> lo a" "hi a \<le> unat mh" "areas_within (hi a + 1) (unat mh) as"
    using Cons.prems unat_u32_bound [of "low_address a"] by (auto simp: areas_within_Cons unat_of_nat)
  show ?case
  proof (cases "sz \<le> low_address a - hs")
    case True
    then have "unat sz \<le> lo a - p" using p(2,4) by (simp add: word_le_nat_alt unat_minus_no_wrap)
    moreover have "0 < unat sz" using Cons.prems(7) by (simp add: word_less_nat_alt)
    ultimately have "p + unat sz \<le> (lo a - 1) + 1" "lo a \<noteq> 0" using p(4) by auto
    moreover have "areas_within (lo a - 1 + 1) (unat mh) (a # as)"
      using p \<open>lo a \<noteq> 0\<close> by (simp add: areas_within_Cons)
    moreover have "lo a - 1 \<le> unat mh" using p(3,5) unfolding area_ok_def by linarith
    ultimately show ?thesis
      using True Cons.prems p(1) hole_here [of hs p sz "lo a - 1" "unat mh" "a # as"] unat_u32_bound [of mh] by auto
  next
    case False
    then obtain q where q: "fit_up mh sz (high_address a + 1) as = Some q" "r = (case q of (xs, new, ys) \<Rightarrow> (a # xs, new, ys))"
      using Cons.prems(1) by auto
    have "high_address a + 1 = of_nat (hi a + 1)" by simp
    moreover have "4096 dvd hi a + 1" using p(3) by (simp add: area_ok_def)
    ultimately have "placed_ok sz (hi a + 1) (unat mh) as q" using Cons.IH [OF q(1)] p Cons.prems(6,7) by simp
    then show ?thesis unfolding q(2) using Cons.prems(2) by (rule placed_prepend)
  qed
qed

lemma skip_up_ok:
  assumes "skip_up mh addr sz hs as = Some r" "areas_within p (unat mh) as" "hs = of_nat p" "p \<le> unat mh + 1"
    "p < 4294967296" "addr \<le> mh" "4096 dvd p" "4096 dvd unat addr" "4096 dvd unat sz" "0 < sz"
    "\<forall>a\<in>set as. hi a = 4294967295 \<longrightarrow> addr \<le> low_address a"
  shows "placed_ok sz p (unat mh) as r \<and> addr \<le> low_address (fst (snd r))"
  using assms
proof (induction as arbitrary: hs p r)
  case Nil
  define p' where "p' = max p (unat addr)"
  have hs: "(if hs < addr then addr else hs) = of_nat p'"
    using Nil.prems(3,5) by (auto simp: p'_def max_def word_less_nat_alt unat_of_nat)
  have "fit_up mh sz (of_nat p') [] = Some r" using Nil.prems(1) unfolding skip_up.simps hs .
  then have "placed_ok sz p' (unat mh) [] r"
    using Nil.prems by (elim fit_up_ok) (auto simp: p'_def word_le_nat_alt max_def)
  then show ?case by (auto simp: placed_ok_def areas_within_Cons p'_def word_le_nat_alt)
next
  case (Cons a as)
  have a: "area_ok a" "p \<le> lo a" "hi a \<le> unat mh" "areas_within (hi a + 1) (unat mh) as"
    using Cons.prems by (auto simp: areas_within_Cons)
  show ?case
  proof (cases "low_address a < addr")
    case True
    then obtain q where q: "skip_up mh addr sz (high_address a + 1) as = Some q" "r = (case q of (xs, new, ys) \<Rightarrow> (a # xs, new, ys))"
      using Cons.prems(1) by auto
    have "hi a \<noteq> 4294967295" using True Cons.prems(11) by auto
    then have "hi a + 1 < 4294967296" using unat_u32_bound [of "high_address a"] by linarith
    moreover have "high_address a + 1 = of_nat (hi a + 1)" by simp
    moreover have "4096 dvd hi a + 1" using a(1) by (simp add: area_ok_def)
    ultimately have "placed_ok sz (hi a + 1) (unat mh) as q \<and> addr \<le> low_address (fst (snd q))"
      using Cons.IH [OF q(1)] a Cons.prems(6-11) by simp
    then show ?thesis unfolding q(2) using placed_prepend [OF _ Cons.prems(2)] by (auto split: prod.splits)
  next
    case False
    define p' where "p' = max p (unat addr)"
    have hs: "(if hs < addr then addr else hs) = of_nat p'"
      using Cons.prems(3,5) by (auto simp: p'_def max_def word_less_nat_alt unat_of_nat)
    have "fit_up mh sz (of_nat p') (a # as) = Some r" using Cons.prems(1) False unfolding skip_up.simps hs by simp
    moreover have "areas_within p' (unat mh) (a # as)"
      using a False by (simp add: areas_within_Cons p'_def word_less_nat_alt)
    ultimately have "placed_ok sz p' (unat mh) (a # as) r"
      using Cons.prems by (elim fit_up_ok) (auto simp: p'_def word_le_nat_alt max_def)
    then show ?thesis
      by (auto simp: placed_ok_def areas_within_append areas_within_Cons p'_def word_le_nat_alt intro: areas_within_mono)
  qed
qed

definition placed_below_ok :: "u32 \<Rightarrow> nat \<Rightarrow> nat \<Rightarrow> vm_area list \<Rightarrow> placed \<Rightarrow> bool" where
  "placed_below_ok sz l e areas r \<longleftrightarrow> (case r of (xs, new, ys) \<Rightarrow>
     areas = xs @ ys \<and> areas_below l e (xs @ new # ys) \<and> hi new + 1 = lo new + unat sz)"

lemma placed_below_prepend:
  assumes "placed_below_ok sz l (lo a) as r" "areas_below l e (a # as)"
  shows "placed_below_ok sz l e (a # as) (case r of (xs, new, ys) \<Rightarrow> (a # xs, new, ys))"
  using assms by (auto simp: placed_below_ok_def areas_below_Cons split: prod.splits)

lemma areas_below_mono: "areas_below l e as \<Longrightarrow> e \<le> e' \<Longrightarrow> areas_below l e' as"
  by (auto simp: areas_below_def)

lemma hole_below:
  assumes "he = of_nat e - 1" "e \<le> 4294967296" "4096 dvd e" "4096 dvd unat sz" "0 < sz" "q + unat sz \<le> e"
    "areas_below l q as" "l \<le> q"
  shows "placed_below_ok sz l e as ([], alloc_area (he - sz + 1) sz, as)"
proof -
  have s: "0 < unat sz" using assms(5) by (simp add: word_less_nat_alt)
  have "he - sz + 1 = of_nat (e - unat sz)" using assms(1,6) by (simp add: of_nat_diff)
  then have u: "unat (he - sz + 1) = e - unat sz" using assms(2) s by (simp add: unat_of_nat)
  have "4096 dvd e - unat sz" using assms(3,4) by (simp add: dvd_diff_nat)
  then have a: "area_ok (alloc_area (he - sz + 1) sz)" "lo (alloc_area (he - sz + 1) sz) = e - unat sz"
    "hi (alloc_area (he - sz + 1) sz) + 1 = e"
    using alloc_area_ok [of "he - sz + 1" sz] assms(2,4,5,6) u by auto
  then show ?thesis
    using assms(6,7,8) s by (auto simp: placed_below_ok_def areas_below_Cons intro: areas_below_mono)
qed

lemma fit_down_ok:
  assumes "fit_down ml sz he as = Some r" "areas_below (unat ml) e as" "he = of_nat e - 1" "unat ml \<le> e"
    "e \<le> 4294967296" "0 < ml" "4096 dvd unat ml" "4096 dvd e" "4096 dvd unat sz" "0 < sz"
  shows "placed_below_ok sz (unat ml) e as r"
  using assms
proof (induction as arbitrary: he e r)
  case Nil
  have ml: "0 < unat ml" using Nil.prems(6) by (simp add: word_less_nat_alt)
  have "he - ml + 1 = of_nat (e - unat ml)" using Nil.prems(3,4) by (simp add: of_nat_diff)
  then have "unat (he - ml + 1) = e - unat ml" using Nil.prems(5) ml by (simp add: unat_of_nat)
  then have "unat ml + unat sz \<le> e" using Nil.prems(1,4) by (simp add: word_le_nat_alt split: if_splits)
  then show ?case using Nil.prems hole_below [of he e sz "unat ml" "unat ml" "[]"] by (simp split: if_splits)
next
  case (Cons a as)
  have a: "area_ok a" "unat ml \<le> lo a" "hi a < e" "areas_below (unat ml) (lo a) as"
    using Cons.prems by (auto simp: areas_below_Cons)
  have al: "4096 dvd lo a" "4096 dvd hi a + 1" "lo a < hi a" using a(1) by (simp_all add: area_ok_def)
  show ?case
  proof (cases "sz \<le> he - high_address a + 1")
    case True
    have "he - high_address a + 1 = of_nat (e - hi a)" using Cons.prems(3) a(3) by (simp add: of_nat_diff)
    then have "unat (he - high_address a + 1) = e - hi a" using Cons.prems(5) al(3) by (simp add: unat_of_nat)
    then have "unat sz \<le> e - (hi a + 1) + 1" using True a(3) by (simp add: word_le_nat_alt)
    moreover have "4096 dvd e - (hi a + 1)" using Cons.prems(8) al(2) by (simp only: dvd_diff_nat)
    ultimately have "unat sz \<le> e - (hi a + 1)" using aligned_le [of "unat sz" "e - (hi a + 1)"] Cons.prems(9) by simp
    then have "hi a + 1 + unat sz \<le> e" using a(3) by linarith
    moreover have "areas_below (unat ml) (hi a + 1) (a # as)" using a by (simp add: areas_below_Cons)
    ultimately show ?thesis
      using True Cons.prems a(2) al(3) hole_below [of he e sz "hi a + 1" "unat ml" "a # as"] by auto
  next
    case False
    then obtain q where q: "fit_down ml sz (low_address a - 1) as = Some q" "r = (case q of (xs, new, ys) \<Rightarrow> (a # xs, new, ys))"
      using Cons.prems(1) by auto
    have "low_address a - 1 = of_nat (lo a) - 1" by simp
    moreover have "lo a \<le> 4294967296" using unat_u32_bound [of "low_address a"] by simp
    ultimately have "placed_below_ok sz (unat ml) (lo a) as q"
      using Cons.IH [OF q(1)] a al Cons.prems(6-10) by blast
    then show ?thesis unfolding q(2) using Cons.prems(2) by (rule placed_below_prepend)
  qed
qed

lemma pred_less:
  assumes "0 < a" "a \<le> 4294967296"
  shows "unat (of_nat a - 1 :: u32) = a - 1"
proof -
  obtain b where "a = Suc b" using assms(1) gr0_implies_Suc by blast
  then show ?thesis using assms(2) by (simp add: unat_of_nat)
qed

lemma clip_end:
  assumes "0 < a" "a \<le> 4294967296" "0 < e" "e \<le> 4294967296"
  shows "(if of_nat a - 1 < (of_nat e - 1 :: u32) then of_nat a - 1 else of_nat e - 1) = (of_nat (min a e) - 1 :: u32)"
proof (cases "a < e")
  case True
  then have "a - 1 < e - 1" using assms(1) by linarith
  with True show ?thesis using assms by (simp add: word_less_nat_alt pred_less)
next
  case False
  then have "\<not> a - 1 < e - 1" by linarith
  with False show ?thesis using assms by (simp add: word_less_nat_alt pred_less min_def)
qed

lemma skip_down_ok:
  assumes "skip_down ml addr sz he as = Some r" "areas_below (unat ml) e as" "he = of_nat e - 1" "addr = of_nat A - 1"
    "unat ml \<le> e" "unat ml \<le> A" "e \<le> 4294967296" "A \<le> 4294967296" "0 < ml" "4096 dvd unat ml"
    "4096 dvd e" "4096 dvd A" "4096 dvd unat sz" "0 < sz"
  shows "placed_below_ok sz (unat ml) e as r \<and> high_address (fst (snd r)) \<le> addr"
  using assms
proof (induction as arbitrary: he e r)
  case Nil
  have ml: "0 < unat ml" using Nil.prems(9) by (simp add: word_less_nat_alt)
  have he: "(if addr < he then addr else he) = of_nat (min A e) - 1"
    unfolding Nil.prems(3,4) using Nil.prems(5-8) ml by (intro clip_end) auto
  have "fit_down ml sz (of_nat (min A e) - 1) [] = Some r" using Nil.prems(1) unfolding skip_down.simps he .
  then have "placed_below_ok sz (unat ml) (min A e) [] r"
    using Nil.prems by (elim fit_down_ok) (auto simp: min_def)
  then show ?case using Nil.prems(4,6,8) ml
    by (auto simp: placed_below_ok_def areas_below_Cons word_le_nat_alt pred_less)
next
  case (Cons a as)
  have ml: "0 < unat ml" using Cons.prems(9) by (simp add: word_less_nat_alt)
  have a: "area_ok a" "unat ml \<le> lo a" "hi a < e" "areas_below (unat ml) (lo a) as"
    using Cons.prems by (auto simp: areas_below_Cons)
  have al: "4096 dvd lo a" using a(1) by (simp add: area_ok_def)
  show ?case
  proof (cases "addr < high_address a")
    case True
    then obtain q where q: "skip_down ml addr sz (low_address a - 1) as = Some q" "r = (case q of (xs, new, ys) \<Rightarrow> (a # xs, new, ys))"
      using Cons.prems(1) by auto
    have "lo a \<le> 4294967296" using unat_u32_bound [of "low_address a"] by simp
    moreover have "low_address a - 1 = of_nat (lo a) - 1" by simp
    ultimately have "placed_below_ok sz (unat ml) (lo a) as q \<and> high_address (fst (snd q)) \<le> addr"
      using Cons.IH [OF q(1)] a al Cons.prems(4,6,8-14) by blast
    then show ?thesis unfolding q(2) using placed_below_prepend [OF _ Cons.prems(2)] by (auto split: prod.splits)
  next
    case False
    have he: "(if addr < he then addr else he) = of_nat (min A e) - 1"
      unfolding Cons.prems(3,4) using Cons.prems(5-8) ml by (intro clip_end) auto
    have "hi a < A" using False Cons.prems(4,6,8) ml by (simp add: word_less_nat_alt pred_less)
    have "fit_down ml sz (of_nat (min A e) - 1) (a # as) = Some r"
      using Cons.prems(1) False unfolding skip_down.simps he by simp
    moreover have "areas_below (unat ml) (min A e) (a # as)" using a \<open>hi a < A\<close> by (simp add: areas_below_Cons)
    ultimately have r: "placed_below_ok sz (unat ml) (min A e) (a # as) r"
      using Cons.prems by (elim fit_down_ok) (auto simp: min_def)
    then have "placed_below_ok sz (unat ml) e (a # as) r"
      by (auto simp: placed_below_ok_def intro: areas_below_mono)
    moreover have "hi (fst (snd r)) < A" using r by (auto simp: placed_below_ok_def areas_below_def)
    ultimately show ?thesis using Cons.prems(4,6,8) ml by (simp add: word_le_nat_alt pred_less)
  qed
qed

text \<open>An exact placement succeeds if and only if it overlaps no area.\<close>

definition range_free :: "nat \<Rightarrow> nat \<Rightarrow> vm_area list \<Rightarrow> bool" where
  "range_free b e areas \<longleftrightarrow> (\<forall>a\<in>set areas. hi a < b \<or> e \<le> lo a)"

lemma high_not_aligned: "area_ok a \<Longrightarrow> 4096 dvd b \<Longrightarrow> hi a \<noteq> b"
proof
  assume a: "area_ok a" "4096 dvd b" "hi a = b"
  then have "(4096 :: nat) dvd 1" unfolding area_ok_def by (metis dvd_add_right_iff)
  then show False by simp
qed

lemma fixed_slot_result:
  assumes "areas_within p h as" "hs \<le> addr \<longleftrightarrow> p \<le> unat addr" "4096 dvd unat addr" "4096 dvd unat sz"
    "0 < sz" "unat addr + unat sz \<le> h + 1" "h < 4294967296"
  shows "case fixed_slot addr sz hs as of
      None \<Rightarrow> \<not> (p \<le> unat addr \<and> range_free (unat addr) (unat addr + unat sz) as)
    | Some r \<Rightarrow> range_free (unat addr) (unat addr + unat sz) as \<and> placed_ok sz p h as r \<and> low_address (fst (snd r)) = addr"
  using assms
proof (induction as arbitrary: p hs)
  case Nil
  have "placed_ok sz p h [] ([], alloc_area addr sz, [])" if "p \<le> unat addr"
    using Nil.prems that alloc_area_ok [of addr sz] by (auto simp: placed_ok_def areas_within_Cons)
  then show ?case using Nil.prems(2) by (auto simp: range_free_def alloc_area_def)
next
  case (Cons a as)
  let ?E = "unat addr + unat sz"
  have s: "0 < unat sz" using Cons.prems(5) by (simp add: word_less_nat_alt)
  have a: "area_ok a" "p \<le> lo a" "hi a \<le> h" "areas_within (hi a + 1) h as" "lo a < hi a" "4096 dvd lo a"
    using Cons.prems(1) by (auto simp: areas_within_Cons area_ok_def)
  have later: "hi a < lo b" if "b \<in> set as" for b using a(4) that by (auto simp: areas_within_def)
  have end_addr: "unat (addr + sz - 1) + 1 = ?E"
    using alloc_area_ok(3) [of addr sz] Cons.prems by (simp add: alloc_area_def)
  have fits: "addr + sz - 1 \<le> low_address a \<longleftrightarrow> ?E \<le> lo a"
  proof -
    have "4096 dvd ?E" using Cons.prems(3,4) by simp
    then have "?E \<le> lo a" if "?E \<le> lo a + 1" using aligned_le [of ?E "lo a"] a(6) that by simp
    then show ?thesis using end_addr by (auto simp: word_le_nat_alt)
  qed
  show ?case
  proof (cases "p \<le> unat addr")
    case False
    then show ?thesis using Cons.prems(2) by (simp add: not_le)
  next
    case True
    then have hs: "\<not> addr < hs" using Cons.prems(2) by simp
    show ?thesis
    proof (cases "?E \<le> lo a")
      case in_front: True
      have "range_free (unat addr) ?E (a # as)" using in_front later a(5) by (fastforce simp: range_free_def)
      moreover have "placed_ok sz p h (a # as) ([], alloc_area addr sz, a # as)"
        using alloc_area_ok [of addr sz] in_front a s Cons.prems True
        by (auto simp: placed_ok_def areas_within_Cons)
      ultimately show ?thesis using hs fits in_front by (simp add: alloc_area_def)
    next
      case past: False
      have "high_address a \<le> addr \<longleftrightarrow> hi a + 1 \<le> unat addr"
        using high_not_aligned [OF a(1) Cons.prems(3)] by (auto simp: word_le_nat_alt)
      note IH = Cons.IH [OF a(4) this Cons.prems(3-7)]
      have "range_free (unat addr) ?E (a # as) \<longleftrightarrow> hi a + 1 \<le> unat addr \<and> range_free (unat addr) ?E as"
        using past by (auto simp: range_free_def)
      moreover have "hi a + 1 \<le> unat addr" if "fixed_slot addr sz (high_address a) as = Some r" for r
        using IH that by (auto simp: placed_ok_def areas_within_def)
      ultimately show ?thesis
        using IH hs fits past True placed_prepend [OF _ Cons.prems(1)]
        by (auto split: option.splits prod.splits)
    qed
  qed
qed

text \<open>The rounded size, and the arguments for which a placement is meant.\<close>

definition round_up :: "nat \<Rightarrow> nat" where
  "round_up n = (n + 4095) div 4096 * 4096"

definition placeable :: "vm_area_map \<Rightarrow> placement \<Rightarrow> u32 \<Rightarrow> nat \<Rightarrow> bool" where
  "placeable m place address n = (case place of
       PLACE_EXACT \<Rightarrow> 4096 dvd unat address
     | PLACE_SEARCH_UP \<Rightarrow> am_low m \<le> address \<and> unat address + n < 4294967296
         \<and> (\<forall>a\<in>set (area_list m). hi a = 4294967295 \<longrightarrow> PAGE_ALIGN address \<le> low_address a)
     | PLACE_SEARCH_DOWN \<Rightarrow> n \<le> unat address
         \<and> (am_high m < address \<longrightarrow> unat (am_low m) + n \<le> unat (am_high m)))"

lemma unat_rounded_size:
  assumes "unat sz \<le> 0xfffff000"
  shows "unat (PAGE_ALIGN (sz + KPAGE_SIZE - 1)) = round_up (unat sz)"
proof -
  have "sz + KPAGE_SIZE - 1 = 4095 + sz" by simp
  moreover have "unat (4095 + sz) = unat sz + 4095" using assms unat_plus_no_wrap [of 4095 sz] by simp
  ultimately show ?thesis by (simp add: unat_PAGE_ALIGN round_up_def minus_mod_eq_div_mult)
qed

lemma round_up_bounds: "0 < n \<Longrightarrow> n \<le> round_up n \<and> round_up n < n + 4096 \<and> 4096 dvd round_up n \<and> 0 < round_up n"
  unfolding round_up_def using div_mult_mod_eq [of "n + 4095" 4096] mod_less_divisor [of 4096 "n + 4095"]
  by auto

lemma search_up_ok:
  assumes "area_map_ok m" "placeable m PLACE_SEARCH_UP address (unat sz)" "4096 dvd unat sz" "0 < sz"
    "search_up m address sz = Some r"
  shows "placed_ok sz (unat (am_low m)) (unat (am_high m)) (area_list m) r
    \<and> PAGE_ALIGN address \<le> low_address (fst (snd r))"
proof -
  let ?a = "PAGE_ALIGN address"
  have m: "4096 dvd unat (am_low m)" "areas_within (unat (am_low m)) (unat (am_high m)) (area_list m)"
    "unat (am_low m) < unat (am_high m)" using assms(1) by (auto simp: area_map_ok_def word_less_nat_alt)
  have p: "unat (am_low m) \<le> unat address" "unat address + unat sz < 4294967296"
    "\<forall>a\<in>set (area_list m). hi a = 4294967295 \<longrightarrow> ?a \<le> low_address a"
    using assms(2) by (simp_all add: placeable_def word_le_nat_alt)
  have "unat (am_low m) \<le> unat ?a"
    by (rule aligned_le) (use m(1) p(1) unat_PAGE_ALIGN [of address] in \<open>auto simp: le_diff_conv\<close>)
  moreover have "unat ?a \<le> unat address" by (rule PAGE_ALIGN_le)
  moreover have "unat address + unat sz \<le> unat (am_high m)"
    using assms(5) p(2) unat_plus_no_wrap [of address sz] by (auto simp: search_up_def word_less_nat_alt split: if_splits)
  ultimately have a: "unat (am_low m) \<le> unat ?a" "unat ?a + unat sz \<le> unat (am_high m)" by linarith+
  have addr: "(if address < am_low m then am_low m else address) = address" using p(1) by (simp add: word_less_nat_alt)
  show ?thesis
  proof (cases "area_list m = []")
    case True
    then have "r = ([], alloc_area ?a sz, [])" using assms(5) addr by (simp add: search_up_def Let_def split: if_splits)
    moreover have "area_ok (alloc_area ?a sz)" "lo (alloc_area ?a sz) = unat ?a" "hi (alloc_area ?a sz) + 1 = unat ?a + unat sz"
      using alloc_area_ok [of ?a sz] assms(3,4) a(2) unat_u32_bound [of "am_high m"] by simp_all
    ultimately show ?thesis using True a by (auto simp: placed_ok_def areas_within_Cons alloc_area_def)
  next
    case False
    then have "skip_up (am_high m) ?a sz (am_low m) (area_list m) = Some r"
      using assms(5) addr by (simp add: search_up_def Let_def split: if_splits)
    then show ?thesis
      by (rule skip_up_ok [where p = "unat (am_low m)"])
        (use m a p(3) assms(3,4) unat_u32_bound [of "am_low m"] in \<open>auto simp: word_le_nat_alt\<close>)
  qed
qed

lemma search_down_ok:
  assumes "area_map_ok m" "placeable m PLACE_SEARCH_DOWN address (unat sz)" "4096 dvd unat sz" "0 < sz"
    "search_down m address sz = Some r"
  shows "placed_ok sz (unat (am_low m)) (unat (am_high m)) (area_list m) r
    \<and> high_address (fst (snd r)) \<le> address"
proof -
  define c where "c = (if am_high m < address then am_high m else address)"
  define A where "A = (if c = 0xffffffff then 4294967296 else unat (PAGE_ALIGN (c + 1)))"
  have m: "4096 dvd unat (am_low m)" "areas_within (unat (am_low m)) (unat (am_high m)) (area_list m)"
    "unat (am_low m) < unat (am_high m)" "0 < am_low m" "4096 dvd unat (am_high m) + 1"
    using assms(1) by (auto simp: area_map_ok_def word_less_nat_alt)
  have p: "unat sz \<le> unat address" "am_high m < address \<Longrightarrow> unat (am_low m) + unat sz \<le> unat (am_high m)"
    "c \<le> am_high m" "c \<le> address" using assms(2) by (auto simp: placeable_def c_def)
  have "unat (am_low m) + unat sz \<le> unat address"
    using assms(5) p(1) by (auto simp: search_down_def word_less_nat_alt unat_minus_no_wrap split: if_splits)
  then have low: "unat (am_low m) + unat sz \<le> unat c" using p(2) by (simp add: c_def)
  have addr: "PAGE_ALIGN ((if am_high m < address then am_high m else address) + 1) - 1 = of_nat A - 1"
    unfolding c_def [symmetric] by (auto simp: A_def PAGE_ALIGN_def)
  have A: "4096 dvd A" "A \<le> unat c + 1" "unat (am_low m) + unat sz \<le> A" "A \<le> 4294967296"
  proof -
    have nxt: "unat (c + 1) = unat c + 1" if "c \<noteq> 0xffffffff"
    proof -
      have "unat c \<noteq> 4294967295" using that by (simp add: word_unat_eq_iff)
      then show ?thesis using unat_u32_bound [of c] unat_plus_no_wrap [of c 1] by simp
    qed
    show "4096 dvd A" by (simp add: A_def)
    show "A \<le> unat c + 1" using nxt PAGE_ALIGN_le [of "c + 1"] by (auto simp: A_def)
    show "A \<le> 4294967296" using unat_u32_bound [of "PAGE_ALIGN (c + 1)"] by (simp add: A_def)
    have "unat (am_low m) + unat sz \<le> A + 4095"
    proof (cases "c = 0xffffffff")
      case True
      then show ?thesis using low unat_u32_bound [of c] by (simp add: A_def)
    next
      case False
      then have "A = unat (c + 1) - unat (c + 1) mod 4096" by (simp add: A_def unat_PAGE_ALIGN)
      then show ?thesis using low nxt [OF False] mod_less_divisor [of 4096 "unat (c + 1)"] by linarith
    qed
    then show "unat (am_low m) + unat sz \<le> A"
      using aligned_le [of "unat (am_low m) + unat sz" A] m(1) assms(3) \<open>4096 dvd A\<close> by simp
  qed
  have ml: "0 < unat (am_low m)" using m(4) by (simp add: word_less_nat_alt)
  have Ale: "of_nat A - 1 \<le> c" using A ml by (simp add: word_le_nat_alt pred_less)
  show ?thesis
  proof (cases "area_list m = []")
    case True
    then have "r = ([], alloc_area (of_nat A - 1 - sz + 1) sz, [])"
      using assms(5) addr by (simp add: search_down_def Let_def split: if_splits)
    moreover have "placed_below_ok sz (unat (am_low m)) A [] ([], alloc_area (of_nat A - 1 - sz + 1) sz, [])"
      by (rule hole_below [where q = "unat (am_low m)"]) (use A assms(3,4) in auto)
    ultimately show ?thesis
      using True A(2) p(3,4) by (auto simp: placed_ok_def placed_below_ok_def areas_below_Cons areas_within_Cons word_le_nat_alt)
  next
    case False
    then obtain q where q: "skip_down (am_low m) (of_nat A - 1) sz (am_high m) (rev (area_list m)) = Some q"
      "r = (case q of (after, new, before) \<Rightarrow> (rev before, new, rev after))"
      using assms(5) addr by (auto simp: search_down_def Let_def split: if_splits)
    have e: "am_high m = of_nat (unat (am_high m) + 1) - 1" by simp
    have "placed_below_ok sz (unat (am_low m)) (unat (am_high m) + 1) (rev (area_list m)) q
        \<and> high_address (fst (snd q)) \<le> of_nat A - 1"
      using q(1) by (rule skip_down_ok [OF _ _ e refl])
        (use m A assms(3,4) unat_u32_bound [of "am_high m"] in \<open>auto simp: areas_below_rev\<close>)
    then show ?thesis using order_trans [OF _ order_trans [OF Ale p(4)]] unfolding q(2)
      by (auto simp: placed_below_ok_def placed_ok_def rev_swap areas_below_rev [symmetric] split: prod.splits)
  qed
qed

lemma insert_fixed_ok:
  assumes "area_map_ok m" "4096 dvd unat address" "4096 dvd unat sz" "0 < sz"
  shows "case insert_fixed m address sz of
      None \<Rightarrow> \<not> (am_low m \<le> address \<and> unat address + unat sz \<le> unat (am_high m) + 1
                \<and> range_free (unat address) (unat address + unat sz) (area_list m))
    | Some r \<Rightarrow> am_low m \<le> address \<and> unat address + unat sz \<le> unat (am_high m) + 1
        \<and> range_free (unat address) (unat address + unat sz) (area_list m)
        \<and> placed_ok sz (unat (am_low m)) (unat (am_high m)) (area_list m) r \<and> low_address (fst (snd r)) = address"
proof -
  have m: "areas_within (unat (am_low m)) (unat (am_high m)) (area_list m)" using assms(1) by (simp add: area_map_ok_def)
  have s: "0 < unat sz" using assms(4) by (simp add: word_less_nat_alt)
  have in_range: "am_high m < address + sz - 1 \<or> address + sz - 1 < address \<longleftrightarrow> unat (am_high m) + 1 < unat address + unat sz"
  proof (cases "unat address + unat sz \<le> 4294967296")
    case True
    then have "unat (address + sz - 1) + 1 = unat address + unat sz"
      using alloc_area_ok(3) [of address sz] assms by (simp add: alloc_area_def)
    then show ?thesis using s by (auto simp: word_less_nat_alt)
  next
    case False
    have "unat (sz - 1) = unat sz - 1" using s by (simp add: unat_minus_no_wrap)
    then have "unat (address + (sz - 1)) = (unat address + (unat sz - 1)) mod 4294967296" by (simp add: unat_word_ariths)
    then have "unat (address + sz - 1) = unat address + unat sz - 1 - 4294967296"
      using False unat_u32_bound [of address] unat_u32_bound [of sz] by (simp add: le_mod_geq add_diff_eq)
    then have "address + sz - 1 < address" using unat_u32_bound [of sz] False by (simp add: word_less_nat_alt)
    then show ?thesis using False unat_u32_bound [of "am_high m"] by auto
  qed
  show ?thesis
  proof (cases "am_low m \<le> address \<and> unat address + unat sz \<le> unat (am_high m) + 1")
    case False
    then show ?thesis using in_range by (auto simp: insert_fixed_def)
  next
    case True
    have "case fixed_slot address sz (am_low m) (area_list m) of
      None \<Rightarrow> \<not> (unat (am_low m) \<le> unat address \<and> range_free (unat address) (unat address + unat sz) (area_list m))
    | Some r \<Rightarrow> range_free (unat address) (unat address + unat sz) (area_list m)
        \<and> placed_ok sz (unat (am_low m)) (unat (am_high m)) (area_list m) r \<and> low_address (fst (snd r)) = address"
      by (rule fixed_slot_result [OF m]) (use assms True unat_u32_bound [of "am_high m"] in \<open>auto simp: word_le_nat_alt\<close>)
    moreover have "insert_fixed m address sz = fixed_slot address sz (am_low m) (area_list m)"
      using True in_range by (auto simp: insert_fixed_def)
    ultimately show ?thesis using True by (auto simp: word_le_nat_alt split: option.splits)
  qed
qed

subsection \<open>Correctness of placement and lookup\<close>

lemma find_within:
  assumes "areas_within p h (xs @ new # ys)" "P = (\<lambda>area. low_address area \<le> x \<and> x \<le> high_address area)"
  shows "find P (xs @ new # ys) = (if P new then Some new else find P (xs @ ys))"
proof -
  have "\<not> P a" if "P new" "a \<in> set xs" for a
    using assms that by (auto simp: areas_within_append word_le_nat_alt)
  then show ?thesis by (induction xs) (auto split: if_splits)
qed

lemma placed_map_ok:
  assumes "area_map_ok m" "placed_ok sz (unat (am_low m)) (unat (am_high m)) (area_list m) (xs, new, ys)"
    "area = new\<lparr>area_name := nm, area_flags := fl, area_cache := None, area_cache_offset := 0, area_cache_length := 0\<rparr>"
  shows "area_map_ok (m\<lparr>area_list := xs @ area # ys\<rparr>)
    \<and> lookup_area (m\<lparr>area_list := xs @ area # ys\<rparr>) x
        = (if low_address area \<le> x \<and> x \<le> high_address area then Some area else lookup_area m x)
    \<and> hi area + 1 = lo area + unat sz"
proof -
  have w: "areas_within (unat (am_low m)) (unat (am_high m)) (xs @ area # ys)" "area_list m = xs @ ys"
    "hi area + 1 = lo area + unat sz"
    using assms(2,3) by (auto simp: placed_ok_def areas_within_append areas_within_Cons area_ok_def)
  show ?thesis
    using assms(1) w find_within [OF w(1) refl, of x] by (simp add: area_map_ok_def lookup_area_def)
qed

lemma create_vm_area_placed:
  assumes ok: "area_map_ok m" and sz: "0 < sz" "unat sz \<le> 0xfffff000"
    and place: "placeable m place address (round_up (unat sz))"
    and created: "create_vm_area m address sz place name flags = Some (area, m')"
  shows "area_map_ok m'
    \<and> lookup_area m' x = (if low_address area \<le> x \<and> x \<le> high_address area then Some area else lookup_area m x)
    \<and> hi area + 1 = lo area + round_up (unat sz)
    \<and> (case place of PLACE_EXACT \<Rightarrow> low_address area = address
        | PLACE_SEARCH_UP \<Rightarrow> PAGE_ALIGN address \<le> low_address area
        | PLACE_SEARCH_DOWN \<Rightarrow> high_address area \<le> address)"
proof -
  define n where "n = PAGE_ALIGN (sz + KPAGE_SIZE - 1)"
  have u: "unat n = round_up (unat sz)" unfolding n_def using sz(2) by (rule unat_rounded_size)
  have pos: "0 < unat sz" using sz(1) by (simp add: word_less_nat_alt)
  have n0: "4096 dvd unat n" "0 < n" using round_up_bounds [OF pos] u by (simp_all add: word_less_nat_alt)
  obtain xs new ys where r: "(case place of PLACE_EXACT \<Rightarrow> insert_fixed m address n
      | PLACE_SEARCH_DOWN \<Rightarrow> search_down m address n | PLACE_SEARCH_UP \<Rightarrow> search_up m address n) = Some (xs, new, ys)"
    and area: "area = new\<lparr>area_name := take 32 name, area_flags := flags, area_cache := None, area_cache_offset := 0, area_cache_length := 0\<rparr>"
    and m': "m' = m\<lparr>area_list := xs @ area # ys\<rparr>"
    using created [unfolded create_vm_area_def Let_def, folded n_def] by auto
  have "placed_ok n (unat (am_low m)) (unat (am_high m)) (area_list m) (xs, new, ys)
    \<and> (case place of PLACE_EXACT \<Rightarrow> low_address area = address
        | PLACE_SEARCH_UP \<Rightarrow> PAGE_ALIGN address \<le> low_address area
        | PLACE_SEARCH_DOWN \<Rightarrow> high_address area \<le> address)"
  proof (cases place)
    case PLACE_EXACT
    then show ?thesis using insert_fixed_ok [OF ok _ n0, of address] place r area by (simp add: placeable_def)
  next
    case PLACE_SEARCH_DOWN
    then show ?thesis using search_down_ok [OF ok _ n0, of address "(xs, new, ys)"] place r area u by simp
  next
    case PLACE_SEARCH_UP
    then show ?thesis using search_up_ok [OF ok _ n0, of address "(xs, new, ys)"] place r area u by simp
  qed
  then show ?thesis using placed_map_ok [OF ok _ area, of n xs ys x] u m' by simp
qed


definition sample_map :: vm_area_map where
  "sample_map = \<lparr>am_low = 0x1000, am_high = 0xbfffffff, area_list = [alloc_area 0x10000 0x2000]\<rparr>"

lemma sample_map_ok: "area_map_ok sample_map"
  by (simp add: area_map_ok_def sample_map_def areas_within_def area_ok_def alloc_area_def)

lemma sample_map_bounds: "am_low sample_map = 0x1000" "am_high sample_map = 0xbfffffff"
  by (simp_all add: sample_map_def)


lemma create_exact_free:
  assumes "area_map_ok m" "0 < sz" "unat sz \<le> 0xfffff000" "4096 dvd unat address"
  shows "create_vm_area m address sz PLACE_EXACT name flags \<noteq> None \<longleftrightarrow>
    am_low m \<le> address \<and> unat address + round_up (unat sz) \<le> unat (am_high m) + 1
    \<and> range_free (unat address) (unat address + round_up (unat sz)) (area_list m)"
proof -
  let ?n = "PAGE_ALIGN (sz + KPAGE_SIZE - 1)"
  have u: "unat ?n = round_up (unat sz)" using assms(3) by (rule unat_rounded_size)
  have pos: "0 < unat sz" using assms(2) by (simp add: word_less_nat_alt)
  have n: "4096 dvd unat ?n" "0 < ?n" using round_up_bounds [OF pos] u by (simp_all add: word_less_nat_alt)
  show ?thesis
    using insert_fixed_ok [OF assms(1,4) n] u by (auto simp: create_vm_area_def Let_def split: option.splits)
qed

text \<open>
  an exact placement fails only when it has to: it succeeds if and only if the page aligned range
  lies in the map and overlaps no existing area.
\<close>

theorem create_exact_iff_free:
  assumes "area_map_ok m" "0 < sz" "unat sz \<le> 0xfffff000" "4096 dvd unat address"
  shows "create_vm_area m address sz PLACE_EXACT name flags \<noteq> None \<longleftrightarrow>
    am_low m \<le> address \<and> unat address + round_up (unat sz) \<le> unat (am_high m) + 1
    \<and> range_free (unat address) (unat address + round_up (unat sz)) (area_list m)"
  by (rule create_exact_free [OF assms])

theorem create_exact_iff_free_witness:
  "area_map_ok sample_map \<and> create_vm_area sample_map 0x13000 0x1800 PLACE_EXACT ''stack'' 2 \<noteq> None
   \<and> \<not> create_vm_area sample_map 0x11000 0x1800 PLACE_EXACT ''stack'' 2 \<noteq> None"
proof -
  have "range_free 0x13000 0x15000 (area_list sample_map)" "\<not> range_free 0x11000 0x13000 (area_list sample_map)"
    by (simp_all add: range_free_def sample_map_def alloc_area_def)
  then show ?thesis
    using create_exact_iff_free [OF sample_map_ok, of "0x1800" "0x13000" "''stack''" 2]
      create_exact_iff_free [OF sample_map_ok, of "0x1800" "0x11000" "''stack''" 2]
      sample_map_ok by (simp add: round_up_def sample_map_bounds del: not_None_eq)
qed

lemma destroy_vm_area_ok:
  assumes "area_map_ok m" "area \<in> set (area_list m)"
  shows "area_map_ok (destroy_vm_area area m)"
    "lookup_area (destroy_vm_area area m) x = (if lookup_area m x = Some area then None else lookup_area m x)"
proof -
  obtain xs ys where l: "area_list m = xs @ area # ys" using assms(2) by (meson split_list)
  have w: "areas_within (unat (am_low m)) (unat (am_high m)) (xs @ area # ys)" using assms(1) l by (simp add: area_map_ok_def)
  have sep: "hi a < lo area \<or> hi area < lo a" "lo a < hi a" "lo area < hi area" if "a \<in> set (xs @ ys)" for a
    using w that by (auto simp: areas_within_def sorted_wrt_append area_ok_def)
  have ne: "low_address a \<noteq> low_address area" if "a \<in> set (xs @ ys)" for a
    using sep [OF that] by (auto simp: word_unat_eq_iff)
  then have "filter (\<lambda>a. low_address a \<noteq> low_address area) xs = xs" "filter (\<lambda>a. low_address a \<noteq> low_address area) ys = ys"
    by (simp_all add: filter_id_conv)
  then have d: "destroy_vm_area area m = m\<lparr>area_list := xs @ ys\<rparr>" by (simp add: destroy_vm_area_def l)
  then show "area_map_ok (destroy_vm_area area m)"
    using assms(1) w by (simp add: area_map_ok_def areas_within_def sorted_wrt_append)
  let ?P = "\<lambda>a. low_address a \<le> x \<and> x \<le> high_address a"
  have "find ?P (xs @ ys) = None" if "?P area"
  proof -
    have "\<not> ?P a" if "a \<in> set (xs @ ys)" for a
      using sep [OF that] \<open>?P area\<close> by (auto simp: word_le_nat_alt)
    then show ?thesis unfolding find_None_iff by blast
  qed
  moreover have "find ?P (xs @ ys) \<noteq> Some area"
    using ne by (auto simp: find_Some_iff) (metis in_set_conv_nth length_append nth_mem set_append Un_iff)
  ultimately show "lookup_area (destroy_vm_area area m) x = (if lookup_area m x = Some area then None else lookup_area m x)"
    using find_within [OF w refl, of x] by (auto simp: lookup_area_def d l)
qed

end
