(* ===== verification/Kern_Page.thy ===== *)
theory Kern_Page
  imports Kern_Area_Map
begin

text \<open>
  Physical pages: \<open>software/kernel/vm_page.c\<close>. A page is its index in the array of page structures;
  \<open>frames\<close> holds the words of physical memory page by page, which the kernel accesses through its
  alias mapping (\<open>PA_TO_VA\<close>). \<open>panic\<close> ends the kernel and is \<open>Exit_called\<close>. The page lock makes each
  function atomic.
\<close>

record vm_page =
  cache_offset :: u32
  page_cache :: "nat option"
  busy :: bool
  dirty :: bool
  ref_count :: int

record page_state =
  frames :: "nat \<Rightarrow> nat \<Rightarrow> u32"
  pages :: "nat \<Rightarrow> vm_page"
  free_page_list :: "nat list"
  phys_size :: u32

definition num_pages :: "'a page_state_scheme \<Rightarrow> nat" where
  "num_pages s = unat (phys_size s) div 4096"

definition page_to_pa :: "nat \<Rightarrow> u32" where
  "page_to_pa page = of_nat page * 0x1000"

definition pa_to_page :: "u32 \<Rightarrow> 'a page_state_scheme \<Rightarrow> nat cres" where
  "pa_to_page addr s = (if addr < phys_size s then Inr (unat addr div 4096) else Inl Assert_failed)"

text \<open>
  The loop of \<open>vm_page_init\<close> ends before the last page of memory. The page structures lie in memory
  that the boot code has cleared, so their reference counts start at 0.
\<close>

definition vm_page_init :: "nat \<Rightarrow> u32 \<Rightarrow> 'a page_state_scheme \<Rightarrow> 'a page_state_scheme" where
  "vm_page_init boot_pages_used memory s =
     (let added = [boot_pages_used..<unat memory div 4096 - 1] in
      s\<lparr>phys_size := memory, free_page_list := added,
        pages := (\<lambda>p. if p \<in> set added then (pages s p)\<lparr>busy := False, page_cache := None\<rparr> else pages s p)\<rparr>)"

definition vm_allocate_page :: "'a page_state_scheme \<Rightarrow> (nat \<times> 'a page_state_scheme) cres" where
  "vm_allocate_page s = (case free_page_list s of
       [] \<Rightarrow> Inl Exit_called
     | page # rest \<Rightarrow> Inr (page, s\<lparr>free_page_list := rest,
         pages := (pages s)(page := (pages s page)\<lparr>busy := False, page_cache := None, dirty := False, ref_count := 1\<rparr>),
         frames := (frames s)(page := (\<lambda>_. 0))\<rparr>))"

definition inc_page_ref :: "nat \<Rightarrow> 'a page_state_scheme \<Rightarrow> 'a page_state_scheme" where
  "inc_page_ref page s =
     s\<lparr>pages := (pages s)(page := (pages s page)\<lparr>ref_count := ref_count (pages s page) + 1\<rparr>)\<rparr>"

definition dec_page_ref :: "nat \<Rightarrow> 'a page_state_scheme \<Rightarrow> 'a page_state_scheme cres" where
  "dec_page_ref page s =
     (if ref_count (pages s page) \<le> 0 then Inl Assert_failed
      else let s' = s\<lparr>pages := (pages s)(page := (pages s page)\<lparr>ref_count := ref_count (pages s page) - 1\<rparr>)\<rparr>
        in Inr (if ref_count (pages s page) = 1 then s'\<lparr>free_page_list := page # free_page_list s'\<rparr> else s'))"

text \<open>
  The search of \<open>allocate_contiguous_memory\<close>: \<open>find_run\<close> is the outer loop with the scan for the first
  free page, \<open>run_length\<close> the inner loop, which returns the offset of the first page in use. The page
  array has \<open>total_pages\<close> elements. A page without references that is on no list has null links, and
  \<open>list_remove_node\<close> writes through them.
\<close>

fun run_length :: "'a page_state_scheme \<Rightarrow> nat \<Rightarrow> nat \<Rightarrow> nat \<Rightarrow> nat option cres" where
  "run_length s base page_offset 0 = Inr None"
| "run_length s base page_offset (Suc n) =
     (if num_pages s \<le> base + page_offset then Inl Out_of_bounds
      else if 0 < ref_count (pages s (base + page_offset)) then Inr (Some page_offset)
      else run_length s base (Suc page_offset) n)"

function find_run :: "'a page_state_scheme \<Rightarrow> nat \<Rightarrow> nat \<Rightarrow> nat option cres" where
  "find_run s page_count base =
     (if num_pages s \<le> base then Inl Out_of_bounds
      else if 0 < ref_count (pages s base) then
        (if page_count \<le> num_pages s \<and> base = num_pages s - page_count then Inr None
         else find_run s page_count (Suc base))
      else (case run_length s base 1 (page_count - 1) of
          Inl e \<Rightarrow> Inl e
        | Inr None \<Rightarrow> Inr (Some base)
        | Inr (Some page_offset) \<Rightarrow> find_run s page_count (base + page_offset + 1)))"
  by pat_completeness auto

termination
  by (relation "measure (\<lambda>(s, n, base). num_pages s - base)") auto

declare find_run.simps [simp del]

definition allocate_contiguous_memory :: "u32 \<Rightarrow> 'a page_state_scheme \<Rightarrow> (u32 \<times> 'a page_state_scheme) cres" where
  "allocate_contiguous_memory sz s =
     (let page_count = unat ((sz + 0xfff) div 0x1000) in
      bindE (find_run s page_count 0) (\<lambda>found. case found of
          None \<Rightarrow> Inr (0xffffffff, s)
        | Some base \<Rightarrow>
            let run = {base..<base + page_count} in
            if \<not> run \<subseteq> set (free_page_list s) then Inl Out_of_bounds
            else Inr (page_to_pa base,
              s\<lparr>pages := (\<lambda>p. if p \<in> run then (pages s p)\<lparr>ref_count := 1\<rparr> else pages s p),
                free_page_list := filter (\<lambda>p. p \<notin> run) (free_page_list s)\<rparr>)))"

subsection \<open>Ownership of pages\<close>

text \<open>A page on the free list is inside memory and nobody holds a reference to it.\<close>

definition page_state_ok :: "'a page_state_scheme \<Rightarrow> bool" where
  "page_state_ok s \<longleftrightarrow> distinct (free_page_list s)
     \<and> (\<forall>p\<in>set (free_page_list s). 0 < p \<and> p < num_pages s \<and> ref_count (pages s p) = 0)
     \<and> (\<forall>p. 0 \<le> ref_count (pages s p))"

definition page_in_use :: "'a page_state_scheme \<Rightarrow> nat \<Rightarrow> bool" where
  "page_in_use s p \<longleftrightarrow> 0 < ref_count (pages s p)"

lemma vm_page_init_ok:
  assumes "0 < boot_pages_used" "\<And>p. ref_count (pages s p) = 0"
  shows "page_state_ok (vm_page_init boot_pages_used memory s)"
  using assms by (auto simp: page_state_ok_def vm_page_init_def Let_def num_pages_def)

lemma vm_allocate_page_ok:
  assumes "page_state_ok s" "vm_allocate_page s = Inr (p, s')"
  shows "page_state_ok s'" "p < num_pages s" "0 < p" "\<not> page_in_use s p" "frames s' = (frames s)(p := (\<lambda>_. 0))"
    "free_page_list s = p # free_page_list s'" "phys_size s' = phys_size s" "num_pages s' = num_pages s"
    "\<And>q. page_in_use s' q \<longleftrightarrow> page_in_use s q \<or> q = p" "\<And>q. q \<noteq> p \<Longrightarrow> pages s' q = pages s q"
  using assms by (auto simp: vm_allocate_page_def page_state_ok_def page_in_use_def num_pages_def split: list.splits)

lemma inc_page_ref_ok: "page_state_ok s \<Longrightarrow> page_in_use s p \<Longrightarrow> page_state_ok (inc_page_ref p s)"
  by (auto simp: inc_page_ref_def page_state_ok_def page_in_use_def num_pages_def)

lemma dec_page_ref_ok:
  assumes "page_state_ok s" "page_in_use s p" "0 < p" "p < num_pages s"
  shows "\<exists>s'. dec_page_ref p s = Inr s' \<and> page_state_ok s' \<and> frames s' = frames s"
proof -
  have "p \<notin> set (free_page_list s)" using assms(1,2) by (auto simp: page_state_ok_def page_in_use_def)
  then show ?thesis
    using assms by (auto simp: dec_page_ref_def page_state_ok_def page_in_use_def Let_def num_pages_def)
qed

lemma run_length_free:
  "run_length s base k n = Inr None \<Longrightarrow> i < n \<Longrightarrow> base + k + i < num_pages s \<and> ref_count (pages s (base + k + i)) \<le> 0"
proof (induction n arbitrary: k i)
  case (Suc n)
  then show ?case by (cases i) (auto split: if_splits, fastforce+)
qed simp

lemma find_run_free:
  "find_run s n base = Inr (Some b) \<Longrightarrow> b < num_pages s \<and> base \<le> b \<and> (\<forall>p\<in>{b..<b + n}. p < num_pages s \<and> ref_count (pages s p) \<le> 0)"
proof (induction s n base rule: find_run.induct)
  case (1 s n base)
  show ?case
  proof (cases "num_pages s \<le> base \<or> 0 < ref_count (pages s base)")
    case True
    then show ?thesis using 1 by (auto simp: find_run.simps [of s n base] split: if_splits)
  next
    case False
    show ?thesis
    proof (cases "run_length s base 1 (n - 1)")
      case (Inr r)
      show ?thesis
      proof (cases r)
        case None
        then have b: "b = base" using 1(3) False Inr by (simp add: find_run.simps [of s n base])
        have "p < num_pages s \<and> ref_count (pages s p) \<le> 0" if "p \<in> {base..<base + n}" for p
        proof (cases "p = base")
          case ne: False
          then have "p = base + 1 + (p - base - 1)" "p - base - 1 < n - 1" using that by auto
          then show ?thesis using run_length_free [of s base 1 "n - 1" "p - base - 1"] Inr None by metis
        qed (use False in auto)
        then show ?thesis using b False by auto
      next
        case (Some k)
        then have "find_run s n (base + k + 1) = Inr (Some b)" using 1(3) False Inr by (simp add: find_run.simps [of s n base])
        then show ?thesis using 1(2) [of "Some k" k] False Inr Some by fastforce
      qed
    qed (use 1(3) False in \<open>simp add: find_run.simps [of s n base]\<close>)
  qed
qed

lemma allocate_contiguous_memory_ok:
  assumes "page_state_ok s" "allocate_contiguous_memory sz s = Inr (pa, s')" "pa \<noteq> 0xffffffff"
  shows "\<exists>b. pa = page_to_pa b \<and> (\<forall>p\<in>{b..<b + unat ((sz + 0xfff) div 0x1000)}. p \<in> set (free_page_list s) \<and> \<not> page_in_use s p)
    \<and> page_state_ok s'"
proof -
  obtain b where b: "find_run s (unat ((sz + 0xfff) div 0x1000)) 0 = Inr (Some b)" "pa = page_to_pa b"
      "{b..<b + unat ((sz + 0xfff) div 0x1000)} \<subseteq> set (free_page_list s)"
    and s': "page_state_ok s'"
    using assms by (auto simp: allocate_contiguous_memory_def Let_def bindE_eq_Inr page_state_ok_def num_pages_def
        split: option.splits if_splits)
  then show ?thesis using assms(1) by (intro exI [of _ b]) (auto simp: page_state_ok_def page_in_use_def)
qed

text \<open>
  \<open>allocate_contiguous_memory\<close> takes the pages that the boot code occupies for free, because their
  reference counts are never set: right after initialisation any allocation that fits in them starts
  with page 0, which is on no list, and the removal from the free list follows null links.
\<close>

theorem contiguous_allocation_takes_boot_pages:
  assumes "\<And>p. ref_count (pages s p) = 0" "0 < boot_pages_used" "boot_pages_used < unat memory div 4096"
    and "0 < unat ((sz + 0xfff) div 0x1000)" "unat ((sz + 0xfff) div 0x1000) \<le> boot_pages_used"
  shows "allocate_contiguous_memory sz (vm_page_init boot_pages_used memory s) = Inl Out_of_bounds"
proof -
  let ?s = "vm_page_init boot_pages_used memory s" and ?n = "unat ((sz + 0xfff) div 0x1000)"
  have np: "num_pages ?s = unat memory div 4096" by (simp add: num_pages_def vm_page_init_def Let_def)
  have rc: "ref_count (pages ?s p) = 0" for p using assms(1) by (simp add: vm_page_init_def Let_def)
  have "run_length ?s 0 k m = Inr None" if "k + m \<le> boot_pages_used" for k m
    using that by (induction m arbitrary: k) (use np rc assms(3) in \<open>auto\<close>)
  then have "run_length ?s 0 1 (?n - 1) = Inr None" using assms(4,5) by simp
  then have "find_run ?s ?n 0 = Inr (Some 0)" using np rc assms(2,3) by (simp add: find_run.simps [of _ _ 0])
  moreover have "0 \<notin> set (free_page_list ?s)" using assms(2) by (simp add: vm_page_init_def Let_def)
  ultimately show ?thesis using assms(4) by (auto simp: allocate_contiguous_memory_def Let_def)
qed

theorem contiguous_allocation_takes_boot_pages_witness:
  "let s = \<lparr>frames = (\<lambda>_ _. 0), pages = (\<lambda>_. \<lparr>cache_offset = 0, page_cache = None, busy = False, dirty = False, ref_count = 0\<rparr>),
            free_page_list = [], phys_size = 0\<rparr>
   in allocate_contiguous_memory 0x2000 (vm_page_init 64 0x1000000 s) = Inl Out_of_bounds"
proof -
  define s where "s = \<lparr>frames = (\<lambda>_ _. 0), pages = (\<lambda>_. \<lparr>cache_offset = 0, page_cache = None, busy = False, dirty = False, ref_count = 0\<rparr>),
            free_page_list = [], phys_size = 0\<rparr>"
  have "ref_count (pages s p) = 0" for p by (simp add: s_def)
  then show ?thesis
    unfolding Let_def s_def [symmetric]
    using contiguous_allocation_takes_boot_pages [of s 64 "0x1000000" "0x2000"] by simp
qed

end
