(* ===== verification/Kern_Bitmap.thy ===== *)
theory Kern_Bitmap
  imports Nyuzi_Prelude
begin

text \<open>
  The bitmap allocator of \<open>software/kernel/util.c\<close>, which hands out address space identifiers.
  Index 0 is the most significant bit of the first word.
\<close>

function bitmap_scan :: "u32 list \<Rightarrow> nat \<Rightarrow> nat \<Rightarrow> nat option cres" where
  "bitmap_scan array num_bits wordindex =
     (if length array \<le> wordindex then Inl Out_of_bounds
      else if array ! wordindex = 0xffffffff then
        (if Suc wordindex = num_bits div 32 then Inr None
         else bitmap_scan array num_bits (Suc wordindex))
      else Inr (Some wordindex))"
  by pat_completeness auto

termination
  by (relation "measure (\<lambda>(array, n, i). length array - i)") auto

declare bitmap_scan.simps [simp del]

definition bitmap_alloc :: "u32 list \<Rightarrow> nat \<Rightarrow> (nat option \<times> u32 list) cres" where
  "bitmap_alloc array num_bits =
     bindE (bitmap_scan array num_bits 0) (\<lambda>found. Inr (case found of
         None \<Rightarrow> (None, array)
       | Some wordindex \<Rightarrow>
           let bitindex = builtin_clz (NOT (array ! wordindex))
           in (Some (wordindex * 32 + bitindex),
               array[wordindex := array ! wordindex OR drop_bit bitindex 0x80000000])))"

definition bitmap_free :: "u32 list \<Rightarrow> nat \<Rightarrow> u32 list cres" where
  "bitmap_free array index =
     (if index div 32 < length array
      then Inr (array[index div 32 := array ! (index div 32) AND NOT (drop_bit (index mod 32) 0x80000000)])
      else Inl Out_of_bounds)"

text \<open>The specification: the set of indices in use.\<close>

definition in_use :: "u32 list \<Rightarrow> nat set" where
  "in_use array = {i. i < 32 * length array \<and> bit (array ! (i div 32)) (31 - i mod 32)}"

lemma bit_top: "bit (0x80000000 :: u32) i \<longleftrightarrow> i = 31"
proof -
  have "(0x80000000 :: u32) = push_bit 31 1" by simp
  then show ?thesis by (simp only: bit_push_bit_iff bit_1_iff) auto
qed

lemma bit_selector: "k < 32 \<Longrightarrow> bit (drop_bit k 0x80000000 :: u32) i \<longleftrightarrow> i = 31 - k"
  by (simp only: bit_drop_bit_eq comp_def bit_top) linarith

lemma not_full: "(x :: u32) \<noteq> 0xffffffff \<Longrightarrow> NOT x \<noteq> 0"
proof
  assume "x \<noteq> 0xffffffff" "NOT x = 0"
  then have "x = NOT 0" by (metis bit.double_compl)
  then show False using \<open>x \<noteq> 0xffffffff\<close> by simp
qed

lemma bit_full: "i < 32 \<Longrightarrow> bit (0xffffffff :: u32) i"
proof -
  have "(0xffffffff :: u32) = mask 32" by (simp add: mask_eq_exp_minus_1)
  then show "i < 32 \<Longrightarrow> bit (0xffffffff :: u32) i" by (simp only: bit_mask_iff) simp
qed

lemma bitmap_scan_result:
  assumes "length array = num_bits div 32" "i < length array" "\<forall>j<i. array ! j = 0xffffffff"
  shows "(bitmap_scan array num_bits i = Inr None \<and> (\<forall>j<length array. array ! j = 0xffffffff))
    \<or> (\<exists>w. bitmap_scan array num_bits i = Inr (Some w) \<and> w < length array \<and> array ! w \<noteq> 0xffffffff
        \<and> (\<forall>j<w. array ! j = 0xffffffff))"
  using assms
proof (induction array num_bits i rule: bitmap_scan.induct)
  case (1 array n i)
  show ?case
  proof (cases "array ! i = 0xffffffff")
    case True
    then have full: "\<forall>j<Suc i. array ! j = 0xffffffff" using 1(4) by (auto simp: less_Suc_eq)
    show ?thesis
    proof (cases "Suc i = n div 32")
      case False
      with True full 1 show ?thesis by (simp add: bitmap_scan.simps [of array n i])
    qed (use True full 1 in \<open>simp add: bitmap_scan.simps [of array n i]\<close>)
  qed (use 1 in \<open>simp add: bitmap_scan.simps [of array n i]\<close>)
qed

lemma in_use_update:
  assumes "w < length array" "k < 32"
  shows "in_use (array[w := array ! w OR drop_bit k 0x80000000]) = insert (w * 32 + k) (in_use array)"
    (is "in_use ?a' = _")
proof (rule set_eqI)
  fix i
  show "i \<in> in_use ?a' \<longleftrightarrow> i \<in> insert (w * 32 + k) (in_use array)"
  proof (cases "i div 32 = w")
    case True
    then have "i = w * 32 + i mod 32" by auto
    moreover have "31 - i mod 32 = 31 - k \<longleftrightarrow> i mod 32 = k"
      using assms(2) mod_less_divisor [of 32 i] by linarith
    moreover have "i = w * 32 + k \<longleftrightarrow> i mod 32 = k"
      using True assms(2) by (metis add_left_cancel calculation(1))
    moreover have "i < 32 * length array" using True assms(1) by (simp add: div_less_iff_less_mult mult.commute)
    ultimately show ?thesis using True assms by (simp add: in_use_def bit_or_iff bit_selector) blast
  next
    case False
    then have "i \<noteq> w * 32 + k" using assms(2) by auto
    with False show ?thesis by (simp add: in_use_def)
  qed
qed

text \<open>
  \<open>bitmap_alloc\<close> hands out the lowest free index, marks exactly that one as used and reports -1
  only when every index is in use; \<open>bitmap_free\<close> undoes it.
\<close>

theorem bitmap_alloc_lowest_free:
  assumes "length array = num_bits div 32" "array \<noteq> []"
  shows "\<exists>r array'. bitmap_alloc array num_bits = Inr (r, array') \<and> (case r of
       None \<Rightarrow> array' = array \<and> in_use array = {..<32 * length array}
     | Some k \<Rightarrow> k < 32 * length array \<and> k \<notin> in_use array \<and> {..<k} \<subseteq> in_use array
         \<and> in_use array' = insert k (in_use array) \<and> bitmap_free array' k = Inr array)"
proof -
  have below: "i \<in> in_use array" if "i < 32 * w" "\<forall>j<w. array ! j = 0xffffffff" "w \<le> length array" for i w
  proof -
    have "i div 32 < w" "i < 32 * length array" using that by (auto simp: less_mult_imp_div_less mult.commute)
    with that(2) show ?thesis using bit_full [of "31 - i mod 32"] by (simp add: in_use_def del: bit_numeral_word_iff)
  qed
  from bitmap_scan_result [OF assms(1), of 0] assms(2) consider
    (full) "bitmap_scan array num_bits 0 = Inr None" "\<forall>j<length array. array ! j = 0xffffffff"
  | (found) w where "bitmap_scan array num_bits 0 = Inr (Some w)" "w < length array"
      "array ! w \<noteq> 0xffffffff" "\<forall>j<w. array ! j = 0xffffffff" by auto
  then show ?thesis
  proof cases
    case full
    have "in_use array = {..<32 * length array}" using below full(2) by (auto simp: in_use_def)
    then show ?thesis by (simp add: bitmap_alloc_def full(1))
  next
    case found
    define x where "x = array ! w"
    define k where "k = builtin_clz (NOT x)"
    note top = builtin_clz_top [OF not_full [OF found(3)], folded x_def, folded k_def]
    have k: "k < 32" "\<not> bit x (31 - k)" using top(1,2) by (simp_all add: bit_not_iff)
    have low: "bit x (31 - j)" if "j < k" for j
    proof (rule ccontr)
      assume "\<not> bit x (31 - j)"
      then have "bit (NOT x) (31 - j)" by (simp add: bit_not_iff)
      from top(3) [OF this] that k(1) show False by linarith
    qed
    have sub: "{..<w * 32 + k} \<subseteq> in_use array"
    proof
      fix i assume "i \<in> {..<w * 32 + k}"
      then show "i \<in> in_use array"
      proof (cases "i < 32 * w")
        case False
        then obtain j where j: "i = w * 32 + j" "j < k"
          using \<open>i \<in> {..<w * 32 + k}\<close> by (metis add_less_cancel_left le_Suc_ex lessThan_iff mult.commute not_less)
        then have "i div 32 = w" "i mod 32 = j" "i < 32 * length array" using found(2) k(1) by simp_all
        then show ?thesis using low [OF j(2)] by (simp add: in_use_def x_def)
      qed (use below [of i w] found in simp)
    qed
    have restore: "(x OR drop_bit k 0x80000000) AND NOT (drop_bit k 0x80000000) = x"
      by (rule bit_word_eqI) (auto simp: bit_and_iff bit_or_iff bit_not_iff bit_selector k)
    have idx: "(w * 32 + k) div 32 = w" "(w * 32 + k) mod 32 = k" using k(1) by simp_all
    have "w * 32 + k < 32 * length array" using found(2) k(1) by linarith
    moreover have "w * 32 + k \<notin> in_use array" using k by (simp add: in_use_def idx x_def)
    moreover have "bitmap_free (array[w := x OR drop_bit k 0x80000000]) (w * 32 + k) = Inr array"
      using found(2) restore k(1) by (simp add: bitmap_free_def idx) (simp add: x_def)
    ultimately show ?thesis
      using found(2) sub in_use_update [OF found(2) k(1)]
      by (simp add: bitmap_alloc_def found(1) Let_def x_def [symmetric] k_def [symmetric])
  qed
qed

theorem bitmap_alloc_lowest_free_witness:
  "length [0xffffffff :: u32, 0xa0000000] = 64 div 32 \<and>
   (\<exists>r array'. bitmap_alloc [0xffffffff, 0xa0000000] 64 = Inr (r, array') \<and> r = Some 33 \<and> bitmap_free array' 33 = Inr [0xffffffff, 0xa0000000])"
proof -
  have "bitmap_alloc [0xffffffff, 0xa0000000] 64 = Inr (Some 33, [0xffffffff, 0xe0000000])" by code_simp
  then show ?thesis using bitmap_alloc_lowest_free [of "[0xffffffff, 0xa0000000]" 64] by simp
qed

end
