(* ===== verification/Kern_Translation.thy ===== *)
theory Kern_Translation
  imports Kern_Page Kern_Bitmap
begin

text \<open>
  The two-level page tables of \<open>software/kernel/vm_translation_map.c\<close>, in the words of physical memory
  (\<open>frames\<close>). Tables are page aligned and accessed through the alias mapping, which covers the pages
  below \<open>num_pages\<close>. The \<open>tlbinval\<close> instructions are recorded in \<open>tlb_invalidated\<close>. Locks make each
  function atomic.
\<close>

abbreviation (input) KERNEL_BASE :: u32 where "KERNEL_BASE \<equiv> 0xc0000000"
abbreviation (input) PAGE_PRESENT :: u32 where "PAGE_PRESENT \<equiv> 1"
abbreviation (input) PAGE_WRITABLE :: u32 where "PAGE_WRITABLE \<equiv> 2"
abbreviation (input) PAGE_EXECUTABLE :: u32 where "PAGE_EXECUTABLE \<equiv> 4"
abbreviation (input) PAGE_SUPERVISOR :: u32 where "PAGE_SUPERVISOR \<equiv> 8"
abbreviation (input) PAGE_GLOBAL :: u32 where "PAGE_GLOBAL \<equiv> 16"
abbreviation (input) MAX_ASIDS :: nat where "MAX_ASIDS \<equiv> 64"

record vm_translation_map =
  page_dir :: u32
  map_asid :: "nat option"

record translation_state = page_state +
  kernel_dir :: u32
  maps :: "nat \<Rightarrow> vm_translation_map"
  map_list :: "nat list"
  asid_alloc :: "u32 list"
  tlb_invalidated :: "u32 list"
  cr_page_dir :: u32
  cr_asid :: "nat option"

definition pgd_index :: "u32 \<Rightarrow> nat" where "pgd_index va = unat va div 4096 div 1024"
definition pgt_index :: "u32 \<Rightarrow> nat" where "pgt_index va = unat va div 4096 mod 1024"

definition read_entry :: "u32 \<Rightarrow> nat \<Rightarrow> 'a page_state_scheme \<Rightarrow> u32 cres" where
  "read_entry table i s =
     (if unat table div 4096 < num_pages s then Inr (frames s (unat table div 4096) i) else Inl Out_of_bounds)"

definition write_entry :: "u32 \<Rightarrow> nat \<Rightarrow> u32 \<Rightarrow> 'a page_state_scheme \<Rightarrow> 'a page_state_scheme cres" where
  "write_entry table i v s =
     (if unat table div 4096 < num_pages s
      then Inr (s\<lparr>frames := (frames s)(unat table div 4096 := (frames s (unat table div 4096))(i := v))\<rparr>)
      else Inl Out_of_bounds)"

definition vm_translation_map_init :: "'a translation_state_scheme \<Rightarrow> 'a translation_state_scheme" where
  "vm_translation_map_init s = s\<lparr>map_list := [], kernel_dir := cr_page_dir s\<rparr>"

text \<open>\<open>m\<close> is the structure that the slab allocator returns.\<close>

definition create_translation_map :: "nat \<Rightarrow> 'a translation_state_scheme \<Rightarrow> 'a translation_state_scheme cres" where
  "create_translation_map m s =
     bindE (vm_allocate_page s) (\<lambda>(page, s1).
       if num_pages s1 \<le> unat (kernel_dir s1) div 4096 then Inl Out_of_bounds
       else let kernel = frames s1 (unat (kernel_dir s1) div 4096);
                s2 = s1\<lparr>frames := (frames s1)(page := (\<lambda>i. if 768 \<le> i \<and> i < 1024 then kernel i else frames s1 page i))\<rparr>
         in bindE (bitmap_alloc (asid_alloc s2) MAX_ASIDS) (\<lambda>(asid, bits).
              Inr (s2\<lparr>maps := (maps s2)(m := \<lparr>page_dir = page_to_pa page, map_asid = asid\<rparr>),
                      asid_alloc := bits, map_list := map_list s2 @ [m]\<rparr>)))"

text \<open>The loop of \<open>destroy_translation_map\<close> over the page tables of user space.\<close>

primrec free_tables :: "nat list \<Rightarrow> u32 \<Rightarrow> 'a translation_state_scheme \<Rightarrow> 'a translation_state_scheme cres" where
  "free_tables [] dir s = Inr s"
| "free_tables (i # is) dir s =
     bindE (read_entry dir i s) (\<lambda>e.
       bindE (if e AND PAGE_PRESENT \<noteq> 0
              then bindE (pa_to_page (PAGE_ALIGN e) s) (\<lambda>p. dec_page_ref p s) else Inr s)
         (free_tables is dir))"

definition destroy_translation_map :: "nat \<Rightarrow> 'a translation_state_scheme \<Rightarrow> 'a translation_state_scheme cres" where
  "destroy_translation_map m s =
     (let s1 = s\<lparr>map_list := removeAll m (map_list s)\<rparr> in
      bindE (case map_asid (maps s m) of None \<Rightarrow> Inr (asid_alloc s1) | Some a \<Rightarrow> bitmap_free (asid_alloc s1) a)
        (\<lambda>bits. bindE (free_tables [0..<768] (page_dir (maps s m)) (s1\<lparr>asid_alloc := bits\<rparr>)) (\<lambda>s2.
           bindE (pa_to_page (page_dir (maps s m)) s2) (\<lambda>p. dec_page_ref p s2))))"

text \<open>The last part of \<open>vm_map_page\<close>, common to both branches.\<close>

definition map_in_table :: "u32 \<Rightarrow> u32 \<Rightarrow> u32 \<Rightarrow> 'a translation_state_scheme \<Rightarrow> 'a translation_state_scheme cres" where
  "map_in_table pgdir va pa s =
     bindE (read_entry pgdir (pgd_index va) s) (\<lambda>e.
       bindE (write_entry (PAGE_ALIGN e) (pgt_index va) pa s) (\<lambda>s'.
         Inr (s'\<lparr>tlb_invalidated := va # tlb_invalidated s'\<rparr>)))"

primrec share_table :: "u32 list \<Rightarrow> nat \<Rightarrow> u32 \<Rightarrow> 'a translation_state_scheme \<Rightarrow> 'a translation_state_scheme cres" where
  "share_table [] i v s = Inr s"
| "share_table (d # ds) i v s = bindE (write_entry d i v s) (share_table ds i v)"

text \<open>
  In the kernel branch \<open>pgdir\<close> is afterwards the directory of the last map of the list, or still that
  of the kernel map when the list is empty.
\<close>

definition vm_map_page :: "nat \<Rightarrow> u32 \<Rightarrow> u32 \<Rightarrow> 'a translation_state_scheme \<Rightarrow> 'a translation_state_scheme cres" where
  "vm_map_page m va pa s =
     (if KERNEL_BASE \<le> va then
        bindE (read_entry (kernel_dir s) (pgd_index va) s) (\<lambda>e.
          if e AND PAGE_PRESENT = 0 then
            bindE (vm_allocate_page s) (\<lambda>(page, s1).
              let dirs = map (\<lambda>other. page_dir (maps s1 other)) (map_list s1) in
              bindE (share_table dirs (pgd_index va) (page_to_pa page OR PAGE_PRESENT) s1)
                (map_in_table (last (kernel_dir s1 # dirs)) va pa))
          else map_in_table (kernel_dir s) va pa s)
      else
        let pgdir = page_dir (maps s m) in
        bindE (read_entry pgdir (pgd_index va) s) (\<lambda>e.
          if e AND PAGE_PRESENT = 0 then
            bindE (vm_allocate_page s) (\<lambda>(page, s1).
              bindE (write_entry pgdir (pgd_index va) (page_to_pa page OR PAGE_PRESENT) s1)
                (map_in_table pgdir va pa))
          else map_in_table pgdir va pa s))"

definition query_translation_map :: "nat \<Rightarrow> u32 \<Rightarrow> 'a translation_state_scheme \<Rightarrow> u32 cres" where
  "query_translation_map m va s =
     (let pgdir = (if KERNEL_BASE \<le> va then kernel_dir s else page_dir (maps s m)) in
      bindE (read_entry pgdir (pgd_index va) s) (\<lambda>e.
        if e AND PAGE_PRESENT = 0 then Inr 0 else read_entry (PAGE_ALIGN e) (pgt_index va) s))"

definition switch_to_translation_map :: "nat \<Rightarrow> 'a translation_state_scheme \<Rightarrow> 'a translation_state_scheme" where
  "switch_to_translation_map m s = s\<lparr>cr_page_dir := page_dir (maps s m), cr_asid := map_asid (maps s m)\<rparr>"

subsection \<open>Entries\<close>

lemma unat_drop_12: "unat (drop_bit 12 (x :: u32)) = unat x div 4096"
  by (simp add: drop_bit_eq_div unat_div_distrib)

lemma frame_PAGE_ALIGN [simp]: "unat (PAGE_ALIGN e) div 4096 = unat e div 4096"
  by (simp add: unat_PAGE_ALIGN minus_mod_eq_mult_div)

lemma page_frame:
  assumes "p < 1048576"
  shows "unat (page_to_pa p OR PAGE_PRESENT) div 4096 = p" "unat (page_to_pa p) div 4096 = p"
    "(page_to_pa p OR PAGE_PRESENT) AND PAGE_PRESENT \<noteq> 0"
proof -
  have pa: "page_to_pa p = push_bit 12 (of_nat p)" by (simp add: page_to_pa_def push_bit_eq_mult)
  have u: "unat (page_to_pa p) = p * 4096"
    using assms by (simp add: page_to_pa_def unat_word_ariths unat_of_nat)
  then show f: "unat (page_to_pa p) div 4096 = p" by simp
  have "drop_bit 12 (page_to_pa p OR 1) = drop_bit 12 (page_to_pa p)" by simp
  then show "unat (page_to_pa p OR PAGE_PRESENT) div 4096 = p" using f unat_drop_12 by metis
  have "bit (page_to_pa p OR 1) 0" by (simp add: bit_or_iff)
  then show "(page_to_pa p OR PAGE_PRESENT) AND PAGE_PRESENT \<noteq> 0" by (simp add: bit_0 and_one_eq odd_iff_mod_2_eq_one)
qed

lemma index_inject: "pgd_index va = pgd_index va' \<and> pgt_index va = pgt_index va' \<longleftrightarrow> unat va div 4096 = unat va' div 4096"
  unfolding pgd_index_def pgt_index_def by (metis div_mult_mod_eq)

lemma pgd_index_user: "va < KERNEL_BASE \<Longrightarrow> pgd_index va < 768"
  by (simp add: pgd_index_def word_less_nat_alt div_mult2_eq [symmetric] less_mult_imp_div_less)

text \<open>
  The directory slot that translates an address, the slots that the system owns (the user half of
  every directory on the list and the kernel half of the kernel directory), and the page table that a
  slot points to.
\<close>

definition dir_frames :: "'a translation_state_scheme \<Rightarrow> nat list" where
  "dir_frames s = unat (kernel_dir s) div 4096 # map (\<lambda>m. unat (page_dir (maps s m)) div 4096) (map_list s)"

definition slot_of :: "'a translation_state_scheme \<Rightarrow> nat \<Rightarrow> u32 \<Rightarrow> nat \<times> nat" where
  "slot_of s m va = (unat (if KERNEL_BASE \<le> va then kernel_dir s else page_dir (maps s m)) div 4096, pgd_index va)"

definition slots :: "'a translation_state_scheme \<Rightarrow> (nat \<times> nat) set" where
  "slots s = {(d, i). d = hd (dir_frames s) \<and> 768 \<le> i \<and> i < 1024 \<or> d \<in> set (tl (dir_frames s)) \<and> i < 768}"

definition present :: "'a page_state_scheme \<Rightarrow> nat \<times> nat \<Rightarrow> bool" where
  "present s x \<longleftrightarrow> frames s (fst x) (snd x) AND PAGE_PRESENT \<noteq> 0"

definition table_of :: "'a page_state_scheme \<Rightarrow> nat \<times> nat \<Rightarrow> nat" where
  "table_of s x = unat (frames s (fst x) (snd x)) div 4096"

text \<open>
  No directory and no page table is free, no two slots share a page table, and no page table is a
  directory.
\<close>

definition space_ok :: "'a translation_state_scheme \<Rightarrow> bool" where
  "space_ok s \<longleftrightarrow> page_state_ok s \<and> distinct (dir_frames s)
     \<and> (\<forall>d\<in>set (dir_frames s). d < num_pages s \<and> d \<notin> set (free_page_list s))
     \<and> (\<forall>x\<in>slots s. present s x \<longrightarrow> table_of s x < num_pages s \<and> table_of s x \<notin> set (free_page_list s)
          \<and> table_of s x \<notin> set (dir_frames s))
     \<and> (\<forall>x\<in>slots s. \<forall>y\<in>slots s. present s x \<longrightarrow> present s y \<longrightarrow> table_of s x = table_of s y \<longrightarrow> x = y)"

lemma pgd_index_less: "pgd_index va < 1024"
  using unat_u32_bound [of va] by (simp add: pgd_index_def div_mult2_eq [symmetric] less_mult_imp_div_less)

lemma pgd_index_kernel: "KERNEL_BASE \<le> va \<Longrightarrow> 768 \<le> pgd_index va"
  by (simp add: pgd_index_def word_le_nat_alt div_mult2_eq [symmetric] less_eq_div_iff_mult_less_eq)

lemma slot_of_slots: "KERNEL_BASE \<le> va \<or> m \<in> set (map_list s) \<Longrightarrow> slot_of s m va \<in> slots s"
  using pgd_index_less [of va] pgd_index_kernel [of va] pgd_index_user [of va]
  by (auto simp: slot_of_def slots_def dir_frames_def)

lemma slots_dir: "x \<in> slots s \<Longrightarrow> fst x \<in> set (dir_frames s)"
  by (auto simp: slots_def dir_frames_def)

lemma query_eq:
  assumes "space_ok s" "KERNEL_BASE \<le> va \<or> m \<in> set (map_list s)"
  shows "query_translation_map m va s
    = Inr (if present s (slot_of s m va) then frames s (table_of s (slot_of s m va)) (pgt_index va) else 0)"
proof -
  have x: "slot_of s m va \<in> slots s" using slot_of_slots assms(2) .
  then have "fst (slot_of s m va) < num_pages s" using assms(1) slots_dir [OF x] by (auto simp: space_ok_def)
  then show ?thesis
    using x assms(1)
    by (auto simp: query_translation_map_def read_entry_def present_def table_of_def space_ok_def slot_of_def Let_def)
qed

text \<open>Writing into the table of a slot changes the translation of one page of one slot.\<close>

lemma map_in_table_ok:
  assumes ok: "space_ok s" and x: "x \<in> slots s" "present s x"
    and dir: "unat dir div 4096 = fst x" "pgd_index va = snd x"
  shows "\<exists>s'. map_in_table dir va pa s = Inr s' \<and> space_ok s' \<and> slots s' = slots s \<and> slot_of s' = slot_of s
    \<and> map_list s' = map_list s
    \<and> (\<forall>y\<in>slots s. present s' y = present s y
        \<and> (present s y \<longrightarrow> frames s' (table_of s' y) = (if y = x then (frames s (table_of s y))(pgt_index va := pa) else frames s (table_of s y))))"
proof -
  let ?t = "table_of s x"
  define s' where "s' = s\<lparr>frames := (frames s)(?t := (frames s ?t)(pgt_index va := pa)),
    tlb_invalidated := va # tlb_invalidated s\<rparr>"
  have t: "?t < num_pages s" "?t \<notin> set (dir_frames s)" and d: "fst x < num_pages s"
    using ok x slots_dir [of x s] by (auto simp: space_ok_def)
  then have run: "map_in_table dir va pa s = Inr s'"
    by (simp add: map_in_table_def read_entry_def write_entry_def dir table_of_def s'_def num_pages_def)
  have dirs: "dir_frames s' = dir_frames s" and same: "slots s' = slots s" "slot_of s' = slot_of s"
    by (auto simp: dir_frames_def slots_def slot_of_def s'_def fun_eq_iff)
  have fr: "frames s' (fst y) = frames s (fst y)" if "y \<in> slots s" for y
    using slots_dir [OF that] t(2) by (auto simp: s'_def)
  then have pt: "present s' y = present s y" "table_of s' y = table_of s y" if "y \<in> slots s" for y
    using that by (simp_all add: present_def table_of_def)
  have "num_pages s' = num_pages s" "free_page_list s' = free_page_list s" "page_state_ok s'"
    using ok by (simp_all add: s'_def num_pages_def space_ok_def page_state_ok_def)
  then have "space_ok s'" using ok pt same dirs unfolding space_ok_def by auto
  moreover have "frames s' (table_of s y) = (if y = x then (frames s (table_of s y))(pgt_index va := pa) else frames s (table_of s y))"
    if "y \<in> slots s" "present s y" for y
    using ok that x by (auto simp: s'_def space_ok_def)
  ultimately show ?thesis using run pt same by (intro exI [of _ s']) (auto simp: s'_def)
qed

lemma map_in_table_query:
  assumes ok: "space_ok s" and m: "KERNEL_BASE \<le> va \<or> m \<in> set (map_list s)" and p: "present s (slot_of s m va)"
    and dir: "dir = (if KERNEL_BASE \<le> va then kernel_dir s else page_dir (maps s m))"
  shows "\<exists>s'. map_in_table dir va pa s = Inr s' \<and> space_ok s' \<and> map_list s' = map_list s
    \<and> slots s' = slots s \<and> slot_of s' = slot_of s \<and> (\<forall>y\<in>slots s. present s' y = present s y)
    \<and> (\<forall>m' va'. KERNEL_BASE \<le> va' \<or> m' \<in> set (map_list s) \<longrightarrow> query_translation_map m' va' s'
        = (if slot_of s m' va' = slot_of s m va \<and> pgt_index va' = pgt_index va then Inr pa else query_translation_map m' va' s))"
proof -
  have x: "slot_of s m va \<in> slots s" using slot_of_slots m .
  have "unat dir div 4096 = fst (slot_of s m va)" "pgd_index va = snd (slot_of s m va)" by (simp_all add: slot_of_def dir)
  from map_in_table_ok [OF ok x p this] obtain s' where s': "map_in_table dir va pa s = Inr s'" "space_ok s'" "slots s' = slots s"
      "slot_of s' = slot_of s" "map_list s' = map_list s"
    and fr: "\<And>y. y \<in> slots s \<Longrightarrow> present s' y = present s y \<and> (present s y \<longrightarrow> frames s' (table_of s' y)
        = (if y = slot_of s m va then (frames s (table_of s y))(pgt_index va := pa) else frames s (table_of s y)))"
    by metis
  have "query_translation_map m' va' s' = (if slot_of s m' va' = slot_of s m va \<and> pgt_index va' = pgt_index va then Inr pa
      else query_translation_map m' va' s)" if v: "KERNEL_BASE \<le> va' \<or> m' \<in> set (map_list s)" for m' va'
    using query_eq [OF ok v] query_eq [of s' va' m'] v fr [OF slot_of_slots [OF v]] p s'(2,4,5) by auto
  moreover have "\<forall>y\<in>slots s. present s' y = present s y" using fr by blast
  ultimately show ?thesis using s' by blast
qed

lemma allocate_page_cases:
  obtains "free_page_list s = []" "vm_allocate_page s = Inl Exit_called"
  | p s' where "vm_allocate_page s = Inr (p, s')" "kernel_dir s' = kernel_dir s" "maps s' = maps s" "map_list s' = map_list s"
  by (cases "free_page_list s") (auto simp: vm_allocate_page_def)

text \<open>A page table that \<open>vm_map_page\<close> adds to an empty slot is empty, so no translation changes.\<close>

lemma fill_slot:
  assumes ok: "space_ok s" and x: "x \<in> slots s" "\<not> present s x" and dir: "unat dir div 4096 = fst x"
    and al: "vm_allocate_page s = Inr (p, s1)" "kernel_dir s1 = kernel_dir s" "maps s1 = maps s" "map_list s1 = map_list s"
  shows "\<exists>s2. write_entry dir (snd x) (page_to_pa p OR PAGE_PRESENT) s1 = Inr s2 \<and> space_ok s2 \<and> present s2 x
    \<and> kernel_dir s2 = kernel_dir s \<and> maps s2 = maps s \<and> map_list s2 = map_list s
    \<and> (\<forall>y\<in>slots s. present s y \<longrightarrow> present s2 y)
    \<and> (\<forall>m va. KERNEL_BASE \<le> va \<or> m \<in> set (map_list s) \<longrightarrow> query_translation_map m va s2 = query_translation_map m va s)"
proof -
  define s2 where "s2 = s1\<lparr>frames := (frames s1)(fst x := (frames s1 (fst x))(snd x := page_to_pa p OR PAGE_PRESENT))\<rparr>"
  have pok: "page_state_ok s" using ok by (simp add: space_ok_def)
  note a = vm_allocate_page_ok [OF pok al(1)]
  have pf: "p \<in> set (free_page_list s)" and free: "set (free_page_list s1) = set (free_page_list s) - {p}"
    using a(6) pok by (auto simp: page_state_ok_def)
  have pb: "p < 1048576" using a(2) unat_u32_bound [of "phys_size s"] by (simp add: num_pages_def)
  have fx: "fst x < num_pages s" "fst x \<in> set (dir_frames s)" using slots_dir [OF x(1)] ok by (auto simp: space_ok_def)
  have run: "write_entry dir (snd x) (page_to_pa p OR PAGE_PRESENT) s1 = Inr s2"
    using fx a(8) by (simp add: write_entry_def dir s2_def)
  have same: "dir_frames s2 = dir_frames s" "slots s2 = slots s" "slot_of s2 = slot_of s" "num_pages s2 = num_pages s"
      "free_page_list s2 = free_page_list s1" "page_state_ok s2"
    using al a(1,8) by (auto simp: s2_def dir_frames_def slots_def slot_of_def num_pages_def page_state_ok_def fun_eq_iff)
  have ml: "map_list s2 = map_list s" using al by (simp add: s2_def)
  have fr: "frames s2 (fst y) (snd y) = (if y = x then page_to_pa p OR PAGE_PRESENT else frames s (fst y) (snd y))"
    if "y \<in> slots s" for y
  proof -
    have "fst y \<noteq> p" using slots_dir [OF that] pf ok by (auto simp: space_ok_def)
    then show ?thesis using a(5) by (auto simp: s2_def prod_eq_iff)
  qed
  have pt: "present s2 y \<longleftrightarrow> y = x \<or> present s y" "table_of s2 y = (if y = x then p else table_of s y)" if "y \<in> slots s" for y
    using fr [OF that] page_frame [OF pb] by (auto simp: present_def table_of_def)
  have old: "table_of s y \<noteq> p" if "y \<in> slots s" "present s y" for y
    using that ok pf by (auto simp: space_ok_def)
  have pd: "p \<notin> set (dir_frames s)" using ok pf by (auto simp: space_ok_def)
  have "space_ok s2"
    using ok same(6) pt old old [symmetric] pd a(2) free x(2) unfolding space_ok_def same(1-5) by (auto split: if_splits)
  moreover have "query_translation_map m va s2 = query_translation_map m va s" if v: "KERNEL_BASE \<le> va \<or> m \<in> set (map_list s)" for m va
  proof -
    let ?y = "slot_of s m va"
    have y: "?y \<in> slots s" using slot_of_slots v .
    have "frames s2 p j = 0" for j using a(5) pd fx by (auto simp: s2_def)
    moreover have "frames s2 (table_of s ?y) = frames s (table_of s ?y)" if "present s ?y"
    proof -
      have "table_of s ?y \<noteq> fst x" using that y fx ok by (auto simp: space_ok_def)
      then show ?thesis using old [OF y that] a(5) by (simp add: s2_def)
    qed
    ultimately show ?thesis
      using query_eq [OF ok v] query_eq [OF \<open>space_ok s2\<close>, of va m] v ml same(3) pt [OF y] x(2)
      by auto
  qed
  moreover have "\<forall>y\<in>slots s. present s y \<longrightarrow> present s2 y" using pt(1) by blast
  moreover have "present s2 x" using pt(1) [OF x(1)] by simp
  ultimately show ?thesis using run al by (intro exI [of _ s2]) (simp add: s2_def)
qed

lemma same_slot:
  assumes "space_ok s" "KERNEL_BASE \<le> va \<or> m \<in> set (map_list s)" "KERNEL_BASE \<le> va' \<or> m' \<in> set (map_list s)"
  shows "slot_of s m' va' = slot_of s m va \<and> pgt_index va' = pgt_index va
    \<longleftrightarrow> unat va' div 4096 = unat va div 4096 \<and> (KERNEL_BASE \<le> va \<or> m' = m)"
proof -
  have half: "KERNEL_BASE \<le> v \<longleftrightarrow> 768 \<le> pgd_index v" for v
    using pgd_index_user [of v] pgd_index_kernel [of v] by (meson leD not_le)
  have "inj_on (\<lambda>m. unat (page_dir (maps s m)) div 4096) (set (map_list s))"
    using assms(1) by (auto simp: space_ok_def dir_frames_def distinct_map)
  then show ?thesis
    using assms(2,3) index_inject [of va' va] half [of va] half [of va'] unfolding slot_of_def
    by (auto simp: inj_on_def)
qed

lemma vm_map_page_ok:
  assumes ok: "space_ok s" and va: "va < KERNEL_BASE \<and> m \<in> set (map_list s) \<or> KERNEL_BASE \<le> va \<and> present s (slot_of s m va)"
  shows "case vm_map_page m va pa s of
      Inl e \<Rightarrow> e = Exit_called \<and> free_page_list s = [] \<and> \<not> present s (slot_of s m va)
    | Inr s' \<Rightarrow> space_ok s' \<and> map_list s' = map_list s
        \<and> slots s' = slots s \<and> slot_of s' = slot_of s \<and> (\<forall>y\<in>slots s. present s y \<longrightarrow> present s' y)
        \<and> (\<forall>m' va'. KERNEL_BASE \<le> va' \<or> m' \<in> set (map_list s) \<longrightarrow> query_translation_map m' va' s'
            = (if unat va' div 4096 = unat va div 4096 \<and> (KERNEL_BASE \<le> va \<or> m' = m) then Inr pa
               else query_translation_map m' va' s))"
proof -
  let ?x = "slot_of s m va" and ?dir = "if KERNEL_BASE \<le> va then kernel_dir s else page_dir (maps s m)"
  have v: "KERNEL_BASE \<le> va \<or> m \<in> set (map_list s)" using va by auto
  have x: "?x \<in> slots s" using slot_of_slots v .
  have fx: "fst ?x < num_pages s" using slots_dir [OF x] ok by (auto simp: space_ok_def)
  have x': "unat ?dir div 4096 = fst ?x" "snd ?x = pgd_index va" by (simp_all add: slot_of_def)
  have rd: "read_entry ?dir (pgd_index va) s = Inr (frames s (fst ?x) (snd ?x))"
    using fx by (simp add: read_entry_def x')
  show ?thesis
  proof (cases "present s ?x")
    case True
    then have "vm_map_page m va pa s = map_in_table ?dir va pa s"
      using rd by (auto simp: vm_map_page_def Let_def present_def)
    then show ?thesis
      using map_in_table_query [OF ok v True refl, of pa] same_slot [OF ok v] by auto
  next
    case False
    then have u: "\<not> KERNEL_BASE \<le> va" and m: "m \<in> set (map_list s)" using va by auto
    have run: "vm_map_page m va pa s = bindE (vm_allocate_page s) (\<lambda>(page, s1).
        bindE (write_entry ?dir (snd ?x) (page_to_pa page OR PAGE_PRESENT) s1) (map_in_table ?dir va pa))"
      using rd u False x'(2) by (simp add: vm_map_page_def Let_def present_def)
    show ?thesis
    proof (cases rule: allocate_page_cases [of s])
      case 1
      then show ?thesis using run False by simp
    next
      case (2 p s1)
      from fill_slot [OF ok x False x'(1) 2] obtain s2 where s2: "write_entry ?dir (snd ?x) (page_to_pa p OR PAGE_PRESENT) s1 = Inr s2"
          "space_ok s2" "present s2 ?x" "kernel_dir s2 = kernel_dir s" "maps s2 = maps s" "map_list s2 = map_list s"
        and q: "\<And>m va. KERNEL_BASE \<le> va \<or> m \<in> set (map_list s) \<Longrightarrow> query_translation_map m va s2 = query_translation_map m va s"
        and live: "\<forall>y\<in>slots s. present s y \<longrightarrow> present s2 y"
        by blast
      have sl: "slot_of s2 = slot_of s" "slots s2 = slots s"
        using s2(4-6) by (simp_all add: slot_of_def slots_def dir_frames_def fun_eq_iff)
      have v2: "KERNEL_BASE \<le> va \<or> m \<in> set (map_list s2)" using v s2(6) by simp
      have "?dir = (if KERNEL_BASE \<le> va then kernel_dir s2 else page_dir (maps s2 m))" using s2 by simp
      from map_in_table_query [OF s2(2) v2 _ this, of pa] s2(3) sl(1)
      show ?thesis
        using run 2(1) s2(1,6) q same_slot [OF s2(2) v2] sl live by (auto simp del: split_paired_All)
    qed
  qed
qed

text \<open>Taking a page off the free list disturbs no translation.\<close>

lemma allocate_space_ok:
  assumes ok: "space_ok s" and al: "vm_allocate_page s = Inr (p, s')"
  shows "space_ok s'" "map_list s' = map_list s" "slots s' = slots s" "slot_of s' = slot_of s"
    "\<forall>y\<in>slots s. present s' y = present s y"
    "\<And>m va. KERNEL_BASE \<le> va \<or> m \<in> set (map_list s) \<Longrightarrow> query_translation_map m va s' = query_translation_map m va s"
proof -
  have pok: "page_state_ok s" using ok by (simp add: space_ok_def)
  have keep: "kernel_dir s' = kernel_dir s" "maps s' = maps s" "map_list s' = map_list s"
    using al by (auto simp: vm_allocate_page_def split: list.splits)
  note a = vm_allocate_page_ok [OF pok al]
  have pf: "p \<in> set (free_page_list s)" and free: "set (free_page_list s') \<subseteq> set (free_page_list s)" using a(6) by auto
  have same: "dir_frames s' = dir_frames s" "slots s' = slots s" "slot_of s' = slot_of s"
    using keep by (simp_all add: dir_frames_def slots_def slot_of_def fun_eq_iff)
  have fr: "frames s' q = frames s q" if "q \<noteq> p" for q using that a(5) by simp
  have pt: "present s' y = present s y" "table_of s' y = table_of s y" if "y \<in> slots s" for y
  proof -
    have "fst y \<noteq> p" using slots_dir [OF that] ok pf by (auto simp: space_ok_def)
    then show "present s' y = present s y" "table_of s' y = table_of s y" by (simp_all add: present_def table_of_def fr)
  qed
  show ok': "space_ok s'"
    using ok a(1,8) pt free unfolding space_ok_def same by (metis subsetD)
  show "query_translation_map m va s' = query_translation_map m va s" if v: "KERNEL_BASE \<le> va \<or> m \<in> set (map_list s)" for m va
  proof -
    have "table_of s (slot_of s m va) \<noteq> p" if "present s (slot_of s m va)"
      using that slot_of_slots [OF v] ok pf by (auto simp: space_ok_def)
    then show ?thesis
      using query_eq [OF ok v] query_eq [OF ok', of va m] v keep(3) same(3) pt [OF slot_of_slots [OF v]] by (auto simp: fr)
  qed
  show "\<forall>y\<in>slots s. present s' y = present s y" using pt(1) by blast
qed (use al in \<open>auto simp: vm_allocate_page_def slots_def slot_of_def dir_frames_def fun_eq_iff split: list.splits\<close>)

text \<open>
  C13: Mapping a page changes the translation of exactly that page: in the given address space for a user
  address, in every address space for a kernel address whose page table exists. The only way to fail
  is to run out of memory. No page table or directory is ever shared or free.
\<close>

theorem vm_map_page_translates:
  assumes ok: "space_ok s" and va: "va < KERNEL_BASE \<and> m \<in> set (map_list s) \<or> KERNEL_BASE \<le> va \<and> present s (slot_of s m va)"
  shows "case vm_map_page m va pa s of
      Inl e \<Rightarrow> e = Exit_called \<and> free_page_list s = [] \<and> \<not> present s (slot_of s m va)
    | Inr s' \<Rightarrow> space_ok s' \<and> map_list s' = map_list s
        \<and> (\<forall>m' va'. KERNEL_BASE \<le> va' \<or> m' \<in> set (map_list s) \<longrightarrow> query_translation_map m' va' s'
            = (if unat va' div 4096 = unat va div 4096 \<and> (KERNEL_BASE \<le> va \<or> m' = m) then Inr pa
               else query_translation_map m' va' s))"
  using vm_map_page_ok [OF assms, of pa] by (cases "vm_map_page m va pa s") (simp_all only: sum.case, blast+)

definition small_system :: translation_state where
  "small_system = \<lparr>frames = (\<lambda>_ _. 0),
     pages = (\<lambda>_. \<lparr>cache_offset = 0, page_cache = None, busy = False, dirty = False, ref_count = 0\<rparr>),
     free_page_list = [4, 5], phys_size = 0x10000, kernel_dir = 0x1000,
     maps = (\<lambda>m. \<lparr>page_dir = (if m = 0 then 0x2000 else 0x3000), map_asid = Some m\<rparr>), map_list = [0, 1],
     asid_alloc = [0xc0000000, 0], tlb_invalidated = [], cr_page_dir = 0x1000, cr_asid = None\<rparr>"

lemma small_system_ok: "space_ok small_system"
  by (auto simp: space_ok_def small_system_def page_state_ok_def dir_frames_def present_def num_pages_def)

lemma free_small_system: "free_page_list small_system \<noteq> []"
  by (simp add: small_system_def)

theorem vm_map_page_translates_witness:
  "\<exists>s'. vm_map_page 0 0x401000 0x5003 small_system = Inr s' \<and> query_translation_map 0 0x401000 s' = Inr 0x5003
     \<and> query_translation_map 1 0x401000 s' = query_translation_map 1 0x401000 small_system"
proof -
  let ?r = "vm_map_page 0 0x401000 0x5003 small_system"
  have "(0x401000 :: u32) < KERNEL_BASE \<and> (0 :: nat) \<in> set (map_list small_system)"
    by (simp add: small_system_def word_less_nat_alt)
  from vm_map_page_translates [OF small_system_ok disjI1 [OF this], of "0x5003"]
  obtain s' where s': "?r = Inr s'" "\<And>m' va'. KERNEL_BASE \<le> va' \<or> m' \<in> set (map_list small_system) \<Longrightarrow> query_translation_map m' va' s'
      = (if unat va' div 4096 = unat (0x401000 :: u32) div 4096 \<and> (KERNEL_BASE \<le> 0x401000 \<or> m' = 0) then Inr 0x5003
         else query_translation_map m' va' small_system)"
    using free_small_system by (cases ?r) (simp_all only: sum.case simp_thms)
  from s'(2) [of "0x401000" 0] s'(2) [of "0x401000" 1] show ?thesis
    using s'(1) by (auto simp: small_system_def word_le_nat_alt)
qed

subsection \<open>New address spaces\<close>

lemma bitmap_alloc_total:
  assumes "length array = num_bits div 32" "array \<noteq> []"
  shows "\<exists>r array'. bitmap_alloc array num_bits = Inr (r, array')"
proof -
  have "\<exists>r. bitmap_scan array num_bits 0 = Inr r" using bitmap_scan_result [OF assms(1), of 0] assms(2) by auto
  then show ?thesis by (auto simp: bitmap_alloc_def Let_def split: option.splits)
qed

text \<open>A new map translates no user address and leaves every other map as it is.\<close>

lemma create_translation_map_ok:
  assumes ok: "space_ok s" and m: "m \<notin> set (map_list s)" and as: "length (asid_alloc s) = 2" and fl: "free_page_list s \<noteq> []"
  shows "\<exists>s'. create_translation_map m s = Inr s' \<and> space_ok s' \<and> map_list s' = map_list s @ [m]
    \<and> (\<forall>m' va. KERNEL_BASE \<le> va \<or> m' \<in> set (map_list s') \<longrightarrow> query_translation_map m' va s'
        = (if va < KERNEL_BASE \<and> m' = m then Inr 0 else query_translation_map m' va s))"
proof -
  have pok: "page_state_ok s" using ok by (simp add: space_ok_def)
  obtain p s1 where al: "vm_allocate_page s = Inr (p, s1)" "kernel_dir s1 = kernel_dir s" "maps s1 = maps s" "map_list s1 = map_list s"
    using fl by (cases rule: allocate_page_cases [of s]) auto
  have al': "asid_alloc s1 = asid_alloc s" using al(1) by (auto simp: vm_allocate_page_def split: list.splits)
  note a = vm_allocate_page_ok [OF pok al(1)]
  have pf: "p \<in> set (free_page_list s)" and free: "set (free_page_list s1) = set (free_page_list s) - {p}"
    using a(6) pok by (auto simp: page_state_ok_def)
  have pd: "p \<notin> set (dir_frames s)" using ok pf by (auto simp: space_ok_def)
  have pb: "p < 1048576" using a(2) unat_u32_bound [of "phys_size s"] by (simp add: num_pages_def)
  obtain asid bits where bits: "bitmap_alloc (asid_alloc s) MAX_ASIDS = Inr (asid, bits)"
    using bitmap_alloc_total [of "asid_alloc s" MAX_ASIDS] as by force
  define kernel where "kernel = frames s1 (unat (kernel_dir s1) div 4096)"
  define s' where "s' = s1\<lparr>frames := (frames s1)(p := (\<lambda>i. if 768 \<le> i \<and> i < 1024 then kernel i else frames s1 p i)),
    maps := (maps s1)(m := \<lparr>page_dir = page_to_pa p, map_asid = asid\<rparr>), asid_alloc := bits, map_list := map_list s1 @ [m]\<rparr>"
  have kd: "unat (kernel_dir s) div 4096 < num_pages s" using ok by (simp add: space_ok_def dir_frames_def)
  have run: "create_translation_map m s = Inr s'"
    using kd al(2) a(8) bits al' unfolding create_translation_map_def s'_def kernel_def
    by (simp add: al(1) Let_def cong: if_cong)
  have dirs: "dir_frames s' = dir_frames s @ [p]"
    using al m page_frame(2) [OF pb] by (auto simp: dir_frames_def s'_def)
  then have sl: "slots s' = slots s \<union> {(p, i) | i. i < 768}" by (auto simp: slots_def dir_frames_def)
  have fr: "frames s' q = frames s q" if "q \<noteq> p" for q using that a(5) by (simp add: s'_def)
  have new: "\<not> present s' (p, i)" if "i < 768" for i using that a(5) by (simp add: present_def s'_def)
  have pt: "present s' y = present s y" "table_of s' y = table_of s y" if "y \<in> slots s" for y
  proof -
    have "fst y \<noteq> p" using slots_dir [OF that] pd by blast
    then show "present s' y = present s y" "table_of s' y = table_of s y" using fr by (simp_all add: present_def table_of_def)
  qed
  have tp: "table_of s y \<noteq> p" if "y \<in> slots s" "present s y" for y using that ok pf by (auto simp: space_ok_def)
  have same: "num_pages s' = num_pages s" "free_page_list s' = free_page_list s1" "page_state_ok s'"
    using a(1,8) by (auto simp: s'_def num_pages_def page_state_ok_def)
  have ml: "map_list s' = map_list s @ [m]" using al by (simp add: s'_def)
  have ok': "space_ok s'"
  proof -
    have live: "x \<in> slots s \<and> present s x \<and> table_of s' x = table_of s x" if "x \<in> slots s'" "present s' x" for x
      using that pt [of x] new unfolding sl by auto
    have old: "table_of s x < num_pages s \<and> table_of s x \<notin> set (free_page_list s) \<and> table_of s x \<notin> set (dir_frames s)"
      if "x \<in> slots s" "present s x" for x using ok that by (simp add: space_ok_def)
    have inj: "x = y" if "x \<in> slots s" "present s x" "y \<in> slots s" "present s y" "table_of s x = table_of s y" for x y
      using ok that unfolding space_ok_def by blast
    have "distinct (dir_frames s @ [p])" "\<forall>d\<in>set (dir_frames s @ [p]). d < num_pages s \<and> d \<notin> set (free_page_list s1)"
      using ok pd a(2) free by (auto simp: space_ok_def)
    moreover have "table_of s' x < num_pages s \<and> table_of s' x \<notin> set (free_page_list s1) \<and> table_of s' x \<notin> set (dir_frames s @ [p])"
      if "x \<in> slots s'" "present s' x" for x
      using live [OF that] old [of x] tp [of x] free by auto
    moreover have "x = y" if "x \<in> slots s'" "present s' x" "y \<in> slots s'" "present s' y" "table_of s' x = table_of s' y" for x y
      using live [OF that(1,2)] live [OF that(3,4)] inj that(5) by metis
    ultimately show ?thesis unfolding space_ok_def same(1,2) dirs using same(3) by blast
  qed
  have "query_translation_map m' va s' = (if va < KERNEL_BASE \<and> m' = m then Inr 0 else query_translation_map m' va s)"
    if v: "KERNEL_BASE \<le> va \<or> m' \<in> set (map_list s')" for m' va
  proof (cases "va < KERNEL_BASE \<and> m' = m")
    case True
    then have "slot_of s' m' va = (p, pgd_index va)" using page_frame(2) [OF pb] by (auto simp: slot_of_def s'_def)
    then show ?thesis using query_eq [OF ok' v] new [OF pgd_index_user, of va] True by simp
  next
    case False
    then have so: "slot_of s' m' va = slot_of s m' va" and v0: "KERNEL_BASE \<le> va \<or> m' \<in> set (map_list s)"
      using v al by (auto simp: slot_of_def s'_def)
    then have "slot_of s m' va \<in> slots s" using slot_of_slots by blast
    then show ?thesis
      using query_eq [OF ok' v] query_eq [OF ok v0] so pt [of "slot_of s m' va"] fr tp [of "slot_of s m' va"] False by auto
  qed
  then show ?thesis using run ok' ml by blast
qed

subsection \<open>New kernel page tables\<close>

lemma share_table_ok:
  "\<lbrakk>\<forall>d\<in>set ds. unat d div 4096 < num_pages s\<rbrakk> \<Longrightarrow> \<exists>s'. share_table ds i v s = Inr s' \<and> phys_size s' = phys_size s
    \<and> kernel_dir s' = kernel_dir s \<and> (\<forall>q. q \<notin> (\<lambda>d. unat d div 4096) ` set ds \<longrightarrow> frames s' q = frames s q)
    \<and> (ds \<noteq> [] \<longrightarrow> frames s' (unat (last ds) div 4096) i = v)"
proof (induction ds arbitrary: s)
  case (Cons d ds)
  define s1 where "s1 = s\<lparr>frames := (frames s)(unat d div 4096 := (frames s (unat d div 4096))(i := v))\<rparr>"
  have w: "write_entry d i v s = Inr s1" using Cons.prems by (simp add: write_entry_def s1_def)
  have n: "num_pages s1 = num_pages s" "phys_size s1 = phys_size s" "kernel_dir s1 = kernel_dir s"
    by (simp_all add: s1_def num_pages_def)
  then have "\<forall>d\<in>set ds. unat d div 4096 < num_pages s1" using Cons.prems by simp
  from Cons.IH [OF this] obtain s' where s': "share_table ds i v s1 = Inr s'" "phys_size s' = phys_size s1" "kernel_dir s' = kernel_dir s1"
      "\<forall>q. q \<notin> (\<lambda>d. unat d div 4096) ` set ds \<longrightarrow> frames s' q = frames s1 q" "ds \<noteq> [] \<longrightarrow> frames s' (unat (last ds) div 4096) i = v"
    by blast
  have "ds = [] \<Longrightarrow> s' = s1" using s'(1) by simp
  then show ?case using w n s' by (intro exI [of _ s']) (auto simp: s1_def)
qed simp

text \<open>
  C35: A kernel page whose page table does not exist yet is mapped in the address spaces of the list but
  not in the kernel map: \<open>vm_map_page\<close> succeeds and the translation of the page is still empty, as it is
  for every map created later from the kernel map.
\<close>

theorem kernel_mapping_lost:
  assumes ok: "space_ok s" and va: "KERNEL_BASE \<le> va" "\<not> present s (slot_of s m va)"
    and nonempty: "map_list s \<noteq> []" "free_page_list s \<noteq> []"
  shows "\<exists>s'. vm_map_page m va pa s = Inr s' \<and> query_translation_map m va s' = Inr 0"
proof -
  let ?k = "unat (kernel_dir s) div 4096"
  obtain p s1 where al: "vm_allocate_page s = Inr (p, s1)" "kernel_dir s1 = kernel_dir s" "maps s1 = maps s" "map_list s1 = map_list s"
    using nonempty by (cases rule: allocate_page_cases [of s]) auto
  note a = vm_allocate_page_ok [OF _ al(1)]
  have pok: "page_state_ok s" using ok by (simp add: space_ok_def)
  have pf: "p \<in> set (free_page_list s)" using a(6) [OF pok] by simp
  have pb: "p < 1048576" using a(2) [OF pok] unat_u32_bound [of "phys_size s"] by (simp add: num_pages_def)
  define dirs where "dirs = map (\<lambda>other. page_dir (maps s1 other)) (map_list s1)"
  have df: "dir_frames s = ?k # map (\<lambda>d. unat d div 4096) dirs" using al by (simp add: dir_frames_def dirs_def)
  then have ds: "\<forall>d\<in>set dirs. unat d div 4096 < num_pages s1" "?k \<notin> (\<lambda>d. unat d div 4096) ` set dirs" "?k < num_pages s1" "p \<noteq> ?k"
    using ok a(8) [OF pok] pf by (auto simp: space_ok_def)
  obtain s2 where s2: "share_table dirs (pgd_index va) (page_to_pa p OR PAGE_PRESENT) s1 = Inr s2" "phys_size s2 = phys_size s1"
      "kernel_dir s2 = kernel_dir s1" "frames s2 ?k = frames s1 ?k"
      "frames s2 (unat (last dirs) div 4096) (pgd_index va) = page_to_pa p OR PAGE_PRESENT"
    using share_table_ok [OF ds(1), of "pgd_index va" "page_to_pa p OR PAGE_PRESENT"] ds(2) nonempty(1) al(4)
    by (auto simp: dirs_def)
  have ld: "unat (last dirs) div 4096 < num_pages s2" "last (kernel_dir s1 # dirs) = last dirs"
    using ds(1) nonempty(1) al(4) s2(2) last_in_set [of dirs] by (auto simp: dirs_def num_pages_def)
  have np: "num_pages s2 = num_pages s" using s2(2) a(7) [OF pok] by (simp add: num_pages_def)
  define s' where "s' = s2\<lparr>frames := (frames s2)(p := (frames s2 p)(pgt_index va := pa)), tlb_invalidated := va # tlb_invalidated s2\<rparr>"
  have mt: "map_in_table (last (kernel_dir s1 # dirs)) va pa s2 = Inr s'"
    using ld s2(5) page_frame [OF pb] a(2) [OF pok] np
    by (simp add: map_in_table_def read_entry_def write_entry_def s'_def)
  have np': "num_pages s' = num_pages s" using np by (simp add: s'_def num_pages_def)
  have "frames s' ?k = frames s ?k" using s2(4) ds(4) a(5) [OF pok] by (simp add: s'_def)
  moreover have e: "frames s ?k (pgd_index va) AND PAGE_PRESENT = 0" using va by (simp add: present_def slot_of_def)
  moreover have kb: "?k < num_pages s" using ds(3) a(8) [OF pok] by simp
  ultimately have "query_translation_map m va s' = Inr 0"
    using va(1) s2(3) al(2) np' by (simp add: query_translation_map_def read_entry_def s'_def)
  moreover have "vm_map_page m va pa s = Inr s'"
    using va(1) kb e al(1) s2(1) mt by (simp add: vm_map_page_def read_entry_def Let_def dirs_def)
  ultimately show ?thesis by blast
qed

theorem kernel_mapping_lost_witness:
  "\<exists>s'. vm_map_page 0 0xd0000000 0x501b small_system = Inr s' \<and> query_translation_map 0 0xd0000000 s' = Inr 0"
proof (rule kernel_mapping_lost [OF small_system_ok])
  show "KERNEL_BASE \<le> (0xd0000000 :: u32)" by (simp add: word_le_nat_alt)
qed (simp_all add: small_system_def present_def)

end
