(* ===== verification/Nyuzi_IO.thy ===== *)
theory Nyuzi_IO
  imports Nyuzi_Prelude
begin

text \<open>
  Actions on a state that may not return (\<open>None\<close>), may end the program (\<open>Some (Inl e)\<close>), or return a
  value and the new state. Drivers, the file systems and the address space code are written with them.
\<close>

type_synonym ('s, 'a) io = "'s \<Rightarrow> ('a \<times> 's) cres option"

definition returnIO :: "'a \<Rightarrow> ('s, 'a) io" where
  "returnIO x s = Some (Inr (x, s))"

definition bindIO :: "('s, 'a) io \<Rightarrow> ('a \<Rightarrow> ('s, 'b) io) \<Rightarrow> ('s, 'b) io" where
  "bindIO m f s = (case m s of None \<Rightarrow> None | Some (Inl e) \<Rightarrow> Some (Inl e) | Some (Inr (x, s')) \<Rightarrow> f x s')"

definition failIO :: "c_fault \<Rightarrow> ('s, 'a) io" where
  "failIO e s = Some (Inl e)"

definition getIO :: "('s \<Rightarrow> 'a) \<Rightarrow> ('s, 'a) io" where
  "getIO f s = Some (Inr (f s, s))"

definition modifyIO :: "('s \<Rightarrow> 's) \<Rightarrow> ('s, unit) io" where
  "modifyIO f s = Some (Inr ((), f s))"

definition liftE :: "'a cres \<Rightarrow> ('s, 'a) io" where
  "liftE r s = Some (bindE r (\<lambda>x. Inr (x, s)))"

text \<open>An action on a part of the state, given by its selector and its update.\<close>

definition zoomIO :: "('s \<Rightarrow> 't) \<Rightarrow> ('t \<Rightarrow> 's \<Rightarrow> 's) \<Rightarrow> ('t, 'a) io \<Rightarrow> ('s, 'a) io" where
  "zoomIO sel upd m s = (case m (sel s) of
       None \<Rightarrow> None
     | Some (Inl e) \<Rightarrow> Some (Inl e)
     | Some (Inr (x, t)) \<Rightarrow> Some (Inr (x, upd t s)))"

text \<open>Functions that return a value, a value and a new state, or a new state.\<close>

definition readE :: "('s \<Rightarrow> 'a cres) \<Rightarrow> ('s, 'a) io" where
  "readE f s = Some (bindE (f s) (\<lambda>x. Inr (x, s)))"

definition callE :: "('s \<Rightarrow> ('a \<times> 's) cres) \<Rightarrow> ('s, 'a) io" where
  "callE f s = Some (f s)"

definition stepE :: "('s \<Rightarrow> 's cres) \<Rightarrow> ('s, unit) io" where
  "stepE f s = Some (bindE (f s) (\<lambda>s'. Inr ((), s')))"

lemma call_actions [simp]:
  "f s = Inr x \<Longrightarrow> readE f s = Some (Inr (x, s))" "f s = Inl e \<Longrightarrow> readE f s = Some (Inl e)"
  "g s = r \<Longrightarrow> callE g s = Some r"
  "h s = Inr s' \<Longrightarrow> stepE h s = Some (Inr ((), s'))" "h s = Inl e \<Longrightarrow> stepE h s = Some (Inl e)"
  by (simp_all add: readE_def callE_def stepE_def)

lemma bindIO_returns [simp]: "m s = Some (Inr (x, s')) \<Longrightarrow> bindIO m f s = f x s'"
  by (simp add: bindIO_def)

lemma bindIO_fails [simp]: "m s = Some (Inl e) \<Longrightarrow> bindIO m f s = Some (Inl e)"
  by (simp add: bindIO_def)

lemma bindIO_waits [simp]: "m s = None \<Longrightarrow> bindIO m f s = None"
  by (simp add: bindIO_def)

lemma returnIO_apply [simp]: "returnIO x s = Some (Inr (x, s))"
  by (simp add: returnIO_def)

lemma simple_actions [simp]:
  "failIO e s = Some (Inl e)" "getIO f s = Some (Inr (f s, s))" "modifyIO g s = Some (Inr ((), g s))"
  "liftE (Inr x) s = Some (Inr (x, s))" "liftE (Inl e) s = Some (Inl e)"
  by (simp_all add: failIO_def getIO_def modifyIO_def liftE_def)

lemma zoomIO_returns [simp]: "m (sel s) = Some (Inr (x, t)) \<Longrightarrow> zoomIO sel upd m s = Some (Inr (x, upd t s))"
  by (simp add: zoomIO_def)

lemma zoomIO_fails [simp]: "m (sel s) = Some (Inl e) \<Longrightarrow> zoomIO sel upd m s = Some (Inl e)"
  by (simp add: zoomIO_def)

lemma bindIO_eq_Inr:
  "bindIO m f s = Some (Inr (y, t)) \<longleftrightarrow> (\<exists>x s'. m s = Some (Inr (x, s')) \<and> f x s' = Some (Inr (y, t)))"
  by (auto simp: bindIO_def split: option.splits sum.splits)

end
