(* ===== verification/Kern_Cache.thy ===== *)
theory Kern_Cache
  imports Kern_Translation Nyuzi_IO
begin

text \<open>
  The page cache of \<open>software/kernel/vm_cache.c\<close>: a hash table of the pages that hold parts of files and
  anonymous memory. A cache is identified by its address; a page by its index. The lists are sequences
  of pages (see \<open>Kern_List\<close>): \<open>list_remove_node\<close> takes the page out of the list that it is in. A cache
  lock that is held is waited for forever. \<open>hw\<close> is the hardware thread that executes.
\<close>

abbreviation (input) NUM_HASH_BUCKETS :: nat where "NUM_HASH_BUCKETS \<equiv> 37"

record vm_cache =
  page_list :: "nat list"
  cache_file :: u32
  cache_refs :: int
  cache_source :: "nat option"

record cache_state = translation_state +
  caches :: "nat \<Rightarrow> vm_cache"
  hash_table :: "nat \<Rightarrow> nat list"
  cache_lock :: bool
  debug_cache_lock_owner :: int

definition bootstrap_vm_cache :: "'a cache_state_scheme \<Rightarrow> 'a cache_state_scheme" where
  "bootstrap_vm_cache s = s\<lparr>hash_table := (\<lambda>b. if b < NUM_HASH_BUCKETS then [] else hash_table s b)\<rparr>"

definition inc_cache_ref :: "nat \<Rightarrow> 'a cache_state_scheme \<Rightarrow> 'a cache_state_scheme" where
  "inc_cache_ref c s = s\<lparr>caches := (caches s)(c := (caches s c)\<lparr>cache_refs := cache_refs (caches s c) + 1\<rparr>)\<rparr>"

text \<open>\<open>c\<close> is the structure that the slab allocator returns; its \<open>file\<close> field is not initialised.\<close>

definition create_vm_cache :: "nat \<Rightarrow> nat option \<Rightarrow> 'a cache_state_scheme \<Rightarrow> 'a cache_state_scheme" where
  "create_vm_cache c source s =
     (let s1 = s\<lparr>caches := (caches s)(c := (caches s c)\<lparr>page_list := [], cache_refs := 1, cache_source := source\<rparr>)\<rparr>
      in case source of None \<Rightarrow> s1 | Some src \<Rightarrow> inc_cache_ref src s1)"

definition gen_hash :: "nat \<Rightarrow> u32 \<Rightarrow> u32" where
  "gen_hash cache offset = of_nat cache + offset div KPAGE_SIZE"

definition bucket_of :: "nat \<Rightarrow> u32 \<Rightarrow> nat" where
  "bucket_of cache offset = unat (gen_hash cache offset) mod NUM_HASH_BUCKETS"

definition lock_vm_cache :: "int \<Rightarrow> ('a cache_state_scheme, unit) io" where
  "lock_vm_cache hw s = (if cache_lock s then None
     else Some (Inr ((), s\<lparr>cache_lock := True, debug_cache_lock_owner := hw\<rparr>)))"

definition unlock_vm_cache :: "int \<Rightarrow> ('a cache_state_scheme, unit) io" where
  "unlock_vm_cache hw s = (if debug_cache_lock_owner s \<noteq> hw then Some (Inl Assert_failed)
     else Some (Inr ((), s\<lparr>debug_cache_lock_owner := - 1, cache_lock := False\<rparr>)))"

definition insert_cache_page :: "int \<Rightarrow> nat \<Rightarrow> u32 \<Rightarrow> nat \<Rightarrow> 'a cache_state_scheme \<Rightarrow> 'a cache_state_scheme cres" where
  "insert_cache_page hw cache offset page s =
     (if debug_cache_lock_owner s \<noteq> hw then Inl Assert_failed
      else let offset = PAGE_ALIGN offset; b = bucket_of cache offset in
        if page_cache (pages s page) \<noteq> None then Inl Assert_failed
        else Inr (s\<lparr>pages := (pages s)(page := (pages s page)\<lparr>page_cache := Some cache, cache_offset := offset\<rparr>),
                    hash_table := (hash_table s)(b := hash_table s b @ [page]),
                    caches := (caches s)(cache := (caches s cache)\<lparr>page_list := page_list (caches s cache) @ [page]\<rparr>)\<rparr>))"

definition lookup_cache_page :: "int \<Rightarrow> nat \<Rightarrow> u32 \<Rightarrow> 'a cache_state_scheme \<Rightarrow> nat option cres" where
  "lookup_cache_page hw cache offset s =
     (if debug_cache_lock_owner s \<noteq> hw then Inl Assert_failed
      else let offset = PAGE_ALIGN offset in
        Inr (find (\<lambda>p. cache_offset (pages s p) = offset \<and> page_cache (pages s p) = Some cache) (hash_table s (bucket_of cache offset))))"

definition remove_cache_page :: "int \<Rightarrow> nat \<Rightarrow> 'a cache_state_scheme \<Rightarrow> 'a cache_state_scheme cres" where
  "remove_cache_page hw page s =
     (if debug_cache_lock_owner s \<noteq> hw then Inl Assert_failed
      else Inr (s\<lparr>caches := (\<lambda>c. (caches s c)\<lparr>page_list := removeAll page (page_list (caches s c))\<rparr>),
                  hash_table := (\<lambda>b. removeAll page (hash_table s b))\<rparr>))"

text \<open>The loop of \<open>dec_cache_ref\<close> over the pages of the cache.\<close>

primrec free_cache_pages :: "int \<Rightarrow> nat list \<Rightarrow> 'a cache_state_scheme \<Rightarrow> 'a cache_state_scheme cres" where
  "free_cache_pages hw [] s = Inr s"
| "free_cache_pages hw (p # ps) s =
     bindE (remove_cache_page hw p s) (\<lambda>s1. bindE (dec_page_ref p s1) (free_cache_pages hw ps))"

definition destroy_cache_pages :: "int \<Rightarrow> nat \<Rightarrow> ('a cache_state_scheme, unit) io" where
  "destroy_cache_pages hw c =
     bindIO (lock_vm_cache hw) (\<lambda>_ s. case free_cache_pages hw (page_list (caches s c)) s of
         Inl e \<Rightarrow> Some (Inl e)
       | Inr s' \<Rightarrow> unlock_vm_cache hw s')"

partial_function (option) dec_cache_ref :: "int \<Rightarrow> nat \<Rightarrow> 'a cache_state_scheme \<Rightarrow> (unit \<times> 'a cache_state_scheme) cres option" where
  "dec_cache_ref hw c s =
     (if debug_cache_lock_owner s = hw \<or> cache_refs (caches s c) \<le> 0 then Some (Inl Assert_failed)
      else let s1 = s\<lparr>caches := (caches s)(c := (caches s c)\<lparr>cache_refs := cache_refs (caches s c) - 1\<rparr>)\<rparr> in
        if cache_refs (caches s c) \<noteq> 1 then Some (Inr ((), s1))
        else Option.bind (case cache_source (caches s c) of None \<Rightarrow> Some (Inr ((), s1)) | Some src \<Rightarrow> dec_cache_ref hw src s1)
          (\<lambda>r. case r of Inl e \<Rightarrow> Some (Inl e) | Inr (_, s2) \<Rightarrow> destroy_cache_pages hw c s2))"

subsection \<open>The cache is a map\<close>

text \<open>
  What the fault handler relies on: looking up a key returns what was inserted for it last and not
  removed since.
\<close>

locale keyed_store =
  fixes lookup :: "'k \<Rightarrow> 's \<Rightarrow> 'v option"
    and insert' :: "'k \<Rightarrow> 'v \<Rightarrow> 's \<Rightarrow> 's"
    and remove :: "'v \<Rightarrow> 's \<Rightarrow> 's"
    and fresh :: "'v \<Rightarrow> 's \<Rightarrow> bool"
    and inv :: "'s \<Rightarrow> bool"
    and norm :: "'k \<Rightarrow> 'n"
  assumes lookup_insert: "inv s \<Longrightarrow> lookup k s = None \<Longrightarrow> fresh v s \<Longrightarrow>
      inv (insert' k v s) \<and> (\<forall>k'. lookup k' (insert' k v s) = (if norm k' = norm k then Some v else lookup k' s))"
    and lookup_remove: "inv s \<Longrightarrow> lookup k s = Some v \<Longrightarrow>
      inv (remove v s) \<and> (\<forall>k'. lookup k' (remove v s) = (if norm k' = norm k then None else lookup k' s))"
    and lookup_norm: "norm k' = norm k \<Longrightarrow> lookup k' s = lookup k s"
begin

lemma insert_remove:
  assumes "inv s" "lookup k s = None" "fresh v s"
  shows "inv (remove v (insert' k v s))" "lookup k' (remove v (insert' k v s)) = lookup k' s"
proof -
  have i: "inv (insert' k v s)" "\<And>k'. lookup k' (insert' k v s) = (if norm k' = norm k then Some v else lookup k' s)"
    using lookup_insert [OF assms] by auto
  from lookup_remove [OF i(1), of k v] i(2) assms(2) lookup_norm [of k' k]
  show "inv (remove v (insert' k v s))" "lookup k' (remove v (insert' k v s)) = lookup k' s" by auto
qed

end

text \<open>
  The invariant: the pages in the buckets are those in the page lists, each once and in the bucket of
  its key; no two have the same key.
\<close>

definition cached :: "'a cache_state_scheme \<Rightarrow> nat \<Rightarrow> bool" where
  "cached s p \<longleftrightarrow> (\<exists>b<NUM_HASH_BUCKETS. p \<in> set (hash_table s b))"

definition page_key :: "'a cache_state_scheme \<Rightarrow> nat \<Rightarrow> nat option \<times> u32" where
  "page_key s p = (page_cache (pages s p), cache_offset (pages s p))"

definition cache_inv :: "'a cache_state_scheme \<Rightarrow> bool" where
  "cache_inv s \<longleftrightarrow>
     (\<forall>b<NUM_HASH_BUCKETS. distinct (hash_table s b) \<and>
        (\<forall>p\<in>set (hash_table s b). \<exists>c off. page_key s p = (Some c, off) \<and> PAGE_ALIGN off = off \<and> bucket_of c off = b))
     \<and> (\<forall>p q. cached s p \<longrightarrow> cached s q \<longrightarrow> page_key s p = page_key s q \<longrightarrow> p = q)
     \<and> (\<forall>c. distinct (page_list (caches s c)) \<and> (\<forall>p. p \<in> set (page_list (caches s c)) \<longleftrightarrow> cached s p \<and> page_cache (pages s p) = Some c))"

text \<open>The table as a map from cache and page offset.\<close>

definition cache_at :: "nat \<times> u32 \<Rightarrow> 'a cache_state_scheme \<Rightarrow> nat option" where
  "cache_at k s = find (\<lambda>p. page_key s p = (Some (fst k), PAGE_ALIGN (snd k))) (hash_table s (bucket_of (fst k) (PAGE_ALIGN (snd k))))"

lemma bucket_of_less: "bucket_of c off < NUM_HASH_BUCKETS"
  by (simp add: bucket_of_def)

lemma lookup_cache_page_at: "debug_cache_lock_owner s = hw \<Longrightarrow> lookup_cache_page hw c off s = Inr (cache_at (c, off) s)"
  by (auto simp: lookup_cache_page_def cache_at_def page_key_def Let_def intro!: arg_cong2 [of _ _ _ _ find])

lemma option_eqI: "(\<And>q. x = Some q \<longleftrightarrow> y = Some q) \<Longrightarrow> x = y"
  by (metis not_None_eq)

lemma cache_at_cached: "cache_at k s = Some p \<Longrightarrow> cached s p \<and> page_key s p = (Some (fst k), PAGE_ALIGN (snd k))"
proof -
  assume "cache_at k s = Some p"
  then have "p \<in> set (hash_table s (bucket_of (fst k) (PAGE_ALIGN (snd k))))" "page_key s p = (Some (fst k), PAGE_ALIGN (snd k))"
    unfolding cache_at_def find_Some_iff by auto
  then show ?thesis using bucket_of_less [of "fst k" "PAGE_ALIGN (snd k)"] unfolding cached_def by blast
qed

lemma cache_at_iff:
  assumes "cache_inv s"
  shows "cache_at k s = Some p \<longleftrightarrow> cached s p \<and> page_key s p = (Some (fst k), PAGE_ALIGN (snd k))"
proof
  show "cached s p \<and> page_key s p = (Some (fst k), PAGE_ALIGN (snd k))" if "cache_at k s = Some p" using cache_at_cached [OF that] .
next
  assume p: "cached s p \<and> page_key s p = (Some (fst k), PAGE_ALIGN (snd k))"
  then obtain b where b: "b < 37" "p \<in> set (hash_table s b)" by (auto simp: cached_def)
  then have "bucket_of (fst k) (PAGE_ALIGN (snd k)) = b" using assms p unfolding cache_inv_def by (metis option.inject prod.inject)
  then have mem: "p \<in> set (hash_table s (bucket_of (fst k) (PAGE_ALIGN (snd k))))" using b by simp
  then obtain q where q: "cache_at k s = Some q" using p unfolding cache_at_def by (metis (mono_tags, lifting) find_None_iff not_None_eq)
  have "q = p" using assms p cache_at_cached [OF q] unfolding cache_inv_def by metis
  then show "cache_at k s = Some p" using q by simp
qed

lemma cache_at_None: "cache_inv s \<Longrightarrow> cache_at k s = None \<longleftrightarrow> (\<forall>p. cached s p \<longrightarrow> page_key s p \<noteq> (Some (fst k), PAGE_ALIGN (snd k)))"
  using cache_at_iff [of s k] by (metis not_None_eq)

subsection \<open>Insertion and removal\<close>

definition cache_add :: "nat \<times> u32 \<Rightarrow> nat \<Rightarrow> 'a cache_state_scheme \<Rightarrow> 'a cache_state_scheme" where
  "cache_add k p s = (let off = PAGE_ALIGN (snd k); b = bucket_of (fst k) off in
     s\<lparr>pages := (pages s)(p := (pages s p)\<lparr>page_cache := Some (fst k), cache_offset := off\<rparr>),
       hash_table := (hash_table s)(b := hash_table s b @ [p]),
       caches := (caches s)(fst k := (caches s (fst k))\<lparr>page_list := page_list (caches s (fst k)) @ [p]\<rparr>)\<rparr>)"

definition cache_drop :: "nat \<Rightarrow> 'a cache_state_scheme \<Rightarrow> 'a cache_state_scheme" where
  "cache_drop p s = s\<lparr>caches := (\<lambda>c. (caches s c)\<lparr>page_list := removeAll p (page_list (caches s c))\<rparr>),
     hash_table := (\<lambda>b. removeAll p (hash_table s b))\<rparr>"

lemma insert_cache_page_add:
  "debug_cache_lock_owner s = hw \<Longrightarrow> page_cache (pages s p) = None \<Longrightarrow> insert_cache_page hw c off p s = Inr (cache_add (c, off) p s)"
  by (simp add: insert_cache_page_def cache_add_def Let_def)

lemma remove_cache_page_drop: "debug_cache_lock_owner s = hw \<Longrightarrow> remove_cache_page hw p s = Inr (cache_drop p s)"
  by (simp add: remove_cache_page_def cache_drop_def)

lemma PAGE_ALIGN_idem [simp]: "PAGE_ALIGN (PAGE_ALIGN x) = PAGE_ALIGN x"
  by (rule PAGE_ALIGN_aligned) simp

lemma cache_add_fields [simp]:
  "cached (cache_add k p s) q \<longleftrightarrow> cached s q \<or> q = p"
  "page_key (cache_add k p s) q = (if q = p then (Some (fst k), PAGE_ALIGN (snd k)) else page_key s q)"
proof -
  let ?b = "bucket_of (fst k) (PAGE_ALIGN (snd k))"
  have "set (hash_table (cache_add k p s) b) = (if b = ?b then insert p (set (hash_table s b)) else set (hash_table s b))" for b
    by (auto simp: cache_add_def Let_def)
  then show "cached (cache_add k p s) q \<longleftrightarrow> cached s q \<or> q = p"
    unfolding cached_def using bucket_of_less [of "fst k" "PAGE_ALIGN (snd k)"] by (metis insert_iff)
  show "page_key (cache_add k p s) q = (if q = p then (Some (fst k), PAGE_ALIGN (snd k)) else page_key s q)"
    by (simp add: page_key_def cache_add_def Let_def)
qed

lemma cache_drop_fields [simp]:
  "cached (cache_drop p s) q \<longleftrightarrow> cached s q \<and> q \<noteq> p" "page_key (cache_drop p s) = page_key s"
  by (auto simp: cached_def page_key_def cache_drop_def fun_eq_iff)

lemma cache_add_inv:
  assumes inv: "cache_inv s" and "cache_at k s = None" "\<not> cached s p"
  shows "cache_inv (cache_add k p s)"
proof -
  let ?s = "cache_add k p s" and ?off = "PAGE_ALIGN (snd k)"
  have keys: "\<forall>q r. cached ?s q \<longrightarrow> cached ?s r \<longrightarrow> page_key ?s q = page_key ?s r \<longrightarrow> q = r"
    using assms cache_at_None [OF inv, of k] unfolding cache_inv_def by auto
  have "distinct (hash_table ?s b) \<and> (\<forall>q\<in>set (hash_table ?s b). \<exists>c off. page_key ?s q = (Some c, off) \<and> PAGE_ALIGN off = off \<and> bucket_of c off = b)"
    if b: "b < NUM_HASH_BUCKETS" for b
  proof -
    have old: "distinct (hash_table s b)" "\<forall>q\<in>set (hash_table s b). \<exists>c off. page_key s q = (Some c, off) \<and> PAGE_ALIGN off = off \<and> bucket_of c off = b"
      using inv b by (auto simp: cache_inv_def)
    have p: "p \<notin> set (hash_table s b)" using assms(3) b by (auto simp: cached_def)
    have ht: "hash_table ?s b = (if b = bucket_of (fst k) ?off then hash_table s b @ [p] else hash_table s b)"
      by (simp add: cache_add_def Let_def)
    show ?thesis unfolding ht using old p by auto
  qed
  moreover have "distinct (page_list (caches ?s c)) \<and> (\<forall>q. q \<in> set (page_list (caches ?s c)) \<longleftrightarrow> cached ?s q \<and> page_cache (pages ?s q) = Some c)" for c
  proof -
    have old: "distinct (page_list (caches s c))" "\<And>q. q \<in> set (page_list (caches s c)) \<longleftrightarrow> cached s q \<and> page_cache (pages s q) = Some c"
      using inv by (auto simp: cache_inv_def)
    have pl: "page_list (caches ?s c) = (if c = fst k then page_list (caches s c) @ [p] else page_list (caches s c))"
      "page_cache (pages ?s q) = (if q = p then Some (fst k) else page_cache (pages s q))" for q
      by (simp_all add: cache_add_def Let_def)
    show ?thesis unfolding pl using old assms(3) by auto
  qed
  ultimately show ?thesis using keys unfolding cache_inv_def by blast
qed

lemma cache_drop_inv:
  assumes inv: "cache_inv s"
  shows "cache_inv (cache_drop p s)"
proof -
  have "page_cache (pages (cache_drop p s) q) = page_cache (pages s q)" for q by (simp add: cache_drop_def)
  moreover have "hash_table (cache_drop p s) b = removeAll p (hash_table s b)" "page_list (caches (cache_drop p s) c) = removeAll p (page_list (caches s c))" for b c
    by (simp_all add: cache_drop_def)
  ultimately show ?thesis
    using inv unfolding cache_inv_def by (auto simp: distinct_removeAll)
qed

interpretation page_store: keyed_store cache_at cache_add cache_drop "\<lambda>p s. \<not> cached s p" cache_inv "\<lambda>k. (fst k, PAGE_ALIGN (snd k))"
proof unfold_locales
  fix s :: "'a cache_state_scheme" and k :: "nat \<times> u32" and v
  assume a: "cache_inv s" "cache_at k s = None" "\<not> cached s v"
  have inv: "cache_inv (cache_add k v s)" by (rule cache_add_inv [OF a])
  have "cache_at k' (cache_add k v s) = (if (fst k', PAGE_ALIGN (snd k')) = (fst k, PAGE_ALIGN (snd k)) then Some v else cache_at k' s)" for k'
  proof (cases "(fst k', PAGE_ALIGN (snd k')) = (fst k, PAGE_ALIGN (snd k))")
    case True
    then show ?thesis using cache_at_iff [OF inv, of k' v] by simp
  next
    case False
    have "cache_at k' (cache_add k v s) = Some q \<longleftrightarrow> cache_at k' s = Some q" for q
      using cache_at_iff [OF inv, of k' q] cache_at_iff [OF a(1), of k' q] False a(3) by auto
    then have "cache_at k' (cache_add k v s) = cache_at k' s" by (rule option_eqI)
    then show ?thesis using False by auto
  qed
  then show "cache_inv (cache_add k v s) \<and> (\<forall>k'. cache_at k' (cache_add k v s)
      = (if (fst k', PAGE_ALIGN (snd k')) = (fst k, PAGE_ALIGN (snd k)) then Some v else cache_at k' s))"
    using inv by blast
next
  fix s :: "'a cache_state_scheme" and k :: "nat \<times> u32" and v
  assume a: "cache_inv s" "cache_at k s = Some v"
  have inv: "cache_inv (cache_drop v s)" by (rule cache_drop_inv [OF a(1)])
  have v: "cached s v" "page_key s v = (Some (fst k), PAGE_ALIGN (snd k))" using cache_at_cached [OF a(2)] by auto
  have "cache_at k' (cache_drop v s) = (if (fst k', PAGE_ALIGN (snd k')) = (fst k, PAGE_ALIGN (snd k)) then None else cache_at k' s)" for k'
  proof (cases "(fst k', PAGE_ALIGN (snd k')) = (fst k, PAGE_ALIGN (snd k))")
    case True
    then have "cache_at k' s = Some v" using cache_at_iff [OF a(1), of k' v] v by simp
    then have "cache_at k' (cache_drop v s) \<noteq> Some q" for q
      using cache_at_iff [OF inv, of k' q] cache_at_iff [OF a(1), of k' q] by auto
    then show ?thesis using True by (metis not_None_eq)
  next
    case False
    have "cache_at k' (cache_drop v s) = Some q \<longleftrightarrow> cache_at k' s = Some q" for q
      using cache_at_iff [OF inv, of k' q] cache_at_iff [OF a(1), of k' q] False v by auto
    then have "cache_at k' (cache_drop v s) = cache_at k' s" by (rule option_eqI)
    then show ?thesis using False by auto
  qed
  then show "cache_inv (cache_drop v s) \<and> (\<forall>k'. cache_at k' (cache_drop v s)
      = (if (fst k', PAGE_ALIGN (snd k')) = (fst k, PAGE_ALIGN (snd k)) then None else cache_at k' s))"
    using inv by blast
next
  fix k' k :: "nat \<times> u32" and s :: "'a cache_state_scheme"
  assume "(fst k', PAGE_ALIGN (snd k')) = (fst k, PAGE_ALIGN (snd k))"
  then show "cache_at k' s = cache_at k s" by (simp add: cache_at_def)
qed

text \<open>
  C33: The hash table is a map from cache and page offset to pages. With the lock held, inserting a page
  that is in no cache for a key without page makes exactly that key find it, removing a page that a
  key finds makes exactly that key find nothing, and both keep the invariant of the table.
\<close>

theorem cache_refines_map:
  assumes inv: "cache_inv s" and owner: "debug_cache_lock_owner s = hw"
  shows "(lookup_cache_page hw c off s = Inr None \<and> page_cache (pages s p) = None \<and> \<not> cached s p \<longrightarrow>
      (\<exists>s'. insert_cache_page hw c off p s = Inr s' \<and> cache_inv s' \<and> (\<forall>c' off'. lookup_cache_page hw c' off' s'
          = (if c' = c \<and> PAGE_ALIGN off' = PAGE_ALIGN off then Inr (Some p) else lookup_cache_page hw c' off' s))))
    \<and> (lookup_cache_page hw c off s = Inr (Some p) \<longrightarrow>
      (\<exists>s'. remove_cache_page hw p s = Inr s' \<and> cache_inv s' \<and> (\<forall>c' off'. lookup_cache_page hw c' off' s'
          = (if c' = c \<and> PAGE_ALIGN off' = PAGE_ALIGN off then Inr None else lookup_cache_page hw c' off' s))))"
proof (intro conjI impI; (elim conjE)?)
  assume a: "lookup_cache_page hw c off s = Inr None" "page_cache (pages s p) = None" "\<not> cached s p"
  have o: "debug_cache_lock_owner (cache_add (c, off) p s) = hw" using owner by (simp add: cache_add_def Let_def)
  have "cache_at (c, off) s = None" using a(1) lookup_cache_page_at [OF owner] by simp
  from page_store.lookup_insert [OF inv this a(3)] show "\<exists>s'. insert_cache_page hw c off p s = Inr s' \<and> cache_inv s'
      \<and> (\<forall>c' off'. lookup_cache_page hw c' off' s'
          = (if c' = c \<and> PAGE_ALIGN off' = PAGE_ALIGN off then Inr (Some p) else lookup_cache_page hw c' off' s))"
    using insert_cache_page_add [OF owner a(2)] by (auto simp: lookup_cache_page_at [OF owner] lookup_cache_page_at [OF o])
next
  assume a: "lookup_cache_page hw c off s = Inr (Some p)"
  have o: "debug_cache_lock_owner (cache_drop p s) = hw" using owner by (simp add: cache_drop_def)
  have "cache_at (c, off) s = Some p" using a lookup_cache_page_at [OF owner] by simp
  from page_store.lookup_remove [OF inv this] show "\<exists>s'. remove_cache_page hw p s = Inr s' \<and> cache_inv s'
      \<and> (\<forall>c' off'. lookup_cache_page hw c' off' s'
          = (if c' = c \<and> PAGE_ALIGN off' = PAGE_ALIGN off then Inr None else lookup_cache_page hw c' off' s))"
    using remove_cache_page_drop [OF owner] by (auto simp: lookup_cache_page_at [OF owner] lookup_cache_page_at [OF o])
qed

text \<open>An empty cache whose lock is held by hardware thread 0.\<close>

definition empty_cache :: cache_state where
  "empty_cache = translation_state.extend small_system
     \<lparr>caches = (\<lambda>_. \<lparr>page_list = [], cache_file = 0, cache_refs = 1, cache_source = None\<rparr>), hash_table = (\<lambda>_. []),
      cache_lock = True, debug_cache_lock_owner = 0\<rparr>"

lemma empty_cache_inv: "cache_inv empty_cache" "\<not> cached empty_cache p"
  by (simp_all add: cache_inv_def cached_def empty_cache_def translation_state.extend_def)

theorem cache_refines_map_witness:
  "\<exists>s1 s2. insert_cache_page 0 7 0x2345 4 empty_cache = Inr s1 \<and> lookup_cache_page 0 7 0x2000 s1 = Inr (Some 4)
     \<and> lookup_cache_page 0 8 0x2000 s1 = Inr None \<and> remove_cache_page 0 4 s1 = Inr s2 \<and> lookup_cache_page 0 7 0x2000 s2 = Inr None"
proof -
  have o: "debug_cache_lock_owner empty_cache = 0" and l: "\<And>c off. lookup_cache_page 0 c off empty_cache = Inr None"
      and free: "page_cache (pages empty_cache 4) = None"
    by (simp_all add: empty_cache_def translation_state.extend_def lookup_cache_page_def small_system_def)
  have align: "PAGE_ALIGN 0x2000 = PAGE_ALIGN 0x2345" by (simp add: PAGE_ALIGN_def)
  from cache_refines_map [OF empty_cache_inv(1) o, of 7 "0x2345" 4] l free empty_cache_inv(2)
  obtain s1 where s1: "insert_cache_page 0 7 0x2345 4 empty_cache = Inr s1" "cache_inv s1"
      "\<And>c' off'. lookup_cache_page 0 c' off' s1 = (if c' = 7 \<and> PAGE_ALIGN off' = PAGE_ALIGN 0x2345 then Inr (Some 4) else Inr None)" by auto
  have o1: "debug_cache_lock_owner s1 = 0" using s1(1) o by (auto simp: insert_cache_page_def Let_def split: if_splits)
  from cache_refines_map [OF s1(2) o1, of 7 "0x2000" 4] s1(3) align
  obtain s2 where "remove_cache_page 0 4 s1 = Inr s2" "lookup_cache_page 0 7 0x2000 s2 = Inr None" by auto
  then show ?thesis using s1 align by auto
qed

end
