(* ===== verification/Kern_Data.thy ===== *)
theory Kern_Data
  imports Kern_Cache
begin

text \<open>
  Pages that hold data: they are neither directories nor page tables, so changing them changes no
  translation, and mapping a page does not change them. The state \<open>fault_inv\<close> of the memory of the
  kernel says that the pages in the cache are such pages and are in use.
\<close>

definition data_page :: "'a translation_state_scheme \<Rightarrow> nat \<Rightarrow> bool" where
  "data_page s p \<longleftrightarrow> 0 < p \<and> p < num_pages s \<and> p \<notin> set (dir_frames s) \<and> (\<forall>x\<in>slots s. present s x \<longrightarrow> table_of s x \<noteq> p)"

definition same_maps :: "'a translation_state_scheme \<Rightarrow> 'a translation_state_scheme \<Rightarrow> bool" where
  "same_maps s s' \<longleftrightarrow> num_pages s' = num_pages s \<and> map_list s' = map_list s \<and> dir_frames s' = dir_frames s \<and> slots s' = slots s \<and> slot_of s' = slot_of s
     \<and> (\<forall>x\<in>slots s. present s' x = present s x \<and> table_of s' x = table_of s x)
     \<and> (\<forall>m va. KERNEL_BASE \<le> va \<or> m \<in> set (map_list s) \<longrightarrow> query_translation_map m va s' = query_translation_map m va s)"

lemma same_maps_refl [simp]: "same_maps s s"
  by (simp add: same_maps_def)

lemma same_maps_trans: "same_maps s s' \<Longrightarrow> same_maps s' s'' \<Longrightarrow> same_maps s s''"
  unfolding same_maps_def by simp

lemma same_maps_data: "same_maps s s' \<Longrightarrow> data_page s' = data_page s"
  unfolding same_maps_def data_page_def fun_eq_iff by metis

lemma space_ok_data:
  assumes ok: "space_ok s" and p: "data_page s p"
    and same: "kernel_dir s' = kernel_dir s" "maps s' = maps s" "map_list s' = map_list s" "phys_size s' = phys_size s"
    and pok: "page_state_ok s'" and fr: "\<And>q. q \<noteq> p \<Longrightarrow> frames s' q = frames s q"
    and free: "set (free_page_list s') \<subseteq> insert p (set (free_page_list s))"
  shows "space_ok s'" "same_maps s s'"
proof -
  have eq: "dir_frames s' = dir_frames s" "slots s' = slots s" "slot_of s' = slot_of s" "num_pages s' = num_pages s"
    using same by (simp_all add: dir_frames_def slots_def slot_of_def num_pages_def fun_eq_iff)
  have pt: "present s' x = present s x" "table_of s' x = table_of s x" if "x \<in> slots s" for x
  proof -
    have "fst x \<noteq> p" using slots_dir [OF that] p by (auto simp: data_page_def)
    then show "present s' x = present s x" "table_of s' x = table_of s x" by (simp_all add: present_def table_of_def fr)
  qed
  have nf: "q \<notin> set (free_page_list s')" if "q \<notin> set (free_page_list s)" "q \<noteq> p" for q using that free by auto
  have dirs: "\<forall>d\<in>set (dir_frames s'). d < num_pages s' \<and> d \<notin> set (free_page_list s')"
    using ok p nf unfolding eq by (auto simp: space_ok_def data_page_def)
  have tables: "\<forall>x\<in>slots s'. present s' x \<longrightarrow> table_of s' x < num_pages s' \<and> table_of s' x \<notin> set (free_page_list s') \<and> table_of s' x \<notin> set (dir_frames s')"
    using ok p nf pt unfolding eq by (auto simp: space_ok_def data_page_def)
  have "\<forall>x\<in>slots s'. \<forall>y\<in>slots s'. present s' x \<longrightarrow> present s' y \<longrightarrow> table_of s' x = table_of s' y \<longrightarrow> x = y"
    using ok pt unfolding eq space_ok_def by metis
  then show ok': "space_ok s'" using ok pok dirs tables unfolding space_ok_def eq(1) by blast
  have "query_translation_map m va s' = query_translation_map m va s" if v: "KERNEL_BASE \<le> va \<or> m \<in> set (map_list s)" for m va
  proof -
    have "table_of s (slot_of s m va) \<noteq> p" if "present s (slot_of s m va)"
      using that slot_of_slots [OF v] p by (auto simp: data_page_def)
    then show ?thesis
      using query_eq [OF ok v] query_eq [OF ok', of va m] v same(3) eq(3) pt [OF slot_of_slots [OF v]] by (auto simp: fr)
  qed
  then show "same_maps s s'" using eq same(3) pt by (simp add: same_maps_def)
qed

lemma free_data_page: "space_ok s \<Longrightarrow> p \<in> set (free_page_list s) \<Longrightarrow> data_page s p"
  by (auto simp: space_ok_def data_page_def page_state_ok_def)

text \<open>What mapping a page leaves alone: everything but the tables, and the page that becomes one.\<close>

lemma map_in_table_shape:
  assumes "map_in_table dir va pa s = Inr s'"
  shows "\<exists>t. s' = s\<lparr>frames := (frames s)(t := (frames s t)(pgt_index va := pa)), tlb_invalidated := va # tlb_invalidated s\<rparr>
    \<and> t = unat (frames s (unat dir div 4096) (pgd_index va)) div 4096"
  using assms by (auto simp: map_in_table_def read_entry_def write_entry_def split: if_splits)

lemma vm_map_page_data:
  assumes ok: "space_ok s" and va: "va < KERNEL_BASE \<and> m \<in> set (map_list s) \<or> KERNEL_BASE \<le> va \<and> present s (slot_of s m va)"
    and run: "vm_map_page m va pa s = Inr s'"
  shows "\<exists>fr pg fl. s' = s\<lparr>frames := fr, pages := pg, free_page_list := fl, tlb_invalidated := va # tlb_invalidated s\<rparr>
    \<and> (\<forall>q. data_page s q \<and> q \<notin> set (free_page_list s) \<longrightarrow> fr q = frames s q \<and> pg q = pages s q \<and> q \<notin> set fl \<and> data_page s' q)
    \<and> (\<forall>q. page_in_use s q \<longrightarrow> page_in_use s' q)"
proof -
  let ?x = "slot_of s m va" and ?dir = "if KERNEL_BASE \<le> va then kernel_dir s else page_dir (maps s m)"
  have v: "KERNEL_BASE \<le> va \<or> m \<in> set (map_list s)" using va by auto
  have x: "?x \<in> slots s" using slot_of_slots v .
  have fx: "fst ?x < num_pages s" "fst ?x \<in> set (dir_frames s)" using slots_dir [OF x] ok by (auto simp: space_ok_def)
  have x': "unat ?dir div 4096 = fst ?x" "snd ?x = pgd_index va" by (simp_all add: slot_of_def)
  have rd: "read_entry ?dir (pgd_index va) s = Inr (frames s (fst ?x) (snd ?x))" using fx(1) by (simp add: read_entry_def x')
  show ?thesis
  proof (cases "present s ?x")
    case True
    then have "map_in_table ?dir va pa s = Inr s'" using rd run by (auto simp: vm_map_page_def Let_def present_def split: if_splits)
    from map_in_table_shape [OF this] x'
    have s': "s' = s\<lparr>frames := (frames s)(table_of s ?x := (frames s (table_of s ?x))(pgt_index va := pa)), tlb_invalidated := va # tlb_invalidated s\<rparr>"
      by (auto simp: table_of_def)
    have "frames s' q = frames s q" if "data_page s q" for q using that x True by (auto simp: s' data_page_def)
    moreover have "data_page s' q" if q: "data_page s q" for q
    proof -
      have e: "slots s' = slots s" "dir_frames s' = dir_frames s" "num_pages s' = num_pages s"
        by (simp_all add: s' slots_def dir_frames_def num_pages_def)
      have "fst y \<noteq> table_of s ?x" if "y \<in> slots s" for y using slots_dir [OF that] ok x True by (auto simp: space_ok_def)
      then have "present s' y = present s y \<and> table_of s' y = table_of s y" if "y \<in> slots s" for y
        using that by (simp add: s' present_def table_of_def)
      then show ?thesis using q e by (auto simp: data_page_def)
    qed
    moreover have "page_in_use s' q = page_in_use s q" for q by (simp add: s' page_in_use_def)
    ultimately show ?thesis using s'
      by (intro exI [of _ "frames s'"] exI [of _ "pages s"] exI [of _ "free_page_list s"]) auto
  next
    case False
    then have u: "\<not> KERNEL_BASE \<le> va" using va by auto
    obtain a s1 where al: "vm_allocate_page s = Inr (a, s1)"
        and r: "bindE (write_entry ?dir (snd ?x) (page_to_pa a OR PAGE_PRESENT) s1) (map_in_table ?dir va pa) = Inr s'"
      using rd u False x'(2) run by (cases "vm_allocate_page s") (auto simp: vm_map_page_def Let_def present_def)
    have pok: "page_state_ok s" using ok by (simp add: space_ok_def)
    note a = vm_allocate_page_ok [OF pok al]
    have ab: "a < 1048576" using a(2) unat_u32_bound [of "phys_size s"] by (simp add: num_pages_def)
    define s2 where "s2 = s1\<lparr>frames := (frames s1)(fst ?x := (frames s1 (fst ?x))(snd ?x := page_to_pa a OR PAGE_PRESENT))\<rparr>"
    have "write_entry ?dir (snd ?x) (page_to_pa a OR PAGE_PRESENT) s1 = Inr s2"
      unfolding write_entry_def x' s2_def using fx(1) a(8) by simp
    then have "map_in_table ?dir va pa s2 = Inr s'" using r by simp
    from map_in_table_shape [OF this] page_frame(1) [OF ab]
    have s': "s' = s2\<lparr>frames := (frames s2)(a := (frames s2 a)(pgt_index va := pa)), tlb_invalidated := va # tlb_invalidated s2\<rparr>"
      unfolding x' by (auto simp: s2_def x')
    obtain pg fl where s1: "s1 = s\<lparr>free_page_list := fl, pages := pg, frames := (frames s)(a := (\<lambda>_. 0))\<rparr>" "free_page_list s = a # fl"
        "\<forall>q. q \<noteq> a \<longrightarrow> pg q = pages s q"
      using al by (auto simp: vm_allocate_page_def split: list.splits)
    have af: "a \<in> set (free_page_list s)" "set fl \<subseteq> set (free_page_list s)" using s1(2) by auto
    have fr: "frames s' q = frames s q" if "q \<noteq> a" "q \<noteq> fst ?x" for q using that by (simp add: s' s2_def s1(1))
    have e: "slots s' = slots s" "dir_frames s' = dir_frames s" "num_pages s' = num_pages s"
      by (simp_all add: s' s2_def s1(1) slots_def dir_frames_def num_pages_def)
    have "data_page s' q" if q: "data_page s q" "q \<notin> set (free_page_list s)" for q
    proof -
      have "frames s' (fst y) (snd y) = (if y = ?x then page_to_pa a OR PAGE_PRESENT else frames s (fst y) (snd y))" if y: "y \<in> slots s" for y
      proof -
        have "fst y \<noteq> a" using slots_dir [OF y] af ok by (auto simp: space_ok_def)
        then show ?thesis by (auto simp: s' s2_def s1(1) prod_eq_iff)
      qed
      then have "table_of s' y \<noteq> q" if "y \<in> slots s" "present s' y" for y
        using that q af(1) page_frame(1) [OF ab] by (auto simp: table_of_def present_def data_page_def split: if_splits)
      then show ?thesis using q(1) e by (auto simp: data_page_def)
    qed
    moreover have "frames s' q = frames s q \<and> pg q = pages s q \<and> q \<notin> set fl" if q: "data_page s q" "q \<notin> set (free_page_list s)" for q
    proof -
      have "q \<noteq> a" "q \<noteq> fst ?x" "q \<notin> set fl" using q fx(2) af by (auto simp: data_page_def)
      then show ?thesis using fr s1(3) by simp
    qed
    moreover have "s' = s\<lparr>frames := frames s', pages := pg, free_page_list := fl, tlb_invalidated := va # tlb_invalidated s\<rparr>"
      by (simp add: s' s2_def s1(1))
    moreover have "page_in_use s' q" if "page_in_use s q" for q
      using that a(9) [of q] by (simp add: s' s2_def page_in_use_def)
    ultimately show ?thesis by blast
  qed
qed

subsection \<open>Pages of the cache\<close>

definition fault_inv :: "'a cache_state_scheme \<Rightarrow> bool" where
  "fault_inv s \<longleftrightarrow> space_ok s \<and> cache_inv s \<and> (\<forall>p. cached s p \<longrightarrow> data_page s p \<and> page_in_use s p)"

lemma cache_same:
  assumes "hash_table s' = hash_table s" "\<And>p. cached s p \<Longrightarrow> page_key s' p = page_key s p" "\<And>c. page_list (caches s' c) = page_list (caches s c)"
    and inv: "cache_inv s"
  shows "cache_inv s'" "cached s' = cached s" "cache_at k s' = cache_at k s"
proof -
  show c: "cached s' = cached s" using assms(1) by (simp add: cached_def fun_eq_iff)
  have keys: "page_key s' p = page_key s p" if "b < 37" "p \<in> set (hash_table s b)" for p b
    using that assms(2) by (auto simp: cached_def)
  have pc: "page_cache (pages s' p) = page_cache (pages s p)" if "cached s p" for p
    using assms(2) [OF that] by (simp add: page_key_def)
  have "\<forall>b<37. distinct (hash_table s' b) \<and> (\<forall>p\<in>set (hash_table s' b). \<exists>c off. page_key s' p = (Some c, off) \<and> PAGE_ALIGN off = off \<and> bucket_of c off = b)"
    using inv keys unfolding cache_inv_def assms(1) by metis
  moreover have "\<forall>p q. cached s' p \<longrightarrow> cached s' q \<longrightarrow> page_key s' p = page_key s' q \<longrightarrow> p = q"
    using inv assms(2) unfolding cache_inv_def c by metis
  moreover have "\<forall>c. distinct (page_list (caches s' c)) \<and> (\<forall>p. p \<in> set (page_list (caches s' c)) \<longleftrightarrow> cached s' p \<and> page_cache (pages s' p) = Some c)"
    using inv pc unfolding cache_inv_def c assms(3) by metis
  ultimately show "cache_inv s'" by (simp add: cache_inv_def)
  show "cache_at k s' = cache_at k s"
    unfolding cache_at_def assms(1) using keys bucket_of_less [of "fst k" "PAGE_ALIGN (snd k)"] by (intro find_cong) auto
qed

text \<open>A step that changes one data page, its page structure and perhaps the locks.\<close>

lemma data_step:
  assumes inv: "fault_inv s" and p: "data_page s p"
    and same: "kernel_dir s' = kernel_dir s" "maps s' = maps s" "map_list s' = map_list s" "phys_size s' = phys_size s" "free_page_list s' = free_page_list s"
      "hash_table s' = hash_table s" "caches s' = caches s"
    and pg: "\<And>q. q \<noteq> p \<Longrightarrow> pages s' q = pages s q" "page_key s' p = page_key s p" "ref_count (pages s p) \<le> ref_count (pages s' p)"
      "p \<in> set (free_page_list s) \<Longrightarrow> ref_count (pages s' p) = ref_count (pages s p)"
    and fr: "\<And>q. q \<noteq> p \<Longrightarrow> frames s' q = frames s q"
  shows "fault_inv s'" "same_maps s s'" "cached s' = cached s" "cache_at k s' = cache_at k s"
proof -
  have ok: "space_ok s" "cache_inv s" "\<And>q. cached s q \<Longrightarrow> data_page s q \<and> page_in_use s q" using inv by (auto simp: fault_inv_def)
  have keys: "page_key s' q = page_key s q" for q using pg by (cases "q = p") (simp_all add: page_key_def)
  note c = cache_same [OF same(6) keys _ ok(2), unfolded same(7), OF refl]
  have rc: "ref_count (pages s q) \<le> ref_count (pages s' q)" for q using pg by (cases "q = p") simp_all
  have "page_state_ok s'"
  proof -
    have "ref_count (pages s' q) = ref_count (pages s q)" if "q \<in> set (free_page_list s)" for q
      using that pg by (cases "q = p") simp_all
    moreover have "0 \<le> ref_count (pages s' q)" for q
      using rc [of q] ok(1) [unfolded space_ok_def page_state_ok_def, THEN conjunct1, THEN conjunct2, THEN conjunct2, THEN spec, of q] by linarith
    moreover have "num_pages s' = num_pages s" using same(4) by (simp add: num_pages_def)
    ultimately show ?thesis using ok(1) unfolding space_ok_def page_state_ok_def same(5) by auto
  qed
  then have sp: "space_ok s'" "same_maps s s'"
    using space_ok_data [OF ok(1) p same(1-4) _ fr] same(5) by auto
  have "data_page s' q \<and> page_in_use s' q" if "cached s q" for q
    using ok(3) [OF that] rc [of q] same_maps_data [OF sp(2)] by (simp add: page_in_use_def)
  then show "fault_inv s'" "same_maps s s'" "cached s' = cached s" "cache_at k s' = cache_at k s"
    using sp c by (auto simp: fault_inv_def)
qed

text \<open>A new page enters the cache.\<close>

lemma new_cache_page:
  assumes inv: "fault_inv s" and owner: "debug_cache_lock_owner s = hw" and none: "cache_at (c, off) s = None"
    and al: "vm_allocate_page s = Inr (p, s1)" and s2: "s2 = s1\<lparr>pages := (pages s1)(p := (pages s1 p)\<lparr>busy := True\<rparr>)\<rparr>"
  shows "\<exists>s'. insert_cache_page hw c off p s2 = Inr s' \<and> fault_inv s' \<and> same_maps s s' \<and> s' = cache_add (c, off) p s2
    \<and> (\<forall>k. cache_at k s' = (if (fst k, PAGE_ALIGN (snd k)) = (c, PAGE_ALIGN off) then Some p else cache_at k s))
    \<and> \<not> cached s p \<and> data_page s p \<and> frames s' = (frames s)(p := (\<lambda>_. 0)) \<and> ref_count (pages s' p) = 1 \<and> busy (pages s' p)
    \<and> (\<forall>q. q \<noteq> p \<longrightarrow> pages s' q = pages s q) \<and> (\<forall>q. cached s' q \<longleftrightarrow> cached s q \<or> q = p)"
proof -
  have ok: "space_ok s" "cache_inv s" "\<And>q. cached s q \<Longrightarrow> data_page s q \<and> page_in_use s q" using inv by (auto simp: fault_inv_def)
  obtain fl where s1: "free_page_list s = p # fl" "s1 = s\<lparr>free_page_list := fl,
         pages := (pages s)(p := (pages s p)\<lparr>busy := False, page_cache := None, dirty := False, ref_count := 1\<rparr>),
         frames := (frames s)(p := (\<lambda>_. 0))\<rparr>"
    using al by (auto simp: vm_allocate_page_def split: list.splits)
  have pf: "p \<in> set (free_page_list s)" using s1(1) by simp
  have pd: "data_page s p" by (rule free_data_page [OF ok(1) pf])
  have nc: "\<not> cached s p" using ok(3) [of p] ok(1) pf by (auto simp: space_ok_def page_state_ok_def page_in_use_def)
  have keys: "page_key s2 q = page_key s q" if "cached s q" for q
  proof -
    have "q \<noteq> p" using that nc by auto
    then show ?thesis by (simp add: s2 s1(2) page_key_def)
  qed
  have ht: "hash_table s2 = hash_table s" "caches s2 = caches s" by (simp_all add: s2 s1(2))
  have c: "cache_inv s2" "cached s2 = cached s" "cache_at k s2 = cache_at k s" for k
    using cache_same [OF ht(1) keys _ ok(2)] ht(2) by auto
  have own2: "debug_cache_lock_owner s2 = hw" "page_cache (pages s2 p) = None" using owner by (simp_all add: s2 s1(2))
  define s' where "s' = cache_add (c, off) p s2"
  have none2: "cache_at (c, off) s2 = None" "\<not> cached s2 p" using c(2,3) nc none by simp_all
  note st = page_store.lookup_insert [OF c(1) none2, folded s'_def]
  have "page_state_ok s1" using vm_allocate_page_ok(1) [OF _ al] ok(1) by (simp add: space_ok_def)
  then have pok: "page_state_ok s'"
    by (auto simp: s'_def cache_add_def Let_def s2 page_state_ok_def num_pages_def)
  have fields: "kernel_dir s' = kernel_dir s" "maps s' = maps s" "map_list s' = map_list s" "phys_size s' = phys_size s" "free_page_list s' = fl"
      "frames s' = (frames s)(p := (\<lambda>_. 0))" "\<forall>q. q \<noteq> p \<longrightarrow> pages s' q = pages s q" "ref_count (pages s' p) = 1" "busy (pages s' p)"
    by (simp_all add: s'_def cache_add_def Let_def s2 s1(2))
  have sp: "space_ok s'" "same_maps s s'"
    using space_ok_data [OF ok(1) pd fields(1-4) pok] fields(5,6) s1(1) by auto
  have cd: "cached s' q \<longleftrightarrow> cached s q \<or> q = p" for q unfolding s'_def using c(2) by simp
  have use: "data_page s' q \<and> page_in_use s' q" if "cached s' q" for q
    using that cd [of q] ok(3) [of q] pd fields(7,8) same_maps_data [OF sp(2)] by (cases "q = p") (auto simp: page_in_use_def)
  then have "fault_inv s'" using sp(1) st by (simp add: fault_inv_def)
  moreover have "cache_at k s' = (if (fst k, PAGE_ALIGN (snd k)) = (c, PAGE_ALIGN off) then Some p else cache_at k s)" for k
    using conjunct2 [OF st, THEN spec, of k] unfolding c(3) by simp
  ultimately show ?thesis
    using insert_cache_page_add [OF own2, of c off] sp(2) cd nc pd fields by (intro exI [of _ s']) (simp add: s'_def)
qed

text \<open>A page that only the cache refers to leaves it and is free again.\<close>

lemma drop_cache_page:
  assumes inv: "fault_inv s" and owner: "debug_cache_lock_owner s = hw" and at: "cache_at (c, off) s = Some p" and one: "ref_count (pages s p) = 1"
  shows "\<exists>s1 s'. remove_cache_page hw p s = Inr s1 \<and> dec_page_ref p s1 = Inr s' \<and> fault_inv s' \<and> same_maps s s'
    \<and> (\<forall>k. cache_at k s' = (if (fst k, PAGE_ALIGN (snd k)) = (c, PAGE_ALIGN off) then None else cache_at k s))
    \<and> frames s' = frames s \<and> (\<forall>q. q \<noteq> p \<longrightarrow> pages s' q = pages s q) \<and> (\<forall>q. cached s' q \<longleftrightarrow> cached s q \<and> q \<noteq> p)
    \<and> s' = (cache_drop p s)\<lparr>pages := pages s', free_page_list := p # free_page_list s\<rparr>"
proof -
  have ok: "space_ok s" "cache_inv s" "\<And>q. cached s q \<Longrightarrow> data_page s q \<and> page_in_use s q" using inv by (auto simp: fault_inv_def)
  have cp: "cached s p" using cache_at_cached [OF at] by simp
  have st: "cache_inv (cache_drop p s)" "\<And>k'. cache_at k' (cache_drop p s) = (if (fst k', PAGE_ALIGN (snd k')) = (c, PAGE_ALIGN off) then None else cache_at k' s)"
    using page_store.lookup_remove [OF ok(2) at] by auto
  define s' where "s' = (cache_drop p s)\<lparr>pages := (pages s)(p := (pages s p)\<lparr>ref_count := 0\<rparr>), free_page_list := p # free_page_list s\<rparr>"
  have run: "dec_page_ref p (cache_drop p s) = Inr s'"
    using one by (simp add: dec_page_ref_def s'_def cache_drop_def)
  have keys: "hash_table s' = hash_table (cache_drop p s)" "\<And>q. page_key s' q = page_key (cache_drop p s) q"
      "\<And>c. page_list (caches s' c) = page_list (caches (cache_drop p s) c)"
    by (auto simp: s'_def page_key_def cache_drop_def)
  note c = cache_same [OF keys st(1)]
  have pd: "data_page s p" "page_in_use s p" using ok(3) [OF cp] by auto
  have pf: "p \<notin> set (free_page_list s)" using ok(1) one by (auto simp: space_ok_def page_state_ok_def)
  have pok: "page_state_ok s'"
    using ok(1) pd(1) pf by (auto simp: s'_def cache_drop_def space_ok_def page_state_ok_def data_page_def num_pages_def)
  have fields: "kernel_dir s' = kernel_dir s" "maps s' = maps s" "map_list s' = map_list s" "phys_size s' = phys_size s" "frames s' = frames s"
      "\<forall>q. q \<noteq> p \<longrightarrow> pages s' q = pages s q" "free_page_list s' = p # free_page_list s"
    by (simp_all add: s'_def cache_drop_def)
  have sp: "space_ok s'" "same_maps s s'"
    using space_ok_data [OF ok(1) pd(1) fields(1-4) pok] fields(5,7) by auto
  have cd: "cached s' q \<longleftrightarrow> cached s q \<and> q \<noteq> p" for q using c(2) by simp
  have "data_page s' q \<and> page_in_use s' q" if "cached s' q" for q
    using that cd ok(3) fields(6) same_maps_data [OF sp(2)] by (auto simp: page_in_use_def)
  then have "fault_inv s'" using sp(1) c(1) by (simp add: fault_inv_def)
  then show ?thesis
    using remove_cache_page_drop [OF owner, of p] run sp(2) st(2) c(3) cd fields by (intro exI [of _ "cache_drop p s"] exI [of _ s']) (auto simp: s'_def)
qed

text \<open>Mapping a page leaves the cache alone.\<close>

lemma map_keeps_cache:
  assumes inv: "fault_inv s" and va: "va < KERNEL_BASE \<and> m \<in> set (map_list s) \<or> KERNEL_BASE \<le> va \<and> present s (slot_of s m va)"
    and run: "vm_map_page m va pa s = Inr s'"
  shows "fault_inv s'" "cached s' = cached s" "cache_at k s' = cache_at k s" "\<And>q. cached s q \<Longrightarrow> pages s' q = pages s q \<and> frames s' q = frames s q"
    "\<exists>fr pg fl. s' = s\<lparr>frames := fr, pages := pg, free_page_list := fl, tlb_invalidated := va # tlb_invalidated s\<rparr>"
proof -
  have ok: "space_ok s" "cache_inv s" "\<And>q. cached s q \<Longrightarrow> data_page s q \<and> page_in_use s q" using inv by (auto simp: fault_inv_def)
  obtain fr pg fl where s': "s' = s\<lparr>frames := fr, pages := pg, free_page_list := fl, tlb_invalidated := va # tlb_invalidated s\<rparr>"
      and d: "\<And>q. data_page s q \<Longrightarrow> q \<notin> set (free_page_list s) \<Longrightarrow> fr q = frames s q \<and> pg q = pages s q \<and> data_page s' q"
      and u: "\<And>q. page_in_use s q \<Longrightarrow> page_in_use s' q"
    using vm_map_page_data [OF ok(1) va run] by blast
  have nf: "q \<notin> set (free_page_list s)" if "cached s q" for q
    using ok(1) ok(3) [OF that] by (auto simp: space_ok_def page_state_ok_def page_in_use_def)
  show keep: "pages s' q = pages s q \<and> frames s' q = frames s q" if "cached s q" for q
    using d nf [OF that] ok(3) [OF that] by (simp add: s')
  have "page_key s' q = page_key s q" if "cached s q" for q using keep [OF that] by (simp add: page_key_def)
  then have c: "cache_inv s'" "cached s' = cached s" "cache_at k s' = cache_at k s" for k
    using cache_same [of s' s, OF _ _ _ ok(2)] by (auto simp: s')
  have "space_ok s'" using vm_map_page_ok [OF ok(1) va, of pa] run by auto
  moreover have "data_page s' q \<and> page_in_use s' q" if "cached s' q" for q
    using that d nf ok(3) u unfolding c(2) by blast
  ultimately show "fault_inv s'" using c(1) by (simp add: fault_inv_def)
  show "cached s' = cached s" "cache_at k s' = cache_at k s" by (rule c)+
  show "\<exists>fr pg fl. s' = s\<lparr>frames := fr, pages := pg, free_page_list := fl, tlb_invalidated := va # tlb_invalidated s\<rparr>"
    using s' by blast
qed

end
