(* ===== verification/Kern_Heap.thy ===== *)
theory Kern_Heap
  imports Kern_Translation
begin

text \<open>
  The kernel heap: \<open>software/kernel/kernel_heap.c\<close>. \<open>ranges\<close> gives the two words (\<open>next\<close> and \<open>size\<close>) at
  an address of the heap; ranges start at page multiples, so the words of two ranges do not overlap.
  Address 0 is the null pointer. Walking the list is a partial function, \<open>None\<close> when the list is
  cyclic. The heap lock makes each function atomic.
\<close>

record free_range =
  fr_next :: u32
  fr_size :: u32

record heap_state =
  ranges :: "u32 \<Rightarrow> free_range"
  free_list :: u32
  wilderness_ptr :: u32
  vm :: translation_state

definition boot_init_heap :: "u32 \<Rightarrow> heap_state \<Rightarrow> heap_state" where
  "boot_init_heap base_address h = h\<lparr>wilderness_ptr := base_address\<rparr>"

definition set_fr_next :: "u32 \<Rightarrow> u32 \<Rightarrow> heap_state \<Rightarrow> heap_state" where
  "set_fr_next a v h = h\<lparr>ranges := (ranges h)(a := (ranges h a)\<lparr>fr_next := v\<rparr>)\<rparr>"

definition set_fr_size :: "u32 \<Rightarrow> u32 \<Rightarrow> heap_state \<Rightarrow> heap_state" where
  "set_fr_size a v h = h\<lparr>ranges := (ranges h)(a := (ranges h a)\<lparr>fr_size := v\<rparr>)\<rparr>"

text \<open>\<open>*prev_ptr = v\<close>, where \<open>prev_ptr\<close> is \<open>&free_list\<close> (\<open>None\<close>) or the \<open>next\<close> field of a range.\<close>

definition set_link :: "u32 option \<Rightarrow> u32 \<Rightarrow> heap_state \<Rightarrow> heap_state" where
  "set_link prev_ptr v h = (case prev_ptr of None \<Rightarrow> h\<lparr>free_list := v\<rparr> | Some p \<Rightarrow> set_fr_next p v h)"

text \<open>The first loop of \<open>kmalloc\<close>: the first range that is large enough, with the pointer to it.\<close>

partial_function (option) find_fit ::
  "(u32 \<Rightarrow> free_range) \<Rightarrow> u32 \<Rightarrow> u32 option \<Rightarrow> u32 \<Rightarrow> (u32 option \<times> u32) option option" where
  "find_fit mem sz prev_ptr candidate =
     (if candidate = 0 then Some None
      else if sz \<le> fr_size (mem candidate) then Some (Some (prev_ptr, candidate))
      else find_fit mem sz (Some candidate) (fr_next (mem candidate)))"

text \<open>The loop of \<open>insert_free_range\<close>: the range after which the new one belongs.\<close>

partial_function (option) find_prev :: "(u32 \<Rightarrow> free_range) \<Rightarrow> u32 \<Rightarrow> u32 \<Rightarrow> u32 option" where
  "find_prev mem new_range prev_range =
     (if prev_range = 0 then Some 0
      else if fr_next (mem prev_range) = 0 \<or> prev_range < new_range \<and> new_range < fr_next (mem prev_range) then Some prev_range
      else find_prev mem new_range (fr_next (mem prev_range)))"

definition merge_next :: "u32 \<Rightarrow> heap_state \<Rightarrow> heap_state" where
  "merge_next r h =
     (let n = fr_next (ranges h r) in
      if n \<noteq> 0 \<and> r + fr_size (ranges h r) = n
      then set_fr_next r (fr_next (ranges h n)) (set_fr_size r (fr_size (ranges h r) + fr_size (ranges h n)) h)
      else h)"

definition merge_prev :: "u32 \<Rightarrow> u32 \<Rightarrow> heap_state \<Rightarrow> heap_state" where
  "merge_prev p r h =
     (if p \<noteq> 0 \<and> p + fr_size (ranges h p) = r
      then set_fr_size p (fr_size (ranges h p) + fr_size (ranges h r)) (set_fr_next p (fr_next (ranges h r)) h)
      else h)"

definition insert_free_range :: "u32 \<Rightarrow> heap_state \<Rightarrow> heap_state option" where
  "insert_free_range r h =
     Option.bind
       (if free_list h = 0 \<or> r < free_list h then Some (0, (set_fr_next r (free_list h) h)\<lparr>free_list := r\<rparr>)
        else map_option (\<lambda>p. (p, if p = 0 then h else set_fr_next p r (set_fr_next r (fr_next (ranges h p)) h)))
               (find_prev (ranges h) r (free_list h)))
       (\<lambda>(p, h1). Some (merge_prev p r (merge_next r h1)))"

text \<open>The loop that wires pages into the heap; the pages that \<open>vm_allocate_page\<close> returns are zero.\<close>

partial_function (option) wire_pages :: "u32 \<Rightarrow> u32 \<Rightarrow> heap_state \<Rightarrow> heap_state cres option" where
  "wire_pages va end_va h =
     (if va < end_va then
        (case vm_allocate_page (vm h) of
           Inl e \<Rightarrow> Some (Inl e)
         | Inr (page, vm1) \<Rightarrow>
             (case vm_map_page 0 va (page_to_pa page OR PAGE_PRESENT OR PAGE_WRITABLE OR PAGE_SUPERVISOR OR PAGE_GLOBAL) vm1 of
                Inl e \<Rightarrow> Some (Inl e)
              | Inr vm2 \<Rightarrow> wire_pages (va + 0x1000) end_va
                  (h\<lparr>vm := vm2, ranges := (ranges h)(va := \<lparr>fr_next = 0, fr_size = 0\<rparr>)\<rparr>)))
      else Some (Inr h))"

definition grow_heap :: "u32 \<Rightarrow> heap_state \<Rightarrow> (u32 \<times> heap_state) cres option" where
  "grow_heap sz h =
     (let grow_size = (if sz * 2 < 0x10000 then 0x10000 else sz * 2);
          w = wilderness_ptr h
      in Option.bind (wire_pages w (w + grow_size) h) (\<lambda>r. case r of
           Inl e \<Rightarrow> Some (Inl e)
         | Inr h1 \<Rightarrow> map_option (\<lambda>h2. Inr (w, h2))
             (insert_free_range (w + sz) ((set_fr_size (w + sz) (grow_size - sz) h1)\<lparr>wilderness_ptr := w + grow_size\<rparr>))))"

definition kmalloc :: "u32 \<Rightarrow> heap_state \<Rightarrow> (u32 \<times> heap_state) cres option" where
  "kmalloc sz h =
     Option.bind (find_fit (ranges h) sz None (free_list h)) (\<lambda>found. case found of
         None \<Rightarrow> grow_heap sz h
       | Some (prev_ptr, candidate) \<Rightarrow>
           Some (Inr (candidate,
             if fr_size (ranges h candidate) = sz then set_link prev_ptr (fr_next (ranges h candidate)) h
             else set_link prev_ptr (candidate + sz) (set_fr_next (candidate + sz) (fr_next (ranges h candidate)) h))))"

definition kfree :: "u32 \<Rightarrow> u32 \<Rightarrow> heap_state \<Rightarrow> heap_state option" where
  "kfree p sz h = insert_free_range p (set_fr_size p sz h)"

subsection \<open>Free lists\<close>

text \<open>The ranges from \<open>a\<close> up to, but not including, \<open>b\<close>.\<close>

fun lseg :: "(u32 \<Rightarrow> free_range) \<Rightarrow> u32 \<Rightarrow> u32 list \<Rightarrow> u32 \<Rightarrow> bool" where
  "lseg mem a [] b \<longleftrightarrow> a = b"
| "lseg mem a (x # xs) b \<longleftrightarrow> a = x \<and> x \<noteq> 0 \<and> lseg mem (fr_next (mem x)) xs b"

definition range_end :: "(u32 \<Rightarrow> free_range) \<Rightarrow> u32 \<Rightarrow> nat" where
  "range_end mem x = unat x + unat (fr_size (mem x))"

text \<open>In address order, every range ends strictly before the next one starts.\<close>

definition spaced :: "(u32 \<Rightarrow> free_range) \<Rightarrow> u32 list \<Rightarrow> bool" where
  "spaced mem xs \<longleftrightarrow> sorted_wrt (\<lambda>x y. range_end mem x < unat y) xs \<and> (\<forall>x\<in>set xs. range_end mem x \<le> 4294967296)"

definition free_bytes :: "(u32 \<Rightarrow> free_range) \<Rightarrow> u32 list \<Rightarrow> nat set" where
  "free_bytes mem xs = (\<Union>x\<in>set xs. {unat x..<range_end mem x})"

definition heap_ok :: "heap_state \<Rightarrow> u32 list \<Rightarrow> bool" where
  "heap_ok h xs \<longleftrightarrow> lseg (ranges h) (free_list h) xs 0 \<and> spaced (ranges h) xs"

lemma lseg_append: "lseg mem a (xs @ ys) c \<longleftrightarrow> (\<exists>b. lseg mem a xs b \<and> lseg mem b ys c)"
  by (induction xs arbitrary: a) auto

lemma lseg_frame: "r \<notin> set xs \<Longrightarrow> lseg (mem(r := v)) a xs b = lseg mem a xs b"
  by (induction xs arbitrary: a) auto

lemma lseg_cong: "\<forall>x\<in>set xs. fr_next (mem x) = fr_next (mem' x) \<Longrightarrow> lseg mem a xs b = lseg mem' a xs b"
  by (induction xs arbitrary: a) auto

lemma lseg_nonzero: "lseg mem a xs b \<Longrightarrow> 0 \<notin> set xs"
  by (induction xs arbitrary: a) auto

lemma lseg_null: "lseg mem a xs 0 \<Longrightarrow> a = 0 \<longleftrightarrow> xs = []"
  by (cases xs) auto

lemma spaced_cong: "\<forall>x\<in>set xs. range_end mem x = range_end mem' x \<Longrightarrow> spaced mem xs = spaced mem' xs"
proof -
  assume eq: "\<forall>x\<in>set xs. range_end mem x = range_end mem' x"
  then have "sorted_wrt (\<lambda>x y. range_end mem x < unat y) xs = sorted_wrt (\<lambda>x y. range_end mem' x < unat y) xs"
    by (induction xs) auto
  then show ?thesis using eq by (simp add: spaced_def)
qed

lemma free_bytes_cong: "\<forall>x\<in>set xs. range_end mem x = range_end mem' x \<Longrightarrow> free_bytes mem xs = free_bytes mem' xs"
  by (simp add: free_bytes_def)

lemma free_bytes_simps [simp]:
  "free_bytes mem [] = {}" "free_bytes mem (x # xs) = {unat x..<range_end mem x} \<union> free_bytes mem xs"
  "free_bytes mem (xs @ ys) = free_bytes mem xs \<union> free_bytes mem ys"
  by (simp_all add: free_bytes_def)

lemma spaced_Cons: "spaced mem (x # xs) \<longleftrightarrow> range_end mem x \<le> 4294967296 \<and> (\<forall>y\<in>set xs. range_end mem x < unat y) \<and> spaced mem xs"
  by (auto simp: spaced_def)

lemma spaced_append:
  "spaced mem (xs @ ys) \<longleftrightarrow> spaced mem xs \<and> spaced mem ys \<and> (\<forall>x\<in>set xs. \<forall>y\<in>set ys. range_end mem x < unat y)"
  by (auto simp: spaced_def sorted_wrt_append)

lemma partition_sorted:
  fixes r :: u32
  shows "sorted_wrt (<) xs \<Longrightarrow> r \<notin> set xs \<Longrightarrow> xs = filter (\<lambda>x. x < r) xs @ filter (\<lambda>x. r < x) xs"
proof (induction xs)
  case (Cons a xs)
  show ?case
  proof (cases "a < r")
    case False
    then have "r < a" using Cons.prems by auto
    then have "\<forall>x\<in>set xs. r < x" using Cons.prems by (auto dest: order.strict_trans)
    then have "filter (\<lambda>x. x < r) xs = []" "filter (\<lambda>x. r < x) xs = xs" by (auto simp: filter_empty_conv)
    then show ?thesis using False \<open>r < a\<close> by simp
  qed (use Cons in auto)
qed simp

lemma unat_word_eq: "unat (x :: u32) = unat y \<longleftrightarrow> x = y"
  by (simp add: word_unat_eq_iff)

lemma find_fit_lseg:
  "lseg mem a xs 0 \<Longrightarrow> find_fit mem sz prev a = Some (if \<forall>x\<in>set xs. fr_size (mem x) < sz then None
     else Some (case takeWhile (\<lambda>x. fr_size (mem x) < sz) xs of [] \<Rightarrow> prev | y # ys \<Rightarrow> Some (last (y # ys)),
       hd (dropWhile (\<lambda>x. fr_size (mem x) < sz) xs)))"
proof (induction xs arbitrary: a prev)
  case Nil
  then show ?case by (simp add: find_fit.simps)
next
  case (Cons x xs)
  have a: "a = x" "x \<noteq> 0" "lseg mem (fr_next (mem x)) xs 0" using Cons.prems by auto
  show ?case
  proof (cases "fr_size (mem x) < sz")
    case True
    then have "find_fit mem sz prev a = find_fit mem sz (Some x) (fr_next (mem x))"
      using a by (auto simp: find_fit.simps [of mem sz prev x])
    then show ?thesis using Cons.IH [OF a(3), of "Some x"] True a(1) by (auto split: list.splits)
  next
    case False
    then show ?thesis using a by (auto simp: find_fit.simps [of mem sz prev x])
  qed
qed

lemma find_prev_lseg:
  assumes "lseg mem a (pre @ post) 0" "pre \<noteq> []" "\<forall>x\<in>set pre. x < r" "\<forall>x\<in>set post. r < x"
  shows "find_prev mem r a = Some (last pre)"
  using assms
proof (induction pre arbitrary: a)
  case (Cons x pre)
  have a: "a = x" "x \<noteq> 0" "lseg mem (fr_next (mem x)) (pre @ post) 0" using Cons.prems by auto
  show ?case
  proof (cases pre)
    case Nil
    then have "fr_next (mem x) = 0 \<or> r < fr_next (mem x)" using a(3) Cons.prems(4) by (cases post) auto
    then show ?thesis using a Nil Cons.prems(3) by (simp add: find_prev.simps [of mem r x])
  next
    case (Cons y ys)
    then have "fr_next (mem x) \<noteq> 0" "fr_next (mem x) < r" using a(3) Cons.prems(3) by auto
    then have "find_prev mem r a = find_prev mem r (fr_next (mem x))"
      using a by (auto simp: find_prev.simps [of mem r x])
    then show ?thesis using Cons.IH [OF a(3)] Cons.prems Cons by simp
  qed
qed simp

lemma link_range:
  assumes "lseg (ranges h) (free_list h) (pre @ post) 0" "\<forall>x\<in>set pre. x < r" "\<forall>x\<in>set post. r < x" "r \<noteq> 0" "distinct pre"
  shows "\<exists>h1 p. insert_free_range r h = Some (merge_prev p r (merge_next r h1)) \<and> p = (if pre = [] then 0 else last pre)
    \<and> lseg (ranges h1) (free_list h1) (pre @ r # post) 0 \<and> (\<forall>x. fr_size (ranges h1 x) = fr_size (ranges h x))
    \<and> wilderness_ptr h1 = wilderness_ptr h \<and> vm h1 = vm h"
proof -
  have r: "r \<notin> set pre" "r \<notin> set post" using assms(2,3) by auto
  show ?thesis
  proof (cases pre rule: rev_cases)
    case Nil
    then have "free_list h = 0 \<or> r < free_list h" using assms(1,3) by (cases post) auto
    then show ?thesis
      using Nil assms(1,4) r by (auto simp: insert_free_range_def set_fr_next_def lseg_frame)
  next
    case (snoc ps p)
    have seg: "lseg (ranges h) (free_list h) ps p" "p \<noteq> 0" "lseg (ranges h) (fr_next (ranges h p)) post 0"
      using assms(1) snoc by (auto simp: lseg_append)
    have d: "p \<notin> set ps" "p \<noteq> r" "r \<notin> set ps" "p \<notin> set post" using assms(2,3,5) r snoc by auto
    have fp: "find_prev (ranges h) r (free_list h) = Some p"
      using find_prev_lseg [OF assms(1) _ assms(2,3)] snoc by simp
    have fl: "free_list h \<noteq> 0" "\<not> r < free_list h"
      using assms(1,2) snoc by (cases ps; auto)+
    define h1 where "h1 = set_fr_next p r (set_fr_next r (fr_next (ranges h p)) h)"
    have "insert_free_range r h = Some (merge_prev p r (merge_next r h1))"
      using fl fp seg(2) by (simp add: insert_free_range_def h1_def)
    moreover have "lseg (ranges h1) (free_list h1) (pre @ r # post) 0"
      using seg d r assms(4) snoc by (simp add: h1_def set_fr_next_def lseg_append lseg_frame)
    ultimately show ?thesis
      using snoc by (intro exI [of _ h1] exI [of _ p]) (auto simp: h1_def set_fr_next_def)
  qed
qed

text \<open>
  Merging keeps the bytes of the list. \<open>e\<close> is where the ranges before \<open>r\<close> end at the latest.
\<close>

lemma merge_next_ok:
  assumes "lseg (ranges h) (free_list h) (pre @ r # post) 0" "spaced (ranges h) post" "range_end (ranges h) r \<le> 4294967296"
    and "\<forall>x\<in>set post. range_end (ranges h) r \<le> unat x" "distinct (pre @ r # post)"
  shows "\<exists>post'. lseg (ranges (merge_next r h)) (free_list (merge_next r h)) (pre @ r # post') 0
    \<and> set post' \<subseteq> set post \<and> spaced (ranges (merge_next r h)) (r # post')
    \<and> (\<forall>x. x \<noteq> r \<longrightarrow> fr_size (ranges (merge_next r h) x) = fr_size (ranges h x))
    \<and> free_bytes (ranges (merge_next r h)) (r # post') = free_bytes (ranges h) (r # post) \<and> distinct (pre @ r # post')"
proof (cases post)
  case Nil
  then have "fr_next (ranges h r) = 0" using assms(1) by (simp add: lseg_append)
  then show ?thesis using assms Nil by (intro exI [of _ "[]"]) (simp add: merge_next_def spaced_def)
next
  case (Cons n post')
  have seg: "lseg (ranges h) (free_list h) pre r" "r \<noteq> 0" "fr_next (ranges h r) = n" "n \<noteq> 0" "lseg (ranges h) (fr_next (ranges h n)) post' 0"
    using assms(1) Cons by (auto simp: lseg_append)
  have d: "r \<notin> set pre" "r \<notin> set post'" "r \<noteq> n" using assms(5) Cons by auto
  have le: "range_end (ranges h) r \<le> unat n" using assms(4) Cons by simp
  have sum: "unat (r + fr_size (ranges h r)) = range_end (ranges h) r"
    using le unat_u32_bound [of n] by (simp add: unat_plus_no_wrap range_end_def)
  show ?thesis
  proof (cases "r + fr_size (ranges h r) = n")
    case False
    then have "range_end (ranges h) r < unat n" using le sum unat_word_eq by (metis le_neq_implies_less)
    then have "spaced (ranges h) (r # post)"
      using assms(2,3) Cons by (auto simp: spaced_def range_end_def)
    moreover have "merge_next r h = h" using False seg by (simp add: merge_next_def)
    ultimately show ?thesis using assms by (intro exI [of _ post]) auto
  next
    case True
    define h2 where "h2 = merge_next r h"
    have h2: "ranges h2 = (ranges h)(r := \<lparr>fr_next = fr_next (ranges h n), fr_size = fr_size (ranges h r) + fr_size (ranges h n)\<rparr>)"
        "free_list h2 = free_list h"
      using True seg by (auto simp: h2_def merge_next_def Let_def set_fr_next_def set_fr_size_def fun_eq_iff)
    have adj: "range_end (ranges h) r = unat n" using True sum by simp
    have ne: "range_end (ranges h) n \<le> 4294967296" using assms(2) Cons by (simp add: spaced_def)
    have np: "0 < unat r" using seg(2) by (simp add: unat_gt_0)
    have sz: "unat (fr_size (ranges h r) + fr_size (ranges h n)) = unat (fr_size (ranges h r)) + unat (fr_size (ranges h n))"
      by (rule unat_plus_no_wrap) (use adj ne np in \<open>simp add: range_end_def\<close>)
    then have re: "range_end (ranges h2) r = range_end (ranges h) n" using adj h2 by (simp add: range_end_def)
    have fr: "range_end (ranges h2) x = range_end (ranges h) x" if "x \<noteq> r" for x using that h2 by (simp add: range_end_def)
    have frp: "\<forall>x\<in>set post'. range_end (ranges h2) x = range_end (ranges h) x" using fr d(2) by metis
    have sp: "spaced (ranges h2) (r # post')"
    proof -
      have "spaced (ranges h2) post'" using spaced_cong [OF frp] assms(2) Cons by (simp add: spaced_Cons)
      then show ?thesis using assms(2) Cons re by (simp add: spaced_Cons)
    qed
    have "{unat r..<range_end (ranges h) n} = {unat r..<range_end (ranges h) r} \<union> {unat n..<range_end (ranges h) n}"
      using adj by (auto simp: range_end_def)
    then have "free_bytes (ranges h2) (r # post') = free_bytes (ranges h) (r # post)"
      using re free_bytes_cong [OF frp] Cons by (simp add: Un_assoc)
    moreover have "lseg (ranges h2) (free_list h2) (pre @ r # post') 0"
      using seg d h2 by (auto simp: lseg_append lseg_frame)
    ultimately show ?thesis using sp h2 Cons assms(5) unfolding h2_def by (intro exI [of _ post']) auto
  qed
qed

lemma merge_prev_ok:
  assumes "lseg (ranges h) (free_list h) (ps @ p # r # post) 0" "spaced (ranges h) (ps @ [p])" "spaced (ranges h) (r # post)"
    and "range_end (ranges h) p \<le> unat r" "distinct (ps @ p # r # post)"
  shows "\<exists>ys. lseg (ranges (merge_prev p r h)) (free_list (merge_prev p r h)) ys 0 \<and> spaced (ranges (merge_prev p r h)) ys
    \<and> free_bytes (ranges (merge_prev p r h)) ys = free_bytes (ranges h) (ps @ p # r # post)"
proof -
  have seg: "lseg (ranges h) (free_list h) ps p" "p \<noteq> 0" "fr_next (ranges h p) = r" "lseg (ranges h) (fr_next (ranges h r)) post 0"
    using assms(1) by (auto simp: lseg_append)
  have d: "p \<notin> set ps" "p \<notin> set post" "p \<noteq> r" using assms(5) by auto
  have sum: "unat (p + fr_size (ranges h p)) = range_end (ranges h) p"
    using assms(4) unat_u32_bound [of r] by (simp add: unat_plus_no_wrap range_end_def)
  have before: "range_end (ranges h) x < unat y" if "x \<in> set ps" "y \<in> insert r (set post)" for x y
  proof -
    have "range_end (ranges h) x < unat p" "unat p \<le> unat r" "unat r \<le> unat y"
      using that assms(2,3,4) by (auto simp: spaced_def sorted_wrt_append range_end_def)
    then show ?thesis by simp
  qed
  show ?thesis
  proof (cases "p + fr_size (ranges h p) = r")
    case False
    then have lt: "range_end (ranges h) p < unat r" using assms(4) sum unat_word_eq by (metis le_neq_implies_less)
    have "range_end (ranges h) p < unat y" if "y \<in> set post" for y
    proof -
      have "unat r \<le> unat y" using that assms(3) by (auto simp: spaced_def range_end_def)
      then show ?thesis using lt by simp
    qed
    then have "spaced (ranges h) (ps @ p # r # post)"
      using assms(2,3) before lt by (auto simp: spaced_def sorted_wrt_append)
    moreover have "merge_prev p r h = h" using False by (simp add: merge_prev_def)
    ultimately show ?thesis using assms(1) by auto
  next
    case True
    define h2 where "h2 = merge_prev p r h"
    have h2: "ranges h2 = (ranges h)(p := \<lparr>fr_next = fr_next (ranges h r), fr_size = fr_size (ranges h p) + fr_size (ranges h r)\<rparr>)"
        "free_list h2 = free_list h"
      using True seg d by (auto simp: h2_def merge_prev_def set_fr_next_def set_fr_size_def fun_eq_iff)
    have adj: "range_end (ranges h) p = unat r" using True sum by simp
    have ne: "range_end (ranges h) r \<le> 4294967296" using assms(3) by (simp add: spaced_def)
    have np: "0 < unat p" using seg(2) by (simp add: unat_gt_0)
    have sz: "unat (fr_size (ranges h p) + fr_size (ranges h r)) = unat (fr_size (ranges h p)) + unat (fr_size (ranges h r))"
      by (rule unat_plus_no_wrap) (use adj ne np in \<open>simp add: range_end_def\<close>)
    then have re: "range_end (ranges h2) p = range_end (ranges h) r" using adj h2 by (simp add: range_end_def)
    have fr: "range_end (ranges h2) x = range_end (ranges h) x" if "x \<noteq> p" for x using that h2 by (simp add: range_end_def)
    have fr': "\<forall>x\<in>set ps. range_end (ranges h2) x = range_end (ranges h) x" "\<forall>x\<in>set post. range_end (ranges h2) x = range_end (ranges h) x"
      using fr d by metis+
    have sp: "spaced (ranges h2) (ps @ p # post)"
      using assms(2,3) spaced_cong [OF fr'(1)] spaced_cong [OF fr'(2)] re fr'(1) before ne
      by (simp add: spaced_append spaced_Cons)
    have "{unat p..<range_end (ranges h) r} = {unat p..<range_end (ranges h) p} \<union> {unat r..<range_end (ranges h) r}"
      using adj by (auto simp: range_end_def)
    then have "free_bytes (ranges h2) (ps @ p # post) = free_bytes (ranges h) (ps @ p # r # post)"
      using re free_bytes_cong [OF fr'(1)] free_bytes_cong [OF fr'(2)] by auto
    moreover have "lseg (ranges h2) (free_list h2) (ps @ p # post) 0"
      using seg d h2 by (auto simp: lseg_append lseg_frame)
    ultimately show ?thesis using sp unfolding h2_def by blast
  qed
qed

text \<open>\<open>r\<close> lies outside all ranges, and no range starts inside it.\<close>

definition apart :: "(u32 \<Rightarrow> free_range) \<Rightarrow> u32 \<Rightarrow> u32 list \<Rightarrow> bool" where
  "apart mem r xs \<longleftrightarrow> r \<noteq> 0 \<and> range_end mem r \<le> 4294967296
     \<and> (\<forall>x\<in>set xs. range_end mem r \<le> unat x \<and> r < x \<or> x < r \<and> range_end mem x \<le> unat r)"

lemma insert_free_range_ok:
  assumes ok: "heap_ok h xs" and ap: "apart (ranges h) r xs"
  shows "\<exists>h' ys. insert_free_range r h = Some h' \<and> heap_ok h' ys
    \<and> free_bytes (ranges h') ys = free_bytes (ranges h) xs \<union> {unat r..<range_end (ranges h) r}"
proof -
  define pre where "pre = filter (\<lambda>x. x < r) xs"
  define post where "post = filter (\<lambda>x. r < x) xs"
  have sp: "spaced (ranges h) xs" and seg: "lseg (ranges h) (free_list h) xs 0" using ok by (simp_all add: heap_ok_def)
  have srt: "sorted_wrt (<) xs"
    using sp by (auto simp: spaced_def range_end_def word_less_nat_alt elim!: sorted_wrt_mono_rel [rotated])
  have r: "r \<notin> set xs" "r \<noteq> 0" "range_end (ranges h) r \<le> 4294967296" using ap by (auto simp: apart_def)
  have xs: "xs = pre @ post" unfolding pre_def post_def using partition_sorted [OF srt r(1)] .
  have d: "distinct (pre @ r # post)"
    using srt r(1) strict_sorted_iff [of xs] xs by auto
  have lt: "\<forall>x\<in>set pre. x < r" "\<forall>x\<in>set post. r < x" by (auto simp: pre_def post_def)
  have "x < r \<Longrightarrow> \<not> r < x" for x by simp
  then have post: "spaced (ranges h) post" "\<forall>x\<in>set post. range_end (ranges h) r \<le> unat x"
    and pre: "spaced (ranges h) pre" "\<forall>x\<in>set pre. range_end (ranges h) x \<le> unat r"
    using sp ap xs lt by (auto simp: spaced_append apart_def dest!: bspec)
  obtain h1 p where h1: "insert_free_range r h = Some (merge_prev p r (merge_next r h1))" "p = (if pre = [] then 0 else last pre)"
      "lseg (ranges h1) (free_list h1) (pre @ r # post) 0" "\<forall>x. fr_size (ranges h1 x) = fr_size (ranges h x)"
    using link_range [OF seg [unfolded xs] lt r(2)] d by auto
  have eq: "range_end (ranges h1) = range_end (ranges h)" using h1(4) by (simp add: range_end_def fun_eq_iff)
  then have sp1: "spaced (ranges h1) = spaced (ranges h)" "free_bytes (ranges h1) = free_bytes (ranges h)"
    by (simp_all add: spaced_def free_bytes_def fun_eq_iff)
  define h2 where "h2 = merge_next r h1"
  obtain post' where p': "lseg (ranges h2) (free_list h2) (pre @ r # post') 0"
      "spaced (ranges h2) (r # post')" "\<forall>x. x \<noteq> r \<longrightarrow> fr_size (ranges h2 x) = fr_size (ranges h1 x)"
      "free_bytes (ranges h2) (r # post') = free_bytes (ranges h1) (r # post)" "distinct (pre @ r # post')"
    using merge_next_ok [OF h1(3)] post r(3) d unfolding h2_def sp1(1) eq by blast
  have fr: "\<forall>x\<in>set pre. range_end (ranges h2) x = range_end (ranges h) x" using p'(3) h1(4) r(1) xs by (auto simp: range_end_def)
  have fb: "free_bytes (ranges h2) (pre @ r # post') = free_bytes (ranges h) xs \<union> {unat r..<range_end (ranges h) r}"
    using free_bytes_cong [OF fr] p'(4) xs eq sp1(2) by auto
  show ?thesis
  proof (cases pre rule: rev_cases)
    case Nil
    then have "merge_prev p r h2 = h2" using h1(2) by (simp add: merge_prev_def)
    then show ?thesis using h1(1) p'(1,2) fb Nil unfolding h2_def heap_ok_def
      by (intro exI [of _ h2] exI [of _ "r # post'"]) (simp add: h2_def)
  next
    case (snoc ps q)
    then have "p = q" using h1(2) by simp
    have "lseg (ranges h2) (free_list h2) (ps @ q # r # post') 0" "spaced (ranges h2) (ps @ [q])" "range_end (ranges h2) q \<le> unat r"
        "distinct (ps @ q # r # post')"
      using p'(1,5) pre fr spaced_cong [OF fr] snoc by simp_all
    from merge_prev_ok [OF this(1,2) p'(2) this(3,4)] show ?thesis
      using h1(1) fb \<open>p = q\<close> snoc unfolding h2_def heap_ok_def by auto
  qed
qed

text \<open>
  C17: \<open>kfree\<close> of memory that does not overlap the free ranges adds exactly its bytes to the free list, which
  stays in address order and never has two adjacent ranges.
\<close>

theorem kfree_adds_bytes:
  assumes "heap_ok h xs" "apart ((ranges h)(p := (ranges h p)\<lparr>fr_size := sz\<rparr>)) p xs"
  shows "\<exists>h' ys. kfree p sz h = Some h' \<and> heap_ok h' ys
    \<and> free_bytes (ranges h') ys = free_bytes (ranges h) xs \<union> {unat p..<unat p + unat sz}"
proof -
  let ?mem = "(ranges h)(p := (ranges h p)\<lparr>fr_size := sz\<rparr>)"
  have p: "p \<notin> set xs" using assms(2) by (auto simp: apart_def)
  then have eq: "\<forall>x\<in>set xs. range_end ?mem x = range_end (ranges h) x" by (auto simp: range_end_def)
  have "heap_ok (set_fr_size p sz h) xs"
    using assms(1) p spaced_cong [OF eq] by (simp add: heap_ok_def set_fr_size_def lseg_frame)
  from insert_free_range_ok [OF this, of p] show ?thesis
    using assms(2) free_bytes_cong [OF eq] by (simp add: kfree_def set_fr_size_def range_end_def)
qed

theorem kfree_adds_bytes_witness:
  "let h = \<lparr>ranges = (\<lambda>a. if a = 0xd0001000 then \<lparr>fr_next = 0xd0004000, fr_size = 0x1000\<rparr> else \<lparr>fr_next = 0, fr_size = 0x1000\<rparr>),
            free_list = 0xd0001000, wilderness_ptr = 0xd0010000, vm = small_system\<rparr>
   in \<exists>h' ys. kfree 0xd0002000 0x2000 h = Some h' \<and> heap_ok h' ys
        \<and> free_bytes (ranges h') ys = free_bytes (ranges h) [0xd0001000, 0xd0004000] \<union> {0xd0002000..<0xd0004000}"
proof -
  define h where "h = \<lparr>ranges = (\<lambda>a. if a = 0xd0001000 then \<lparr>fr_next = 0xd0004000, fr_size = 0x1000\<rparr> else \<lparr>fr_next = 0, fr_size = 0x1000\<rparr>),
    free_list = 0xd0001000, wilderness_ptr = 0xd0010000, vm = small_system\<rparr>"
  have "heap_ok h [0xd0001000, 0xd0004000]" by (simp add: heap_ok_def spaced_def range_end_def h_def)
  moreover have "apart ((ranges h)(0xd0002000 := (ranges h 0xd0002000)\<lparr>fr_size := 0x2000\<rparr>)) 0xd0002000 [0xd0001000, 0xd0004000]"
    by (simp add: apart_def range_end_def h_def word_less_nat_alt)
  ultimately show ?thesis
    using kfree_adds_bytes [of h "[0xd0001000, 0xd0004000]" "0xd0002000" "0x2000"] unfolding Let_def h_def [symmetric] by simp
qed

subsection \<open>Growing the heap\<close>

lemma map_kernel_page:
  assumes ok: "space_ok s" and va: "KERNEL_BASE \<le> va" "present s (slot_of s m va)" and al: "vm_allocate_page s = Inr (p, s1)"
  shows "\<exists>s2. vm_map_page m va pa s1 = Inr s2 \<and> space_ok s2 \<and> slots s2 = slots s \<and> slot_of s2 = slot_of s
    \<and> (\<forall>y\<in>slots s. present s y \<longrightarrow> present s2 y)
    \<and> (\<forall>va'. KERNEL_BASE \<le> va' \<longrightarrow> query_translation_map m va' s2
        = (if unat va' div 4096 = unat va div 4096 then Inr pa else query_translation_map m va' s))"
proof -
  note a = allocate_space_ok [OF ok al]
  have x: "slot_of s m va \<in> slots s" using slot_of_slots [of va m s] va(1) by blast
  have p1: "present s1 (slot_of s1 m va)" using a(4,5) va(2) x by simp
  have pre: "va < KERNEL_BASE \<and> m \<in> set (map_list s1) \<or> KERNEL_BASE \<le> va \<and> present s1 (slot_of s1 m va)"
    using va(1) p1 by blast
  from vm_map_page_ok [OF a(1) pre, of pa] p1 show ?thesis
    using va(1) a by (cases "vm_map_page m va pa s1") (auto simp del: split_paired_All)
qed

definition heap_entry :: "nat \<Rightarrow> u32" where
  "heap_entry page = page_to_pa page OR PAGE_PRESENT OR PAGE_WRITABLE OR PAGE_SUPERVISOR OR PAGE_GLOBAL"

definition mapped :: "translation_state \<Rightarrow> u32 \<Rightarrow> bool" where
  "mapped s va \<longleftrightarrow> (\<exists>e. query_translation_map 0 va s = Inr e \<and> e AND PAGE_PRESENT \<noteq> 0)"

lemma heap_entry_present: "heap_entry page AND PAGE_PRESENT \<noteq> 0"
proof -
  have "bit (heap_entry page) 0" by (simp add: heap_entry_def bit_simps)
  then show ?thesis by (simp add: bit_0 and_one_eq odd_iff_mod_2_eq_one)
qed

text \<open>
  The page tables of the heap below \<open>limit\<close> exist, and the heap is mapped up to the wilderness pointer.
\<close>

definition kheap_vm :: "nat \<Rightarrow> nat \<Rightarrow> u32 \<Rightarrow> translation_state \<Rightarrow> bool" where
  "kheap_vm base limit w s \<longleftrightarrow> 0xc0000000 \<le> base \<and> limit < 4294967296 \<and> space_ok s
     \<and> (\<forall>va. base \<le> unat va \<and> unat va < limit \<longrightarrow> present s (slot_of s 0 va))
     \<and> (\<forall>va. base \<le> unat va \<and> unat va < unat w \<longrightarrow> mapped s va)"

lemma wire_pages_ok:
  assumes "kheap_vm base limit va (vm h)" "unat end_va = unat va + n * 4096" "unat end_va \<le> limit" "base \<le> unat va" "4096 dvd unat va"
  shows "wire_pages va end_va h = Some (Inl Exit_called)
    \<or> (\<exists>h'. wire_pages va end_va h = Some (Inr h') \<and> kheap_vm base limit end_va (vm h')
        \<and> free_list h' = free_list h \<and> wilderness_ptr h' = wilderness_ptr h
        \<and> (\<forall>a. 4096 dvd unat a \<longrightarrow> ranges h' a
             = (if unat va \<le> unat a \<and> unat a < unat end_va then \<lparr>fr_next = 0, fr_size = 0\<rparr> else ranges h a)))"
  using assms
proof (induction n arbitrary: va h)
  case 0
  then have "end_va = va" by (simp add: unat_word_eq [symmetric])
  then show ?case using 0 by (intro disjI2) (auto simp: wire_pages.simps)
next
  case (Suc n)
  have lt: "va < end_va" using Suc.prems(2) by (simp add: word_less_nat_alt)
  have s: "space_ok (vm h)" and k: "KERNEL_BASE \<le> va" and p: "present (vm h) (slot_of (vm h) 0 va)" and limit: "limit < 4294967296"
    using Suc.prems by (auto simp: kheap_vm_def word_le_nat_alt)
  show ?case
  proof (cases rule: allocate_page_cases [of "vm h"])
    case 1
    then show ?thesis using lt by (simp add: wire_pages.simps [of va])
  next
    case (2 page s1)
    obtain s2 where s2: "vm_map_page 0 va (heap_entry page) s1 = Inr s2" "space_ok s2" "slots s2 = slots (vm h)"
        "slot_of s2 = slot_of (vm h)" "\<forall>y\<in>slots (vm h). present (vm h) y \<longrightarrow> present s2 y"
        "\<forall>va'. KERNEL_BASE \<le> va' \<longrightarrow> query_translation_map 0 va' s2
          = (if unat va' div 4096 = unat va div 4096 then Inr (heap_entry page) else query_translation_map 0 va' (vm h))"
      using map_kernel_page [OF s k p 2(1), of "heap_entry page"] by blast
    let ?h = "h\<lparr>vm := s2, ranges := (ranges h)(va := \<lparr>fr_next = 0, fr_size = 0\<rparr>)\<rparr>"
    have next': "unat (va + 0x1000) = unat va + 4096"
      by (rule unat_plus_no_wrap [of va "0x1000", simplified]) (use Suc.prems(2,3) limit in simp)
    have run: "wire_pages va end_va h = wire_pages (va + 0x1000) end_va ?h"
      using lt 2(1) s2(1) by (simp add: wire_pages.simps [of va] heap_entry_def)
    have "kheap_vm base limit (va + 0x1000) s2"
      unfolding kheap_vm_def
    proof (intro conjI allI impI)
      show "0xc0000000 \<le> base" "limit < 4294967296" using Suc.prems(1) by (simp_all add: kheap_vm_def)
      show "space_ok s2" by (rule s2(2))
    next
      fix va' :: u32 assume v: "base \<le> unat va' \<and> unat va' < limit"
      then have "KERNEL_BASE \<le> va'" "present (vm h) (slot_of (vm h) 0 va')"
        using Suc.prems(1) by (auto simp: kheap_vm_def word_le_nat_alt)
      then show "present s2 (slot_of s2 0 va')" using s2(4,5) slot_of_slots [of va' 0 "vm h"] by simp
    next
      fix va' :: u32 assume v: "base \<le> unat va' \<and> unat va' < unat (va + 0x1000)"
      then have k': "KERNEL_BASE \<le> va'" using Suc.prems(1) by (simp add: kheap_vm_def word_le_nat_alt)
      show "mapped s2 va'"
      proof (cases "unat va' < unat va")
        case True
        then have "mapped (vm h) va'" using Suc.prems(1) v by (simp add: kheap_vm_def)
        then show ?thesis using s2(6) k' heap_entry_present by (auto simp: mapped_def)
      next
        case False
        then have "unat va' div 4096 = unat va div 4096"
          using v next' Suc.prems(5) by (auto elim!: dvdE intro: div_nat_eqI)
        then show ?thesis using s2(6) k' heap_entry_present by (auto simp: mapped_def)
      qed
    qed
    then have pre: "kheap_vm base limit (va + 0x1000) (vm ?h)" by simp
    have a: "unat end_va = unat (va + 0x1000) + n * 4096" "base \<le> unat (va + 0x1000)" "4096 dvd unat (va + 0x1000)"
      using Suc.prems next' by (simp_all add: dvd_add)
    have page: "unat va \<le> unat x \<and> unat x < unat va + 4096 \<longleftrightarrow> x = va" if "4096 dvd unat x" for x :: u32
      using that Suc.prems(5) by (auto elim!: dvdE simp: unat_word_eq [symmetric])
    have zero: "(if unat va + 4096 \<le> unat x \<and> unat x < unat end_va then \<lparr>fr_next = 0, fr_size = 0\<rparr> else ranges ?h x)
        = (if unat va \<le> unat x \<and> unat x < unat end_va then \<lparr>fr_next = 0, fr_size = 0\<rparr> else ranges h x)" if "4096 dvd unat x" for x
      using page [OF that] Suc.prems(2) by auto
    from Suc.IH [OF pre a(1) Suc.prems(3) a(2,3)] show ?thesis
      unfolding run next' using zero by (auto simp del: fun_upd_apply)
  qed
qed

subsection \<open>Allocation\<close>

definition prev_of :: "u32 list \<Rightarrow> u32 option" where
  "prev_of pre = (if pre = [] then None else Some (last pre))"

lemma find_fit_split:
  assumes "lseg mem a xs 0"
  shows "(\<forall>x\<in>set xs. fr_size (mem x) < sz) \<and> find_fit mem sz None a = Some None
    \<or> (\<exists>pre c post. xs = pre @ c # post \<and> (\<forall>x\<in>set pre. fr_size (mem x) < sz) \<and> sz \<le> fr_size (mem c)
        \<and> find_fit mem sz None a = Some (Some (prev_of pre, c)))"
proof (cases "\<forall>x\<in>set xs. fr_size (mem x) < sz")
  case True
  then show ?thesis using find_fit_lseg [OF assms, of sz None] by simp
next
  case False
  let ?pre = "takeWhile (\<lambda>x. fr_size (mem x) < sz) xs" and ?rest = "dropWhile (\<lambda>x. fr_size (mem x) < sz) xs"
  have ne: "?rest \<noteq> []" using False by (simp add: dropWhile_eq_Nil_conv)
  have "xs = ?pre @ hd ?rest # tl ?rest" using ne by simp
  moreover have "\<forall>x\<in>set ?pre. fr_size (mem x) < sz" using set_takeWhileD by fastforce
  moreover have "sz \<le> fr_size (mem (hd ?rest))" using hd_dropWhile [OF ne] by (simp add: not_less)
  moreover have "find_fit mem sz None a = Some (Some (prev_of ?pre, hd ?rest))"
    unfolding find_fit_lseg [OF assms] if_not_P [OF False] by (simp add: prev_of_def split: list.splits)
  ultimately show ?thesis by blast
qed

lemma set_link_lseg:
  assumes "lseg (ranges h) (free_list h) pre b" "distinct pre"
  shows "lseg (ranges (set_link (prev_of pre) v h)) (free_list (set_link (prev_of pre) v h)) pre v"
    "fr_size (ranges (set_link (prev_of pre) v h) x) = fr_size (ranges h x)"
    "x \<notin> set pre \<Longrightarrow> ranges (set_link (prev_of pre) v h) x = ranges h x"
    "vm (set_link (prev_of pre) v h) = vm h" "wilderness_ptr (set_link (prev_of pre) v h) = wilderness_ptr h"
proof -
  show "lseg (ranges (set_link (prev_of pre) v h)) (free_list (set_link (prev_of pre) v h)) pre v"
    using assms by (cases pre rule: rev_cases)
      (auto simp: set_link_def prev_of_def set_fr_next_def lseg_append lseg_frame)
qed (use assms in \<open>cases pre rule: rev_cases; simp add: set_link_def prev_of_def set_fr_next_def\<close>)+

text \<open>
  The heap between two calls. \<open>used\<close> are the bytes that were handed out. The space that a range really
  has is at least a page, even when its \<open>size\<close> field is 0, and a page that was never handed out and
  does not head a range is still zero.
\<close>

definition extent_end :: "(u32 \<Rightarrow> free_range) \<Rightarrow> u32 \<Rightarrow> nat" where
  "extent_end mem x = max (range_end mem x) (unat x + 4096)"

definition kheap_list :: "nat \<Rightarrow> nat set \<Rightarrow> heap_state \<Rightarrow> u32 list \<Rightarrow> bool" where
  "kheap_list base used h xs \<longleftrightarrow> lseg (ranges h) (free_list h) xs 0
     \<and> sorted_wrt (\<lambda>x y. extent_end (ranges h) x < unat y) xs
     \<and> (\<forall>x\<in>set xs. base \<le> unat x \<and> extent_end (ranges h) x \<le> unat (wilderness_ptr h) \<and> 4096 dvd unat x
          \<and> 4096 dvd unat (fr_size (ranges h x)) \<and> {unat x..<extent_end (ranges h) x} \<inter> used = {})
     \<and> base \<le> unat (wilderness_ptr h) \<and> 4096 dvd unat (wilderness_ptr h) \<and> used \<subseteq> {base..<unat (wilderness_ptr h)}
     \<and> (\<forall>a. 4096 dvd unat a \<and> base \<le> unat a \<and> unat a < unat (wilderness_ptr h) \<and> unat a \<notin> used \<and> a \<notin> set xs
          \<longrightarrow> fr_size (ranges h a) = 0)"

definition kheap_inv :: "nat \<Rightarrow> nat \<Rightarrow> nat set \<Rightarrow> heap_state \<Rightarrow> bool" where
  "kheap_inv base limit used h \<longleftrightarrow> (\<exists>xs. kheap_list base used h xs) \<and> kheap_vm base limit (wilderness_ptr h) (vm h)"

lemma extent_cong: "fr_size (mem x) = fr_size (mem' x) \<Longrightarrow> extent_end mem x = extent_end mem' x"
  by (simp add: extent_end_def range_end_def)

lemma extents_distinct:
  assumes "sorted_wrt (\<lambda>x y. extent_end mem x < unat y) xs"
  shows "distinct xs"
proof -
  have "sorted_wrt (<) xs"
    using assms by (rule sorted_wrt_mono_rel [rotated]) (auto simp: extent_end_def range_end_def word_less_nat_alt)
  then show ?thesis by (simp add: strict_sorted_iff)
qed

lemma sorted_wrt_extent_cong:
  "\<forall>x\<in>set xs. fr_size (mem x) = fr_size (mem' x) \<Longrightarrow> sorted_wrt (\<lambda>x y. extent_end mem x < unat y) xs
    = sorted_wrt (\<lambda>x y. extent_end mem' x < unat y) xs"
  by (induction xs) (auto simp: extent_cong [of mem _ mem'])

text \<open>Taking \<open>sz\<close> bytes from the front of the range \<open>c\<close>, which has at least that many.\<close>

lemma kmalloc_take:
  assumes inv: "kheap_list base used h (pre @ c # post)" and sz: "sz \<le> fr_size (ranges h c)" "0 < sz" "4096 dvd unat sz"
    and w: "unat (wilderness_ptr h) < 4294967296"
  defines "h' \<equiv> (if fr_size (ranges h c) = sz then set_link (prev_of pre) (fr_next (ranges h c)) h
      else set_link (prev_of pre) (c + sz) (set_fr_next (c + sz) (fr_next (ranges h c)) h))"
  shows "kheap_list base (used \<union> {unat c..<unat c + unat sz}) h' (pre @ (if fr_size (ranges h c) = sz then [] else [c + sz]) @ post)"
    "{unat c..<unat c + unat sz} \<inter> used = {}" "base \<le> unat c" "unat c + unat sz \<le> unat (wilderness_ptr h)"
    "vm h' = vm h" "wilderness_ptr h' = wilderness_ptr h" "\<And>x. fr_size (ranges h' x) = fr_size (ranges h x)"
    "fr_size (ranges h c) \<noteq> sz \<Longrightarrow> fr_size (ranges h (c + sz)) = 0"
proof -
  have seg: "lseg (ranges h) (free_list h) pre c" "c \<noteq> 0" "lseg (ranges h) (fr_next (ranges h c)) post 0"
    using inv by (auto simp: kheap_list_def lseg_append)
  have dist: "distinct (pre @ c # post)" using inv extents_distinct [of "ranges h" "pre @ c # post"] unfolding kheap_list_def by blast
  have c: "base \<le> unat c" "extent_end (ranges h) c \<le> unat (wilderness_ptr h)" "4096 dvd unat c"
      "4096 dvd unat (fr_size (ranges h c))" "{unat c..<extent_end (ranges h) c} \<inter> used = {}"
    using inv by (auto simp: kheap_list_def)
  have cend: "unat c + unat sz \<le> extent_end (ranges h) c"
    using sz(1) by (simp add: extent_end_def range_end_def word_le_nat_alt)
  show "base \<le> unat c" by (rule c(1))
  show le: "unat c + unat sz \<le> unat (wilderness_ptr h)" using cend c(2) by simp
  show "{unat c..<unat c + unat sz} \<inter> used = {}" using c(5) cend by (auto simp: set_eq_iff)
  have szp: "0 < unat sz" using sz(2) by (simp add: unat_gt_0)
  show "vm h' = vm h" "wilderness_ptr h' = wilderness_ptr h"
    using set_link_lseg(4,5) seg(1) dist unfolding h'_def
    by (auto simp: set_fr_next_def set_link_def split: option.splits)
  define r where "r = c + sz"
  define rest where "rest = (if fr_size (ranges h c) = sz then [] else [r])"
  have ur: "unat r = unat c + unat sz" unfolding r_def by (rule unat_plus_no_wrap) (use le w in simp)
  have r0: "r \<noteq> 0" using ur szp by (metis add_is_0 less_numeral_extra(3) unat_0)
  have sp: "\<forall>x\<in>set pre. extent_end (ranges h) x < unat c" "\<forall>y\<in>set post. extent_end (ranges h) c < unat y"
      "\<forall>x\<in>set pre. \<forall>y\<in>set post. extent_end (ranges h) x < unat y"
      "sorted_wrt (\<lambda>x y. extent_end (ranges h) x < unat y) pre" "sorted_wrt (\<lambda>x y. extent_end (ranges h) x < unat y) post"
    using inv by (auto simp: kheap_list_def sorted_wrt_append)
  have rr: "unat r + 4096 \<le> extent_end (ranges h) c \<and> r \<notin> set (pre @ c # post) \<and> fr_size (ranges h r) = 0 \<and> 4096 dvd unat r"
    if ne: "fr_size (ranges h c) \<noteq> sz"
  proof -
    have "unat sz < unat (fr_size (ranges h c))" using sz(1) ne by (simp add: word_less_nat_alt word_le_nat_alt unat_word_eq [symmetric])
    then have "unat sz + 4096 \<le> unat (fr_size (ranges h c))" using sz(3) c(4) by (auto elim!: dvdE)
    then have e: "unat r + 4096 \<le> extent_end (ranges h) c" using ur by (simp add: extent_end_def range_end_def)
    have "unat x < unat c" if "x \<in> set pre" for x using sp(1) that by (auto simp: extent_end_def)
    then have n: "r \<notin> set (pre @ c # post)" using ur szp e sp(2) by fastforce
    have "unat r \<notin> used" using c(5) e ur by (auto simp: set_eq_iff)
    moreover have d: "4096 dvd unat r" using ur c(3) sz(3) by simp
    ultimately have "fr_size (ranges h r) = 0" using inv n e c(1,2) ur unfolding kheap_list_def by auto
    then show ?thesis using e n d by blast
  qed
  define h0 where "h0 = (if fr_size (ranges h c) = sz then h else set_fr_next r (fr_next (ranges h c)) h)"
  define v where "v = (if fr_size (ranges h c) = sz then fr_next (ranges h c) else r)"
  have h': "h' = set_link (prev_of pre) v h0" by (simp add: h'_def h0_def v_def r_def)
  have h0: "lseg (ranges h0) (free_list h0) pre c" "lseg (ranges h0) (fr_next (ranges h c)) post 0"
      "fr_size (ranges h0 x) = fr_size (ranges h x)" "wilderness_ptr h0 = wilderness_ptr h" for x
    using seg rr by (auto simp: h0_def set_fr_next_def lseg_frame)
  note link = set_link_lseg [OF h0(1), where v = v, folded h']
  have pre: "distinct pre" using dist by simp
  have "lseg (ranges h0) v (rest @ post) 0"
    using h0(2) rr r0 by (auto simp: v_def rest_def h0_def set_fr_next_def)
  moreover have "\<forall>x\<in>set (rest @ post). fr_next (ranges h' x) = fr_next (ranges h0 x)"
  proof
    fix x assume "x \<in> set (rest @ post)"
    then have "x \<notin> set pre" using dist rr by (auto simp: rest_def split: if_splits)
    then show "fr_next (ranges h' x) = fr_next (ranges h0 x)" using link(3) [OF pre] by simp
  qed
  ultimately have "lseg (ranges h') (free_list h') (pre @ rest @ post) 0"
    using link(1) [OF pre] lseg_cong [of "rest @ post" "ranges h'" "ranges h0"] by (auto simp: lseg_append)
  moreover have sizes: "fr_size (ranges h' x) = fr_size (ranges h x)" for x using link(2) [OF pre] h0(3) by simp
  then show "fr_size (ranges h' x) = fr_size (ranges h x)" for x .
  show "fr_size (ranges h (c + sz)) = 0" if "fr_size (ranges h c) \<noteq> sz" using rr [OF that] by (simp add: r_def)
  from sizes have exts: "extent_end (ranges h') = extent_end (ranges h)" by (intro ext extent_cong)
  have er: "extent_end (ranges h) x = unat r + 4096 \<and> x = r \<and> fr_size (ranges h c) \<noteq> sz" if "x \<in> set rest" for x
    using that rr by (auto simp: rest_def extent_end_def range_end_def split: if_splits)
  have er': "extent_end (ranges h) r \<le> extent_end (ranges h) c \<and> unat c < unat r" if "fr_size (ranges h c) \<noteq> sz"
    using rr [OF that] ur szp by (auto simp: extent_end_def range_end_def)
  have "sorted_wrt (\<lambda>x y. extent_end (ranges h') x < unat y) (pre @ rest @ post)"
    using sp er' unfolding exts sorted_wrt_append rest_def by (auto split: if_splits dest: less_trans le_less_trans)
  moreover have w': "wilderness_ptr h' = wilderness_ptr h" using link(5) [OF pre] h0(4) by simp
  moreover have "base \<le> unat x \<and> extent_end (ranges h') x \<le> unat (wilderness_ptr h') \<and> 4096 dvd unat x
      \<and> 4096 dvd unat (fr_size (ranges h' x)) \<and> {unat x..<extent_end (ranges h') x} \<inter> (used \<union> {unat c..<unat c + unat sz}) = {}"
    if "x \<in> set (pre @ rest @ post)" for x
  proof -
    have old: "base \<le> unat y \<and> extent_end (ranges h) y \<le> unat (wilderness_ptr h) \<and> 4096 dvd unat y
        \<and> 4096 dvd unat (fr_size (ranges h y)) \<and> {unat y..<extent_end (ranges h) y} \<inter> used = {}" if "y \<in> set (pre @ c # post)" for y
      using inv that unfolding kheap_list_def by blast
    show ?thesis
    proof (cases "x \<in> set rest")
      case True
      note r = er [OF True]
      have "{unat r..<unat r + 4096} \<subseteq> {unat c..<extent_end (ranges h) c}" using rr r ur by auto
      then have "{unat r..<unat r + 4096} \<inter> used = {}" using c(5) by blast
      then show ?thesis using r rr c(1,2) ur unfolding exts sizes w' by auto
    next
      case False
      then have x: "x \<in> set pre \<or> x \<in> set post" using that by auto
      then have "{unat x..<extent_end (ranges h) x} \<inter> {unat c..<unat c + unat sz} = {}"
        using sp(1,2) cend by fastforce
      then show ?thesis using old [of x] x unfolding exts sizes w' by auto
    qed
  qed
  moreover have "base \<le> unat (wilderness_ptr h') \<and> 4096 dvd unat (wilderness_ptr h') \<and> used \<union> {unat c..<unat c + unat sz} \<subseteq> {base..<unat (wilderness_ptr h')}"
    using inv le c(1) unfolding w' kheap_list_def by auto
  moreover have "fr_size (ranges h' a) = 0" if "4096 dvd unat a" "base \<le> unat a" "unat a < unat (wilderness_ptr h')"
      "unat a \<notin> used \<union> {unat c..<unat c + unat sz}" "a \<notin> set (pre @ rest @ post)" for a
  proof -
    have "a \<noteq> c" using that(4) szp by auto
    then show ?thesis using inv that unfolding w' sizes kheap_list_def by auto
  qed
  ultimately show "kheap_list base (used \<union> {unat c..<unat c + unat sz}) h' (pre @ (if fr_size (ranges h c) = sz then [] else [c + sz]) @ post)"
    unfolding kheap_list_def rest_def r_def by blast
qed

text \<open>Growing the heap by at least 64 kB when no range is large enough.\<close>

lemma kmalloc_grow:
  assumes inv: "kheap_list base used h xs" and vm: "kheap_vm base limit (wilderness_ptr h) (vm h)"
    and sz: "0 < sz" "4096 dvd unat sz" and room: "unat (wilderness_ptr h) + max 65536 (2 * unat sz) \<le> limit"
  shows "grow_heap sz h = Some (Inl Exit_called)
    \<or> (\<exists>h' ys. grow_heap sz h = Some (Inr (wilderness_ptr h, h')) \<and> kheap_list base (used \<union> {unat (wilderness_ptr h)..<unat (wilderness_ptr h) + unat sz}) h' ys
        \<and> kheap_vm base limit (wilderness_ptr h') (vm h') \<and> unat (wilderness_ptr h') = unat (wilderness_ptr h) + max 65536 (2 * unat sz))"
proof -
  let ?w = "wilderness_ptr h"
  define g where "g = (if sz * 2 < 0x10000 then 0x10000 else sz * 2)"
  have lim: "limit < 4294967296" using vm by (simp add: kheap_vm_def)
  have "unat (sz * 2) = unat sz * 2" using room lim by (simp add: unat_word_ariths)
  then have g: "unat g = max 65536 (2 * unat sz)" by (auto simp: g_def word_less_nat_alt max_def)
  have szp: "0 < unat sz" using sz(1) by (simp add: unat_gt_0)
  have ends: "unat (?w + g) = unat ?w + unat g" "unat (?w + sz) = unat ?w + unat sz" "unat (g - sz) = unat g - unat sz"
    using room lim g szp by (auto simp: unat_plus_no_wrap unat_sub word_le_nat_alt)
  have "4096 dvd unat g" using g sz(2) by (auto simp: max_def)
  then obtain n where n: "unat g = n * 4096" by (metis dvd_div_mult_self)
  have w: "base \<le> unat ?w" "4096 dvd unat ?w" using inv by (auto simp: kheap_list_def)
  have "unat (?w + g) = unat ?w + n * 4096" "unat (?w + g) \<le> limit" using ends(1) n room g by simp_all
  from wire_pages_ok [OF vm this w]
  show ?thesis
  proof (elim disjE exE conjE)
    assume "wire_pages ?w (?w + g) h = Some (Inl Exit_called)"
    then show ?thesis by (simp add: grow_heap_def g_def [symmetric] Let_def)
  next
    fix h0 assume h0: "wire_pages ?w (?w + g) h = Some (Inr h0)" "kheap_vm base limit (?w + g) (vm h0)"
        "free_list h0 = free_list h" "wilderness_ptr h0 = ?w"
      and mem: "\<forall>a. 4096 dvd unat a \<longrightarrow> ranges h0 a
          = (if unat ?w \<le> unat a \<and> unat a < unat (?w + g) then \<lparr>fr_next = 0, fr_size = 0\<rparr> else ranges h a)"
    define r where "r = ?w + sz"
    define h1 where "h1 = (set_fr_size r (g - sz) h0)\<lparr>wilderness_ptr := ?w + g\<rparr>"
    have x: "unat x < unat r \<and> 4096 dvd unat x \<and> extent_end (ranges h) x \<le> unat ?w" if "x \<in> set xs" for x
    proof -
      have "extent_end (ranges h) x \<le> unat ?w" "4096 dvd unat x" using inv that by (auto simp: kheap_list_def)
      then show ?thesis using ends(2) by (simp add: r_def extent_end_def)
    qed
    have rx: "r \<notin> set xs" using x by blast
    have keep: "ranges h0 x = ranges h x" "ranges h1 x = ranges h x" if "x \<in> set xs" for x
    proof -
      show "ranges h0 x = ranges h x" using mem x [OF that] by (auto simp: extent_end_def)
      then show "ranges h1 x = ranges h x" using that rx by (auto simp: h1_def set_fr_size_def)
    qed
    have seg: "lseg (ranges h1) (free_list h1) xs 0"
    proof -
      have "lseg (ranges h) (free_list h) xs 0" using inv by (simp add: kheap_list_def)
      then show ?thesis using lseg_cong [of xs "ranges h1" "ranges h"] keep(2) h0(3) by (simp add: h1_def set_fr_size_def)
    qed
    have r0: "r \<noteq> 0" using ends(2) szp by (metis add_is_0 less_numeral_extra(3) r_def unat_0)
    have dist: "distinct xs" using inv extents_distinct [of "ranges h" xs] unfolding kheap_list_def by blast
    obtain h2 p where h2: "insert_free_range r h1 = Some (merge_prev p r (merge_next r h2))" "p = (if xs = [] then 0 else last xs)"
        "lseg (ranges h2) (free_list h2) (xs @ [r]) 0" "\<forall>x. fr_size (ranges h2 x) = fr_size (ranges h1 x)"
        "wilderness_ptr h2 = wilderness_ptr h1" "vm h2 = vm h1"
      using link_range [of h1 xs "[]" r] seg x r0 dist by (auto simp: word_less_nat_alt)
    have "fr_next (ranges h2 r) = 0" using h2(3) by (auto simp: lseg_append)
    then have m1: "merge_next r h2 = h2" by (simp add: merge_next_def)
    have "p + fr_size (ranges h2 p) \<noteq> r" if "p \<noteq> 0"
    proof -
      have p: "p \<in> set xs" using that h2(2) by (auto split: if_splits)
      have pe: "unat p + unat (fr_size (ranges h p)) \<le> unat ?w" using x [OF p] by (simp add: extent_end_def range_end_def)
      then have "unat (p + fr_size (ranges h p)) \<le> unat ?w" using room lim by (simp add: unat_plus_no_wrap)
      then show ?thesis using h2(4) keep(2) [OF p] ends(2) szp by (auto simp: r_def)
    qed
    then have m2: "merge_prev p r h2 = h2" by (auto simp: merge_prev_def)
    have run: "grow_heap sz h = Some (Inr (?w, h2))"
      using h0(1) h2(1) m1 m2 by (simp add: grow_heap_def g_def [symmetric] Let_def h1_def r_def)
    have sizes: "fr_size (ranges h2 x) = fr_size (ranges h x)" if "x \<in> set xs" for x using h2(4) keep(2) [OF that] by simp
    have szr: "fr_size (ranges h2 r) = g - sz" using h2(4) by (simp add: h1_def set_fr_size_def)
    have w2: "wilderness_ptr h2 = ?w + g" "vm h2 = vm h0" using h2(5,6) by (simp_all add: h1_def set_fr_size_def)
    have e: "extent_end (ranges h2) x = extent_end (ranges h) x" if "x \<in> set xs" for x using sizes [OF that] by (rule extent_cong)
    have "unat sz + 4096 \<le> unat g" using g sz(2) szp by (auto simp: max_def elim!: dvdE)
    then have er: "extent_end (ranges h2) r = unat ?w + unat g" using szr ends by (simp add: extent_end_def range_end_def r_def)
    have "sorted_wrt (\<lambda>x y. extent_end (ranges h2) x < unat y) (xs @ [r])"
      using inv sorted_wrt_extent_cong [of xs "ranges h2" "ranges h"] sizes x e ends(2) szp
      by (fastforce simp: kheap_list_def sorted_wrt_append r_def)
    moreover have "base \<le> unat y \<and> extent_end (ranges h2) y \<le> unat (wilderness_ptr h2) \<and> 4096 dvd unat y
        \<and> 4096 dvd unat (fr_size (ranges h2 y)) \<and> {unat y..<extent_end (ranges h2) y} \<inter> (used \<union> {unat ?w..<unat ?w + unat sz}) = {}"
      if "y \<in> set (xs @ [r])" for y
    proof (cases "y = r")
      case True
      have "used \<inter> {unat r..<unat ?w + unat g} = {}" using inv ends(2) by (fastforce simp: kheap_list_def r_def)
      then show ?thesis using True er szr ends w w2(1) n sz(2) by (auto simp: r_def dvd_diff_nat)
    next
      case False
      then have y: "y \<in> set xs" using that by simp
      have "base \<le> unat y" "4096 dvd unat y" "4096 dvd unat (fr_size (ranges h y))" "{unat y..<extent_end (ranges h) y} \<inter> used = {}"
        using inv y unfolding kheap_list_def by auto
      then show ?thesis using x [OF y] e [OF y] sizes [OF y] w2(1) ends(1) by (auto simp: Int_Un_distrib)
    qed
    moreover have "base \<le> unat (wilderness_ptr h2) \<and> 4096 dvd unat (wilderness_ptr h2)
        \<and> used \<union> {unat ?w..<unat ?w + unat sz} \<subseteq> {base..<unat (wilderness_ptr h2)}"
      using inv w n w2(1) ends(1) \<open>unat sz + 4096 \<le> unat g\<close> by (fastforce simp: kheap_list_def)
    moreover have "fr_size (ranges h2 a) = 0" if a: "4096 dvd unat a" "base \<le> unat a" "unat a < unat (wilderness_ptr h2)"
        "unat a \<notin> used \<union> {unat ?w..<unat ?w + unat sz}" "a \<notin> set (xs @ [r])" for a
    proof -
      have "fr_size (ranges h2 a) = fr_size (ranges h0 a)" using h2(4) a(5) by (simp add: h1_def set_fr_size_def)
      moreover have "fr_size (ranges h a) = 0" if "unat a < unat ?w" using inv a that by (auto simp: kheap_list_def)
      ultimately show ?thesis using mem a(1,3) w2(1) by auto
    qed
    ultimately have kl: "kheap_list base (used \<union> {unat ?w..<unat ?w + unat sz}) h2 (xs @ [r])"
      unfolding kheap_list_def using h2(3) by blast
    show ?thesis using run kl h0(2) w2 ends(1) g by auto
  qed
qed

subsection \<open>What the heap promises\<close>

lemma kmalloc_result:
  assumes inv: "kheap_inv base limit used h" and sz: "0 < sz" "4096 dvd unat sz"
    and room: "unat (wilderness_ptr h) + max 65536 (2 * unat sz) \<le> limit"
  shows "\<exists>r. kmalloc sz h = Some r \<and> (case r of Inl e \<Rightarrow> e = Exit_called
    | Inr (p, h') \<Rightarrow> {unat p..<unat p + unat sz} \<inter> used = {} \<and> (\<forall>va. unat va \<in> {unat p..<unat p + unat sz} \<longrightarrow> mapped (vm h') va)
        \<and> kheap_inv base limit (used \<union> {unat p..<unat p + unat sz}) h'
        \<and> unat (wilderness_ptr h') \<le> unat (wilderness_ptr h) + max 65536 (2 * unat sz))"
proof -
  obtain xs where xs: "kheap_list base used h xs" and vm: "kheap_vm base limit (wilderness_ptr h) (vm h)"
    using inv by (auto simp: kheap_inv_def)
  have "lseg (ranges h) (free_list h) xs 0" using xs by (simp add: kheap_list_def)
  from find_fit_split [OF this, of sz] show ?thesis
  proof (elim disjE exE conjE)
    assume "find_fit (ranges h) sz None (free_list h) = Some None"
    then have run: "kmalloc sz h = grow_heap sz h" by (simp add: kmalloc_def)
    have used: "used \<subseteq> {..<unat (wilderness_ptr h)}" "base \<le> unat (wilderness_ptr h)" using xs by (auto simp: kheap_list_def)
    from kmalloc_grow [OF xs vm sz room] show ?thesis
    proof (elim disjE exE conjE)
      fix h' ys assume h': "grow_heap sz h = Some (Inr (wilderness_ptr h, h'))" "kheap_vm base limit (wilderness_ptr h') (vm h')"
        "kheap_list base (used \<union> {unat (wilderness_ptr h)..<unat (wilderness_ptr h) + unat sz}) h' ys"
        "unat (wilderness_ptr h') = unat (wilderness_ptr h) + max 65536 (2 * unat sz)"
      have "mapped (vm h') va" if "unat va \<in> {unat (wilderness_ptr h)..<unat (wilderness_ptr h) + unat sz}" for va
        using h'(2,4) used(2) that by (auto simp: kheap_vm_def)
      then show ?thesis using run h' used by (auto simp: kheap_inv_def)
    qed (use run in simp)
  next
    fix pre c post assume split: "xs = pre @ c # post" "sz \<le> fr_size (ranges h c)"
      "find_fit (ranges h) sz None (free_list h) = Some (Some (prev_of pre, c))"
    note take = kmalloc_take [OF xs [unfolded split(1)] split(2) sz unat_u32_bound]
    let ?h' = "if fr_size (ranges h c) = sz then set_link (prev_of pre) (fr_next (ranges h c)) h
      else set_link (prev_of pre) (c + sz) (set_fr_next (c + sz) (fr_next (ranges h c)) h)"
    have run: "kmalloc sz h = Some (Inr (c, ?h'))" using split(3) by (simp add: kmalloc_def)
    have "kheap_inv base limit (used \<union> {unat c..<unat c + unat sz}) ?h'"
      using take(1) vm unfolding kheap_inv_def take(5,6) by blast
    moreover have "mapped (vm ?h') va" if "unat va \<in> {unat c..<unat c + unat sz}" for va
      unfolding take(5) using vm take(3,4) that by (auto simp: kheap_vm_def)
    ultimately show ?thesis using run take(2,6) by auto
  qed
qed

lemma kmalloc_ok:
  assumes inv: "kheap_inv base limit used h" and sz: "0 < sz" "4096 dvd unat sz"
    and room: "unat (wilderness_ptr h) + max 65536 (2 * unat sz) \<le> limit"
  shows "\<exists>r. kmalloc sz h = Some r \<and> (case r of Inl e \<Rightarrow> e = Exit_called
    | Inr (p, h') \<Rightarrow> {unat p..<unat p + unat sz} \<inter> used = {} \<and> (\<forall>va. unat va \<in> {unat p..<unat p + unat sz} \<longrightarrow> mapped (vm h') va)
        \<and> kheap_inv base limit (used \<union> {unat p..<unat p + unat sz}) h')"
proof -
  from kmalloc_result [OF assms] obtain r where "kmalloc sz h = Some r" "case r of Inl e \<Rightarrow> e = Exit_called
    | Inr (p, h') \<Rightarrow> {unat p..<unat p + unat sz} \<inter> used = {} \<and> (\<forall>va. unat va \<in> {unat p..<unat p + unat sz} \<longrightarrow> mapped (vm h') va)
        \<and> kheap_inv base limit (used \<union> {unat p..<unat p + unat sz}) h'
        \<and> unat (wilderness_ptr h') \<le> unat (wilderness_ptr h) + max 65536 (2 * unat sz)" by blast
  then show ?thesis by (cases r) auto
qed

text \<open>
  C15: \<open>kmalloc\<close> of a number of pages returns, or the kernel panics because memory is exhausted. The memory it returns
  is mapped and was never handed out before, and the state it leaves allows the next call. The
  \<open>size\<close> field that it does not set in the rest of a divided range is harmless for this, because it
  still holds the zero of a fresh page.
\<close>

theorem kmalloc_safe:
  assumes inv: "kheap_inv base limit used h" and sz: "0 < sz" "4096 dvd unat sz"
    and room: "unat (wilderness_ptr h) + max 65536 (2 * unat sz) \<le> limit"
  shows "\<exists>r. kmalloc sz h = Some r \<and> (case r of Inl e \<Rightarrow> e = Exit_called
    | Inr (p, h') \<Rightarrow> {unat p..<unat p + unat sz} \<inter> used = {} \<and> (\<forall>va. unat va \<in> {unat p..<unat p + unat sz} \<longrightarrow> mapped (vm h') va)
        \<and> kheap_inv base limit (used \<union> {unat p..<unat p + unat sz}) h')"
  by (rule kmalloc_ok [OF assms])

text \<open>
  When \<open>kmalloc\<close> divides a range, the rest of the range is lost: the header that it links in for the
  rest has size 0, so the free list no longer accounts for any byte of the divided range, although
  only \<open>sz\<close> of them were handed out.
\<close>

theorem kmalloc_split_loses_rest:
  assumes inv: "kheap_list base used h (pre @ c # post)" and fit: "\<forall>x\<in>set pre. fr_size (ranges h x) < sz" "sz < fr_size (ranges h c)"
    and sz: "0 < sz" "4096 dvd unat sz"
  shows "\<exists>h'. kmalloc sz h = Some (Inr (c, h')) \<and> kheap_list base (used \<union> {unat c..<unat c + unat sz}) h' (pre @ (c + sz) # post)
    \<and> free_bytes (ranges h') (pre @ (c + sz) # post) = free_bytes (ranges h) (pre @ post)"
proof -
  have le: "sz \<le> fr_size (ranges h c)" and ne: "fr_size (ranges h c) \<noteq> sz" using fit(2) by auto
  define h' where "h' = set_link (prev_of pre) (c + sz) (set_fr_next (c + sz) (fr_next (ranges h c)) h)"
  note take = kmalloc_take [OF inv le sz unat_u32_bound, unfolded if_not_P [OF ne], folded h'_def]
  have kl: "kheap_list base (used \<union> {unat c..<unat c + unat sz}) h' (pre @ (c + sz) # post)" using take(1) by simp
  have "lseg (ranges h) (free_list h) (pre @ c # post) 0" using inv by (simp add: kheap_list_def)
  from find_fit_lseg [OF this, of sz None]
  have "find_fit (ranges h) sz None (free_list h) = Some (Some (prev_of pre, c))"
    using fit by (auto simp: takeWhile_append takeWhile_eq_Nil_iff dropWhile_append prev_of_def split: list.splits)
  then have "kmalloc sz h = Some (Inr (c, h'))" using ne by (simp add: kmalloc_def h'_def)
  moreover have "free_bytes (ranges h') (pre @ (c + sz) # post) = free_bytes (ranges h) (pre @ post)"
    using take(7) take(8) [OF ne] by (simp add: free_bytes_def range_end_def)
  ultimately show ?thesis using kl by blast
qed

definition fresh_heap :: heap_state where
  "fresh_heap = \<lparr>ranges = (\<lambda>_. \<lparr>fr_next = 0, fr_size = 0\<rparr>), free_list = 0, wilderness_ptr = 0xd0000000,
     vm = small_system\<lparr>frames := (\<lambda>p i. if p = 1 \<and> i = 832 then 0x6001 else 0), free_page_list := [7..<32], phys_size := 0x20000\<rparr>\<rparr>"

lemma fresh_heap_present:
  "present (vm fresh_heap) x \<longleftrightarrow> x = (1, 832)" "table_of (vm fresh_heap) (1, 832) = 6"
  by (auto simp: present_def table_of_def fresh_heap_def prod_eq_iff)

lemma fresh_heap_vm: "kheap_vm 0xd0000000 0xd0020000 0xd0000000 (vm fresh_heap)"
  unfolding kheap_vm_def
proof (intro conjI allI impI)
  have "dir_frames (vm fresh_heap) = [1, 2, 3]" "num_pages (vm fresh_heap) = 32" "free_page_list (vm fresh_heap) = [7..<32]"
      "page_state_ok (vm fresh_heap)"
    by (auto simp: fresh_heap_def small_system_def page_state_ok_def dir_frames_def num_pages_def)
  then show "space_ok (vm fresh_heap)"
    unfolding space_ok_def fresh_heap_present(1) using fresh_heap_present(2) by (simp del: upt_rec_numeral)
next
  fix va :: u32 assume "0xd0000000 \<le> unat va \<and> unat va < 0xd0020000"
  then have "pgd_index va = 832" "KERNEL_BASE \<le> va"
    by (auto simp: pgd_index_def div_mult2_eq [symmetric] word_le_nat_alt intro!: div_nat_eqI)
  then show "present (vm fresh_heap) (slot_of (vm fresh_heap) 0 va)"
    unfolding fresh_heap_present by (simp add: slot_of_def fresh_heap_def small_system_def)
qed auto

lemma fresh_heap_inv: "kheap_inv 0xd0000000 0xd0020000 {} fresh_heap"
proof -
  have "kheap_list 0xd0000000 {} fresh_heap []"
    by (simp add: kheap_list_def fresh_heap_def)
  then show ?thesis using fresh_heap_vm by (auto simp: kheap_inv_def fresh_heap_def)
qed

theorem kmalloc_safe_witness:
  "\<exists>r. kmalloc 0x1000 fresh_heap = Some r \<and> (case r of Inl e \<Rightarrow> e = Exit_called
    | Inr (p, h') \<Rightarrow> kheap_inv 0xd0000000 0xd0020000 {unat p..<unat p + 0x1000} h')"
  using kmalloc_safe [OF fresh_heap_inv, of "0x1000"] by (auto simp: fresh_heap_def split: sum.splits)

theorem kmalloc_split_loses_rest_witness:
  "let h = fresh_heap\<lparr>ranges := (\<lambda>_. \<lparr>fr_next = 0, fr_size = 0\<rparr>)(0xd0001000 := \<lparr>fr_next = 0, fr_size = 0xf000\<rparr>),
             free_list := 0xd0001000, wilderness_ptr := 0xd0010000\<rparr>
   in \<exists>h'. kmalloc 0x1000 h = Some (Inr (0xd0001000, h')) \<and> free_bytes (ranges h') [0xd0002000] = {}"
proof -
  define h where "h = fresh_heap\<lparr>ranges := (\<lambda>_. \<lparr>fr_next = 0, fr_size = 0\<rparr>)(0xd0001000 := \<lparr>fr_next = 0, fr_size = 0xf000\<rparr>),
             free_list := 0xd0001000, wilderness_ptr := 0xd0010000\<rparr>"
  have "kheap_list 0xd0000000 {0xd0000000..<0xd0001000} h ([] @ 0xd0001000 # [])"
    by (simp add: kheap_list_def h_def extent_end_def range_end_def)
  from kmalloc_split_loses_rest [OF this, of "0x1000"] show ?thesis
    unfolding Let_def h_def [symmetric] by (auto simp: h_def word_less_nat_alt)
qed

end
