(* ===== verification/Kern_Slab.thy ===== *)
theory Kern_Slab
  imports Kern_Heap
begin

text \<open>
  The slab allocator: \<open>software/kernel/slab.c\<close>. Free objects are chained through their first word, which
  \<open>first_word\<close> holds. Memory for objects comes from \<open>kmalloc\<close>. The lock of the allocator makes each
  function atomic.
\<close>

record slab_allocator =
  object_size :: u32
  slab_free_list :: u32
  wilderness_slab :: u32
  wilderness_offset :: u32
  slab_size :: u32

record slab_state = slab_allocator +
  first_word :: "u32 \<Rightarrow> u32"
  heap :: heap_state

definition MAKE_SLAB :: "u32 \<Rightarrow> slab_allocator" where
  "MAKE_SLAB sz = \<lparr>object_size = sz, slab_free_list = 0, wilderness_slab = 0, wilderness_offset = 0, slab_size = 0x1000\<rparr>"

definition take_wilderness :: "slab_state \<Rightarrow> u32 \<times> slab_state" where
  "take_wilderness s = (wilderness_slab s + wilderness_offset s, s\<lparr>wilderness_offset := wilderness_offset s + object_size s\<rparr>)"

definition slab_alloc :: "slab_state \<Rightarrow> (u32 \<times> slab_state) cres option" where
  "slab_alloc s =
     (if slab_free_list s \<noteq> 0 then Some (Inr (slab_free_list s, s\<lparr>slab_free_list := first_word s (slab_free_list s)\<rparr>))
      else if wilderness_slab s = 0 \<or> slab_size s < wilderness_offset s + object_size s then
        map_option (\<lambda>r. bindE r (\<lambda>(p, h). Inr (take_wilderness (s\<lparr>heap := h, wilderness_slab := p, wilderness_offset := 0\<rparr>))))
          (kmalloc (slab_size s) (heap s))
      else Some (Inr (take_wilderness s)))"

definition slab_free :: "u32 \<Rightarrow> slab_state \<Rightarrow> slab_state" where
  "slab_free object s = s\<lparr>first_word := (first_word s)(object := slab_free_list s), slab_free_list := object\<rparr>"

subsection \<open>Object pools\<close>

text \<open>
  What a client of an allocator relies on: an allocation returns memory that overlaps no live object,
  and only live objects are returned. The invariant speaks about the set of live objects.
\<close>

datatype 'a pool_op = Alloc | Free 'a

locale object_pool =
  fixes alloc :: "'s \<Rightarrow> ('a \<times> 's) cres option"
    and release :: "'a \<Rightarrow> 's \<Rightarrow> 's"
    and cells :: "'s \<Rightarrow> 'a \<Rightarrow> nat set"
    and inv :: "'a set \<Rightarrow> 's \<Rightarrow> bool"
    and ready :: "'s \<Rightarrow> bool"
  assumes alloc_fresh: "inv live s \<Longrightarrow> ready s \<Longrightarrow> alloc s = Some (Inl Exit_called)
      \<or> (\<exists>x s'. alloc s = Some (Inr (x, s')) \<and> x \<notin> live \<and> (\<forall>y\<in>live. cells s x \<inter> cells s y = {}) \<and> cells s' = cells s
          \<and> inv (insert x live) s')"
    and release_ok: "inv live s \<Longrightarrow> x \<in> live \<Longrightarrow> inv (live - {x}) (release x s) \<and> cells (release x s) = cells s"
begin

text \<open>
  The live objects after a client's requests. The run ends at a request to free something that is not
  live, and at an allocation for which the allocator is not ready.
\<close>

fun serve :: "'a pool_op list \<Rightarrow> 'a set \<times> 's \<Rightarrow> ('a set \<times> 's) cres option" where
  "serve [] (live, s) = Some (Inr (live, s))"
| "serve (Alloc # rs) (live, s) = (if \<not> ready s then Some (Inr (live, s)) else (case alloc s of
      Some (Inr (x, s')) \<Rightarrow> serve rs (insert x live, s')
    | Some (Inl e) \<Rightarrow> Some (Inl e)
    | None \<Rightarrow> None))"
| "serve (Free x # rs) (live, s) = (if x \<in> live then serve rs (live - {x}, release x s) else Some (Inr (live, s)))"

lemma serve_separate:
  assumes "inv live s" "\<forall>x\<in>live. \<forall>y\<in>live. x \<noteq> y \<longrightarrow> cells s x \<inter> cells s y = {}"
  shows "serve rs (live, s) = Some (Inl Exit_called)
    \<or> (\<exists>live' s'. serve rs (live, s) = Some (Inr (live', s')) \<and> inv live' s' \<and> cells s' = cells s
        \<and> (\<forall>x\<in>live'. \<forall>y\<in>live'. x \<noteq> y \<longrightarrow> cells s x \<inter> cells s y = {}))"
  using assms
proof (induction rs arbitrary: live s)
  case (Cons r rs)
  show ?case
  proof (cases r)
    case Alloc
    show ?thesis
    proof (cases "ready s")
      case True
      from alloc_fresh [OF Cons.prems(1) True] show ?thesis
      proof (elim disjE exE conjE)
        fix x s' assume a: "alloc s = Some (Inr (x, s'))" "x \<notin> live" "\<forall>y\<in>live. cells s x \<inter> cells s y = {}" "cells s' = cells s"
          "inv (insert x live) s'"
        have "\<forall>u\<in>insert x live. \<forall>y\<in>insert x live. u \<noteq> y \<longrightarrow> cells s' u \<inter> cells s' y = {}"
          using a Cons.prems(2) by auto
        from Cons.IH [OF a(5) this] show ?thesis using a(1,4) Alloc True by auto
      qed (simp add: Alloc True)
    qed (use Alloc Cons.prems in auto)
  next
    case (Free x)
    show ?thesis
    proof (cases "x \<in> live")
      case True
      have f: "inv (live - {x}) (release x s)" "cells (release x s) = cells s" using release_ok [OF Cons.prems(1) True] by auto
      have "\<forall>u\<in>live - {x}. \<forall>y\<in>live - {x}. u \<noteq> y \<longrightarrow> cells (release x s) u \<inter> cells (release x s) y = {}"
        using Cons.prems(2) f(2) by auto
      from Cons.IH [OF f(1) this] show ?thesis using True Free f(2) by auto
    qed (use Free Cons.prems in auto)
  qed
qed simp

end

subsection \<open>The slab allocator is an object pool\<close>

fun object_chain :: "(u32 \<Rightarrow> u32) \<Rightarrow> u32 \<Rightarrow> u32 list \<Rightarrow> bool" where
  "object_chain mem a [] \<longleftrightarrow> a = 0"
| "object_chain mem a (x # xs) \<longleftrightarrow> a = x \<and> x \<noteq> 0 \<and> object_chain mem (mem x) xs"

lemma object_chain_frame: "x \<notin> set xs \<Longrightarrow> object_chain (mem(x := v)) a xs = object_chain mem a xs"
  by (induction xs arbitrary: a) auto

definition slab_cells :: "slab_state \<Rightarrow> u32 \<Rightarrow> nat set" where
  "slab_cells s x = {unat x..<unat x + unat (object_size s)}"

text \<open>The part of the current slab that holds no object yet.\<close>

definition slab_wilderness :: "slab_state \<Rightarrow> nat set" where
  "slab_wilderness s = (if wilderness_slab s = 0 then {}
     else {unat (wilderness_slab s) + unat (wilderness_offset s)..<unat (wilderness_slab s) + unat (slab_size s)})"

definition slab_parts :: "slab_state \<Rightarrow> nat set \<Rightarrow> u32 set \<Rightarrow> bool" where
  "slab_parts s used objects \<longleftrightarrow> slab_wilderness s \<subseteq> used \<and> (\<forall>x\<in>objects. x \<noteq> 0 \<and> slab_cells s x \<subseteq> used - slab_wilderness s)
     \<and> (\<forall>x\<in>objects. \<forall>y\<in>objects. x \<noteq> y \<longrightarrow> slab_cells s x \<inter> slab_cells s y = {})
     \<and> 0 < object_size s \<and> object_size s \<le> slab_size s \<and> slab_size s = 0x1000
     \<and> (wilderness_slab s \<noteq> 0 \<longrightarrow> wilderness_offset s \<le> slab_size s \<and> unat (wilderness_slab s) + 4096 \<le> 4294967296)"

definition slab_inv :: "nat \<Rightarrow> nat \<Rightarrow> u32 set \<Rightarrow> slab_state \<Rightarrow> bool" where
  "slab_inv base limit live s \<longleftrightarrow> (\<exists>used free_objects. kheap_inv base limit used (heap s)
     \<and> object_chain (first_word s) (slab_free_list s) free_objects \<and> distinct free_objects \<and> set free_objects \<inter> live = {}
     \<and> slab_parts s used (live \<union> set free_objects))"

definition slab_ready :: "nat \<Rightarrow> slab_state \<Rightarrow> bool" where
  "slab_ready limit s \<longleftrightarrow> unat (wilderness_ptr (heap s)) + 65536 \<le> limit"

lemma take_wilderness_ok:
  assumes parts: "slab_parts s used objects" and w: "wilderness_slab s \<noteq> 0" "wilderness_offset s + object_size s \<le> slab_size s"
    and t: "take_wilderness s = (x, s')"
  shows "x \<noteq> 0" "x \<notin> objects" "\<forall>y\<in>objects. slab_cells s x \<inter> slab_cells s y = {}" "slab_parts s' used (insert x objects)"
    "slab_cells s' = slab_cells s" "heap s' = heap s" "first_word s' = first_word s" "slab_free_list s' = slab_free_list s"
proof -
  have sz: "slab_size s = 0x1000" "0 < unat (object_size s)" "object_size s \<le> slab_size s" "wilderness_offset s \<le> slab_size s"
      "unat (wilderness_slab s) + 4096 \<le> 4294967296" "0 < unat (wilderness_slab s)"
    using parts w(1) by (auto simp: slab_parts_def unat_gt_0)
  have le: "unat (wilderness_offset s) \<le> 4096" "unat (object_size s) \<le> 4096" using sz by (auto simp: word_le_nat_alt)
  have off: "unat (wilderness_offset s + object_size s) = unat (wilderness_offset s) + unat (object_size s)"
    by (rule unat_plus_no_wrap) (use le in simp)
  have fits: "unat (wilderness_offset s) + unat (object_size s) \<le> 4096" using w(2) sz(1) off by (simp add: word_le_nat_alt)
  have x: "x = wilderness_slab s + wilderness_offset s" and s': "s' = s\<lparr>wilderness_offset := wilderness_offset s + object_size s\<rparr>"
    using t by (simp_all add: take_wilderness_def)
  have ux: "unat x = unat (wilderness_slab s) + unat (wilderness_offset s)"
    unfolding x by (rule unat_plus_no_wrap) (use fits sz in simp)
  have c: "slab_cells s x \<subseteq> slab_wilderness s" "slab_cells s x \<noteq> {}"
    using fits ux sz(1,2) w(1) by (auto simp: slab_cells_def slab_wilderness_def)
  have wild: "slab_wilderness s' = slab_wilderness s - slab_cells s x"
    using fits ux sz(1) w(1) off by (auto simp: slab_cells_def slab_wilderness_def s')
  show "slab_cells s' = slab_cells s" "heap s' = heap s" "first_word s' = first_word s" "slab_free_list s' = slab_free_list s"
    by (simp_all add: s' slab_cells_def fun_eq_iff)
  show sep: "\<forall>y\<in>objects. slab_cells s x \<inter> slab_cells s y = {}" using parts c(1) by (auto simp: slab_parts_def)
  then show "x \<notin> objects" using c(2) by blast
  show x0: "x \<noteq> 0" using ux sz(6) by (metis add_is_0 less_numeral_extra(3) unat_0)
  have cells: "slab_cells s' = slab_cells s" by (simp add: s' slab_cells_def fun_eq_iff)
  have "slab_wilderness s \<subseteq> used" "\<forall>y\<in>objects. y \<noteq> 0 \<and> slab_cells s y \<subseteq> used - slab_wilderness s"
    using parts by (simp_all add: slab_parts_def)
  then have "slab_wilderness s' \<subseteq> used" "\<forall>y\<in>insert x objects. y \<noteq> 0 \<and> slab_cells s' y \<subseteq> used - slab_wilderness s'"
    using c(1) x0 unfolding wild cells by auto
  moreover have "\<forall>u\<in>insert x objects. \<forall>y\<in>insert x objects. u \<noteq> y \<longrightarrow> slab_cells s' u \<inter> slab_cells s' y = {}"
    using sep parts unfolding cells by (auto simp: slab_parts_def)
  moreover have pos: "0 < object_size s" using parts by (simp add: slab_parts_def)
  moreover have "wilderness_offset s' \<le> slab_size s'" using w(2) by (simp add: s')
  ultimately show "slab_parts s' used (insert x objects)"
    using sz pos unfolding slab_parts_def s' by auto
qed

lemma new_slab_ok:
  assumes inv: "kheap_inv base limit used (heap s)" and parts: "slab_parts s used objects" and room: "slab_ready limit s"
  shows "kmalloc (slab_size s) (heap s) = Some (Inl Exit_called)
    \<or> (\<exists>p h used'. kmalloc (slab_size s) (heap s) = Some (Inr (p, h)) \<and> kheap_inv base limit used' h \<and> p \<noteq> 0
        \<and> slab_parts (s\<lparr>heap := h, wilderness_slab := p, wilderness_offset := 0\<rparr>) used' objects)"
proof -
  have sz: "slab_size s = 0x1000" "0 < slab_size s" "4096 dvd unat (slab_size s)" using parts by (simp_all add: slab_parts_def)
  have "unat (wilderness_ptr (heap s)) + max 65536 (2 * unat (slab_size s)) \<le> limit" using room sz(1) by (simp add: slab_ready_def)
  from kmalloc_ok [OF inv sz(2,3) this] obtain r where r: "kmalloc (slab_size s) (heap s) = Some r"
      "case r of Inl e \<Rightarrow> e = Exit_called | Inr (p, h') \<Rightarrow> {unat p..<unat p + unat (slab_size s)} \<inter> used = {}
        \<and> (\<forall>va. unat va \<in> {unat p..<unat p + unat (slab_size s)} \<longrightarrow> mapped (vm h') va)
        \<and> kheap_inv base limit (used \<union> {unat p..<unat p + unat (slab_size s)}) h'"
    by blast
  show ?thesis
  proof (cases r)
    case (Inr ph)
    obtain p h where ph: "ph = (p, h)" by force
    let ?new = "{unat p..<unat p + 4096}" and ?s = "s\<lparr>heap := h, wilderness_slab := p, wilderness_offset := 0\<rparr>"
    have k: "?new \<inter> used = {}" "kheap_inv base limit (used \<union> ?new) h" using r(2) Inr ph sz(1) by simp_all
    have sub: "?new \<subseteq> {base..<unat (wilderness_ptr h)}" and base: "0xc0000000 \<le> base"
      using k(2) by (auto simp: kheap_inv_def kheap_list_def kheap_vm_def)
    have "base \<le> unat p" "unat p + 4095 < unat (wilderness_ptr h)"
      using subsetD [OF sub, of "unat p"] subsetD [OF sub, of "unat p + 4095"] by auto
    then have p: "p \<noteq> 0" "unat p + 4096 \<le> 4294967296" using base unat_u32_bound [of "wilderness_ptr h"] by auto
    have wild: "slab_wilderness ?s = ?new" using p(1) sz(1) by (simp add: slab_wilderness_def)
    have cells: "slab_cells ?s = slab_cells s" by (simp add: slab_cells_def fun_eq_iff)
    have "\<forall>x\<in>objects. x \<noteq> 0 \<and> slab_cells ?s x \<subseteq> used \<union> ?new - slab_wilderness ?s"
      using parts k(1) unfolding wild cells slab_parts_def by blast
    then have "slab_parts ?s (used \<union> ?new) objects"
      using parts p unfolding slab_parts_def cells wild by auto
    then show ?thesis using r(1) Inr ph k(2) p(1) by blast
  qed (use r in simp)
qed

lemma slab_alloc_ok:
  assumes "slab_inv base limit live s" "slab_ready limit s"
  shows "slab_alloc s = Some (Inl Exit_called)
    \<or> (\<exists>x s'. slab_alloc s = Some (Inr (x, s')) \<and> x \<notin> live \<and> (\<forall>y\<in>live. slab_cells s x \<inter> slab_cells s y = {})
        \<and> slab_cells s' = slab_cells s \<and> slab_inv base limit (insert x live) s')"
proof -
  obtain used fs where inv: "kheap_inv base limit used (heap s)" "object_chain (first_word s) (slab_free_list s) fs" "distinct fs"
      "set fs \<inter> live = {}" and parts: "slab_parts s used (live \<union> set fs)"
    using assms(1) by (auto simp: slab_inv_def)
  show ?thesis
  proof (cases fs)
    case (Cons x xs)
    let ?s = "s\<lparr>slab_free_list := first_word s x\<rparr>"
    have run: "slab_alloc s = Some (Inr (x, ?s))" using inv(2) Cons by (simp add: slab_alloc_def)
    have x: "x \<notin> live" "insert x live \<union> set xs = live \<union> set fs" "set xs \<inter> insert x live = {}" "distinct xs" using inv(3,4) Cons by auto
    have cells: "slab_cells ?s = slab_cells s" "slab_wilderness ?s = slab_wilderness s"
      by (simp_all add: slab_cells_def slab_wilderness_def fun_eq_iff)
    have "slab_parts ?s used (insert x live \<union> set xs)" using parts unfolding x(2) slab_parts_def cells by auto
    then have "slab_inv base limit (insert x live) ?s"
      using inv(1,2) x(3,4) Cons by (auto simp: slab_inv_def)
    moreover have "\<forall>y\<in>live. slab_cells s x \<inter> slab_cells s y = {}" using parts x Cons by (auto simp: slab_parts_def)
    ultimately show ?thesis using run x(1) cells(1) by blast
  next
    case Nil
    then have fl: "slab_free_list s = 0" using inv(2) by simp
    have finish: "\<exists>x s'. take_wilderness t = (x, s') \<and> x \<notin> live \<and> (\<forall>y\<in>live. slab_cells s x \<inter> slab_cells s y = {})
        \<and> slab_cells s' = slab_cells s \<and> slab_inv base limit (insert x live) s'"
      if t: "slab_parts t used' live" "kheap_inv base limit used' (heap t)" "wilderness_slab t \<noteq> 0"
        "wilderness_offset t + object_size t \<le> slab_size t" "slab_cells t = slab_cells s" "slab_free_list t = 0" for t used'
    proof -
      obtain x s' where x: "take_wilderness t = (x, s')" by force
      note w = take_wilderness_ok [OF t(1,3,4) x]
      have "slab_inv base limit (insert x live) s'"
        unfolding slab_inv_def using w t(2,6) by (intro exI [of _ used'] exI [of _ "[]"]) simp
      then show ?thesis using x w t(5) by simp
    qed
    show ?thesis
    proof (cases "wilderness_slab s = 0 \<or> slab_size s < wilderness_offset s + object_size s")
      case False
      then show ?thesis using finish [of s used] parts inv(1) fl Nil by (auto simp: slab_alloc_def not_less)
    next
      case True
      have parts': "slab_parts s used live" using parts Nil by simp
      from new_slab_ok [OF inv(1) parts' assms(2)] show ?thesis
      proof (elim disjE exE conjE)
        fix p h used' assume k: "kmalloc (slab_size s) (heap s) = Some (Inr (p, h))" "kheap_inv base limit used' h" "p \<noteq> 0"
          "slab_parts (s\<lparr>heap := h, wilderness_slab := p, wilderness_offset := 0\<rparr>) used' live"
        have "object_size s \<le> slab_size s" using parts unfolding slab_parts_def by blast
        then show ?thesis
          using finish [OF k(4)] k(1-3) fl True by (auto simp: slab_alloc_def slab_cells_def fun_eq_iff)
      qed (use True fl in \<open>simp add: slab_alloc_def\<close>)
    qed
  qed
qed

lemma slab_free_ok:
  assumes "slab_inv base limit live s" "x \<in> live"
  shows "slab_inv base limit (live - {x}) (slab_free x s) \<and> slab_cells (slab_free x s) = slab_cells s"
proof -
  obtain used fs where inv: "kheap_inv base limit used (heap s)" "object_chain (first_word s) (slab_free_list s) fs" "distinct fs"
      "set fs \<inter> live = {}" and parts: "slab_parts s used (live \<union> set fs)"
    using assms(1) by (auto simp: slab_inv_def)
  have x: "x \<notin> set fs" "x \<noteq> 0" using inv(4) assms(2) parts by (auto simp: slab_parts_def)
  have cells: "slab_cells (slab_free x s) = slab_cells s" "slab_wilderness (slab_free x s) = slab_wilderness s"
    by (simp_all add: slab_free_def slab_cells_def slab_wilderness_def fun_eq_iff)
  have objs: "live - {x} \<union> set (x # fs) = live \<union> set fs" using assms(2) by auto
  have "slab_parts (slab_free x s) used (live \<union> set fs)" using parts unfolding slab_parts_def cells by (auto simp: slab_free_def)
  moreover have "object_chain (first_word (slab_free x s)) (slab_free_list (slab_free x s)) (x # fs)"
    using inv(2) x by (simp add: slab_free_def object_chain_frame)
  moreover have "heap (slab_free x s) = heap s" by (simp add: slab_free_def)
  moreover have "distinct (x # fs)" "set (x # fs) \<inter> (live - {x}) = {}" using inv(3,4) x(1) by auto
  ultimately have "slab_inv base limit (live - {x}) (slab_free x s)"
    unfolding slab_inv_def using inv(1) objs by metis
  then show ?thesis using cells(1) by simp
qed

text \<open>Memory that others take from the heap does not disturb the allocator.\<close>

lemma slab_inv_heap:
  assumes "slab_inv base limit live s"
  obtains used where "kheap_inv base limit used (heap s)"
    "\<And>used' h. kheap_inv base limit (used \<union> used') h \<Longrightarrow> slab_inv base limit live (s\<lparr>heap := h\<rparr>)"
proof -
  obtain used fs where inv: "kheap_inv base limit used (heap s)" "object_chain (first_word s) (slab_free_list s) fs" "distinct fs"
      "set fs \<inter> live = {}" and parts: "slab_parts s used (live \<union> set fs)"
    using assms by (auto simp: slab_inv_def)
  have "slab_inv base limit live (s\<lparr>heap := h\<rparr>)" if h: "kheap_inv base limit (used \<union> used') h" for used' h
  proof -
    have eq: "slab_cells (s\<lparr>heap := h\<rparr>) = slab_cells s" "slab_wilderness (s\<lparr>heap := h\<rparr>) = slab_wilderness s"
      by (simp_all add: slab_cells_def slab_wilderness_def fun_eq_iff)
    have "slab_parts (s\<lparr>heap := h\<rparr>) (used \<union> used') (live \<union> set fs)"
      using parts unfolding slab_parts_def eq by auto
    then show ?thesis using h inv(2-4) unfolding slab_inv_def by auto
  qed
  then show ?thesis using that inv(1) by blast
qed

interpretation slab_pool: object_pool slab_alloc slab_free slab_cells "slab_inv base limit" "slab_ready limit" for base limit
  by unfold_locales (use slab_alloc_ok slab_free_ok in blast)+

text \<open>
  C16: Whatever a client allocates and frees, its live objects never overlap: every request is
  answered (or the kernel panics for lack of memory), and afterwards no two live objects share a byte.
\<close>

theorem slab_objects_separate:
  assumes "slab_inv base limit {} s"
  shows "object_pool.serve slab_alloc slab_free (slab_ready limit) rs ({}, s) = Some (Inl Exit_called)
    \<or> (\<exists>live s'. object_pool.serve slab_alloc slab_free (slab_ready limit) rs ({}, s) = Some (Inr (live, s'))
        \<and> (\<forall>x\<in>live. \<forall>y\<in>live. x \<noteq> y \<longrightarrow> slab_cells s x \<inter> slab_cells s y = {}))"
  using slab_pool.serve_separate [OF assms, of rs] by auto

definition fresh_slab :: slab_state where
  "fresh_slab = slab_allocator.extend (MAKE_SLAB 20) \<lparr>first_word = (\<lambda>_. 0), heap = fresh_heap\<rparr>"

theorem slab_objects_separate_witness:
  "let r = object_pool.serve slab_alloc slab_free (slab_ready 0xd0020000) [Alloc, Alloc] ({}, fresh_slab)
   in r = Some (Inl Exit_called) \<or> (\<exists>live s'. r = Some (Inr (live, s')) \<and>
        (\<forall>x\<in>live. \<forall>y\<in>live. x \<noteq> y \<longrightarrow> {unat x..<unat x + 20} \<inter> {unat y..<unat y + 20} = {}))"
proof -
  have "slab_inv 0xd0000000 0xd0020000 {} fresh_slab"
    unfolding slab_inv_def using fresh_heap_inv
    by (intro exI [of _ "{}"] exI [of _ "[]"])
      (simp add: fresh_slab_def MAKE_SLAB_def slab_allocator.extend_def slab_parts_def slab_wilderness_def)
  from slab_objects_separate [OF this, of "[Alloc, Alloc]"] show ?thesis
    by (simp add: Let_def slab_cells_def fresh_slab_def MAKE_SLAB_def slab_allocator.extend_def)
qed

end
