(* ===== verification/Kern_Space.thy ===== *)
theory Kern_Space
  imports Kern_Heap Nyuzi_IO
begin

text \<open>
  Address spaces, first part of \<open>software/kernel/vm_address_space.c\<close>: the areas of the kernel, new
  address spaces and memory that is mapped when its area is created. The state is the area map of the
  address space and the page tables; a translation map is an index into \<open>maps\<close>. The reader/writer lock
  of an address space makes each function atomic. \<open>kernel_end\<close> is the end of the kernel image
  (\<open>KERNEL_END\<close>), which the linker determines.
\<close>

abbreviation (input) PHYS_MEM_ALIAS :: u32 where "PHYS_MEM_ALIAS \<equiv> 0xc1000000"
abbreviation (input) KERNEL_HEAP_BASE :: u32 where "KERNEL_HEAP_BASE \<equiv> 0xd0000000"
abbreviation (input) KERNEL_HEAP_SIZE :: u32 where "KERNEL_HEAP_SIZE \<equiv> 0x01000000"
abbreviation (input) INITIAL_KERNEL_STACKS :: u32 where "INITIAL_KERNEL_STACKS \<equiv> 0xfffe0000"
abbreviation (input) KERNEL_STACK_SIZE :: u32 where "KERNEL_STACK_SIZE \<equiv> 0x4000"
abbreviation (input) DEVICE_REG_BASE :: u32 where "DEVICE_REG_BASE \<equiv> 0xffff0000"

text \<open>An area whose creation fails is left out, as the code ignores the result.\<close>

definition add_area :: "u32 \<Rightarrow> u32 \<Rightarrow> string \<Rightarrow> u32 \<Rightarrow> vm_area_map \<Rightarrow> vm_area_map" where
  "add_area address sz name flags m = (case create_vm_area m address sz PLACE_EXACT name flags of
     None \<Rightarrow> m | Some (_, m') \<Rightarrow> m')"

definition vm_address_space_init :: "u32 \<Rightarrow> u32 \<Rightarrow> vm_area_map" where
  "vm_address_space_init kernel_end memory_size =
     (let m = init_area_map KERNEL_BASE 0xffffffff;
          m = add_area KERNEL_BASE (kernel_end - KERNEL_BASE) ''kernel'' (AREA_WIRED OR AREA_WRITABLE OR AREA_EXECUTABLE) m;
          m = add_area PHYS_MEM_ALIAS memory_size ''memory alias'' (AREA_WIRED OR AREA_WRITABLE) m;
          m = add_area KERNEL_HEAP_BASE KERNEL_HEAP_SIZE ''kernel_heap'' (AREA_WIRED OR AREA_WRITABLE) m;
          m = add_area DEVICE_REG_BASE 0x10000 ''device registers'' (AREA_WIRED OR AREA_WRITABLE) m
      in fold (\<lambda>i. add_area (INITIAL_KERNEL_STACKS + of_nat i * KERNEL_STACK_SIZE) KERNEL_STACK_SIZE ''kernel stack''
                 (AREA_WIRED OR AREA_WRITABLE)) [0..<4] m)"

text \<open>\<open>m\<close> is the structure for the new translation map.\<close>

definition create_address_space :: "nat \<Rightarrow> 'a translation_state_scheme \<Rightarrow> (vm_area_map \<times> 'a translation_state_scheme) cres" where
  "create_address_space m s =
     bindE (create_translation_map m s) (\<lambda>s'. Inr (init_area_map KPAGE_SIZE (KERNEL_BASE - 1), s'))"

text \<open>The loop of \<open>map_contiguous_memory\<close>.\<close>

partial_function (option) map_pages ::
  "nat \<Rightarrow> u32 \<Rightarrow> u32 \<Rightarrow> u32 \<Rightarrow> u32 \<Rightarrow> u32 \<Rightarrow> translation_state \<Rightarrow> translation_state cres option" where
  "map_pages m low phys_addr page_flags sz offset s =
     (if offset < sz then
        (case vm_map_page m (low + offset) ((phys_addr + offset) OR page_flags) s of
           Inl e \<Rightarrow> Some (Inl e)
         | Inr s' \<Rightarrow> map_pages m low phys_addr page_flags sz (offset + KPAGE_SIZE) s')
      else Some (Inr s))"

definition contiguous_flags :: "bool \<Rightarrow> u32 \<Rightarrow> u32" where
  "contiguous_flags in_kernel aflags =
     PAGE_PRESENT OR (if aflags AND AREA_WRITABLE \<noteq> 0 then PAGE_WRITABLE else 0)
       OR (if aflags AND AREA_EXECUTABLE \<noteq> 0 then PAGE_EXECUTABLE else 0)
       OR (if in_kernel then PAGE_SUPERVISOR OR PAGE_GLOBAL else 0)"

text \<open>\<open>in_kernel\<close>: the address space is that of the kernel.\<close>

definition map_contiguous_memory ::
  "bool \<Rightarrow> nat \<Rightarrow> u32 \<Rightarrow> u32 \<Rightarrow> placement \<Rightarrow> string \<Rightarrow> u32 \<Rightarrow> u32 \<Rightarrow> (vm_area_map \<times> translation_state, vm_area option) io" where
  "map_contiguous_memory in_kernel m address sz place name aflags phys_addr = (\<lambda>(areas, s).
     let flags = aflags OR AREA_WIRED in
     (case create_vm_area areas address sz place name flags of
        None \<Rightarrow> Some (Inr (None, (areas, s)))
      | Some (area, areas') \<Rightarrow>
          map_option (\<lambda>r. bindE r (\<lambda>s'. Inr (Some area, (areas', s'))))
            (map_pages m (low_address area) phys_addr (contiguous_flags in_kernel flags) sz 0 s)))"

subsection \<open>Mapped areas\<close>

text \<open>The pages of an area all lie in the kernel, or all in the user space of a map of the list.\<close>

definition mappable :: "nat \<Rightarrow> u32 \<Rightarrow> nat \<Rightarrow> 'a translation_state_scheme \<Rightarrow> bool" where
  "mappable m low n s \<longleftrightarrow> 0 < low \<and> 4096 dvd unat low \<and> unat low + 4096 * n \<le> 4294967296
     \<and> (if KERNEL_BASE \<le> low then \<forall>j<n. present s (slot_of s m (low + of_nat (4096 * j)))
        else unat low + 4096 * n \<le> 0xc0000000 \<and> m \<in> set (map_list s))"

definition maps_range :: "nat \<Rightarrow> u32 \<Rightarrow> u32 \<Rightarrow> u32 \<Rightarrow> nat set \<Rightarrow> translation_state \<Rightarrow> translation_state \<Rightarrow> bool" where
  "maps_range m low pa fl js s s' \<longleftrightarrow> (\<forall>m' va. KERNEL_BASE \<le> va \<or> m' \<in> set (map_list s) \<longrightarrow>
     query_translation_map m' va s'
       = (if unat va div 4096 - unat low div 4096 \<in> js \<and> low \<le> va \<and> (KERNEL_BASE \<le> low \<or> m' = m)
          then Inr ((pa + of_nat (4096 * (unat va div 4096 - unat low div 4096))) OR fl)
          else query_translation_map m' va s))"

lemma page_of_offset:
  assumes "4096 dvd unat (low :: u32)" "unat low + 4096 * j < 4294967296"
  shows "unat (low + of_nat (4096 * j)) = unat low + 4096 * j" "unat (low + of_nat (4096 * j)) div 4096 = unat low div 4096 + j"
proof -
  have "unat (of_nat (4096 * j) :: u32) = 4096 * j" using assms(2) by (simp add: unat_of_nat del: of_nat_mult)
  then show u: "unat (low + of_nat (4096 * j)) = unat low + 4096 * j" using assms(2) by (simp only: unat_plus_no_wrap)
  show "unat (low + of_nat (4096 * j)) div 4096 = unat low div 4096 + j" unfolding u using assms(1) by (simp add: div_plus_div_distrib_dvd_left)
qed

lemma mappable_page:
  assumes "mappable m low n s" "j < n"
  shows "low + of_nat (4096 * j) < KERNEL_BASE \<and> m \<in> set (map_list s) \<or> KERNEL_BASE \<le> low + of_nat (4096 * j) \<and> present s (slot_of s m (low + of_nat (4096 * j)))"
    "KERNEL_BASE \<le> low + of_nat (4096 * j) \<longleftrightarrow> KERNEL_BASE \<le> low"
proof -
  have r: "4096 dvd unat low" "unat low + 4096 * n \<le> 4294967296" using assms(1) by (simp_all add: mappable_def)
  have u: "unat (low + of_nat (4096 * j)) = unat low + 4096 * j" using r assms(2) by (intro page_of_offset) auto
  show side: "KERNEL_BASE \<le> low + of_nat (4096 * j) \<longleftrightarrow> KERNEL_BASE \<le> low"
    using assms u by (auto simp: mappable_def word_le_nat_alt split: if_splits)
  show "low + of_nat (4096 * j) < KERNEL_BASE \<and> m \<in> set (map_list s) \<or> KERNEL_BASE \<le> low + of_nat (4096 * j) \<and> present s (slot_of s m (low + of_nat (4096 * j)))"
    using assms side by (cases "KERNEL_BASE \<le> low") (auto simp: mappable_def not_le)
qed

lemma mappable_mono:
  assumes "mappable m low n s" "slot_of s' = slot_of s" "map_list s' = map_list s" "\<forall>y\<in>slots s. present s y \<longrightarrow> present s' y"
  shows "mappable m low n s'"
proof -
  have "present s' (slot_of s m (low + of_nat (4096 * j)))" if "KERNEL_BASE \<le> low" "j < n" for j
    using mappable_page [OF assms(1) that(2)] that(1) assms(4) slot_of_slots [of "low + of_nat (4096 * j)" m s] by auto
  then show ?thesis using assms(1-3) by (auto simp: mappable_def)
qed

lemma maps_range_step:
  assumes "mappable m low n s" "k < n" and first: "\<forall>m' va'. KERNEL_BASE \<le> va' \<or> m' \<in> set (map_list s) \<longrightarrow> query_translation_map m' va' s1
            = (if unat va' div 4096 = unat (low + of_nat (4096 * k)) div 4096 \<and> (KERNEL_BASE \<le> low + of_nat (4096 * k) \<or> m' = m)
               then Inr ((pa + of_nat (4096 * k)) OR fl) else query_translation_map m' va' s)"
    and rest: "maps_range m low pa fl {Suc k..<n} s1 s2" and list: "map_list s1 = map_list s"
  shows "maps_range m low pa fl {k..<n} s s2"
  unfolding maps_range_def
proof (intro allI impI)
  fix m' va assume v: "KERNEL_BASE \<le> va \<or> m' \<in> set (map_list s)"
  have r: "4096 dvd unat low" "unat low + 4096 * k < 4294967296" using assms(1,2) by (auto simp: mappable_def)
  note page = page_of_offset [OF r]
  have side: "KERNEL_BASE \<le> low + of_nat (4096 * k) \<longleftrightarrow> KERNEL_BASE \<le> low" by (rule mappable_page(2) [OF assms(1,2)])
  let ?p = "unat va div 4096" and ?l = "unat low div 4096"
  have ge: "low \<le> va \<longleftrightarrow> ?l \<le> ?p"
    using r(1) by (auto simp: word_le_nat_alt div_le_mono)
  have s1: "query_translation_map m' va s1 = (if ?p = ?l + k \<and> (KERNEL_BASE \<le> low \<or> m' = m) then Inr ((pa + of_nat (4096 * k)) OR fl)
      else query_translation_map m' va s)"
    using first [rule_format, OF v] unfolding page(2) side .
  have s2: "query_translation_map m' va s2 = (if ?p - ?l \<in> {Suc k..<n} \<and> low \<le> va \<and> (KERNEL_BASE \<le> low \<or> m' = m)
      then Inr ((pa + of_nat (4096 * (?p - ?l))) OR fl) else query_translation_map m' va s1)"
    using rest [unfolded maps_range_def, rule_format, of va m'] v list by simp
  show "query_translation_map m' va s2 = (if ?p - ?l \<in> {k..<n} \<and> low \<le> va \<and> (KERNEL_BASE \<le> low \<or> m' = m)
      then Inr ((pa + of_nat (4096 * (?p - ?l))) OR fl) else query_translation_map m' va s)"
  proof (cases "?p = ?l + k")
    case True
    then have "?p - ?l = k" "low \<le> va" using ge by auto
    then show ?thesis unfolding s2 s1 using True assms(2) by simp
  next
    case False
    then have "?p - ?l \<in> {Suc k..<n} \<and> low \<le> va \<and> b \<longleftrightarrow> ?p - ?l \<in> {k..<n} \<and> low \<le> va \<and> b" for b
      unfolding ge atLeastLessThan_iff by linarith
    then show ?thesis unfolding s2 s1 using False by (simp only: simp_thms if_False)
  qed
qed

lemma map_pages_ok:
  assumes ok: "space_ok s" and range: "mappable m low n s" and sz: "4096 * n < unat sz + 4096" "unat sz \<le> 4096 * n" and k: "k \<le> n"
  shows "\<exists>r. map_pages m low pa fl sz (of_nat (4096 * k)) s = Some r \<and> (case r of Inl e \<Rightarrow> e = Exit_called
    | Inr s' \<Rightarrow> space_ok s' \<and> map_list s' = map_list s \<and> maps_range m low pa fl {k..<n} s s')"
  using ok range k
proof (induction "n - k" arbitrary: k s)
  case 0
  have "0 < unat low" "unat low + 4096 * n \<le> 4294967296" using 0 by (auto simp: mappable_def word_less_nat_alt)
  then have "unat (of_nat (4096 * n) :: u32) = 4096 * n" by (simp add: unat_of_nat del: of_nat_mult)
  then have "\<not> of_nat (4096 * k) < sz" using 0 sz by (simp add: word_less_nat_alt del: of_nat_mult)
  then show ?case using 0 by (subst map_pages.simps) (simp add: maps_range_def)
next
  case (Suc d)
  let ?va = "low + of_nat (4096 * k)" and ?pa = "(pa + of_nat (4096 * k)) OR fl"
  have kn: "k < n" using Suc.hyps(2) by simp
  have "4096 * k < 4294967296" using Suc.prems(2) kn by (auto simp: mappable_def)
  then have "of_nat (4096 * k) < sz" using sz(1) kn by (simp add: word_less_nat_alt unat_of_nat del: of_nat_mult)
  then have run: "map_pages m low pa fl sz (of_nat (4096 * k)) s = (case vm_map_page m ?va ?pa s of
      Inl e \<Rightarrow> Some (Inl e) | Inr s' \<Rightarrow> map_pages m low pa fl sz (of_nat (4096 * Suc k)) s')"
    by (subst map_pages.simps) (simp add: algebra_simps split: sum.splits)
  note v = vm_map_page_ok [OF Suc.prems(1) mappable_page(1) [OF Suc.prems(2) kn], of ?pa]
  show ?case
  proof (cases "vm_map_page m ?va ?pa s")
    case (Inl e)
    then show ?thesis using v run by auto
  next
    case (Inr s1)
    have s1: "space_ok s1" "map_list s1 = map_list s" "slot_of s1 = slot_of s" "\<forall>y\<in>slots s. present s y \<longrightarrow> present s1 y"
      and q: "\<forall>m' va'. KERNEL_BASE \<le> va' \<or> m' \<in> set (map_list s) \<longrightarrow> query_translation_map m' va' s1
            = (if unat va' div 4096 = unat ?va div 4096 \<and> (KERNEL_BASE \<le> ?va \<or> m' = m) then Inr ?pa else query_translation_map m' va' s)"
      using v unfolding Inr sum.case by blast+
    have "d = n - Suc k" using Suc.hyps(2) by simp
    from Suc.hyps(1) [OF this s1(1) mappable_mono [OF Suc.prems(2) s1(3,2,4)]] kn
    obtain r where r: "map_pages m low pa fl sz (of_nat (4096 * Suc k)) s1 = Some r"
        "case r of Inl e \<Rightarrow> e = Exit_called
          | Inr s' \<Rightarrow> space_ok s' \<and> map_list s' = map_list s1 \<and> maps_range m low pa fl {Suc k..<n} s1 s'"
      by (auto simp del: of_nat_mult mult_Suc_right)
    then show ?thesis
      using run Inr s1(2) maps_range_step [OF Suc.prems(2) kn q _ s1(2)] by (auto split: sum.splits simp del: of_nat_mult mult_Suc_right)
  qed
qed

lemma in_area_iff:
  assumes "4096 dvd lo a" "hi a + 1 = lo a + 4096 * n"
  shows "unat va div 4096 - lo a div 4096 \<in> {0..<n} \<and> low_address a \<le> va \<longleftrightarrow> low_address a \<le> va \<and> va \<le> high_address a"
proof -
  obtain q where q: "lo a = 4096 * q" using assms(1) by (elim dvdE)
  have "unat va \<le> hi a \<longleftrightarrow> unat va div 4096 < q + n"
    using assms(2) q by (simp add: less_eq_Suc_le less_mult_imp_div_less div_less_iff_less_mult mult.commute) linarith
  then show ?thesis using q by (auto simp: word_le_nat_alt div_le_mono)
qed



end
