(* ===== verification/Sd_Crc.thy ===== *)
theory Sd_Crc
  imports Nyuzi_Prelude
begin

text \<open>
  The CRC-7 of SD card commands in \<open>software/libs/libos/bare-metal/sdmmc.c\<close>: the lookup table and the
  loop of \<open>send_sd_command\<close>, against a bit-serial reference.
\<close>

definition CRC7_TABLE :: "u8 list" where
  "CRC7_TABLE = [
    0x00, 0x09, 0x12, 0x1b, 0x24, 0x2d, 0x36, 0x3f, 0x48, 0x41, 0x5a, 0x53, 0x6c, 0x65, 0x7e, 0x77,
    0x19, 0x10, 0x0b, 0x02, 0x3d, 0x34, 0x2f, 0x26, 0x51, 0x58, 0x43, 0x4a, 0x75, 0x7c, 0x67, 0x6e,
    0x32, 0x3b, 0x20, 0x29, 0x16, 0x1f, 0x04, 0x0d, 0x7a, 0x73, 0x68, 0x61, 0x5e, 0x57, 0x4c, 0x45,
    0x2b, 0x22, 0x39, 0x30, 0x0f, 0x06, 0x1d, 0x14, 0x63, 0x6a, 0x71, 0x78, 0x47, 0x4e, 0x55, 0x5c,
    0x64, 0x6d, 0x76, 0x7f, 0x40, 0x49, 0x52, 0x5b, 0x2c, 0x25, 0x3e, 0x37, 0x08, 0x01, 0x1a, 0x13,
    0x7d, 0x74, 0x6f, 0x66, 0x59, 0x50, 0x4b, 0x42, 0x35, 0x3c, 0x27, 0x2e, 0x11, 0x18, 0x03, 0x0a,
    0x56, 0x5f, 0x44, 0x4d, 0x72, 0x7b, 0x60, 0x69, 0x1e, 0x17, 0x0c, 0x05, 0x3a, 0x33, 0x28, 0x21,
    0x4f, 0x46, 0x5d, 0x54, 0x6b, 0x62, 0x79, 0x70, 0x07, 0x0e, 0x15, 0x1c, 0x23, 0x2a, 0x31, 0x38,
    0x41, 0x48, 0x53, 0x5a, 0x65, 0x6c, 0x77, 0x7e, 0x09, 0x00, 0x1b, 0x12, 0x2d, 0x24, 0x3f, 0x36,
    0x58, 0x51, 0x4a, 0x43, 0x7c, 0x75, 0x6e, 0x67, 0x10, 0x19, 0x02, 0x0b, 0x34, 0x3d, 0x26, 0x2f,
    0x73, 0x7a, 0x61, 0x68, 0x57, 0x5e, 0x45, 0x4c, 0x3b, 0x32, 0x29, 0x20, 0x1f, 0x16, 0x0d, 0x04,
    0x6a, 0x63, 0x78, 0x71, 0x4e, 0x47, 0x5c, 0x55, 0x22, 0x2b, 0x30, 0x39, 0x06, 0x0f, 0x14, 0x1d,
    0x25, 0x2c, 0x37, 0x3e, 0x01, 0x08, 0x13, 0x1a, 0x6d, 0x64, 0x7f, 0x76, 0x49, 0x40, 0x5b, 0x52,
    0x3c, 0x35, 0x2e, 0x27, 0x18, 0x11, 0x0a, 0x03, 0x74, 0x7d, 0x66, 0x6f, 0x50, 0x59, 0x42, 0x4b,
    0x17, 0x1e, 0x05, 0x0c, 0x33, 0x3a, 0x21, 0x28, 0x5f, 0x56, 0x4d, 0x44, 0x7b, 0x72, 0x69, 0x60,
    0x0e, 0x07, 0x1c, 0x15, 0x2a, 0x23, 0x38, 0x31, 0x46, 0x4f, 0x54, 0x5d, 0x62, 0x6b, 0x70, 0x79]"

text \<open>One step and the whole of the checksum loop; the table is an array of 256 bytes.\<close>

definition crc7_step :: "u32 \<Rightarrow> u8 \<Rightarrow> u32 cres" where
  "crc7_step crc byte = (let i = unat (push_bit 1 crc XOR ucast byte) in
     if i < length CRC7_TABLE then Inr (ucast (CRC7_TABLE ! i)) else Inl Out_of_bounds)"

fun crc7 :: "u32 \<Rightarrow> u8 list \<Rightarrow> u32 cres" where
  "crc7 crc [] = Inr crc"
| "crc7 crc (b # bs) = bindE (crc7_step crc b) (\<lambda>crc'. crc7 crc' bs)"

subsection \<open>The checksum\<close>

text \<open>The register of a bit-serial CRC with the polynomial \<open>x^7 + x^3 + 1\<close>, fed with a byte, most significant bit first.\<close>

definition crc7_bit :: "u8 \<Rightarrow> bool \<Rightarrow> u8" where
  "crc7_bit crc b = (push_bit 1 crc AND 0x7f) XOR (if bit crc 6 \<noteq> b then 9 else 0)"

definition crc7_byte :: "u8 \<Rightarrow> u8 \<Rightarrow> u8" where
  "crc7_byte crc byte = foldl (\<lambda>c i. crc7_bit c (bit byte i)) crc [7, 6, 5, 4, 3, 2, 1, 0]"

text \<open>The register with the rest of the byte added in, as the table combines them.\<close>

definition crc7_shift :: "u8 \<Rightarrow> u8" where
  "crc7_shift r = push_bit 1 r XOR (if bit r 7 then 0x12 else 0)"

definition crc7_entry :: "u8 \<Rightarrow> u8" where
  "crc7_entry r = drop_bit 1 ((crc7_shift ^^ 8) r)"

lemma crc7_shift_xor: "crc7_shift (a XOR b) = crc7_shift a XOR crc7_shift b"
  by (auto simp: crc7_shift_def push_bit_xor bit_xor_iff xor.assoc xor.commute xor.left_commute)

lemma crc7_entry_xor: "crc7_entry (a XOR b) = crc7_entry a XOR crc7_entry b"
proof -
  have "(crc7_shift ^^ n) (a XOR b) = (crc7_shift ^^ n) a XOR (crc7_shift ^^ n) b" for n
    by (induction n) (simp_all add: crc7_shift_xor)
  then show ?thesis by (simp add: crc7_entry_def drop_bit_xor)
qed

text \<open>By linearity the table doubles with each bit of the index.\<close>

definition crc7_entries :: "nat \<Rightarrow> u8 list" where
  "crc7_entries k = map (\<lambda>i. crc7_entry (word_of_nat i)) [0..<2 ^ k]"

lemma word_of_nat_add_bit:
  assumes "i < 2 ^ k"
  shows "word_of_nat (2 ^ k + i) = (word_of_nat i XOR push_bit k 1 :: u8)"
proof -
  have "\<not> bit i k" using assms by (metis bit_take_bit_iff less_irrefl_nat take_bit_nat_eq_self)
  then have "(word_of_nat i AND push_bit k 1 :: u8) = 0"
    by (intro bit_word_eqI) (auto simp: bit_simps)
  then have "(word_of_nat i + push_bit k 1 :: u8) = word_of_nat i XOR push_bit k 1"
    by (simp add: disjunctive_xor_eq_or disjunctive_add_eq_or)
  then show ?thesis by (simp add: push_bit_eq_mult add.commute)
qed

lemma crc7_entries_Suc:
  "crc7_entries (Suc k) = crc7_entries k @ map (\<lambda>x. x XOR crc7_entry (push_bit k 1)) (crc7_entries k)"
proof -
  have "map (\<lambda>i. crc7_entry (word_of_nat (2 ^ k + i))) [0..<2 ^ k]
      = map (\<lambda>i. crc7_entry (word_of_nat i) XOR crc7_entry (push_bit k 1)) [0..<2 ^ k]"
    by (simp add: word_of_nat_add_bit crc7_entry_xor del: of_nat_add)
  moreover have "map f [0..<2 ^ k + 2 ^ k] = map f [0..<2 ^ k] @ map (\<lambda>i. f (2 ^ k + i)) [0..<2 ^ k]" for f :: "nat \<Rightarrow> u8"
    by (simp add: upt_add_eq_append [of 0 "2 ^ k" "2 ^ k"] map_add_upt [symmetric] comp_def add.commute)
  ultimately show ?thesis by (simp add: crc7_entries_def comp_def mult_2)
qed

lemma funpow_8: "(f ^^ 8) x = f (f (f (f (f (f (f (f x)))))))"
  by (simp add: numeral_eq_Suc)

lemma crc7_basis:
  "crc7_entry 1 = 0x09" "crc7_entry 2 = 0x12" "crc7_entry 4 = 0x24" "crc7_entry 8 = 0x48"
  "crc7_entry 16 = 0x19" "crc7_entry 32 = 0x32" "crc7_entry 64 = 0x64" "crc7_entry 128 = 0x41" "crc7_entry 0 = 0"
  by (simp_all add: crc7_entry_def crc7_shift_def funpow_8)

lemma CRC7_TABLE_entries: "CRC7_TABLE = crc7_entries 8"
proof -
  have 0: "crc7_entries 0 = [0]" by (simp add: crc7_entries_def crc7_basis)
  have 8: "8 = Suc (Suc (Suc (Suc (Suc (Suc (Suc (Suc 0)))))))" by simp
  show ?thesis
    unfolding 8 by (simp add: crc7_entries_Suc 0 push_bit_Suc crc7_basis CRC7_TABLE_def)
qed

lemma crc7_bit_small: "\<not> bit c 7 \<Longrightarrow> \<not> bit (crc7_bit c b) 7"
  by (simp add: crc7_bit_def bit_simps)

lemma crc7_shift_step:
  "crc7_shift (push_bit 1 c XOR b) = push_bit 1 (crc7_bit c (bit b 7)) XOR push_bit 1 b"
proof -
  have m: "(0x7f :: u8) = mask 7" by (simp add: mask_eq_exp_minus_1)
  have "push_bit 1 (push_bit 1 c AND 0x7f) = push_bit 1 (push_bit 1 c)"
    unfolding m by (rule bit_word_eqI, simp only: bit_push_bit_iff bit_and_iff bit_mask_iff possible_bit_word) auto
  moreover have "push_bit 1 (if p then 9 else 0) = (if p then 0x12 else (0 :: u8))" for p by simp
  moreover have "bit (push_bit 1 c XOR b) 7 \<longleftrightarrow> bit c 6 \<noteq> bit b 7"
    by (simp only: bit_push_bit_iff bit_xor_iff possible_bit_word) simp
  ultimately show ?thesis
    unfolding crc7_shift_def crc7_bit_def push_bit_xor by (simp add: xor.assoc xor.commute)
qed

fun crc7_bits :: "u8 \<Rightarrow> u8 \<Rightarrow> nat \<Rightarrow> u8" where
  "crc7_bits c b 0 = c"
| "crc7_bits c b (Suc j) = crc7_bit (crc7_bits c b j) (bit b (7 - j))"

lemma crc7_bits_8: "crc7_bits c b 8 = crc7_byte c b"
  by (simp add: crc7_byte_def numeral_eq_Suc)

lemma crc7_bits_small: "\<not> bit c 7 \<Longrightarrow> \<not> bit (crc7_bits c b j) 7"
  by (induction j) (simp_all add: crc7_bit_small)

lemma crc7_shift_bits: "j \<le> 8 \<Longrightarrow> (crc7_shift ^^ j) (push_bit 1 c XOR b) = push_bit 1 (crc7_bits c b j) XOR push_bit j b"
proof (induction j)
  case (Suc j)
  have "bit (push_bit j b) 7 = bit b (7 - j)" using Suc.prems by (simp only: bit_push_bit_iff possible_bit_word) simp
  moreover have "push_bit 1 (push_bit j b) = push_bit (Suc j) b" by (simp only: push_bit_push_bit) simp
  ultimately show ?case using Suc crc7_shift_step [of "crc7_bits c b j" "push_bit j b"] by (simp del: push_bit_Suc)
qed simp

lemma crc7_entry_byte:
  assumes "\<not> bit c 7"
  shows "crc7_entry (push_bit 1 c XOR b) = crc7_byte c b"
proof -
  have "(crc7_shift ^^ 8) (push_bit 1 c XOR b) = push_bit 1 (crc7_byte c b) XOR push_bit 8 b"
    using crc7_shift_bits [of 8 c b] unfolding crc7_bits_8 by simp
  moreover have "push_bit 8 b = 0" by (rule bit_word_eqI) (simp only: bit_push_bit_iff possible_bit_word bit_0_eq, simp)
  moreover have "\<not> bit (crc7_byte c b) 7" using crc7_bits_small [OF assms, of b 8] by (simp only: crc7_bits_8) simp
  moreover have "drop_bit 1 (push_bit 1 x) = x" if x: "\<not> bit x 7" for x :: u8
  proof (rule bit_word_eqI)
    fix n assume n: "n < LENGTH(8)"
    show "bit (drop_bit 1 (push_bit 1 x)) n = bit x n"
      using x n by (cases "n = 7") (simp_all only: bit_drop_bit_eq comp_def bit_push_bit_iff possible_bit_word, simp_all)
  qed
  ultimately show ?thesis by (simp add: crc7_entry_def)
qed

lemma crc7_step_serial:
  assumes "\<not> bit c 7"
  shows "crc7_step (ucast c) b = Inr (ucast (crc7_byte c b))"
proof -
  let ?i = "push_bit 1 c XOR b"
  have e: "(push_bit 1 (ucast c) XOR ucast b :: u32) = ucast ?i"
  proof (rule bit_word_eqI)
    fix n assume n: "n < LENGTH(32)"
    have "\<not> bit c (n - 1)" if "\<not> n < 8" using assms that by (cases "n = 8") (auto dest: bit_imp_le_length)
    then show "bit (push_bit 1 (ucast c) XOR ucast b :: u32) n = bit (ucast ?i :: u32) n"
      using n by (simp only: bit_xor_iff bit_push_bit_iff bit_ucast_iff possible_bit_word) (auto dest: bit_imp_le_length)
  qed
  have lt: "unat ?i < 256" using unsigned_less [of ?i] by simp
  have "unat (ucast ?i :: u32) = unat ?i" by (simp only: unsigned_ucast_eq) (use lt in \<open>simp add: take_bit_nat_eq_self\<close>)
  moreover have "length CRC7_TABLE = 256" by (simp add: CRC7_TABLE_entries crc7_entries_def)
  moreover have "CRC7_TABLE ! unat ?i = crc7_entry ?i"
    unfolding CRC7_TABLE_entries crc7_entries_def using lt by (simp del: push_bit_Suc)
  ultimately show ?thesis
    using lt unfolding crc7_step_def Let_def e by (simp only: crc7_entry_byte [OF assms]) simp
qed

lemma crc7_from:
  "\<not> bit c 7 \<Longrightarrow> crc7 (ucast c) bs = Inr (ucast (foldl crc7_byte c bs))"
proof (induction bs arbitrary: c)
  case (Cons b bs)
  have "\<not> bit (crc7_byte c b) 7" using crc7_bits_small [OF Cons.prems, of b 8] by (simp only: crc7_bits_8) simp
  then show ?case using Cons.IH [of "crc7_byte c b"] by (simp add: crc7_step_serial [OF Cons.prems])
qed simp

text \<open>
  C23: The table-driven checksum of a command equals the bit-serial CRC-7 of its bytes, and no lookup
  is outside the table.
\<close>

theorem crc7_serial: "crc7 0 bs = Inr (ucast (foldl crc7_byte 0 bs))"
  using crc7_from [of 0 bs] by simp

end
