(* ===== verification/Sd_Driver.thy ===== *)
theory Sd_Driver
  imports Emu_Device Sd_Crc Nyuzi_IO
begin

text \<open>
  The SD card drivers of the kernel (\<open>software/kernel/sd_card.c\<close>) and of the operating system library
  (\<open>software/libs/libos/bare-metal/sdmmc.c\<close>). Both reach the card through memory-mapped registers:
  the drivers take the two register accesses as a parameter, and \<open>emu_mmio\<close> is the register file of
  the emulator. A driver function is an \<open>io\<close> action: \<open>None\<close> when it polls forever, \<open>Some (Inl e)\<close> when
  the device ends the program. A buffer that a function fills is part of its result.
\<close>

record 'd mmio =
  reg_write :: "u32 \<Rightarrow> u32 \<Rightarrow> 'd \<Rightarrow> 'd cres"
  reg_read :: "u32 \<Rightarrow> 'd \<Rightarrow> u32 \<times> 'd"

abbreviation (input) REG_SD_SPI_WRITE :: u32 where "REG_SD_SPI_WRITE \<equiv> 0xffff00c0"
abbreviation (input) REG_SD_SPI_READ :: u32 where "REG_SD_SPI_READ \<equiv> 0xffff00c4"
abbreviation (input) REG_SD_SPI_STATUS :: u32 where "REG_SD_SPI_STATUS \<equiv> 0xffff00c8"
abbreviation (input) REG_SD_SPI_CONTROL :: u32 where "REG_SD_SPI_CONTROL \<equiv> 0xffff00cc"
abbreviation (input) REG_SD_SPI_CLOCK_DIVIDE :: u32 where "REG_SD_SPI_CLOCK_DIVIDE \<equiv> 0xffff00d0"
abbreviation (input) MAX_RETRIES :: nat where "MAX_RETRIES \<equiv> 100"
abbreviation (input) DATA_TOKEN :: u32 where "DATA_TOKEN \<equiv> 0xfe"
abbreviation (input) CHECK_PATTERN :: u32 where "CHECK_PATTERN \<equiv> 0x5a"
abbreviation (input) BLOCK_SIZE :: nat where "BLOCK_SIZE \<equiv> 512"

definition write_reg :: "'d mmio \<Rightarrow> u32 \<Rightarrow> u32 \<Rightarrow> ('d, unit) io" where
  "write_reg io r v d = Some (bindE (reg_write io r v d) (\<lambda>d'. Inr ((), d')))"

definition set_cs :: "'d mmio \<Rightarrow> u32 \<Rightarrow> ('d, unit) io" where
  "set_cs io level = write_reg io REG_SD_SPI_CONTROL level"

definition set_clock_divisor :: "'d mmio \<Rightarrow> u32 \<Rightarrow> ('d, unit) io" where
  "set_clock_divisor io divisor = write_reg io REG_SD_SPI_CLOCK_DIVIDE (divisor - 1)"

partial_function (option) wait_transfer :: "'d mmio \<Rightarrow> 'd \<Rightarrow> (unit \<times> 'd) cres option" where
  "wait_transfer io d =
     (case reg_read io REG_SD_SPI_STATUS d of (v, d') \<Rightarrow>
        if v AND 1 = 0 then wait_transfer io d' else Some (Inr ((), d')))"

definition spi_transfer :: "'d mmio \<Rightarrow> u32 \<Rightarrow> ('d, u32) io" where
  "spi_transfer io value =
     bindIO (write_reg io REG_SD_SPI_WRITE (value AND 0xff)) (\<lambda>_.
       bindIO (wait_transfer io) (\<lambda>_ d. Some (Inr (reg_read io REG_SD_SPI_READ d))))"

text \<open>Several transfers, with the answers.\<close>

primrec spi_transfers :: "'d mmio \<Rightarrow> u32 list \<Rightarrow> ('d, u32 list) io" where
  "spi_transfers io [] = returnIO []"
| "spi_transfers io (v # vs) = bindIO (spi_transfer io v) (\<lambda>r. bindIO (spi_transfers io vs) (\<lambda>rs. returnIO (r # rs)))"

declare spi_transfers.simps [simp del]

text \<open>The loop of \<open>send_sd_command\<close>, with the number of retries left.\<close>

primrec await_response :: "'d mmio \<Rightarrow> nat \<Rightarrow> ('d, u32) io" where
  "await_response io 0 = spi_transfer io 0xff"
| "await_response io (Suc n) = bindIO (spi_transfer io 0xff) (\<lambda>r. if r = 0xff then await_response io n else returnIO r)"

definition send_sd_command :: "'d mmio \<Rightarrow> u32 \<Rightarrow> u32 \<Rightarrow> ('d, u32) io" where
  "send_sd_command io command parameter =
     bindIO (spi_transfers io [0x40 OR command, drop_bit 24 parameter AND 0xff, drop_bit 16 parameter AND 0xff,
               drop_bit 8 parameter AND 0xff, parameter AND 0xff, 0x95])
       (\<lambda>_. await_response io MAX_RETRIES)"

text \<open>
  \<open>init_sd_device\<close>: the loop that polls until the card is ready, and the whole function. The commands
  are those of \<open>enum sd_command\<close>. Both drivers have this structure and differ in how they send a
  command (\<open>send\<close>) and in the argument of \<open>CMD_APP_OP_COND\<close>.
\<close>

fun poll_ready :: "'d mmio \<Rightarrow> (u32 \<Rightarrow> u32 \<Rightarrow> ('d, u32) io) \<Rightarrow> u32 \<Rightarrow> nat \<Rightarrow> ('d, bool) io" where
  "poll_ready io send op_cond retries =
     bindIO (send 55 0) (\<lambda>result. if result \<noteq> 1 then returnIO False else
       bindIO (send 41 op_cond) (\<lambda>result.
         bindIO (spi_transfers io (replicate 5 0xff)) (\<lambda>_.
           if result = 0 then returnIO True
           else if result \<noteq> 1 then returnIO False
           else (case retries of 0 \<Rightarrow> returnIO False | Suc n \<Rightarrow> poll_ready io send op_cond n))))"

declare poll_ready.simps [simp del]

definition init_card :: "'d mmio \<Rightarrow> (u32 \<Rightarrow> u32 \<Rightarrow> ('d, u32) io) \<Rightarrow> u32 \<Rightarrow> ('d, int) io" where
  "init_card io send op_cond =
     bindIO (set_clock_divisor io 125) (\<lambda>_.
     bindIO (set_cs io 1) (\<lambda>_.
     bindIO (spi_transfers io (replicate 10 0xff)) (\<lambda>_.
     bindIO (set_cs io 0) (\<lambda>_.
     bindIO (send 0 0) (\<lambda>result. if result \<noteq> 1 then returnIO (- 1) else
     bindIO (send 8 (0x100 OR CHECK_PATTERN)) (\<lambda>result. if result \<noteq> 1 then returnIO (- 1) else
     bindIO (spi_transfers io [0xff, 0xff]) (\<lambda>_.
     bindIO (spi_transfer io 0xff) (\<lambda>result. if result AND 0xf \<noteq> 1 then returnIO (- 1) else
     bindIO (spi_transfer io 0xff) (\<lambda>result. if result \<noteq> CHECK_PATTERN then returnIO (- 1) else
     bindIO (poll_ready io send op_cond MAX_RETRIES) (\<lambda>ready. if \<not> ready then returnIO (- 1) else
     bindIO (set_clock_divisor io 5) (\<lambda>_. returnIO 0)))))))))))"

definition init_sd_device :: "'d mmio \<Rightarrow> ('d, int) io" where
  "init_sd_device io = init_card io (send_sd_command io) 0"

text \<open>The loop that waits for the start of the data; \<open>False\<close> when it times out.\<close>

primrec await_token :: "'d mmio \<Rightarrow> nat \<Rightarrow> ('d, bool) io" where
  "await_token io 0 = returnIO False"
| "await_token io (Suc n) = bindIO (spi_transfer io 0xff) (\<lambda>r.
     if r = DATA_TOKEN then returnIO True else await_token io n)"

definition read_card :: "'d mmio \<Rightarrow> (u32 \<Rightarrow> u32 \<Rightarrow> ('d, u32) io) \<Rightarrow> u32 \<Rightarrow> ('d, int \<times> u8 list) io" where
  "read_card io send block_address =
     bindIO (send 17 block_address) (\<lambda>result. if result \<noteq> 0 then returnIO (- 1, []) else
     bindIO (await_token io 10000) (\<lambda>ok. if \<not> ok then returnIO (- 1, []) else
     bindIO (spi_transfers io (replicate BLOCK_SIZE 0xff)) (\<lambda>data.
     bindIO (spi_transfers io [0xff, 0xff]) (\<lambda>_. returnIO (int BLOCK_SIZE, map ucast data)))))"

text \<open>
  The kernel reads under \<open>sd_lock\<close>, here the first component of the state: a read waits forever for a
  lock that is held, and the lock is released only on success.
\<close>

definition read_sd_device :: "'d mmio \<Rightarrow> u32 \<Rightarrow> (bool \<times> 'd, int \<times> u8 list) io" where
  "read_sd_device io block_address = (\<lambda>(sd_lock, d). if sd_lock then None
     else (case read_card io (send_sd_command io) block_address d of
         None \<Rightarrow> None
       | Some (Inl e) \<Rightarrow> Some (Inl e)
       | Some (Inr ((r, data), d')) \<Rightarrow> Some (Inr ((r, data), (r < 0, d')))))"

subsection \<open>The driver of the operating system library\<close>

definition command_encoding :: "u32 \<Rightarrow> u32 \<Rightarrow> u8 list" where
  "command_encoding command parameter =
     [ucast (0x40 OR command), ucast (drop_bit 24 parameter AND 0xff), ucast (drop_bit 16 parameter AND 0xff),
      ucast (drop_bit 8 parameter AND 0xff), ucast (parameter AND 0xff)]"

definition os_send_sd_command :: "'d mmio \<Rightarrow> u32 \<Rightarrow> u32 \<Rightarrow> ('d, u32) io" where
  "os_send_sd_command io command parameter d =
     (case crc7 0 (command_encoding command parameter) of
        Inl e \<Rightarrow> Some (Inl e)
      | Inr crc \<Rightarrow> bindIO (spi_transfers io (map ucast (command_encoding command parameter) @ [push_bit 1 crc OR 1]))
                    (\<lambda>_. await_response io MAX_RETRIES) d)"

definition init_sdmmc_device :: "'d mmio \<Rightarrow> ('d, int) io" where
  "init_sdmmc_device io = init_card io (os_send_sd_command io) 0x40fc0000"

definition read_sdmmc_device :: "'d mmio \<Rightarrow> u32 \<Rightarrow> ('d, int \<times> u8 list) io" where
  "read_sdmmc_device io block_address = read_card io (os_send_sd_command io) block_address"

text \<open>The buffer has type \<open>char\<close>, which is signed; the transfer masks the value.\<close>

definition write_sdmmc_device :: "'d mmio \<Rightarrow> u32 \<Rightarrow> u8 list \<Rightarrow> ('d, int) io" where
  "write_sdmmc_device io block_address data =
     bindIO (os_send_sd_command io 24 block_address) (\<lambda>result. if result \<noteq> 0 then returnIO (- 1) else
     bindIO (spi_transfer io DATA_TOKEN) (\<lambda>_.
     bindIO (spi_transfers io (map scast (take BLOCK_SIZE data))) (\<lambda>_.
     bindIO (spi_transfers io [0xff, 0xff]) (\<lambda>_.
     bindIO (spi_transfer io 0xff) (\<lambda>result.
       returnIO (if result AND 0x1f \<noteq> 5 then - 1 else int BLOCK_SIZE))))))"

subsection \<open>The register file of the emulator\<close>

definition emu_mmio :: "machine mmio" where
  "emu_mmio = \<lparr>reg_write = write_device_register, reg_read = read_device_register\<rparr>"

definition with_card :: "machine \<Rightarrow> u32 \<Rightarrow> sd_card \<Rightarrow> random_state \<Rightarrow> machine" where
  "with_card s r c rs = s\<lparr>dev := (dev s)\<lparr>last_sdmmc_response := r, sdmmc := c\<rparr>, rng := rs\<rparr>"

lemma with_card_simps [simp]:
  "sdmmc (dev (with_card s r c rs)) = c" "rng (with_card s r c rs) = rs"
  "last_sdmmc_response (dev (with_card s r c rs)) = r"
  "with_card (with_card s r c rs) r' c' rs' = with_card s r' c' rs'"
  by (simp_all add: with_card_def)

lemma spi_transfer_emu:
  "spi_transfer emu_mmio v s = (case transfer_sdmmc_byte (v AND 0xff) (sdmmc (dev s)) (rng s) of
     Inl e \<Rightarrow> Some (Inl e) | Inr (r, c, rs) \<Rightarrow> Some (Inr (r, with_card s r c rs)))"
  by (simp add: spi_transfer_def bindIO_def write_reg_def emu_mmio_def write_device_register_def wait_transfer.simps
      read_device_register_def with_card_def Let_def split: sum.split prod.split)

lemma set_cs_emu: "set_cs emu_mmio v s = Some (Inr ((), s\<lparr>dev := (dev s)\<lparr>sdmmc := set_sdmmc_cs (v AND 1) (sdmmc (dev s))\<rparr>\<rparr>))"
  by (simp add: set_cs_def write_reg_def emu_mmio_def write_device_register_def Let_def)

lemma set_clock_divisor_emu [simp]: "set_clock_divisor emu_mmio v s = Some (Inr ((), s))"
  by (simp add: set_clock_divisor_def write_reg_def emu_mmio_def write_device_register_def Let_def)

definition card_at :: "machine \<Rightarrow> sd_card \<Rightarrow> random_state \<Rightarrow> bool" where
  "card_at s c rs \<longleftrightarrow> sdmmc (dev s) = c \<and> rng s = rs"

text \<open>\<open>m\<close> returns \<open>x\<close> and takes the card from one state to another.\<close>

definition drives :: "(machine, 'a) io \<Rightarrow> sd_card \<Rightarrow> random_state \<Rightarrow> 'a \<Rightarrow> sd_card \<Rightarrow> random_state \<Rightarrow> bool" where
  "drives m c rs x c' rs' \<longleftrightarrow> (\<forall>s. card_at s c rs \<longrightarrow> (\<exists>s'. m s = Some (Inr (x, s')) \<and> card_at s' c' rs'))"

lemma drives_bind: "drives m c rs x c' rs' \<Longrightarrow> drives (f x) c' rs' y c'' rs'' \<Longrightarrow> drives (bindIO m f) c rs y c'' rs''"
  unfolding drives_def by (metis bindIO_returns)

lemma drives_return: "drives (returnIO x) c rs x c rs"
  by (simp add: drives_def)

lemma drives_transfer: "transfer_sdmmc_byte (v AND 0xff) c rs = Inr (r, c', rs') \<Longrightarrow> drives (spi_transfer emu_mmio v) c rs r c' rs'"
  by (auto simp: drives_def card_at_def spi_transfer_emu)

lemma drives_transfers:
  "sd_run (map (\<lambda>v. v AND 0xff) vs) c rs = Inr (out, c', rs') \<Longrightarrow> drives (spi_transfers emu_mmio vs) c rs out c' rs'"
proof (induction vs arbitrary: c rs out)
  case (Cons v vs)
  then obtain r c1 rs1 out' where s: "transfer_sdmmc_byte (v AND 0xff) c rs = Inr (r, c1, rs1)"
      "sd_run (map (\<lambda>v. v AND 0xff) vs) c1 rs1 = Inr (out', c', rs')" "out = r # out'"
    by (auto simp: bindE_eq_Inr)
  have "drives (bindIO (spi_transfers emu_mmio vs) (\<lambda>rs. returnIO (r # rs))) c1 rs1 out c' rs'"
    unfolding s(3) by (rule drives_bind [OF Cons.IH [OF s(2)] drives_return])
  then show ?case using drives_bind [OF drives_transfer [OF s(1)]] by (simp add: spi_transfers.simps)
qed (simp add: drives_return spi_transfers.simps)

lemma drives_set_cs: "drives (set_cs emu_mmio v) c rs () (set_sdmmc_cs (v AND 1) c) rs"
  by (auto simp: drives_def set_cs_emu card_at_def)

lemma drives_set_clock: "drives (set_clock_divisor emu_mmio v) c rs () c rs"
  by (simp add: drives_def)

lemma drives_await_now:
  "transfer_sdmmc_byte 0xff c rs = Inr (r, c', rs') \<Longrightarrow> r \<noteq> 0xff \<Longrightarrow> drives (await_response emu_mmio n) c rs r c' rs'"
  by (cases n) (auto intro!: drives_transfer drives_bind [OF drives_transfer] drives_return)

lemma drives_await_read:
  assumes "current_state c = STATE_READ_CMD_RESPONSE \<and> nxt = STATE_READ_DATA_TOKEN
      \<or> current_state c = STATE_WRITE_CMD_RESPONSE \<and> nxt = STATE_WRITE_DATA_TOKEN" "unat (state_delay c) \<le> n"
  shows "drives (await_response emu_mmio n) c rs 0 (c\<lparr>current_state := nxt, state_delay := fst (random_delay rs)\<rparr>) (snd (random_delay rs))"
  using assms
proof (induction n arbitrary: c)
  case 0
  then have "state_delay c = 0" by (simp add: unat_eq_0)
  then show ?case using 0 by (intro drives_await_now) (auto simp: transfer_sdmmc_byte_def sd_wait_def split_def Let_def)
next
  case (Suc n)
  show ?case
  proof (cases "state_delay c = 0")
    case True
    then show ?thesis using Suc.prems by (intro drives_await_now) (auto simp: transfer_sdmmc_byte_def sd_wait_def split_def Let_def)
  next
    case False
    let ?c = "c\<lparr>state_delay := state_delay c - 1\<rparr>"
    have "transfer_sdmmc_byte (0xff AND 0xff) c rs = Inr (0xff, ?c, rs)"
      using Suc.prems(1) False by (auto simp: transfer_sdmmc_byte_def sd_wait_def)
    moreover have "drives (await_response emu_mmio n) ?c rs 0 (?c\<lparr>current_state := nxt, state_delay := fst (random_delay rs)\<rparr>) (snd (random_delay rs))"
      using Suc.prems False by (intro Suc.IH) (auto simp: unat_minus_one)
    ultimately show ?thesis by (auto intro!: drives_bind [OF drives_transfer])
  qed
qed

lemma drives_await_token:
  assumes "current_state c = STATE_READ_DATA_TOKEN" "unat (state_delay c) < n"
  shows "drives (await_token emu_mmio n) c rs True (c\<lparr>current_state := STATE_READ_TRANSFER, state_delay := 0\<rparr>) rs"
  using assms
proof (induction n arbitrary: c)
  case (Suc n)
  show ?case
  proof (cases "state_delay c = 0")
    case True
    then have "transfer_sdmmc_byte (0xff AND 0xff) c rs = Inr (DATA_TOKEN, c\<lparr>current_state := STATE_READ_TRANSFER, state_delay := 0\<rparr>, rs)"
      using Suc.prems by (simp add: transfer_sdmmc_byte_def)
    then show ?thesis by (auto intro!: drives_bind [OF drives_transfer] drives_return)
  next
    case False
    let ?c = "c\<lparr>state_delay := state_delay c - 1\<rparr>"
    have "transfer_sdmmc_byte (0xff AND 0xff) c rs = Inr (0xff, ?c, rs)"
      using Suc.prems(1) False by (simp add: transfer_sdmmc_byte_def)
    moreover have "drives (await_token emu_mmio n) ?c rs True (?c\<lparr>current_state := STATE_READ_TRANSFER, state_delay := 0\<rparr>) rs"
      using Suc.prems False unat_gt_0 [of "state_delay c"] by (intro Suc.IH) (auto simp: unat_minus_one)
    ultimately show ?thesis by (auto intro!: drives_bind [OF drives_transfer])
  qed
qed simp

subsection \<open>Commands\<close>

text \<open>The Hoare triples of the drivers over predicates on the card.\<close>

definition carries :: "(machine, 'a) io \<Rightarrow> (sd_card \<Rightarrow> bool) \<Rightarrow> 'a \<Rightarrow> (sd_card \<Rightarrow> bool) \<Rightarrow> bool" where
  "carries m P x Q \<longleftrightarrow> (\<forall>c rs. P c \<longrightarrow> (\<exists>c' rs'. drives m c rs x c' rs' \<and> Q c'))"

lemma carries_bind: "carries m P x R \<Longrightarrow> carries (f x) R y Q \<Longrightarrow> carries (bindIO m f) P y Q"
  unfolding carries_def by (meson drives_bind)

lemma carries_return: "carries (returnIO x) P x P"
  by (auto simp: carries_def intro: drives_return)

lemma carriesI: "(\<And>c rs. P c \<Longrightarrow> \<exists>c' rs'. drives m c rs x c' rs' \<and> Q c') \<Longrightarrow> carries m P x Q"
  by (simp add: carries_def)

lemma carries_mono: "carries m P x Q \<Longrightarrow> (\<And>c. Q c \<Longrightarrow> Q' c) \<Longrightarrow> carries m P x Q'"
  unfolding carries_def by blast

lemma carries_set_clock: "carries (set_clock_divisor emu_mmio v) P () P"
  by (auto simp: carries_def intro: drives_set_clock)

text \<open>A function that sends a command: six bytes, the last a checksum, and then the wait for the answer.\<close>

definition six_bytes :: "u32 \<Rightarrow> u32 \<Rightarrow> u32 \<Rightarrow> u32 list" where
  "six_bytes cmd arg ck = [0x40 OR cmd, arg_byte arg 3, arg_byte arg 2, arg_byte arg 1, arg_byte arg 0, ck]"

definition sends :: "(u32 \<Rightarrow> u32 \<Rightarrow> (machine, u32) io) \<Rightarrow> bool" where
  "sends send \<longleftrightarrow> (\<forall>cmd arg. cmd \<in> {0, 8, 17, 24, 41, 55} \<longrightarrow> (\<exists>ck. \<forall>c rs out c1 rs1 r c2 rs2.
     sd_run (six_bytes cmd arg ck) c rs = Inr (out, c1, rs1) \<longrightarrow> drives (await_response emu_mmio MAX_RETRIES) c1 rs1 r c2 rs2
       \<longrightarrow> drives (send cmd arg) c rs r c2 rs2))"

definition startable :: "sd_card \<Rightarrow> bool" where
  "startable c \<longleftrightarrow> length (sd_command c) = 6 \<and> chip_select c = 0
     \<and> (current_state c = STATE_IDLE \<or> current_state c = STATE_INIT_WAIT \<and> \<not> init_clock_count c + 8 < 80)"

definition received :: "u32 list \<Rightarrow> sd_card \<Rightarrow> sd_card" where
  "received bytes c =
     c\<lparr>init_clock_count := (if current_state c = STATE_IDLE then init_clock_count c else init_clock_count c + 8),
       current_state := STATE_RECEIVE_COMMAND, sd_command := map ucast bytes, command_length := 6\<rparr>"

lemma run_six:
  assumes "startable c" and b: "b0 AND 0xc0 = 0x40"
  shows "sd_run [b0, b1, b2, b3, b4, b5] c rs = bindE (process_command (received [b0, b1, b2, b3, b4, b5] c) rs)
    (\<lambda>(c', rs'). Inr (replicate 6 0xff, c'\<lparr>command_length := 0\<rparr>, rs'))"
proof -
  obtain x0 x1 x2 x3 x4 x5 where c: "sd_command c = [x0, x1, x2, x3, x4, x5]"
    using assms(1) by (auto simp: startable_def numeral_eq_Suc length_Suc_conv)
  show ?thesis
  proof (cases "current_state c = STATE_IDLE")
    case True
    then show ?thesis using assms
      by (simp add: transfer_sdmmc_byte_def sd_idle_byte_def sd_receive_byte_def startable_def c received_def bindE_assoc
          split_def Let_def list_update_Cons_numeral replicate_numeral)
  next
    case False
    then have "current_state c = STATE_INIT_WAIT" using assms(1) by (simp add: startable_def)
    then show ?thesis using assms
      by (simp add: transfer_sdmmc_byte_def sd_idle_byte_def sd_receive_byte_def startable_def c received_def bindE_assoc
          split_def Let_def list_update_Cons_numeral replicate_numeral)
  qed
qed

lemma command_byte: "cmd \<in> {0, 8, 17, 24, 41, 55} \<Longrightarrow> (0x40 OR cmd) AND 0xc0 = (0x40 :: u32)"
  by auto

lemma send_ok:
  assumes s: "sends send" and cmd: "cmd \<in> {0, 8, 17, 24, 41, 55}"
    and P: "\<And>c. P c \<Longrightarrow> startable c"
    and step: "\<And>c rs ck. P c \<Longrightarrow> \<exists>c1 rs1. process_command (received (six_bytes cmd arg ck) c) rs = Inr (c1, rs1)
      \<and> (\<exists>c2 rs2. drives (await_response emu_mmio MAX_RETRIES) (c1\<lparr>command_length := 0\<rparr>) rs1 r c2 rs2 \<and> Q c2)"
  shows "carries (send cmd arg) P r Q"
proof (rule carriesI)
  fix c rs assume p: "P c"
  obtain ck where ck: "\<And>c rs out c1 rs1 r c2 rs2. sd_run (six_bytes cmd arg ck) c rs = Inr (out, c1, rs1)
      \<Longrightarrow> drives (await_response emu_mmio MAX_RETRIES) c1 rs1 r c2 rs2 \<Longrightarrow> drives (send cmd arg) c rs r c2 rs2"
    using s cmd unfolding sends_def by metis
  obtain c1 rs1 c2 rs2 where c1: "process_command (received (six_bytes cmd arg ck) c) rs = Inr (c1, rs1)"
      "drives (await_response emu_mmio MAX_RETRIES) (c1\<lparr>command_length := 0\<rparr>) rs1 r c2 rs2" "Q c2"
    using step [OF p] by metis
  have "sd_run (six_bytes cmd arg ck) c rs = Inr (replicate 6 0xff, c1\<lparr>command_length := 0\<rparr>, rs1)"
    using c1(1) run_six [OF P [OF p] command_byte [OF cmd]] unfolding six_bytes_def by simp
  then show "\<exists>c' rs'. drives (send cmd arg) c rs r c' rs' \<and> Q c'" using ck c1(2,3) by blast
qed

lemma sends_kernel: "sends (send_sd_command emu_mmio)"
  unfolding sends_def
proof (intro allI impI exI [of _ "0x95"])
  fix cmd arg c rs out c1 rs1 r c2 rs2
  assume cmd: "cmd \<in> {0, 8, 17, 24, 41, 55}" and run: "sd_run (six_bytes cmd arg 0x95) c rs = Inr (out, c1, rs1)"
    and w: "drives (await_response emu_mmio MAX_RETRIES) c1 rs1 r c2 rs2"
  have "map (\<lambda>v. v AND 0xff) (six_bytes cmd arg 0x95) = six_bytes cmd arg 0x95"
    using cmd by (auto simp: six_bytes_def arg_byte_def)
  then have "drives (spi_transfers emu_mmio (six_bytes cmd arg 0x95)) c rs out c1 rs1" using run by (intro drives_transfers) simp
  from drives_bind [OF this] show "drives (send_sd_command emu_mmio cmd arg) c rs r c2 rs2"
    using w by (simp add: send_sd_command_def six_bytes_def arg_byte_def)
qed

lemma sends_os: "sends (os_send_sd_command emu_mmio)"
  unfolding sends_def
proof (intro allI impI)
  fix cmd arg :: u32
  assume cmd: "cmd \<in> {0, 8, 17, 24, 41, 55}"
  obtain crc where crc: "crc7 0 (command_encoding cmd arg) = Inr crc"
    using crc7_from [of 0 "command_encoding cmd arg"] by simp
  let ?bs = "map ucast (command_encoding cmd arg) @ [push_bit 1 crc OR 1]"
  have m: "(0xff :: u32) = mask 8" by (simp add: mask_eq_exp_minus_1)
  have "ucast (ucast (x AND 0xff :: u32) :: u8) AND 0xff = x AND 0xff" for x :: u32
    unfolding m by (rule bit_word_eqI) (auto simp: bit_simps)
  then have bytes: "map (\<lambda>v. v AND 0xff) ?bs = six_bytes cmd arg ((push_bit 1 crc OR 1) AND 0xff)"
    using cmd by (auto simp: six_bytes_def arg_byte_def command_encoding_def)
  show "\<exists>ck. \<forall>c rs out c1 rs1 r c2 rs2. sd_run (six_bytes cmd arg ck) c rs = Inr (out, c1, rs1)
      \<longrightarrow> drives (await_response emu_mmio MAX_RETRIES) c1 rs1 r c2 rs2 \<longrightarrow> drives (os_send_sd_command emu_mmio cmd arg) c rs r c2 rs2"
  proof (intro exI allI impI)
    fix c rs out c1 rs1 r c2 rs2
    assume run: "sd_run (six_bytes cmd arg ((push_bit 1 crc OR 1) AND 0xff)) c rs = Inr (out, c1, rs1)"
      and w: "drives (await_response emu_mmio MAX_RETRIES) c1 rs1 r c2 rs2"
    have "drives (spi_transfers emu_mmio ?bs) c rs out c1 rs1" using run bytes by (intro drives_transfers) simp
    moreover have "os_send_sd_command emu_mmio cmd arg = bindIO (spi_transfers emu_mmio ?bs) (\<lambda>_. await_response emu_mmio MAX_RETRIES)"
      by (rule ext) (simp add: os_send_sd_command_def crc)
    ultimately show "drives (os_send_sd_command emu_mmio cmd arg) c rs r c2 rs2" 
      using drives_bind [where f = "\<lambda>_. await_response emu_mmio MAX_RETRIES"] w by simp
  qed
qed

text \<open>
  A card that is selected and waits for a command, over the file \<open>f\<close>, before (\<open>idle\<close>) or after the
  initialisation sequence.
\<close>

definition card_base :: "u8 list \<Rightarrow> sd_card \<Rightarrow> bool" where
  "card_base f c \<longleftrightarrow> length (sd_command c) = 6 \<and> chip_select c = 0 \<and> block_file c = Some f \<and> block_length c = 512
     \<and> length (block_buffer c) = 512"

definition card_idle :: "u8 list \<Rightarrow> bool \<Rightarrow> bool \<Rightarrow> sd_card \<Rightarrow> bool" where
  "card_idle f idle app c \<longleftrightarrow> card_base f c \<and> current_state c = STATE_IDLE \<and> in_idle_state c = idle \<and> is_app_cmd c = app"

definition card_off :: "u8 list \<Rightarrow> sd_card \<Rightarrow> bool" where
  "card_off f c \<longleftrightarrow> card_base f c \<and> current_state c = STATE_INIT_WAIT \<and> \<not> init_clock_count c + 8 < 80 \<and> \<not> is_app_cmd c"

text \<open>The answers R3 and R7 have \<open>n\<close> bytes sent.\<close>

definition card_r7 :: "u8 list \<Rightarrow> u32 \<Rightarrow> sd_card \<Rightarrow> bool" where
  "card_r7 f n c \<longleftrightarrow> card_base f c \<and> current_state c = STATE_SEND_R7 \<and> transfer_count c = n \<and> in_idle_state c
     \<and> \<not> is_app_cmd c \<and> voltage c = 1 \<and> check_pattern c = 0x5a"

definition card_r3 :: "u8 list \<Rightarrow> u32 \<Rightarrow> sd_card \<Rightarrow> bool" where
  "card_r3 f n c \<longleftrightarrow> card_base f c \<and> current_state c = STATE_SEND_R3 \<and> transfer_count c = n \<and> \<not> in_idle_state c \<and> \<not> is_app_cmd c"

lemma card_startable: "card_off f c \<Longrightarrow> startable c" "card_idle f i a c \<Longrightarrow> startable c"
  by (auto simp: card_off_def card_idle_def card_base_def startable_def)

lemma card_base_updates [simp]:
  "card_base f (c\<lparr>current_state := st\<rparr>) = card_base f c" "card_base f (c\<lparr>command_length := n\<rparr>) = card_base f c"
  "card_base f (c\<lparr>transfer_count := n\<rparr>) = card_base f c" "card_base f (c\<lparr>in_idle_state := i\<rparr>) = card_base f c"
  "card_base f (c\<lparr>is_app_cmd := i\<rparr>) = card_base f c" "card_base f (c\<lparr>state_delay := n\<rparr>) = card_base f c"
  "card_base f (c\<lparr>voltage := v\<rparr>) = card_base f c" "card_base f (c\<lparr>check_pattern := v\<rparr>) = card_base f c"
  "card_base f (c\<lparr>transfer_address := n\<rparr>) = card_base f c"
  "card_base f c \<Longrightarrow> card_base f (received (six_bytes cmd arg ck) c)"
  by (simp_all add: card_base_def received_def six_bytes_def)

text \<open>A command that is answered by the next byte.\<close>

lemma send_answered:
  assumes "sends send" "cmd \<in> {0, 8, 17, 24, 41, 55}" "\<And>c. P c \<Longrightarrow> startable c" "r \<noteq> 0xff"
    and step: "\<And>c rs ck. P c \<Longrightarrow> \<exists>c1 c2. process_command (received (six_bytes cmd arg ck) c) rs = Inr (c1, rs)
      \<and> transfer_sdmmc_byte 0xff (c1\<lparr>command_length := 0\<rparr>) rs = Inr (r, c2, rs) \<and> Q c2"
  shows "carries (send cmd arg) P r Q"
  using assms(1-3)
proof (rule send_ok)
  fix c rs ck assume "P c"
  then show "\<exists>c1 rs1. process_command (received (six_bytes cmd arg ck) c) rs = Inr (c1, rs1)
      \<and> (\<exists>c2 rs2. drives (await_response emu_mmio MAX_RETRIES) (c1\<lparr>command_length := 0\<rparr>) rs1 r c2 rs2 \<and> Q c2)"
    using step drives_await_now assms(4) by meson
qed

lemma command_go_idle: "sends send \<Longrightarrow> carries (send 0 arg) (card_off f) 1 (card_idle f True False)"
  by (rule send_answered)
    (auto simp: process_command_def transfer_sdmmc_byte_def card_idle_def card_off_def card_startable,
      auto simp: card_base_def received_def six_bytes_def)

lemma command_if_cond: "sends send \<Longrightarrow> carries (send 8 0x15a) (card_idle f True False) 1 (card_r7 f 1)"
  by (rule send_answered)
    (auto simp: process_command_def transfer_sdmmc_byte_def card_idle_def card_r7_def card_startable arg_byte_def,
      auto simp: card_base_def received_def six_bytes_def arg_byte_def)

lemma command_app: "sends send \<Longrightarrow> carries (send 55 arg) (card_idle f True False) 1 (card_idle f True True)"
  by (rule send_answered)
    (auto simp: process_command_def transfer_sdmmc_byte_def card_idle_def card_startable,
      auto simp: card_base_def received_def six_bytes_def)

lemma command_op_cond: "sends send \<Longrightarrow> carries (send 41 arg) (card_idle f True True) 0 (card_r3 f 1)"
  by (rule send_answered)
    (auto simp: process_command_def transfer_sdmmc_byte_def card_idle_def card_r3_def card_startable,
      auto simp: card_base_def received_def six_bytes_def)

lemma carries_transfers:
  assumes "\<And>c rs. P c \<Longrightarrow> \<exists>c'. sd_run (map (\<lambda>v. v AND 0xff) vs) c rs = Inr (out, c', rs) \<and> Q c'"
  shows "carries (spi_transfers emu_mmio vs) P out Q"
  using assms drives_transfers by (intro carriesI) meson

lemma carries_transfer:
  assumes "\<And>c rs. P c \<Longrightarrow> \<exists>c'. transfer_sdmmc_byte (v AND 0xff) c rs = Inr (r, c', rs) \<and> Q c'"
  shows "carries (spi_transfer emu_mmio v) P r Q"
  using assms drives_transfer by (intro carriesI) meson

lemma answer_r7: "carries (spi_transfers emu_mmio [0xff, 0xff]) (card_r7 f 1) [0, 0] (card_r7 f 3)"
  "carries (spi_transfer emu_mmio 0xff) (card_r7 f 3) 1 (card_r7 f 4)"
  "carries (spi_transfer emu_mmio 0xff) (card_r7 f 4) 0x5a (card_idle f True False)"
  by (rule carries_transfers carries_transfer; simp add: transfer_sdmmc_byte_def card_r7_def card_idle_def)+

lemma answer_r3: "carries (spi_transfers emu_mmio (replicate 5 0xff)) (card_r3 f 1) [0, 0, 0, 0, 0xff] (card_idle f False False)"
  by (rule carries_transfers) (simp add: transfer_sdmmc_byte_def card_r3_def card_idle_def sd_idle_byte_def replicate_numeral)

text \<open>A card after power-on with a file, and the clocks before the first command.\<close>

definition card_new :: "u8 list \<Rightarrow> sd_card \<Rightarrow> bool" where
  "card_new f c \<longleftrightarrow> card_base f (c\<lparr>chip_select := 0\<rparr>) \<and> current_state c = STATE_INIT_WAIT \<and> init_clock_count c = 0 \<and> \<not> is_app_cmd c"

lemma init_clocks:
  "carries (set_cs emu_mmio 1) (card_new f) () (\<lambda>c. card_new f c \<and> chip_select c = 1)"
  "carries (spi_transfers emu_mmio (replicate 10 0xff)) (\<lambda>c. card_new f c \<and> chip_select c = 1)
     (replicate 10 0xff) (\<lambda>c. card_off f (c\<lparr>chip_select := 0\<rparr>))"
  "carries (set_cs emu_mmio 0) (\<lambda>c. card_off f (c\<lparr>chip_select := 0\<rparr>)) () (card_off f)"
proof -
  show "carries (set_cs emu_mmio 1) (card_new f) () (\<lambda>c. card_new f c \<and> chip_select c = 1)"
    by (rule carriesI) (auto intro!: exI drives_set_cs simp: set_sdmmc_cs_def card_new_def card_base_def)
  show "carries (set_cs emu_mmio 0) (\<lambda>c. card_off f (c\<lparr>chip_select := 0\<rparr>)) () (card_off f)"
    by (rule carriesI) (auto intro!: exI drives_set_cs simp: set_sdmmc_cs_def)
  show "carries (spi_transfers emu_mmio (replicate 10 0xff)) (\<lambda>c. card_new f c \<and> chip_select c = 1)
     (replicate 10 0xff) (\<lambda>c. card_off f (c\<lparr>chip_select := 0\<rparr>))"
    by (rule carries_transfers)
      (simp add: transfer_sdmmc_byte_def sd_idle_byte_def replicate_numeral card_new_def card_off_def card_base_def)
qed

lemma poll_ready_ok:
  assumes "sends send"
  shows "carries (poll_ready emu_mmio send op n) (card_idle f True False) True (card_idle f False False)"
  by (subst poll_ready.simps, rule carries_bind [OF command_app [OF assms]], simp,
      rule carries_bind [OF command_op_cond [OF assms]],
      rule carries_bind [OF answer_r3], simp add: carries_return)

lemma init_card_ok:
  assumes "sends send"
  shows "carries (init_card emu_mmio send op) (card_new f) 0 (card_idle f False False)"
  unfolding init_card_def
  by (rule carries_bind [OF carries_set_clock], rule carries_bind [OF init_clocks(1)], rule carries_bind [OF init_clocks(2)],
      rule carries_bind [OF init_clocks(3)], rule carries_bind [OF command_go_idle [OF assms]], simp,
      rule carries_bind [OF command_if_cond [OF assms]], simp, rule carries_bind [OF answer_r7(1)],
      rule carries_bind [OF answer_r7(2)], simp, rule carries_bind [OF answer_r7(3)], simp,
      rule carries_bind [OF poll_ready_ok [OF assms]], simp, rule carries_bind [OF carries_set_clock], rule carries_return)

subsection \<open>Reading a block\<close>

definition card_reading :: "u8 list \<Rightarrow> u8 list \<Rightarrow> sd_state \<Rightarrow> sd_card \<Rightarrow> bool" where
  "card_reading f data st c \<longleftrightarrow> card_base f c \<and> current_state c = st \<and> block_buffer c = data \<and> transfer_count c = 0
     \<and> unat (state_delay c) < 16 \<and> \<not> in_idle_state c \<and> \<not> is_app_cmd c"

definition file_block :: "u8 list \<Rightarrow> nat \<Rightarrow> u8 list" where
  "file_block f n = take BLOCK_SIZE (drop (n * BLOCK_SIZE) f)"

lemma read_little_endian_six:
  "read_little_endian (drop 1 (map ucast (six_bytes cmd arg ck))) = arg"
  using read_little_endian_bytes [of arg "ucast ck"] by (simp add: six_bytes_def)

lemma command_read:
  assumes s: "sends send" and inside: "(unat blk + 1) * 512 \<le> length f" "unat blk * 512 < 4294967296"
  shows "carries (send 17 blk) (card_idle f False False) 0 (card_reading f (file_block f (unat blk)) STATE_READ_DATA_TOKEN)"
  using s
proof (rule send_ok)
  fix c rs ck assume c: "card_idle f False False c"
  let ?c = "received (six_bytes 17 blk ck) c"
  obtain d rs1 where d: "random_delay rs = (d, rs1)" by (cases "random_delay rs") auto
  have addr: "unat (blk * 512) = unat blk * 512" using inside(2) by (simp add: unat_word_ariths)
  define c1 where "c1 = ?c\<lparr>transfer_address := blk * 512, block_buffer := file_block f (unat blk), transfer_count := 0,
    current_state := STATE_READ_CMD_RESPONSE, state_delay := d\<rparr>"
  have len: "length (file_block f (unat blk)) = 512" using inside(1) by (simp add: file_block_def)
  have cb: "sd_command ?c = map ucast (six_bytes 17 blk ck)" "sd_command ?c ! 0 AND 0x3f = 17" "\<not> is_app_cmd ?c" "\<not> in_idle_state ?c"
      "block_length ?c = 512" "block_file ?c = Some f"
    using c by (auto simp: received_def six_bytes_def card_idle_def card_base_def)
  have run: "process_command ?c rs = Inr (c1, rs1)"
  proof -
    have "process_command ?c rs = cmd_read_single_block ?c rs" using cb(2,3) by (simp add: process_command_def)
    then show ?thesis
      using len unfolding cmd_read_single_block_def Let_def cb(1) read_little_endian_six cb(5,6)
      by (simp add: cb(4) d addr c1_def file_block_def)
  qed
  have st: "current_state (c1\<lparr>command_length := 0\<rparr>) = STATE_READ_CMD_RESPONSE \<and> STATE_READ_DATA_TOKEN = STATE_READ_DATA_TOKEN
      \<or> current_state (c1\<lparr>command_length := 0\<rparr>) = STATE_WRITE_CMD_RESPONSE \<and> STATE_READ_DATA_TOKEN = STATE_WRITE_DATA_TOKEN"
    by (simp add: c1_def)
  have del: "unat (state_delay (c1\<lparr>command_length := 0\<rparr>)) \<le> MAX_RETRIES"
    using random_delay_bound [of rs] d by (simp add: c1_def)
  have "card_reading f (file_block f (unat blk)) STATE_READ_DATA_TOKEN
      ((c1\<lparr>command_length := 0\<rparr>)\<lparr>current_state := STATE_READ_DATA_TOKEN, state_delay := fst (random_delay rs1)\<rparr>)"
    using c len random_delay_bound [of rs1]
    by (simp add: card_reading_def card_base_def c1_def card_idle_def received_def six_bytes_def)
  then show "\<exists>c1 rs1. process_command ?c rs = Inr (c1, rs1)
      \<and> (\<exists>c2 rs2. drives (await_response emu_mmio MAX_RETRIES) (c1\<lparr>command_length := 0\<rparr>) rs1 0 c2 rs2
          \<and> card_reading f (file_block f (unat blk)) STATE_READ_DATA_TOKEN c2)"
    using run drives_await_read [OF st del] by blast
qed (auto simp: card_startable)

lemma token_read:
  "carries (await_token emu_mmio 10000) (card_reading f data STATE_READ_DATA_TOKEN) True (card_reading f data STATE_READ_TRANSFER)"
proof (rule carriesI)
  fix c rs assume c: "card_reading f data STATE_READ_DATA_TOKEN c"
  then have "drives (await_token emu_mmio 10000) c rs True (c\<lparr>current_state := STATE_READ_TRANSFER, state_delay := 0\<rparr>) rs"
    by (intro drives_await_token) (auto simp: card_reading_def)
  moreover have "card_reading f data STATE_READ_TRANSFER (c\<lparr>current_state := STATE_READ_TRANSFER, state_delay := 0\<rparr>)"
    using c by (simp add: card_reading_def)
  ultimately show "\<exists>c' rs'. drives (await_token emu_mmio 10000) c rs True c' rs' \<and> card_reading f data STATE_READ_TRANSFER c'"
    by blast
qed

lemma data_read:
  "carries (spi_transfers emu_mmio (replicate BLOCK_SIZE 0xff)) (card_reading f data STATE_READ_TRANSFER) (map scast data)
     (\<lambda>c. card_reading f data STATE_READ_TRANSFER (c\<lparr>transfer_count := 0\<rparr>) \<and> transfer_count c = 512)"
proof (rule carries_transfers)
  fix c rs assume c: "card_reading f data STATE_READ_TRANSFER c"
  then have "current_state c = STATE_READ_TRANSFER" "length (block_buffer c) = unat (block_length c)"
      "unat (transfer_count c) + BLOCK_SIZE = unat (block_length c)" "transfer_count c = 0" "block_buffer c = data" "block_length c = 512"
    by (auto simp: card_reading_def card_base_def)
  from run_read_data [OF this(1-3), of rs] this(4-6)
  have "sd_run (replicate BLOCK_SIZE 0xff) c rs = Inr (map scast data, c\<lparr>transfer_count := 512\<rparr>, rs)" by simp
  then show "\<exists>c'. sd_run (map (\<lambda>v. v AND 0xff) (replicate BLOCK_SIZE 0xff)) c rs = Inr (map scast data, c', rs)
      \<and> card_reading f data STATE_READ_TRANSFER (c'\<lparr>transfer_count := 0\<rparr>) \<and> transfer_count c' = 512"
    using c by (simp add: map_replicate card_reading_def del: replicate.simps)
qed

lemma trailer_read:
  "carries (spi_transfers emu_mmio [0xff, 0xff])
     (\<lambda>c. card_reading f data STATE_READ_TRANSFER (c\<lparr>transfer_count := 0\<rparr>) \<and> transfer_count c = 512) [0xff, 0xff] (card_idle f False False)"
proof (rule carries_transfers)
  fix c rs assume c: "card_reading f data STATE_READ_TRANSFER (c\<lparr>transfer_count := 0\<rparr>) \<and> transfer_count c = 512"
  then have "sd_run [0xff, 0xff] c rs = Inr ([0xff, 0xff], c\<lparr>transfer_count := 514, current_state := STATE_IDLE\<rparr>, rs)"
    using run_read_trailer [of c rs] by (simp add: card_reading_def card_base_def)
  then show "\<exists>c'. sd_run (map (\<lambda>v. v AND 0xff) [0xff, 0xff]) c rs = Inr ([0xff, 0xff], c', rs) \<and> card_idle f False False c'"
    using c by (simp add: card_reading_def card_idle_def)
qed

lemma ucast_scast_byte: "ucast (scast (b :: u8) :: u32) = b"
  by (rule bit_word_eqI) (auto simp: bit_simps)

lemma read_card_ok:
  assumes "sends send" "(unat blk + 1) * 512 \<le> length f" "unat blk * 512 < 4294967296"
  shows "carries (read_card emu_mmio send blk) (card_idle f False False) (512, file_block f (unat blk)) (card_idle f False False)"
proof -
  have "map (ucast :: u32 \<Rightarrow> u8) (map scast (file_block f (unat blk))) = file_block f (unat blk)"
    by (simp add: comp_def ucast_scast_byte)
  then show ?thesis
    unfolding read_card_def
    by (intro carries_bind [OF command_read [OF assms]], simp del: replicate.simps)
      (rule carries_bind [OF token_read], simp del: replicate.simps, rule carries_bind [OF data_read],
        rule carries_bind [OF trailer_read], simp add: carries_return)
qed

subsection \<open>Writing a block\<close>

definition card_writing :: "u8 list \<Rightarrow> u32 \<Rightarrow> sd_state \<Rightarrow> u32 \<Rightarrow> sd_card \<Rightarrow> bool" where
  "card_writing f addr st n c \<longleftrightarrow> card_base f c \<and> current_state c = st \<and> transfer_address c = addr \<and> transfer_count c = n
     \<and> \<not> in_idle_state c \<and> \<not> is_app_cmd c"

lemma command_write:
  assumes s: "sends send"
  shows "carries (send 24 blk) (card_idle f False False) 0 (card_writing f (blk * 512) STATE_WRITE_DATA_TOKEN 0)"
  using s
proof (rule send_ok)
  fix c rs ck assume c: "card_idle f False False c"
  let ?c = "received (six_bytes 24 blk ck) c"
  obtain d rs1 where d: "random_delay rs = (d, rs1)" by (cases "random_delay rs") auto
  define c1 where "c1 = ?c\<lparr>transfer_address := blk * 512, transfer_count := 0, current_state := STATE_WRITE_CMD_RESPONSE, state_delay := d\<rparr>"
  have cb: "sd_command ?c = map ucast (six_bytes 24 blk ck)" "sd_command ?c ! 0 AND 0x3f = 24" "\<not> is_app_cmd ?c" "\<not> in_idle_state ?c"
      "block_length ?c = 512"
    using c by (auto simp: received_def six_bytes_def card_idle_def card_base_def)
  have run: "process_command ?c rs = Inr (c1, rs1)"
  proof -
    have "process_command ?c rs = cmd_write_single_block ?c rs" using cb(2,3) by (simp add: process_command_def)
    then show ?thesis
      unfolding cmd_write_single_block_def Let_def cb(1) read_little_endian_six cb(5) by (simp add: cb(4) d c1_def)
  qed
  have st: "current_state (c1\<lparr>command_length := 0\<rparr>) = STATE_READ_CMD_RESPONSE \<and> STATE_WRITE_DATA_TOKEN = STATE_READ_DATA_TOKEN
      \<or> current_state (c1\<lparr>command_length := 0\<rparr>) = STATE_WRITE_CMD_RESPONSE \<and> STATE_WRITE_DATA_TOKEN = STATE_WRITE_DATA_TOKEN"
    by (simp add: c1_def)
  have del: "unat (state_delay (c1\<lparr>command_length := 0\<rparr>)) \<le> MAX_RETRIES"
    using random_delay_bound [of rs] d by (simp add: c1_def)
  have "card_writing f (blk * 512) STATE_WRITE_DATA_TOKEN 0
      ((c1\<lparr>command_length := 0\<rparr>)\<lparr>current_state := STATE_WRITE_DATA_TOKEN, state_delay := fst (random_delay rs1)\<rparr>)"
    using c by (simp add: card_writing_def card_base_def c1_def card_idle_def received_def six_bytes_def)
  then show "\<exists>c1 rs1. process_command ?c rs = Inr (c1, rs1)
      \<and> (\<exists>c2 rs2. drives (await_response emu_mmio MAX_RETRIES) (c1\<lparr>command_length := 0\<rparr>) rs1 0 c2 rs2
          \<and> card_writing f (blk * 512) STATE_WRITE_DATA_TOKEN 0 c2)"
    using run drives_await_read [OF st del] by blast
qed (auto simp: card_startable)

lemma token_write: "carries (spi_transfer emu_mmio DATA_TOKEN) (card_writing f a STATE_WRITE_DATA_TOKEN 0) 0xff (card_writing f a STATE_WRITE_TRANSFER 0)"
  by (rule carries_transfer) (simp add: transfer_sdmmc_byte_def card_writing_def)

lemma data_write:
  assumes len: "length data = 512"
  shows "carries (spi_transfers emu_mmio (map scast data)) (card_writing f a STATE_WRITE_TRANSFER 0) (replicate 512 0xff)
    (\<lambda>c. card_writing f a STATE_WRITE_TRANSFER 512 c \<and> block_buffer c = data)"
proof (rule carries_transfers)
  fix c rs assume c: "card_writing f a STATE_WRITE_TRANSFER 0 c"
  have m: "(0xff :: u32) = mask 8" by (simp add: mask_eq_exp_minus_1)
  have "scast b AND 0xff = (ucast b :: u32)" for b :: u8
  proof (rule bit_word_eqI)
    fix n assume "n < LENGTH(32)"
    moreover have "n < 8" if "bit b n" using that by (auto dest: bit_imp_le_length)
    moreover have "min 7 n = n" if "n < 8" using that by simp
    ultimately show "bit (scast b AND 0xff :: u32) n = bit (ucast b :: u32) n"
      unfolding m by (auto simp: bit_simps)
  qed
  then have bytes: "map (\<lambda>v. v AND 0xff) (map scast data) = (map ucast data :: u32 list)" by simp
  have "current_state c = STATE_WRITE_TRANSFER" "length (block_buffer c) = unat (block_length c)"
      "unat (transfer_count c) + length data = unat (block_length c)" "transfer_count c = 0" "block_length c = 512"
    using c len by (auto simp: card_writing_def card_base_def)
  from run_write_data [OF this(1-3), of rs] this(4,5)
  have "sd_run (map ucast data) c rs = Inr (replicate 512 0xff, c\<lparr>transfer_count := 512, block_buffer := data\<rparr>, rs)"
    using len by (simp del: replicate.simps)
  then show "\<exists>c'. sd_run (map (\<lambda>v. v AND 0xff) (map scast data)) c rs = Inr (replicate 512 0xff, c', rs)
      \<and> card_writing f a STATE_WRITE_TRANSFER 512 c' \<and> block_buffer c' = data"
    unfolding bytes using c len by (simp add: card_writing_def card_base_def del: replicate.simps)
qed

lemma trailer_write:
  "carries (spi_transfers emu_mmio [0xff, 0xff]) (\<lambda>c. card_writing f a STATE_WRITE_TRANSFER 512 c \<and> block_buffer c = data)
     [0xff, 0xff] (\<lambda>c. card_writing f a STATE_WRITE_DATA_RESPONSE 514 c \<and> block_buffer c = data)"
  by (rule carries_transfers)
    (auto simp: transfer_sdmmc_byte_def sd_write_transfer_def card_writing_def card_base_def)

lemma response_write:
  "carries (spi_transfer emu_mmio 0xff) (\<lambda>c. card_writing f a STATE_WRITE_DATA_RESPONSE 514 c \<and> block_buffer c = data)
     5 (card_idle (file_write (unat a) data f) False False)"
  by (rule carries_transfer)
    (auto simp: transfer_sdmmc_byte_def sd_write_response_def card_writing_def card_base_def card_idle_def)

lemma write_sdmmc_device_ok:
  assumes "length data = 512"
  shows "carries (write_sdmmc_device emu_mmio blk data) (card_idle f False False) 512 (card_idle (file_write (unat (blk * 512)) data f) False False)"
proof -
  have d: "take BLOCK_SIZE data = data" using assms by simp
  show ?thesis
    unfolding write_sdmmc_device_def d
    by (rule carries_bind [OF command_write [OF sends_os]], simp, rule carries_bind [OF token_write],
        rule carries_bind [OF data_write [OF assms]], rule carries_bind [OF trailer_write], rule carries_bind [OF response_write])
      (simp add: carries_return)
qed

subsection \<open>Termination on any card\<close>

definition returns :: "('d, 'a) io \<Rightarrow> ('a \<Rightarrow> bool) \<Rightarrow> bool" where
  "returns m P \<longleftrightarrow> (\<forall>d. \<exists>x d'. m d = Some (Inr (x, d')) \<and> P x)"

lemma returns_bind: "returns m Q \<Longrightarrow> (\<And>x. Q x \<Longrightarrow> returns (f x) P) \<Longrightarrow> returns (bindIO m f) P"
  unfolding returns_def by (metis bindIO_returns)

lemma returns_return: "P x \<Longrightarrow> returns (returnIO x) P"
  by (simp add: returns_def)

text \<open>A device that accepts every register write and whose transfers finish.\<close>

definition responsive :: "'d mmio \<Rightarrow> bool" where
  "responsive io \<longleftrightarrow> (\<forall>r v d. \<exists>d'. reg_write io r v d = Inr d') \<and> (\<forall>d. fst (reg_read io REG_SD_SPI_STATUS d) AND 1 \<noteq> 0)"

lemma returns_write_reg: "responsive io \<Longrightarrow> returns (write_reg io r v) (\<lambda>_. True)"
  unfolding returns_def write_reg_def responsive_def by (metis bindE_simps(1))

lemma returns_spi_transfer: "responsive io \<Longrightarrow> returns (spi_transfer io v) (\<lambda>_. True)"
proof -
  assume io: "responsive io"
  have "\<exists>d'. wait_transfer io d = Some (Inr ((), d'))" for d
  proof -
    obtain v d' where r: "reg_read io REG_SD_SPI_STATUS d = (v, d')" by force
    then have "v AND 1 \<noteq> 0" using io unfolding responsive_def by (metis fst_conv)
    then show ?thesis by (subst wait_transfer.simps) (simp add: r)
  qed
  then have "returns (wait_transfer io) (\<lambda>_. True)" by (simp add: returns_def)
  then show ?thesis
    unfolding spi_transfer_def
    by (intro returns_bind [OF returns_write_reg [OF io]] returns_bind) (auto simp: returns_def prod_eq_iff)
qed

lemma returns_spi_transfers: "responsive io \<Longrightarrow> returns (spi_transfers io vs) (\<lambda>out. length out = length vs)"
  by (induction vs) (auto simp: spi_transfers.simps intro!: returns_return returns_bind returns_spi_transfer)

lemma returns_await_response: "responsive io \<Longrightarrow> returns (await_response io n) (\<lambda>_. True)"
  by (induction n) (auto intro!: returns_spi_transfer returns_bind [OF returns_spi_transfer] returns_return)

lemma returns_await_token: "responsive io \<Longrightarrow> returns (await_token io n) (\<lambda>_. True)"
  by (induction n) (auto intro!: returns_bind [OF returns_spi_transfer] returns_return)

lemma returns_send: "responsive io \<Longrightarrow> returns (send_sd_command io cmd arg) (\<lambda>_. True)"
  unfolding send_sd_command_def by (intro returns_bind [OF returns_spi_transfers] returns_await_response)

lemma returns_poll_ready: "responsive io \<Longrightarrow> (\<And>cmd arg. returns (send cmd arg) (\<lambda>_. True)) \<Longrightarrow> returns (poll_ready io send op n) (\<lambda>_. True)"
proof (induction n)
  case 0
  then show ?case
    by (subst poll_ready.simps) (auto intro!: returns_bind [OF 0(2)] returns_bind [OF returns_spi_transfers] returns_return)
next
  case (Suc n)
  then show ?case
    by (subst poll_ready.simps) (auto intro!: returns_bind [OF Suc(3)] returns_bind [OF returns_spi_transfers] returns_return)
qed



subsection \<open>The drivers on the emulated card\<close>

primrec read_blocks :: "(u32 \<Rightarrow> ('d, int \<times> u8 list) io) \<Rightarrow> u32 list \<Rightarrow> ('d, (int \<times> u8 list) list) io" where
  "read_blocks rd [] = returnIO []"
| "read_blocks rd (b # bs) = bindIO (rd b) (\<lambda>x. bindIO (read_blocks rd bs) (\<lambda>xs. returnIO (x # xs)))"

lemma read_blocks_ok:
  assumes "sends send" "\<forall>b\<in>set bs. (unat b + 1) * 512 \<le> length f" "length f \<le> 4294967296"
  shows "carries (read_blocks (read_card emu_mmio send) bs) (card_idle f False False) (map (\<lambda>b. (512, file_block f (unat b))) bs) (card_idle f False False)"
  using assms(2)
proof (induction bs)
  case (Cons b bs)
  have "unat b * 512 < 4294967296" using Cons.prems assms(3) by simp
  then have "carries (read_card emu_mmio send b) (card_idle f False False) (512, file_block f (unat b)) (card_idle f False False)"
    using Cons.prems by (intro read_card_ok [OF assms(1)]) auto
  moreover have "carries (bindIO (read_blocks (read_card emu_mmio send) bs) (\<lambda>xs. returnIO ((512, file_block f (unat b)) # xs)))
      (card_idle f False False) (map (\<lambda>b. (512, file_block f (unat b))) (b # bs)) (card_idle f False False)"
    using Cons by (intro carries_bind [OF Cons.IH]) (auto intro: carries_return)
  ultimately show ?case by (auto intro: carries_bind)
qed (simp add: carries_return)

lemma read_blocks_locked:
  "read_blocks (read_card io (send_sd_command io)) bs d = Some (Inr (out, d')) \<Longrightarrow> \<forall>(r, data)\<in>set out. 0 \<le> r
    \<Longrightarrow> read_blocks (read_sd_device io) bs (False, d) = Some (Inr (out, (False, d')))"
proof (induction bs arbitrary: d out)
  case (Cons b bs)
  then obtain r data d1 out' where o: "read_card io (send_sd_command io) b d = Some (Inr ((r, data), d1))"
      "read_blocks (read_card io (send_sd_command io)) bs d1 = Some (Inr (out', d'))" "out = (r, data) # out'"
    by (auto simp: bindIO_def split: option.splits sum.splits)
  then have "read_sd_device io b (False, d) = Some (Inr ((r, data), (False, d1)))" using Cons.prems(2) by (simp add: read_sd_device_def)
  then show ?case using Cons.IH [OF o(2)] Cons.prems(2) o(3) by simp
qed simp

text \<open>A read that fails keeps the lock, and no later read returns.\<close>

lemma failed_read_keeps_lock:
  assumes "read_sd_device io blk (lock, d) = Some (Inr ((r, data), (lock', d')))" "r < 0"
  shows "read_sd_device io blk' (lock', d'') = None"
proof -
  have "lock'" using assms by (auto simp: read_sd_device_def split: if_splits option.splits sum.splits)
  then show ?thesis by (simp add: read_sd_device_def)
qed

lemma carries_at:
  assumes "carries m P x Q" "P (sdmmc (dev s))"
  shows "\<exists>s'. m s = Some (Inr (x, s')) \<and> Q (sdmmc (dev s'))"
  using assms unfolding carries_def drives_def card_at_def by metis

text \<open>
  C20: On the emulated SD card the kernel's driver works end to end: initialisation succeeds, and then
  any sequence of block reads returns the blocks of the image, whatever delays the card chooses.
\<close>

theorem sd_driver_reads_image:
  assumes card: "card_new f (sdmmc (dev s))" and size: "length f \<le> 4294967296"
    and inside: "\<forall>b\<in>set bs. (unat b + 1) * 512 \<le> length f"
  shows "\<exists>s1 s2. init_sd_device emu_mmio s = Some (Inr (0, s1))
    \<and> read_blocks (read_sd_device emu_mmio) bs (False, s1) = Some (Inr (map (\<lambda>b. (512, file_block f (unat b))) bs, (False, s2)))"
proof -
  obtain s1 where s1: "init_sd_device emu_mmio s = Some (Inr (0, s1))" "card_idle f False False (sdmmc (dev s1))"
    using carries_at [OF init_card_ok [OF sends_kernel] card] unfolding init_sd_device_def by blast
  obtain s2 where "read_blocks (read_card emu_mmio (send_sd_command emu_mmio)) bs s1
      = Some (Inr (map (\<lambda>b. (512, file_block f (unat b))) bs, s2))"
    using carries_at [OF read_blocks_ok [OF sends_kernel inside size] s1(2)] by blast
  then show ?thesis using s1(1) read_blocks_locked [where bs = bs] by fastforce
qed

text \<open>A card after power-on in which the emulator has opened the file \<open>f\<close>.\<close>

lemma card_new_open: "card_new f (snd (open_sdmmc_device (Some f) initial_sd_card))"
  by (simp add: card_new_def card_base_def open_sdmmc_device_def initial_sd_card_def)

theorem sd_driver_reads_image_witness:
  "let s = with_card undefined 0 (snd (open_sdmmc_device (Some (replicate 1024 7)) initial_sd_card)) (1, 2)
   in \<exists>s1 s2. init_sd_device emu_mmio s = Some (Inr (0, s1))
     \<and> read_blocks (read_sd_device emu_mmio) [1] (False, s1) = Some (Inr ([(512, replicate 512 7)], (False, s2)))"
proof -
  define s where "s = with_card undefined 0 (snd (open_sdmmc_device (Some (replicate 1024 7)) initial_sd_card)) (1, 2)"
  have "card_new (replicate 1024 7) (sdmmc (dev s))" unfolding s_def by (simp add: card_new_open del: replicate.simps)
  moreover have "file_block (replicate 1024 7) 1 = replicate 512 7" by (simp add: file_block_def del: replicate.simps)
  ultimately show ?thesis
    using sd_driver_reads_image [of "replicate 1024 7" s "[1]"] unfolding Let_def s_def [symmetric]
    by (simp del: replicate.simps)
qed

text \<open>
  C21: On the emulated card, a block that the library's driver has written is read back, and the
  other blocks are unchanged.
\<close>

theorem sdmmc_write_then_read:
  assumes card: "card_new f (sdmmc (dev s))" and size: "length f \<le> 4294967296" "length data = 512"
    and inside: "(unat blk + 1) * 512 \<le> length f" "\<forall>b\<in>set bs. (unat b + 1) * 512 \<le> length f"
  shows "\<exists>s1 s2 s3. init_sdmmc_device emu_mmio s = Some (Inr (0, s1)) \<and> write_sdmmc_device emu_mmio blk data s1 = Some (Inr (512, s2))
    \<and> read_blocks (read_sdmmc_device emu_mmio) bs s2
        = Some (Inr (map (\<lambda>b. (512, if b = blk then data else file_block f (unat b))) bs, s3))"
proof -
  define f' where "f' = file_write (unat (blk * 512)) data f"
  have addr: "unat (blk * 512) = unat blk * 512" using inside(1) size(1) by (simp add: unat_word_ariths)
  have f': "f' = take (unat blk * 512) f @ data @ drop (unat blk * 512 + 512) f"
    using inside(1) size(2) by (simp add: f'_def file_write_def addr)
  have len: "length f' = length f" using inside(1) size(2) by (simp add: f')
  have block: "file_block f' n = (if n = unat blk then data else file_block f n)" if "(n + 1) * 512 \<le> length f" for n
  proof -
    consider "n = unat blk" | "n < unat blk" | "unat blk < n" by linarith
    then show ?thesis
    proof cases
      case 1
      then show ?thesis using inside(1) size(2) by (simp add: file_block_def f')
    next
      case 2
      have "take 512 (drop (n * 512) (take (unat blk * 512) f @ data @ drop (unat blk * 512 + 512) f)) = take 512 (drop (n * 512) f)"
        using 2 inside(1) by (intro nth_equalityI) (auto simp: nth_append)
      then show ?thesis using 2 by (simp add: file_block_def f')
    next
      case 3
      then have "drop (n * 512) (take (unat blk * 512) f @ data @ drop (unat blk * 512 + 512) f) = drop (n * 512) f"
        using inside(1) size(2) by simp
      then show ?thesis using 3 by (simp add: file_block_def f')
    qed
  qed
  obtain s1 where s1: "init_sdmmc_device emu_mmio s = Some (Inr (0, s1))" "card_idle f False False (sdmmc (dev s1))"
    using carries_at [OF init_card_ok [OF sends_os] card] unfolding init_sdmmc_device_def by blast
  obtain s2 where s2: "write_sdmmc_device emu_mmio blk data s1 = Some (Inr (512, s2))" "card_idle f' False False (sdmmc (dev s2))"
    using carries_at [OF write_sdmmc_device_ok [OF size(2)] s1(2)] unfolding f'_def by blast
  have rd: "read_sdmmc_device emu_mmio = read_card emu_mmio (os_send_sd_command emu_mmio)"
    by (rule ext) (simp add: read_sdmmc_device_def)
  have "\<exists>s3. read_blocks (read_sdmmc_device emu_mmio) bs s2 = Some (Inr (map (\<lambda>b. (512, file_block f' (unat b))) bs, s3))"
    unfolding rd using carries_at [OF read_blocks_ok [OF sends_os _ _] s2(2), of bs] inside(2) size(1) len by auto
  moreover have "map (\<lambda>b. (512 :: int, file_block f' (unat b))) bs = map (\<lambda>b. (512, if b = blk then data else file_block f (unat b))) bs"
    using block inside(2) by (auto simp: word_unat_eq_iff)
  ultimately show ?thesis using s1(1) s2(1) by auto
qed

theorem sdmmc_write_then_read_witness:
  "let s = with_card undefined 0 (snd (open_sdmmc_device (Some (replicate 1024 7)) initial_sd_card)) (1, 2)
   in \<exists>s1 s2 s3. init_sdmmc_device emu_mmio s = Some (Inr (0, s1)) \<and> write_sdmmc_device emu_mmio 1 (replicate 512 9) s1 = Some (Inr (512, s2))
     \<and> read_blocks (read_sdmmc_device emu_mmio) [0, 1] s2 = Some (Inr ([(512, replicate 512 7), (512, replicate 512 9)], s3))"
proof -
  define s where "s = with_card undefined 0 (snd (open_sdmmc_device (Some (replicate 1024 7)) initial_sd_card)) (1, 2)"
  have "card_new (replicate 1024 7) (sdmmc (dev s))" unfolding s_def by (simp add: card_new_open del: replicate.simps)
  moreover have "file_block (replicate 1024 7) 0 = replicate 512 7" by (simp add: file_block_def del: replicate.simps)
  ultimately show ?thesis
    using sdmmc_write_then_read [of "replicate 1024 7" s "replicate 512 9" 1 "[0, 1]"] unfolding Let_def s_def [symmetric]
    by (simp del: replicate.simps)
qed

lemma await_fails:
  assumes "sd_run (replicate k 0xff) c rs = Inr (replicate k 0xff, c', rs')" "transfer_sdmmc_byte 0xff c' rs' = Inl e" "k \<le> n"
    "card_at s c rs"
  shows "await_response emu_mmio n s = Some (Inl e)"
  using assms
proof (induction k arbitrary: n c rs s)
  case 0
  then have "spi_transfer emu_mmio 0xff s = Some (Inl e)" by (simp add: spi_transfer_emu card_at_def)
  then show ?case by (cases n) simp_all
next
  case (Suc k)
  then obtain c1 rs1 where c1: "transfer_sdmmc_byte 0xff c rs = Inr (0xff, c1, rs1)" "sd_run (replicate k 0xff) c1 rs1 = Inr (replicate k 0xff, c', rs')"
    by (auto simp: bindE_eq_Inr)
  obtain m where n: "n = Suc m" "k \<le> m" using Suc.prems(3) by (cases n) auto
  obtain s1 where "spi_transfer emu_mmio 0xff s = Some (Inr (0xff, s1))" "card_at s1 c1 rs1"
    using drives_transfer [of "0xff" c rs "0xff" c1 rs1] c1(1) Suc.prems(4) by (auto simp: drives_def)
  then show ?case using Suc.IH [OF c1(2) Suc.prems(2) n(2)] n(1) by simp
qed

text \<open>
  When the emulator has no block device, the driver does not report a failure, so the kernel
  never falls back to its ramdisk: the card takes the bytes that the driver sends while it waits for
  an answer as a command, and the emulator exits.
\<close>

theorem missing_card_ends_emulator:
  assumes card: "sdmmc (dev s) = initial_sd_card"
  shows "init_sd_device emu_mmio s = Some (Inl Exit_called)"
proof -
  let ?on = "initial_sd_card\<lparr>chip_select := 1\<rparr>" and ?off = "initial_sd_card\<lparr>init_clock_count := 80\<rparr>"
  have at: "card_at s initial_sd_card (rng s)" using card by (simp add: card_at_def)
  have cs1: "drives (set_cs emu_mmio 1) initial_sd_card (rng s) () ?on (rng s)"
    using drives_set_cs [of 1 initial_sd_card "rng s"] by (simp add: set_sdmmc_cs_def)
  have clocks: "drives (spi_transfers emu_mmio (replicate 10 0xff)) ?on (rng s) (replicate 10 0xff) (?on\<lparr>init_clock_count := 80\<rparr>) (rng s)"
    by (rule drives_transfers) (simp add: transfer_sdmmc_byte_def sd_idle_byte_def replicate_numeral initial_sd_card_def)
  have cs0: "drives (set_cs emu_mmio 0) (?on\<lparr>init_clock_count := 80\<rparr>) (rng s) () ?off (rng s)"
    using drives_set_cs [of 0 "?on\<lparr>init_clock_count := 80\<rparr>" "rng s"] by (simp add: set_sdmmc_cs_def initial_sd_card_def)
  obtain s1 where s1: "set_cs emu_mmio 1 s = Some (Inr ((), s1))" "card_at s1 ?on (rng s)" using cs1 at by (auto simp: drives_def)
  obtain s2 where s2: "spi_transfers emu_mmio (replicate 10 0xff) s1 = Some (Inr (replicate 10 0xff, s2))"
      "card_at s2 (?on\<lparr>init_clock_count := 80\<rparr>) (rng s)" using clocks s1(2) unfolding drives_def by blast
  obtain s3 where s3: "set_cs emu_mmio 0 s2 = Some (Inr ((), s3))" "card_at s3 ?off (rng s)" using cs0 s2(2) unfolding drives_def by blast
  let ?cmd = "[0x40, 0, 0, 0, 0, 0x95] :: u32 list"
  define c where "c = (received ?cmd ?off)\<lparr>command_length := 0\<rparr>"
  have "startable ?off" by (simp add: startable_def initial_sd_card_def)
  then have "sd_run ?cmd ?off (rng s) = Inr (replicate 6 0xff, c, rng s)"
    by (subst run_six) (simp_all add: process_command_def received_def initial_sd_card_def c_def)
  then have "drives (spi_transfers emu_mmio ?cmd) ?off (rng s) (replicate 6 0xff) c (rng s)" by (intro drives_transfers) simp
  then obtain s4 where s4: "spi_transfers emu_mmio ?cmd s3 = Some (Inr (replicate 6 0xff, s4))" "card_at s4 c (rng s)"
    using s3(2) unfolding drives_def by blast
  have run: "sd_run (replicate 5 0xff) c (rng s) = Inr (replicate 5 0xff, c\<lparr>sd_command := [0xff, 0xff, 0xff, 0xff, 0xff, 0x95], command_length := 5\<rparr>, rng s)"
    by (simp add: replicate_numeral transfer_sdmmc_byte_def sd_receive_byte_def c_def received_def initial_sd_card_def Let_def
        list_update_Cons_numeral)
  have stop: "transfer_sdmmc_byte 0xff (c\<lparr>sd_command := [0xff, 0xff, 0xff, 0xff, 0xff, 0x95], command_length := 5\<rparr>) (rng s) = Inl Exit_called"
    by (simp add: transfer_sdmmc_byte_def sd_receive_byte_def c_def received_def initial_sd_card_def Let_def
        list_update_Cons_numeral process_command_def)
  have "await_response emu_mmio MAX_RETRIES s4 = Some (Inl Exit_called)" using await_fails [OF run stop _ s4(2)] by simp
  then have "send_sd_command emu_mmio 0 0 s3 = Some (Inl Exit_called)"
    using s4(1) by (simp add: send_sd_command_def del: await_response.simps)
  then show ?thesis using s1(1) s2(1) s3(1) by (simp add: init_sd_device_def init_card_def del: replicate.simps)
qed

theorem missing_card_ends_emulator_witness:
  "init_sd_device emu_mmio (with_card undefined 0 initial_sd_card (1, 2)) = Some (Inl Exit_called)"
  by (rule missing_card_ends_emulator) simp

end
