(* ===== verification/Fs_Block.thy ===== *)
theory Fs_Block
  imports Nyuzi_IO Emu_Bytes
begin

text \<open>
  The parts of a file system reader that the kernel (\<open>software/kernel/fs.c\<close>) and the operating system
  library (\<open>software/libs/libos/bare-metal/fs.c\<close>) share, over a function that reads a block, and what
  they return on a device that holds an image (locale \<open>block_device\<close>). The format of an image is
  written by \<open>tools/mkfs\<close>: a header of magic value, number of entries and entries of 40 bytes (start,
  length and a name of 32 bytes), and files that start at block boundaries.
\<close>

definition FS_MAGIC :: "u8 list" where
  "FS_MAGIC = map (of_nat \<circ> of_char) ''spfs''"

abbreviation bytes32 :: "u8 list \<Rightarrow> nat \<Rightarrow> u32" where
  "bytes32 bs i \<equiv> get32 (\<lambda>k. bs ! k) i"

text \<open>
  \<open>strcmp\<close> on the bytes that follow the two pointers in memory; it reads out of bounds when the
  memory of an argument ends before the comparison does.
\<close>

fun strcmp :: "u8 list \<Rightarrow> u8 list \<Rightarrow> int cres" where
  "strcmp (c1 # str1) (c2 # str2) =
     (if c1 \<noteq> 0 \<and> c1 = c2 then strcmp str1 str2 else Inr (sint c1 - sint c2))"
| "strcmp str1 str2 = Inl Out_of_bounds"

text \<open>The number of blocks of a directory, computed in 32 bits.\<close>

definition num_directory_blocks :: "u32 \<Rightarrow> nat" where
  "num_directory_blocks entries = unat (((entries - 1) * 40 + 48 + 512 - 1) div 512)"

text \<open>The blocks of the directory after the first one; \<open>None\<close> when a read fails.\<close>

primrec load_blocks :: "(u32 \<Rightarrow> ('s, int \<times> u8 list) io) \<Rightarrow> nat list \<Rightarrow> ('s, u8 list option) io" where
  "load_blocks rd [] = returnIO (Some [])"
| "load_blocks rd (b # bs) = bindIO (rd (of_nat b)) (\<lambda>(r, data).
     if r \<le> 0 then returnIO None
     else bindIO (load_blocks rd bs) (\<lambda>rest. returnIO (map_option (\<lambda>ds. data @ ds) rest)))"

text \<open>The search of the directory for a name, over the indices that are left.\<close>

primrec find_entry :: "u8 list \<Rightarrow> u8 list \<Rightarrow> nat list \<Rightarrow> nat option cres" where
  "find_entry dir path [] = Inr None"
| "find_entry dir path (i # is) =
     bindE (strcmp (drop (8 + 40 * i + 8) dir) (path @ [0])) (\<lambda>r. if r = 0 then Inr (Some i) else find_entry dir path is)"

abbreviation entry_start :: "u8 list \<Rightarrow> nat \<Rightarrow> u32" where
  "entry_start dir i \<equiv> bytes32 dir (8 + 40 * i)"

abbreviation entry_length :: "u8 list \<Rightarrow> nat \<Rightarrow> u32" where
  "entry_length dir i \<equiv> bytes32 dir (8 + 40 * i + 4)"

text \<open>
  The loop that reads a file: whole blocks go straight to the buffer, the ends go through a temporary
  block. \<open>failed\<close> is the test that the caller applies to the result of a read, \<open>None\<close> a failed read.
\<close>

function read_slices ::
  "(u32 \<Rightarrow> ('s, int \<times> u8 list) io) \<Rightarrow> (int \<Rightarrow> bool) \<Rightarrow> int \<Rightarrow> int \<Rightarrow> int \<Rightarrow> int \<Rightarrow> ('s, u8 list option) io" where
  "read_slices rd failed size_to_copy total_read offset_in_block block_number =
     (if total_read < size_to_copy then
        if offset_in_block = 0 \<and> 512 \<le> size_to_copy - total_read then
          bindIO (rd (of_int block_number)) (\<lambda>(r, data).
            if failed r then returnIO None
            else bindIO (read_slices rd failed size_to_copy (total_read + 512) offset_in_block (block_number + 1))
                   (\<lambda>rest. returnIO (map_option (\<lambda>ds. data @ ds) rest)))
        else
          let slice_length = min (512 - offset_in_block) (size_to_copy - total_read) in
          bindIO (rd (of_int block_number)) (\<lambda>(r, tmp_block).
            if failed r then returnIO None
            else bindIO (read_slices rd failed size_to_copy (total_read + slice_length) 0 (block_number + 1))
                   (\<lambda>rest. returnIO (map_option (\<lambda>ds. take (nat slice_length) (drop (nat offset_in_block) tmp_block) @ ds) rest)))
      else returnIO (Some []))"
  by pat_completeness auto
termination
  by (relation "measures [\<lambda>(_, _, _, _, off, _). if 512 \<le> off then 1 else 0, \<lambda>(_, _, size, total, _, _). nat (size - total)]") auto

declare read_slices.simps [simp del]

subsection \<open>The format of an image\<close>

text \<open>
  A file is a name, the offset where it starts and its contents. \<open>dir_holds\<close>: the directory lists
  these files; \<open>fs_image\<close>: the image holds the directory and the files.
\<close>

type_synonym fs_file = "u8 list \<times> nat \<times> u8 list"

definition entry_holds :: "u8 list \<Rightarrow> nat \<Rightarrow> fs_file \<Rightarrow> bool" where
  "entry_holds dir i f \<longleftrightarrow> (case f of (name, start, contents) \<Rightarrow>
     unat (entry_start dir i) = start \<and> unat (entry_length dir i) = length contents
     \<and> take (length name + 1) (drop (8 + 40 * i + 8) dir) = name @ [0] \<and> length name < 32 \<and> 0 \<notin> set name)"

definition dir_holds :: "u8 list \<Rightarrow> fs_file list \<Rightarrow> bool" where
  "dir_holds dir files \<longleftrightarrow> 8 + 40 * length files \<le> length dir \<and> take 4 dir = FS_MAGIC
     \<and> unat (bytes32 dir 4) = length files \<and> (\<forall>i<length files. entry_holds dir i (files ! i))"

definition fs_image :: "u8 list \<Rightarrow> fs_file list \<Rightarrow> bool" where
  "fs_image img files \<longleftrightarrow> dir_holds img files \<and> (40 * length files + 519) div 512 * 512 \<le> length img
     \<and> (\<forall>(name, start, contents)\<in>set files. 512 dvd start \<and> start + length contents < 2147483648
          \<and> (contents \<noteq> [] \<longrightarrow> start + length contents \<le> length img \<and> take (length contents) (drop start img) = contents))"

lemma char_diff: "sint (a :: u8) = sint b \<longleftrightarrow> a = b" "sint (a :: u8) = 0 \<longleftrightarrow> a = 0"
  using signed_word_eqI [of a b] signed_word_eqI [of a 0] by auto

lemma strcmp_name:
  "0 \<notin> set name \<Longrightarrow> 0 \<notin> set path \<Longrightarrow> \<exists>r. strcmp (name @ 0 # rest) (path @ [0]) = Inr r \<and> (r = 0 \<longleftrightarrow> name = path)"
proof (induction name arbitrary: path)
  case Nil
  then show ?case by (cases path) (auto simp: char_diff)
next
  case (Cons c name)
  then show ?case by (cases path) (auto simp: char_diff)
qed

lemma find_entry_ok:
  assumes "dir_holds dir files" "0 \<notin> set path" "set is \<subseteq> {..<length files}"
  shows "find_entry dir path is = Inr (find (\<lambda>j. fst (files ! j) = path) is)"
  using assms(3)
proof (induction "is")
  case (Cons i "is")
  obtain name start contents where f: "files ! i = (name, start, contents)" by (cases "files ! i") auto
  have h: "take (length name + 1) (drop (8 + 40 * i + 8) dir) = name @ [0]" "0 \<notin> set name"
    using assms(1) Cons.prems f by (auto simp: dir_holds_def entry_holds_def)
  then have "drop (8 + 40 * i + 8) dir = name @ 0 # drop (length name + 1) (drop (8 + 40 * i + 8) dir)"
    by (metis append.assoc append_Cons append_Nil append_take_drop_id)
  then obtain r where "strcmp (drop (8 + 40 * i + 8) dir) (path @ [0]) = Inr r" "r = 0 \<longleftrightarrow> name = path"
    using strcmp_name [OF h(2) assms(2)] by metis
  then show ?case using Cons f by simp
qed simp

lemma bytes32_take: "i + 4 \<le> m \<Longrightarrow> bytes32 (take m bs) i = bytes32 bs i"
  by (simp add: get32_def)

lemma num_directory_blocks_ok:
  assumes "40 * n + 519 < 4294967296"
  shows "num_directory_blocks (of_nat n) = (40 * n + 519) div 512"
proof -
  have "((of_nat n - 1) * 40 + 48 + 512 - 1 :: u32) = of_nat (40 * n + 519)" by (simp add: algebra_simps)
  moreover have "unat (of_nat (40 * n + 519) :: u32) = 40 * n + 519" using assms by (simp del: of_nat_add of_nat_mult add: unat_of_nat)
  ultimately show ?thesis unfolding num_directory_blocks_def by (simp only: unat_div) simp
qed

lemma dir_holds_take:
  assumes "dir_holds dir files" "8 + 40 * length files \<le> m"
  shows "dir_holds (take m dir) files"
proof -
  have "entry_holds (take m dir) i (files ! i)" if i: "i < length files" for i
  proof -
    obtain name start contents where f: "files ! i = (name, start, contents)" by (cases "files ! i") auto
    have h: "entry_holds dir i (name, start, contents)" using assms(1) i f by (auto simp: dir_holds_def)
    have "8 + 40 * i + 40 \<le> m" using i assms(2) by linarith
    moreover then have "min (length name + 1) (m - (8 + 40 * i + 8)) = length name + 1" using h by (auto simp: entry_holds_def)
    ultimately show ?thesis
      using h unfolding f entry_holds_def by (simp add: bytes32_take take_take drop_take)
  qed
  moreover have "take 4 (take m dir) = take 4 dir" using assms(2) by (simp add: take_take min_def)
  ultimately show ?thesis using assms by (simp add: dir_holds_def bytes32_take)
qed

abbreviation dir_blocks :: "nat \<Rightarrow> nat" where
  "dir_blocks n \<equiv> (40 * n + 519) div 512"

lemma fs_image_facts:
  assumes "fs_image img files" "length img < 2147483648"
  shows "take 4 (take 512 img) = FS_MAGIC" "num_directory_blocks (bytes32 (take 512 img) 4) = dir_blocks (length files)"
    "dir_blocks (length files) * 512 \<le> length img" "1 \<le> dir_blocks (length files)"
    "dir_holds (take (dir_blocks (length files) * 512) img) files" "bytes32 (take 512 img) 4 = of_nat (length files)"
proof -
  let ?n = "length files"
  have h: "dir_holds img files" "dir_blocks ?n * 512 \<le> length img" using assms(1) by (simp_all add: fs_image_def)
  show "dir_blocks ?n * 512 \<le> length img" by (rule h(2))
  have n: "8 + 40 * ?n \<le> length img" using h(1) by (simp add: dir_holds_def)
  show "take 4 (take 512 img) = FS_MAGIC" using h(1) by (simp add: dir_holds_def)
  have "unat (bytes32 img 4) = ?n" using h(1) by (simp add: dir_holds_def)
  then have "bytes32 img 4 = of_nat ?n" by (metis of_nat_unat ucast_id)
  then show b: "bytes32 (take 512 img) 4 = of_nat ?n" by (simp add: bytes32_take)
  show "num_directory_blocks (bytes32 (take 512 img) 4) = dir_blocks ?n"
    unfolding b using n assms(2) by (intro num_directory_blocks_ok) simp
  show "1 \<le> dir_blocks ?n" by (simp add: less_eq_div_iff_mult_less_eq)
  have "8 + 40 * ?n \<le> dir_blocks ?n * 512" using div_mult_mod_eq [of "40 * ?n + 519" 512] mod_less_divisor [of 512 "40 * ?n + 519"] by linarith
  then show "dir_holds (take (dir_blocks ?n * 512) img) files" by (rule dir_holds_take [OF h(1)])
qed

lemma find_first:
  assumes "i < n" "P i" "\<forall>j<i. \<not> P j"
  shows "find P [0..<n] = Some i"
  using assms by (auto simp: find_Some_iff intro!: exI [of _ i])

lemma sint_of_int: "- 2147483648 \<le> k \<Longrightarrow> k < 2147483648 \<Longrightarrow> sint (of_int k :: u32) = k"
  by (simp add: signed_of_int signed_take_bit_int_eq_self)

lemma u32_of_int: "(x :: u32) = of_int (int (unat x))"
  by simp

lemma sint_small: "unat x < 2147483648 \<Longrightarrow> sint (x :: u32) = int (unat x)"
proof -
  assume "unat x < 2147483648"
  then have "sint (of_int (int (unat x)) :: u32) = int (unat x)" by (intro sint_of_int) linarith+
  then show ?thesis using u32_of_int [of x] by argo
qed

subsection \<open>Reading from a device that holds an image\<close>

locale block_device =
  fixes rd :: "u32 \<Rightarrow> ('s, int \<times> u8 list) io"
    and ready :: "'s \<Rightarrow> bool"
    and img :: "u8 list"
  assumes rd_block: "ready s \<Longrightarrow> (unat b + 1) * 512 \<le> length img
      \<Longrightarrow> \<exists>s'. rd b s = Some (Inr ((512, take 512 (drop (unat b * 512) img)), s')) \<and> ready s'"
    and whole_blocks: "ready s \<Longrightarrow> 512 dvd length img"
    and small: "ready s \<Longrightarrow> length img < 2147483648"
begin

lemma rd_nat:
  assumes "ready s" "(n + 1) * 512 \<le> length img"
  shows "\<exists>s'. rd (of_nat n) s = Some (Inr ((512, take 512 (drop (n * 512) img)), s')) \<and> ready s'"
proof -
  have "unat (of_nat n :: u32) = n" using assms(2) small [OF assms(1)] by (simp add: unat_of_nat)
  then show ?thesis using rd_block [of s "of_nat n"] assms by simp
qed

lemma load_blocks_image:
  assumes "ready s" "(n + k) * 512 \<le> length img"
  shows "\<exists>s'. load_blocks rd [n..<n + k] s = Some (Inr (Some (take (k * 512) (drop (n * 512) img)), s')) \<and> ready s'"
  using assms
proof (induction k arbitrary: n s)
  case (Suc k)
  obtain s1 where s1: "rd (of_nat n) s = Some (Inr ((512, take 512 (drop (n * 512) img)), s1))" "ready s1"
    using rd_nat [OF Suc.prems(1), of n] Suc.prems(2) by auto
  have "(Suc n + k) * 512 \<le> length img" using Suc.prems(2) by simp
  then obtain s2 where s2: "load_blocks rd [Suc n..<Suc n + k] s1 = Some (Inr (Some (take (k * 512) (drop (Suc n * 512) img)), s2))" "ready s2"
    using Suc.IH [OF s1(2)] by blast
  have "[n..<n + Suc k] = n # [Suc n..<Suc n + k]" by (simp add: upt_conv_Cons del: upt_Suc)
  moreover have "take (Suc k * 512) (drop (n * 512) img) = take 512 (drop (n * 512) img) @ take (k * 512) (drop (Suc n * 512) img)"
    using take_add [of 512 "k * 512" "drop (n * 512) img"] by (simp add: add.commute)
  ultimately show ?case using s1 s2 by simp
qed simp

lemma whole_block_inside:
  assumes "ready s" "b * 512 < length img"
  shows "(b + 1) * 512 \<le> length img"
proof -
  obtain q where q: "length img = 512 * q" using whole_blocks [OF assms(1)] by (elim dvdE)
  then have "b + 1 \<le> q" using assms(2) by simp
  then have "(b + 1) * 512 \<le> q * 512" by (rule mult_le_mono1)
  then show ?thesis using q by simp
qed

text \<open>One round of the loop.\<close>

lemma read_slices_step:
  assumes "ready s" "got < size_to_copy" "off < 512" "off + nat (size_to_copy - got) + b * 512 \<le> length img" "\<not> failed 512"
    and k: "k = min (512 - off) (nat (size_to_copy - got))"
  shows "\<exists>s1. read_slices rd failed size_to_copy got (int off) (int b) s
      = bindIO (read_slices rd failed size_to_copy (got + int k) 0 (int (b + 1)))
          (\<lambda>rest. returnIO (map_option (\<lambda>ds. take k (drop (b * 512 + off) img) @ ds) rest)) s1 \<and> ready s1"
proof -
  have block: "(b + 1) * 512 \<le> length img" using assms(2,4) by (intro whole_block_inside [OF assms(1)]) auto
  obtain s1 where s1: "rd (of_int (int b)) s = Some (Inr ((512, take 512 (drop (b * 512) img)), s1))" "ready s1"
    using rd_nat [OF assms(1) block] by auto
  have piece: "take k (drop off (take 512 (drop (b * 512) img))) = take k (drop (b * 512 + off) img)"
    using assms(3) k by (simp add: drop_take add.commute)
  have ik: "int k = min (512 - int off) (size_to_copy - got)" using assms(2,3) k by auto
  show ?thesis
  proof (cases "off = 0 \<and> 512 \<le> size_to_copy - got")
    case True
    then have "k = 512" using k by linarith
    then show ?thesis
      using s1 True assms(2,5) by (subst read_slices.simps) (auto simp: add.commute)
  next
    case False
    have "read_slices rd failed size_to_copy got (int off) (int b) s
      = bindIO (read_slices rd failed size_to_copy (got + int k) 0 (int (b + 1)))
          (\<lambda>rest. returnIO (map_option (\<lambda>ds. take (nat (int k)) (drop (nat (int off)) (take 512 (drop (b * 512) img))) @ ds) rest)) s1"
      unfolding ik using s1(1) False assms(2,5) by (subst read_slices.simps) (auto simp: Let_def add.commute)
    then show ?thesis using piece s1(2) by auto
  qed
qed

lemma read_slices_image:
  assumes "ready s" "got \<le> size_to_copy" "off < 512" "off + nat (size_to_copy - got) + b * 512 \<le> length img" "\<not> failed 512"
  shows "\<exists>s'. read_slices rd failed size_to_copy got (int off) (int b) s
      = Some (Inr (Some (take (nat (size_to_copy - got)) (drop (b * 512 + off) img)), s')) \<and> ready s'"
  using assms(1-4)
proof (induction "nat (size_to_copy - got)" arbitrary: got off b s rule: less_induct)
  case less
  show ?case
  proof (cases "got < size_to_copy")
    case False
    then show ?thesis using less.prems by (subst read_slices.simps) simp
  next
    case True
    define k where "k = min (512 - off) (nat (size_to_copy - got))"
    have k: "0 < k" "int k \<le> size_to_copy - got" using True less.prems(3) by (auto simp: k_def)
    obtain s1 where s1: "read_slices rd failed size_to_copy got (int off) (int b) s
        = bindIO (read_slices rd failed size_to_copy (got + int k) 0 (int (b + 1)))
            (\<lambda>rest. returnIO (map_option (\<lambda>ds. take k (drop (b * 512 + off) img) @ ds) rest)) s1" "ready s1"
      using read_slices_step [where failed = failed, OF less.prems(1) True less.prems(3,4) assms(5) k_def] by blast
    let ?rem = "nat (size_to_copy - (got + int k))"
    have rem: "?rem = nat (size_to_copy - got) - k" "?rem < nat (size_to_copy - got)" using k by auto
    have shift: "?rem = 0 \<or> b * 512 + off + k = (b + 1) * 512" using less.prems(3) rem(1) by (auto simp: k_def)
    have "?rem + (b + 1) * 512 \<le> length img \<or> ?rem = 0" using shift less.prems(4) rem(1) k by auto
    moreover have "(b + 1) * 512 \<le> length img" using True less.prems(4) by (intro whole_block_inside [OF less.prems(1)]) auto
    ultimately have "0 + ?rem + (b + 1) * 512 \<le> length img" by auto
    from less.hyps [OF rem(2) s1(2) _ _ this] k(2)
    obtain s2 where s2: "read_slices rd failed size_to_copy (got + int k) 0 (int (b + 1)) s1
        = Some (Inr (Some (take ?rem (drop ((b + 1) * 512) img)), s2))" "ready s2"
      by auto
    have "take (nat (size_to_copy - got)) (drop (b * 512 + off) img) = take k (drop (b * 512 + off) img) @ take ?rem (drop ((b + 1) * 512) img)"
    proof -
      have "nat (size_to_copy - got) = k + ?rem" using rem(1) k by linarith
      then have "take (nat (size_to_copy - got)) (drop (b * 512 + off) img)
          = take k (drop (b * 512 + off) img) @ take ?rem (drop (b * 512 + off + k) img)"
        using take_add [of k ?rem "drop (b * 512 + off) img"] by (simp add: add.commute)
      then show ?thesis using shift by (elim disjE) auto
    qed
    then show ?thesis using s1 s2 by simp
  qed
qed

end

end
