(* ===== verification/Fs_Mkfs.thy ===== *)
theory Fs_Mkfs
  imports Fs_Block
begin

text \<open>
  The tool that writes file system images, \<open>tools/mkfs/mkfs.c\<close>. \<open>host\<close> gives the contents of the files
  of the host, \<open>junk\<close> the bytes of the memory that \<open>malloc\<close> returns. The result is the exit status and
  the image. Writing to the image file succeeds. Names are sequences of bytes without a terminator.
\<close>

abbreviation (input) FS_NAME_LEN :: nat where "FS_NAME_LEN \<equiv> 32"

abbreviation SLASH :: u8 where "SLASH \<equiv> 0x2f"

definition ROUND_UP :: "u32 \<Rightarrow> u32 \<Rightarrow> u32" where
  "ROUND_UP x y = (x + y - 1) div y * y"

text \<open>
  \<open>normalize_file_name\<close>: the part after the last slash before the last character, at most its last 32
  characters. For an empty path the pointer \<open>end\<close> lies before the string.
\<close>

definition normalize_file_name :: "u8 list \<Rightarrow> u8 list cres" where
  "normalize_file_name full_path =
     (if full_path = [] then Inl Out_of_bounds
      else let name = rev (last full_path # takeWhile (\<lambda>c. c \<noteq> SLASH) (rev (butlast full_path)))
        in Inr (if FS_NAME_LEN - 1 < length name - 1 then drop (length name - FS_NAME_LEN) name else name))"

definition put_bytes :: "nat \<Rightarrow> u8 list \<Rightarrow> mem \<Rightarrow> mem" where
  "put_bytes a bs m = (\<lambda>k. if a \<le> k \<and> k < a + length bs then bs ! (k - a) else m k)"

text \<open>The loop that builds the directory; \<open>None\<close> when a source file cannot be opened.\<close>

fun build_directory :: "(u8 list \<Rightarrow> u8 list option) \<Rightarrow> nat \<Rightarrow> nat \<Rightarrow> u32 \<Rightarrow> u8 list list \<Rightarrow> mem \<Rightarrow> mem option cres" where
  "build_directory host header_size i file_offset [] header = Inr (Some header)"
| "build_directory host header_size i file_offset (p # ps) header = (case host p of
       None \<Rightarrow> Inr None
     | Some contents \<Rightarrow>
         let st_size = of_nat (length contents);
             header1 = put32 (8 + 40 * i + 4) st_size (put32 (8 + 40 * i) file_offset header)
         in bindE (normalize_file_name p) (\<lambda>name.
              if header_size < 8 + 40 * i + 8 + length name + 1 then Inl Out_of_bounds
              else build_directory host header_size (i + 1) (ROUND_UP (file_offset + st_size) 512) ps
                     (put_bytes (8 + 40 * i + 8) (name @ [0]) header1)))"

text \<open>The loop that copies a file in slices; \<open>None\<close> when the source is too short.\<close>

function copy_slices :: "nat \<Rightarrow> u8 list \<Rightarrow> u8 list option" where
  "copy_slices left_to_copy source =
     (if left_to_copy = 0 then Some []
      else let slice_length = min left_to_copy 0x4000 in
        if length source < slice_length then None
        else map_option (\<lambda>rest. take slice_length source @ rest) (copy_slices (left_to_copy - slice_length) (drop slice_length source)))"
  by pat_completeness auto
termination
  by (relation "measure fst") auto

declare copy_slices.simps [simp del]

text \<open>Writing at a position of a file; a gap is filled with zeros.\<close>

definition write_at :: "nat \<Rightarrow> u8 list \<Rightarrow> u8 list \<Rightarrow> u8 list" where
  "write_at pos data f = (if data = [] then f
     else take pos (f @ replicate (pos - length f) 0) @ data @ drop (pos + length data) f)"

fun copy_files :: "(u8 list \<Rightarrow> u8 list option) \<Rightarrow> mem \<Rightarrow> nat \<Rightarrow> u8 list list \<Rightarrow> u8 list \<Rightarrow> int \<times> u8 list" where
  "copy_files host header i [] img = (0, img)"
| "copy_files host header i (p # ps) img =
     (let start = unat (get32 header (8 + 40 * i)); len = unat (get32 header (8 + 40 * i + 4)) in
      case Option.bind (host p) (copy_slices len) of
        None \<Rightarrow> (1, img)
      | Some data \<Rightarrow>
          let img1 = write_at start data img;
              slice_length = 512 - (start + len) mod 512;
              img2 = (if slice_length \<noteq> 512 then write_at (start + len) (replicate slice_length 0) img1 else img1)
          in copy_files host header (i + 1) ps img2)"

text \<open>
  \<open>main\<close>. Without source files the size of the header wraps to more than 100 gigabytes, which cannot be
  allocated, and the header is written through a null pointer.
\<close>

definition mkfs :: "(u8 list \<Rightarrow> u8 list option) \<Rightarrow> mem \<Rightarrow> u8 list list \<Rightarrow> (int \<times> u8 list) cres" where
  "mkfs host junk paths =
     (if paths = [] then Inl Out_of_bounds
      else let n = length paths;
               header_size = 48 + 40 * (n - 1);
               file_offset = of_nat ((header_size + 512 - 1) div 512 * 512)
        in bindE (build_directory host header_size 0 file_offset paths junk) (\<lambda>built. case built of
             None \<Rightarrow> Inr (1, [])
           | Some header \<Rightarrow>
               let header = put32 4 (of_nat n) (put_bytes 0 FS_MAGIC header)
               in Inr (copy_files host header 0 paths (map header [0..<header_size]))))"

subsection \<open>Where the files are placed\<close>

abbreviation round512 :: "nat \<Rightarrow> nat" where
  "round512 x \<equiv> (x + 511) div 512 * 512"

primrec layout :: "nat \<Rightarrow> (u8 list \<times> u8 list) list \<Rightarrow> fs_file list" where
  "layout off [] = []"
| "layout off (f # fs) = (fst f, off, snd f) # layout (round512 (off + length (snd f))) fs"

primrec layout_end :: "nat \<Rightarrow> (u8 list \<times> u8 list) list \<Rightarrow> nat" where
  "layout_end off [] = off"
| "layout_end off (f # fs) = layout_end (round512 (off + length (snd f))) fs"

lemma length_layout [simp]: "length (layout off fs) = length fs"
  by (induction fs arbitrary: off) auto

lemma round512_ge: "x \<le> round512 x"
  using div_mult_mod_eq [of "x + 511" 512] mod_less_divisor [of 512 "x + 511"] by linarith

lemma layout_end_ge: "off \<le> layout_end off fs"
proof (induction fs arbitrary: off)
  case (Cons f fs)
  have "off + length (snd f) \<le> round512 (off + length (snd f))" by (rule round512_ge)
  also have "\<dots> \<le> layout_end (round512 (off + length (snd f))) fs" by (rule Cons.IH)
  finally show ?case by simp
qed simp

lemma unat_ROUND_UP: "unat x + 511 < 4294967296 \<Longrightarrow> unat (ROUND_UP x 512) = round512 (unat x)"
proof -
  assume x: "unat x + 511 < 4294967296"
  then have s: "unat (x + 511) = unat x + 511" by (intro unat_plus_no_wrap [of x 511, simplified]) simp
  have "unat ((x + 511) div 512) = (unat x + 511) div 512" by (simp add: unat_div s)
  moreover have "(unat x + 511) div 512 * 512 < 4294967296" using x by (meson div_times_less_eq_dividend le_less_trans)
  ultimately show ?thesis by (simp add: ROUND_UP_def unat_word_ariths)
qed

lemma copy_slices_all: "left_to_copy \<le> length source \<Longrightarrow> copy_slices left_to_copy source = Some (take left_to_copy source)"
proof (induction left_to_copy source rule: copy_slices.induct)
  case (1 left_to_copy source)
  show ?case
  proof (cases "left_to_copy = 0")
    case False
    define k where "k = min left_to_copy 0x4000"
    have "copy_slices (left_to_copy - k) (drop k source) = Some (take (left_to_copy - k) (drop k source))"
      using 1 False by (simp add: k_def)
    moreover have "take left_to_copy source = take k source @ take (left_to_copy - k) (drop k source)"
      using take_add [of k "left_to_copy - k" source] by (simp add: k_def)
    moreover have "k \<le> length source" using 1 by (simp add: k_def)
    ultimately show ?thesis
      using False by (subst copy_slices.simps) (simp add: k_def [symmetric] Let_def)
  qed (simp add: copy_slices.simps)
qed

subsection \<open>The directory\<close>

definition mem_entry :: "mem \<Rightarrow> nat \<Rightarrow> fs_file \<Rightarrow> bool" where
  "mem_entry h i f \<longleftrightarrow> (case f of (name, start, contents) \<Rightarrow>
     get32 h (8 + 40 * i) = of_nat start \<and> get32 h (8 + 40 * i + 4) = of_nat (length contents)
     \<and> (\<forall>k<length name + 1. h (8 + 40 * i + 8 + k) = (name @ [0]) ! k))"

lemma mem_entry_cong:
  assumes "mem_entry h i f" "\<forall>k. 8 + 40 * i \<le> k \<and> k < 8 + 40 * (i + 1) \<longrightarrow> h' k = h k" "length (fst f) < 32"
  shows "mem_entry h' i f"
proof -
  have "get32 h' (8 + 40 * i) = get32 h (8 + 40 * i)" "get32 h' (8 + 40 * i + 4) = get32 h (8 + 40 * i + 4)"
    using assms(2) by (auto intro!: get32_cong)
  moreover have "\<forall>k<length (fst f) + 1. h' (8 + 40 * i + 8 + k) = h (8 + 40 * i + 8 + k)" using assms(2,3) by auto
  ultimately show ?thesis using assms(1) by (auto simp: mem_entry_def split: prod.splits)
qed

lemma get32_put_bytes: "b + 4 \<le> a \<or> a + length bs \<le> b \<Longrightarrow> get32 (put_bytes a bs m) b = get32 m b"
  by (rule get32_cong) (auto simp: put_bytes_def)

definition plain_file :: "(u8 list \<Rightarrow> u8 list option) \<Rightarrow> u8 list \<Rightarrow> u8 list \<times> u8 list \<Rightarrow> bool" where
  "plain_file host p f \<longleftrightarrow> host p = Some (snd f) \<and> normalize_file_name p = Inr (fst f) \<and> length (fst f) < 32 \<and> 0 \<notin> set (fst f)"

lemma build_directory_ok:
  assumes "list_all2 (plain_file host) ps fs" "header_size = 8 + 40 * (i + length ps)" "unat file_offset = off"
    and "layout_end off fs < 2147483648"
  shows "\<exists>h'. build_directory host header_size i file_offset ps h = Inr (Some h') \<and> (\<forall>k<8 + 40 * i. h' k = h k)
    \<and> (\<forall>j<length fs. mem_entry h' (i + j) (layout off fs ! j))"
  using assms
proof (induction ps arbitrary: fs i file_offset off h)
  case (Cons p ps)
  obtain name contents fs' where fs: "fs = (name, contents) # fs'" "list_all2 (plain_file host) ps fs'"
      and pl: "host p = Some contents" "normalize_file_name p = Inr name" "length name < 32"
    using Cons.prems(1) unfolding list_all2_Cons1 by (auto simp: plain_file_def [of host p])
  define h1 where "h1 = put32 (8 + 40 * i + 4) (of_nat (length contents)) (put32 (8 + 40 * i) file_offset h)"
  define h2 where "h2 = put_bytes (8 + 40 * i + 8) (name @ [0]) h1"
  define off' where "off' = round512 (off + length contents)"
  have end': "layout_end off' fs' < 2147483648" using Cons.prems(4) fs(1) by (simp add: off'_def)
  have le: "off + length contents \<le> off'" unfolding off'_def by (rule round512_ge)
  have lt: "off' < 2147483648" using layout_end_ge [of off' fs'] end' by simp
  have len: "unat (of_nat (length contents) :: u32) = length contents" using le lt by (simp add: unat_of_nat)
  have "unat (file_offset + of_nat (length contents)) = off + length contents"
    using unat_plus_no_wrap [of file_offset "of_nat (length contents)"] len Cons.prems(3) le lt by simp
  then have off': "unat (ROUND_UP (file_offset + of_nat (length contents)) 512) = off'"
    using unat_ROUND_UP [of "file_offset + of_nat (length contents)"] le lt by (simp add: off'_def)
  from Cons.IH [OF fs(2) _ off' end', where i = "i + 1" and h = h2] Cons.prems(2)
  obtain h' where h': "build_directory host header_size (i + 1) (ROUND_UP (file_offset + of_nat (length contents)) 512) ps h2 = Inr (Some h')"
      "\<forall>k<8 + 40 * (i + 1). h' k = h2 k" "\<forall>j<length fs'. mem_entry h' (i + 1 + j) (layout off' fs' ! j)"
    by auto
  have run: "build_directory host header_size i file_offset (p # ps) h = Inr (Some h')"
    using h'(1) pl Cons.prems(2) by (simp add: h2_def h1_def Let_def)
  have entry: "mem_entry h2 i (name, off, contents)"
  proof -
    have "get32 h2 (8 + 40 * i) = file_offset" "get32 h2 (8 + 40 * i + 4) = of_nat (length contents)"
      by (simp_all add: h2_def h1_def get32_put_bytes get32_put32_other)
    moreover have "file_offset = of_nat off" using Cons.prems(3) by auto
    ultimately show ?thesis by (auto simp: mem_entry_def h2_def put_bytes_def)
  qed
  have "mem_entry h' i (name, off, contents)"
    by (rule mem_entry_cong [OF entry]) (use h'(2) pl(3) in auto)
  moreover have "\<forall>k<8 + 40 * i. h' k = h k" using h'(2) by (simp add: h2_def h1_def put_bytes_def put32_outside)
  moreover have "\<forall>j<length fs. mem_entry h' (i + j) (layout off fs ! j)" if "mem_entry h' i (name, off, contents)"
    using that h'(3) fs(1) by (auto simp: nth_Cons off'_def split: nat.splits)
  ultimately show ?case using run by blast
qed simp

subsection \<open>The files\<close>

lemma write_at_end: "length f \<le> pos \<Longrightarrow> data \<noteq> [] \<Longrightarrow> write_at pos data f = f @ replicate (pos - length f) 0 @ data"
  by (simp add: write_at_def)

lemma round512_exact: "x mod 512 = 0 \<Longrightarrow> round512 x = x"
  by (auto elim!: dvdE simp: mod_eq_0_iff_dvd)

lemma round512_pad: "x mod 512 \<noteq> 0 \<Longrightarrow> round512 x - x = 512 - x mod 512"
proof -
  assume r: "x mod 512 \<noteq> 0"
  have "(x + 511) div 512 = x div 512 + (x mod 512 + 511) div 512"
    using div_add1_eq [of x 511 512] by simp
  moreover have "(x mod 512 + 511) div 512 = 1"
    using r mod_less_divisor [of 512 x] by (intro div_nat_eqI) auto
  ultimately have "round512 x = x div 512 * 512 + 512" by simp
  then show ?thesis using div_mult_mod_eq [of x 512] by linarith
qed

definition add_file :: "nat \<Rightarrow> u8 list \<Rightarrow> u8 list \<Rightarrow> u8 list" where
  "add_file off contents img = (if contents = [] then img
     else img @ replicate (off - length img) 0 @ contents @ replicate (round512 (off + length contents) - (off + length contents)) 0)"

lemma length_add_file:
  assumes "length img \<le> off"
  shows "length (add_file off contents img) = (if contents = [] then length img else round512 (off + length contents))"
  using assms round512_ge [of "off + length contents"] by (simp add: add_file_def)

lemma copy_file_step:
  assumes "host p = Some contents" "mem_entry header i (name, off, contents)" "512 dvd off" "length img \<le> off"
    and "off + length contents < 2147483648"
  shows "copy_files host header i (p # ps) img = copy_files host header (i + 1) ps (add_file off contents img)"
proof -
  have start: "unat (get32 header (8 + 40 * i)) = off" "unat (get32 header (8 + 40 * i + 4)) = length contents"
    using assms(2,5) by (simp_all add: mem_entry_def unat_of_nat)
  define x where "x = off + length contents"
  have copy: "copy_slices (length contents) contents = Some contents" by (simp add: copy_slices_all)
  let ?img1 = "write_at off contents img"
  have run: "copy_files host header i (p # ps) img = copy_files host header (i + 1) ps
      (if 512 - x mod 512 \<noteq> 512 then write_at x (replicate (512 - x mod 512) 0) ?img1 else ?img1)"
    using assms(1) copy start by (simp only: copy_files.simps Let_def option.case bind.bind_lunit x_def)
  have "(if 512 - x mod 512 \<noteq> 512 then write_at x (replicate (512 - x mod 512) 0) ?img1 else ?img1) = add_file off contents img"
  proof (cases "contents = []")
    case True
    then show ?thesis using assms(3) by (auto simp: add_file_def x_def write_at_def)
  next
    case False
    have img1: "write_at off contents img = img @ replicate (off - length img) 0 @ contents"
      using write_at_end [OF assms(4) False] .
    have len: "length (img @ replicate (off - length img) 0 @ contents) = x" using assms(4) by (simp add: x_def)
    show ?thesis
    proof (cases "x mod 512 = 0")
      case True
      then have "round512 x = x" by (rule round512_exact)
      then show ?thesis using img1 True False by (simp add: add_file_def x_def)
    next
      case False
      then have "round512 x - x = 512 - x mod 512" by (rule round512_pad)
      moreover have "write_at x (replicate (512 - x mod 512) 0) (img @ replicate (off - length img) 0 @ contents)
          = (img @ replicate (off - length img) 0 @ contents) @ replicate (512 - x mod 512) 0"
        using write_at_end [of "img @ replicate (off - length img) 0 @ contents" x "replicate (512 - x mod 512) 0"] len
        by (simp add: not_le)
      moreover have "512 - x mod 512 \<noteq> 512" using False by linarith
      ultimately show ?thesis using img1 \<open>contents \<noteq> []\<close> unfolding add_file_def x_def [symmetric] Let_def by simp
    qed
  qed
  then show ?thesis unfolding run by (rule arg_cong)
qed

lemma copy_files_ok:
  assumes "list_all2 (plain_file host) ps fs" "\<forall>j<length fs. mem_entry header (i + j) (layout off fs ! j)"
    and "512 dvd off" "length img \<le> off" "layout_end off fs < 2147483648"
  shows "\<exists>ys. copy_files host header i ps img = (0, img @ ys)
    \<and> (\<forall>(name, start, contents)\<in>set (layout off fs). 512 dvd start \<and> start + length contents < 2147483648
        \<and> (contents \<noteq> [] \<longrightarrow> start + length contents \<le> length (img @ ys) \<and> take (length contents) (drop start (img @ ys)) = contents))
    \<and> length (img @ ys) \<le> layout_end off fs
    \<and> (512 dvd length img \<or> (\<exists>f\<in>set fs. snd f \<noteq> []) \<longrightarrow> 512 dvd length (img @ ys))
    \<and> ((\<exists>f\<in>set fs. snd f \<noteq> []) \<longrightarrow> off \<le> length (img @ ys))"
  using assms
proof (induction ps arbitrary: fs i off img)
  case (Cons p ps)
  obtain name contents fs' where fs: "fs = (name, contents) # fs'" "list_all2 (plain_file host) ps fs'" and pl: "host p = Some contents"
    using Cons.prems(1) unfolding list_all2_Cons1 by (auto simp: plain_file_def [of host p])
  define off' where "off' = round512 (off + length contents)"
  define img' where "img' = add_file off contents img"
  have end': "layout_end off' fs' < 2147483648" using Cons.prems(5) fs(1) by (simp add: off'_def)
  have le: "off + length contents \<le> off'" unfolding off'_def by (rule round512_ge)
  have lt: "off + length contents < 2147483648" using layout_end_ge [of off' fs'] end' le by simp
  have entries: "mem_entry header i (name, off, contents)" "\<forall>j<length fs'. mem_entry header (i + 1 + j) (layout off' fs' ! j)"
    using Cons.prems(2) [rule_format, of 0] Cons.prems(2) [rule_format, of "Suc j" for j] fs(1) by (auto simp: off'_def)
  have step: "copy_files host header i (p # ps) img = copy_files host header (i + 1) ps img'"
    unfolding img'_def by (rule copy_file_step [where host = host, OF pl entries(1) Cons.prems(3,4) lt])
  have len: "length img' = (if contents = [] then length img else off')"
    unfolding img'_def off'_def by (rule length_add_file [OF Cons.prems(4)])
  then have "length img' \<le> off'" using le Cons.prems(4) by simp
  from Cons.IH [OF fs(2) entries(2) _ this end'] obtain ys where
    ys: "copy_files host header (i + 1) ps img' = (0, img' @ ys)"
      "\<forall>(name, start, contents)\<in>set (layout off' fs'). 512 dvd start \<and> start + length contents < 2147483648
        \<and> (contents \<noteq> [] \<longrightarrow> start + length contents \<le> length (img' @ ys) \<and> take (length contents) (drop start (img' @ ys)) = contents)"
      "length (img' @ ys) \<le> layout_end off' fs'" "512 dvd length img' \<or> (\<exists>f\<in>set fs'. snd f \<noteq> []) \<longrightarrow> 512 dvd length (img' @ ys)"
      "(\<exists>f\<in>set fs'. snd f \<noteq> []) \<longrightarrow> off' \<le> length (img' @ ys)"
    by (auto simp: off'_def)
  obtain zs where zs: "img' = img @ zs" unfolding img'_def add_file_def by (cases "contents = []") auto
  have here: "contents \<noteq> [] \<longrightarrow> off + length contents \<le> length (img' @ ys) \<and> take (length contents) (drop off (img' @ ys)) = contents"
    using Cons.prems(4) len le by (auto simp: img'_def add_file_def)
  have files: "\<forall>(name, start, contents)\<in>set (layout off fs). 512 dvd start \<and> start + length contents < 2147483648
        \<and> (contents \<noteq> [] \<longrightarrow> start + length contents \<le> length (img' @ ys) \<and> take (length contents) (drop start (img' @ ys)) = contents)"
    using here ys(2) fs(1) Cons.prems(3) lt unfolding off'_def by auto
  have "512 dvd length img \<or> (\<exists>f\<in>set fs. snd f \<noteq> []) \<longrightarrow> 512 dvd length (img' @ ys)"
    using ys(4) len fs(1) by (auto simp: off'_def)
  moreover have "(\<exists>f\<in>set fs. snd f \<noteq> []) \<longrightarrow> off \<le> length (img' @ ys)"
    using ys(5) len fs(1) le by auto
  moreover have "length (img' @ ys) \<le> layout_end off fs" using ys(3) fs(1) by (simp add: off'_def)
  ultimately show ?case using step ys(1) zs files by (intro exI [of _ "zs @ ys"]) simp
qed auto

lemma bytes32_header: "k + 4 \<le> n \<Longrightarrow> bytes32 (map h [0..<n] @ ys) k = get32 h k"
  by (rule get32_cong) (simp add: nth_append)

lemma entry_holds_header:
  assumes "mem_entry h i (name, start, contents)" "8 + 40 * (i + 1) \<le> n" "length name < 32" "0 \<notin> set name"
    and "start + length contents < 2147483648"
  shows "entry_holds (map h [0..<n] @ ys) i (name, start, contents)"
proof -
  have "take (length name + 1) (drop (8 + 40 * i + 8) (map h [0..<n] @ ys)) = name @ [0]"
  proof (rule nth_equalityI)
    show "length (take (length name + 1) (drop (8 + 40 * i + 8) (map h [0..<n] @ ys))) = length (name @ [0])"
      using assms(2,3) by simp
  next
    fix k assume "k < length (take (length name + 1) (drop (8 + 40 * i + 8) (map h [0..<n] @ ys)))"
    then have k: "k < length name + 1" by simp
    then have "take (length name + 1) (drop (8 + 40 * i + 8) (map h [0..<n] @ ys)) ! k = h (8 + 40 * i + 8 + k)"
      using assms(2,3) by (simp add: nth_append)
    then show "take (length name + 1) (drop (8 + 40 * i + 8) (map h [0..<n] @ ys)) ! k = (name @ [0]) ! k"
      using assms(1) k by (simp add: mem_entry_def)
  qed
  moreover have "bytes32 (map h [0..<n] @ ys) (8 + 40 * i) = of_nat start" "bytes32 (map h [0..<n] @ ys) (8 + 40 * i + 4) = of_nat (length contents)"
    using assms(1,2) bytes32_header [of "8 + 40 * i" n] bytes32_header [of "8 + 40 * i + 4" n] by (simp_all add: mem_entry_def)
  ultimately show ?thesis using assms(3-5) by (simp add: entry_holds_def unat_of_nat)
qed

lemma layout_nth: "j < length fs \<Longrightarrow> fst (layout off fs ! j) = fst (fs ! j) \<and> snd (snd (layout off fs ! j)) = snd (fs ! j)"
  by (induction fs arbitrary: off j) (auto simp: nth_Cons split: nat.splits)

text \<open>The image that \<open>mkfs\<close> writes holds the files at consecutive blocks.\<close>

lemma mkfs_image:
  assumes files: "list_all2 (plain_file host) ps fs" "\<exists>f\<in>set fs. snd f \<noteq> []"
    and off: "off = round512 (8 + 40 * length fs)" and small: "layout_end off fs < 2147483648"
  shows "\<exists>img. mkfs host junk ps = Inr (0, img) \<and> fs_image img (layout off fs) \<and> 512 dvd length img \<and> length img < 2147483648"
proof -
  let ?n = "length fs" and ?size = "8 + 40 * length fs"
  have n: "length ps = ?n" "ps \<noteq> []" "0 < ?n" using files by (auto simp: list_all2_lengthD)
  have size: "48 + 40 * (?n - 1) = ?size" using n(3) by (cases "length fs") auto
  have le: "?size \<le> off" unfolding off by (rule round512_ge)
  have lt: "off < 2147483648" using layout_end_ge [of off fs] small by simp
  have uoff: "unat (of_nat off :: u32) = off" using lt by (simp add: unat_of_nat)
  obtain h where h: "build_directory host ?size 0 (of_nat off) ps junk = Inr (Some h)" "\<forall>j<?n. mem_entry h j (layout off fs ! j)"
    using build_directory_ok [OF files(1), of ?size 0 "of_nat off" off junk] uoff small n(1) by auto
  define hd' where "hd' = put32 4 (of_nat ?n) (put_bytes 0 FS_MAGIC h)"
  have same: "hd' k = h k" if "8 \<le> k" for k using that by (simp add: hd'_def put32_outside put_bytes_def FS_MAGIC_def)
  have names: "length (fst (fs ! j)) < 32" "0 \<notin> set (fst (fs ! j))" if "j < ?n" for j
    using files(1) that by (auto simp: list_all2_conv_all_nth plain_file_def)
  have entries: "\<forall>j<?n. mem_entry hd' (0 + j) (layout off fs ! j)"
  proof (intro allI impI)
    fix j assume j: "j < ?n"
    have "length (fst (layout off fs ! j)) < 32" using layout_nth [OF j] names(1) [OF j] by simp
    then show "mem_entry hd' (0 + j) (layout off fs ! j)"
      using mem_entry_cong [of h j "layout off fs ! j" hd'] h(2) j same by simp
  qed
  have "512 dvd off" unfolding off by simp
  from copy_files_ok [OF files(1) entries this _ small, of "map hd' [0..<?size]"] le
  obtain ys where ys: "copy_files host hd' 0 ps (map hd' [0..<?size]) = (0, map hd' [0..<?size] @ ys)"
      "\<forall>(name, start, contents)\<in>set (layout off fs). 512 dvd start \<and> start + length contents < 2147483648
        \<and> (contents \<noteq> [] \<longrightarrow> start + length contents \<le> length (map hd' [0..<?size] @ ys)
            \<and> take (length contents) (drop start (map hd' [0..<?size] @ ys)) = contents)"
      "length (map hd' [0..<?size] @ ys) \<le> layout_end off fs" "512 dvd length (map hd' [0..<?size] @ ys)" "off \<le> length (map hd' [0..<?size] @ ys)"
    using files(2) by auto
  define img where "img = map hd' [0..<?size] @ ys"
  have run: "mkfs host junk ps = Inr (0, img)"
  proof -
    have off': "(?size + 512 - 1) div 512 * 512 = off" unfolding off by simp
    show ?thesis
      unfolding mkfs_def Let_def n(1) size off' h(1) using n(2) ys(1) by (simp add: img_def hd'_def)
  qed
  have "entry_holds img j (layout off fs ! j)" if j: "j < ?n" for j
  proof -
    obtain name start contents where f: "layout off fs ! j = (name, start, contents)" by (cases "layout off fs ! j") auto
    have "(name, start, contents) \<in> set (layout off fs)" using j f by (metis length_layout nth_mem)
    then have "start + length contents < 2147483648" using ys(2) by auto
    moreover have "length name < 32" "0 \<notin> set name" using names [OF j] layout_nth [OF j, of off] f by auto
    moreover have "mem_entry hd' j (name, start, contents)" using entries [rule_format, OF j] f by simp
    ultimately show ?thesis unfolding f img_def using j by (intro entry_holds_header) auto
  qed
  moreover have "take 4 img = FS_MAGIC"
    by (rule nth_equalityI) (use n(3) in \<open>auto simp: img_def hd'_def FS_MAGIC_def nth_append put32_def put_bytes_def\<close>)
  moreover have "unat (bytes32 img 4) = ?n"
    using bytes32_header [of 4 ?size hd' ys] n(3) le lt by (simp add: img_def hd'_def unat_of_nat)
  moreover have "?size \<le> length img" using le ys(5) by (simp add: img_def)
  moreover have "(40 * ?n + 519) div 512 * 512 \<le> length img" using ys(5) by (simp add: img_def off add.commute)
  ultimately have "fs_image img (layout off fs)" using ys(2) by (simp add: fs_image_def dir_holds_def img_def)
  then show ?thesis using run ys(3,4) small by (auto simp: img_def)
qed

end
