(* ===== verification/Kern_Fs.thy ===== *)
theory Kern_Fs
  imports Kern_Slab Kern_Space Sd_Driver Fs_Mkfs "HOL-Library.Signed_Division"
begin

text \<open>
  The kernel's file system, \<open>software/kernel/fs.c\<close>, over the SD card driver, the kernel heap, the slab
  allocator and the address space of the kernel. A buffer that a function fills is part of its result.
  The directory is the contents of the memory that \<open>directory\<close> points to. \<open>file_handle_slab\<close> is the
  allocator of the handles, whose memory comes from the one kernel heap.
\<close>

record file_handle =
  base_location :: u32
  handle_length :: u32

record 'd fs_state =
  fs_initialized :: bool
  fs_directory :: "u8 list"
  use_ramdisk :: bool
  ramdisk_addr :: u32
  file_handle_slab :: slab_state
  file_handles :: "u32 \<Rightarrow> file_handle"
  kernel_heap :: heap_state
  kernel_areas :: vm_area_map
  sd_state :: "bool \<times> 'd"

abbreviation (input) RAMDISK_BASE_PA :: u32 where "RAMDISK_BASE_PA \<equiv> 0x4000000"
abbreviation (input) RAMDISK_MAX_SIZE :: u32 where "RAMDISK_MAX_SIZE \<equiv> 0x800000"

text \<open>
  A byte of virtual memory, through the page tables of the current thread. The ramdisk area has no
  cache, so a fault on it fails an assertion of the fault handler.
\<close>

definition virtual_byte :: "u32 \<Rightarrow> translation_state \<Rightarrow> u8 cres" where
  "virtual_byte va s =
     bindE (read_entry (cr_page_dir s) (pgd_index va) s) (\<lambda>e. if e AND PAGE_PRESENT = 0 then Inl Assert_failed else
     bindE (read_entry (PAGE_ALIGN e) (pgt_index va) s) (\<lambda>pte. if pte AND PAGE_PRESENT = 0 then Inl Assert_failed else
       let page = unat pte div 4096; i = unat va mod 4096 in
       if page < num_pages s then Inr (ucast (drop_bit (8 * (i mod 4)) (frames s page (i div 4)))) else Inl Out_of_bounds))"

primrec copy_virtual :: "nat \<Rightarrow> u32 \<Rightarrow> translation_state \<Rightarrow> u8 list cres" where
  "copy_virtual 0 va s = Inr []"
| "copy_virtual (Suc n) va s = bindE (virtual_byte va s) (\<lambda>b. bindE (copy_virtual n (va + 1) s) (\<lambda>bs. Inr (b # bs)))"

definition read_block :: "'d mmio \<Rightarrow> u32 \<Rightarrow> ('d fs_state, int \<times> u8 list) io" where
  "read_block io block_num s =
     (if use_ramdisk s
      then bindIO (liftE (copy_virtual BLOCK_SIZE (ramdisk_addr s + block_num * of_nat BLOCK_SIZE) (vm (kernel_heap s))))
             (\<lambda>data. returnIO (int BLOCK_SIZE, data)) s
      else zoomIO sd_state (\<lambda>d s. s\<lparr>sd_state := d\<rparr>) (read_sd_device io block_num) s)"

text \<open>The branch of \<open>init_file_system\<close> without a card; a failed mapping is a null pointer access.\<close>

definition map_ramdisk :: "('d fs_state, unit) io" where
  "map_ramdisk =
     bindIO (zoomIO (\<lambda>s. (kernel_areas s, vm (kernel_heap s)))
               (\<lambda>(areas, t) s. s\<lparr>kernel_areas := areas, kernel_heap := (kernel_heap s)\<lparr>vm := t\<rparr>\<rparr>)
               (map_contiguous_memory True 0 0 RAMDISK_MAX_SIZE PLACE_SEARCH_UP ''ramdisk'' AREA_WIRED RAMDISK_BASE_PA))
       (\<lambda>area. case area of None \<Rightarrow> failIO Out_of_bounds
          | Some a \<Rightarrow> modifyIO (\<lambda>s. s\<lparr>ramdisk_addr := low_address a, use_ramdisk := True\<rparr>))"

definition fs_kmalloc :: "u32 \<Rightarrow> ('d fs_state, u32) io" where
  "fs_kmalloc sz = zoomIO kernel_heap (\<lambda>h s. s\<lparr>kernel_heap := h\<rparr>) (kmalloc sz)"

definition alloc_handle :: "('d fs_state, u32) io" where
  "alloc_handle = zoomIO (\<lambda>s. (file_handle_slab s)\<lparr>heap := kernel_heap s\<rparr>)
     (\<lambda>sl s. s\<lparr>file_handle_slab := sl, kernel_heap := heap sl\<rparr>) slab_alloc"

text \<open>
  When a block of the directory cannot be read, the blocks before it stay in memory that is not used,
  because the file system is initialised again by the next \<open>open_file\<close>. A directory whose size wraps
  to less than a block does not hold the super block.
\<close>

definition init_file_system :: "'d mmio \<Rightarrow> ('d fs_state, int) io" where
  "init_file_system io =
     bindIO (zoomIO (\<lambda>s. snd (sd_state s)) (\<lambda>d s. s\<lparr>sd_state := (fst (sd_state s), d)\<rparr>) (init_sd_device io)) (\<lambda>r.
     bindIO (if r < 0 then map_ramdisk else returnIO ()) (\<lambda>_.
     bindIO (read_block io 0) (\<lambda>(r, super_block).
       if r \<le> 0 then returnIO (- 1)
       else if take 4 super_block \<noteq> FS_MAGIC then returnIO (- 1)
       else let n = num_directory_blocks (bytes32 super_block 4);
                bytes = (of_nat (n * BLOCK_SIZE) + KPAGE_SIZE - 1) AND NOT (KPAGE_SIZE - 1)
         in bindIO (fs_kmalloc bytes) (\<lambda>_.
              if unat bytes < BLOCK_SIZE then failIO Out_of_bounds
              else bindIO (modifyIO (\<lambda>s. s\<lparr>fs_directory := super_block\<rparr>)) (\<lambda>_.
                bindIO (load_blocks (read_block io) [1..<n]) (\<lambda>rest. case rest of
                    None \<Rightarrow> returnIO (- 1)
                  | Some blocks \<Rightarrow>
                      bindIO (modifyIO (\<lambda>s. s\<lparr>fs_directory := super_block @ blocks\<rparr>)) (\<lambda>_. returnIO 0)))))))"

text \<open>The result is the address of the handle, 0 when the file is not opened.\<close>

definition open_file :: "'d mmio \<Rightarrow> u8 list \<Rightarrow> ('d fs_state, u32) io" where
  "open_file io path =
     bindIO (getIO fs_initialized) (\<lambda>ready.
     bindIO (if ready then returnIO 0 else init_file_system io) (\<lambda>r.
       if r < 0 then returnIO 0 else
       bindIO (modifyIO (\<lambda>s. s\<lparr>fs_initialized := True\<rparr>)) (\<lambda>_.
       bindIO (getIO fs_directory) (\<lambda>dir.
       bindIO (liftE (find_entry dir path [0..<unat (bytes32 dir 4)])) (\<lambda>found. case found of
           None \<Rightarrow> returnIO 0
         | Some i \<Rightarrow> bindIO alloc_handle (\<lambda>handle.
             bindIO (modifyIO (\<lambda>s. s\<lparr>file_handles := (file_handles s)(handle :=
                 \<lparr>base_location = entry_start dir i, handle_length = entry_length dir i\<rparr>)\<rparr>)) (\<lambda>_. returnIO handle)))))))"

definition read_file :: "'d mmio \<Rightarrow> u32 \<Rightarrow> u32 \<Rightarrow> u32 \<Rightarrow> ('d fs_state, int \<times> u8 list) io" where
  "read_file io handle offset sz =
     bindIO (getIO (\<lambda>s. file_handles s handle)) (\<lambda>h.
       let fs_offset = sint (base_location h + offset);
           size_to_copy = sint (if handle_length h < offset + sz then handle_length h - offset else sz)
       in if size_to_copy \<le> 0 then returnIO (0, [])
          else bindIO (read_slices (read_block io) (\<lambda>r. r < 0) size_to_copy 0 (fs_offset mod 512) (fs_offset sdiv 512)) (\<lambda>copied.
            case copied of None \<Rightarrow> returnIO (- 1, []) | Some data \<Rightarrow> returnIO (size_to_copy, data)))"

subsection \<open>The emulated card as a block device\<close>

definition sd_ready :: "u8 list \<Rightarrow> machine fs_state \<Rightarrow> machine fs_state \<Rightarrow> bool" where
  "sd_ready img s0 s \<longleftrightarrow> \<not> use_ramdisk s0 \<and> 512 dvd length img \<and> length img < 2147483648
     \<and> (\<exists>d. s = s0\<lparr>sd_state := (False, d)\<rparr> \<and> card_idle img False False (sdmmc (dev d)))"

lemma sd_readyI:
  "\<not> use_ramdisk s0 \<Longrightarrow> 512 dvd length img \<Longrightarrow> length img < 2147483648 \<Longrightarrow> card_idle img False False (sdmmc (dev d))
    \<Longrightarrow> sd_ready img s0 (s0\<lparr>sd_state := (False, d)\<rparr>)"
  by (auto simp: sd_ready_def)

lemma read_block_ready:
  assumes "sd_ready img s0 s" "(unat b + 1) * 512 \<le> length img"
  shows "\<exists>s'. read_block emu_mmio b s = Some (Inr ((512, take 512 (drop (unat b * 512) img)), s')) \<and> sd_ready img s0 s'"
proof -
  obtain d where d: "s = s0\<lparr>sd_state := (False, d)\<rparr>" "card_idle img False False (sdmmc (dev d))" "\<not> use_ramdisk s0"
      "length img < 2147483648" "512 dvd length img"
    using assms(1) by (auto simp: sd_ready_def)
  have "unat b * 512 < 4294967296" using assms(2) d(4) by simp
  from carries_at [OF read_card_ok [OF sends_kernel assms(2) this] d(2)]
  obtain d' where d': "read_card emu_mmio (send_sd_command emu_mmio) b d = Some (Inr ((512, file_block img (unat b)), d'))"
      "card_idle img False False (sdmmc (dev d'))" by auto
  then have "read_sd_device emu_mmio b (False, d) = Some (Inr ((512, file_block img (unat b)), (False, d')))"
    by (simp add: read_sd_device_def)
  then show ?thesis
    using d d'(2) by (auto simp: read_block_def file_block_def mult.commute sd_ready_def intro!: exI [of _ d'])
qed

interpretation sd_block: block_device "read_block emu_mmio" "sd_ready img s0" img for img s0
  by unfold_locales (use read_block_ready in \<open>auto simp: sd_ready_def\<close>)

subsection \<open>Initialisation\<close>

lemma directory_bytes:
  assumes "n * 512 < 2147483648"
  shows "unat ((of_nat (n * BLOCK_SIZE) + KPAGE_SIZE - 1) AND NOT (KPAGE_SIZE - 1)) = round_up (n * 512)"
proof -
  have "unat (of_nat (n * BLOCK_SIZE) :: u32) = n * 512" using assms by (simp add: unat_of_nat del: of_nat_mult)
  then show ?thesis using unat_rounded_size [of "of_nat (n * BLOCK_SIZE)"] assms unfolding PAGE_ALIGN_def by simp
qed

lemma init_file_system_ok:
  assumes card: "card_new img (sdmmc (dev d))" "sd_state s = (False, d)" "\<not> use_ramdisk s"
    and img: "fs_image img files" "512 dvd length img" "length img < 2147483648"
    and nb: "nb = dir_blocks (length files)" and bytes: "bytes = (of_nat (nb * BLOCK_SIZE) + KPAGE_SIZE - 1) AND NOT (KPAGE_SIZE - 1)"
    and alloc: "kmalloc bytes (kernel_heap s) = Some r"
  shows "case r of Inl e \<Rightarrow> init_file_system emu_mmio s = Some (Inl e)
    | Inr (p, h) \<Rightarrow> \<exists>s'. init_file_system emu_mmio s = Some (Inr (0, s'))
        \<and> sd_ready img (s\<lparr>kernel_heap := h, fs_directory := take (nb * 512) img\<rparr>) s'"
proof -
  note f = fs_image_facts [OF img(1,3), folded nb]
  obtain d1 where d1: "init_sd_device emu_mmio d = Some (Inr (0, d1))" "card_idle img False False (sdmmc (dev d1))"
    using carries_at [OF init_card_ok [OF sends_kernel] card(1)] unfolding init_sd_device_def by blast
  define s1 where "s1 = s\<lparr>sd_state := (False, d1)\<rparr>"
  have z: "zoomIO (\<lambda>s. snd (sd_state s)) (\<lambda>d s. s\<lparr>sd_state := (fst (sd_state s), d)\<rparr>) (init_sd_device emu_mmio) s = Some (Inr (0, s1))"
    using card(2) d1(1) by (simp add: s1_def)
  have "sd_ready img s s1" unfolding s1_def by (rule sd_readyI [OF card(3) img(2,3) d1(2)])
  then obtain s2 where s2: "read_block emu_mmio 0 s1 = Some (Inr ((512, take 512 img), s2))" "sd_ready img s s2"
    using sd_block.rd_nat [of img s s1 0] f(3,4) by auto
  obtain d2 where d2: "s2 = s\<lparr>sd_state := (False, d2)\<rparr>" "card_idle img False False (sdmmc (dev d2))" using s2(2) by (auto simp: sd_ready_def)
  have ub: "unat bytes = round_up (nb * 512)" unfolding bytes using f(3) img(3) by (intro directory_bytes) simp
  then have big: "\<not> unat bytes < 512" using round_up_bounds [of "nb * 512"] f(4) by simp
  have run: "init_file_system emu_mmio s = bindIO (fs_kmalloc bytes) (\<lambda>_.
        bindIO (modifyIO (\<lambda>s. s\<lparr>fs_directory := take 512 img\<rparr>)) (\<lambda>_.
          bindIO (load_blocks (read_block emu_mmio) [1..<nb]) (\<lambda>rest. case rest of
              None \<Rightarrow> returnIO (- 1)
            | Some blocks \<Rightarrow> bindIO (modifyIO (\<lambda>s. s\<lparr>fs_directory := take 512 img @ blocks\<rparr>)) (\<lambda>_. returnIO 0)))) s2"
    unfolding init_file_system_def using z s2(1) f(1,2) big by (simp add: bytes Let_def)
  show ?thesis
  proof (cases r)
    case (Inl e)
    then show ?thesis unfolding run using alloc d2(1) by (simp add: fs_kmalloc_def)
  next
    case (Inr ph)
    obtain p h where ph: "ph = (p, h)" by force
    define s0 where "s0 = s\<lparr>kernel_heap := h, fs_directory := take 512 img\<rparr>"
    have "sd_ready img s0 (s0\<lparr>sd_state := (False, d2)\<rparr>)" using d2(2) card(3) img by (intro sd_readyI) (simp_all add: s0_def)
    from sd_block.load_blocks_image [OF this, of 1 "nb - 1"] f(3,4)
    obtain s3 where s3: "load_blocks (read_block emu_mmio) [1..<nb] (s0\<lparr>sd_state := (False, d2)\<rparr>)
        = Some (Inr (Some (take ((nb - 1) * 512) (drop 512 img)), s3))" "sd_ready img s0 s3" by auto
    obtain d3 where d3: "s3 = s0\<lparr>sd_state := (False, d3)\<rparr>" "card_idle img False False (sdmmc (dev d3))" using s3(2) by (auto simp: sd_ready_def)
    have km: "fs_kmalloc bytes s2 = Some (Inr (p, s2\<lparr>kernel_heap := h\<rparr>))"
      using alloc Inr ph d2(1) by (simp add: fs_kmalloc_def)
    have st: "s2\<lparr>kernel_heap := h, fs_directory := take 512 img\<rparr> = s0\<lparr>sd_state := (False, d2)\<rparr>" by (simp add: d2(1) s0_def)
    have dir: "take 512 img @ take ((nb - 1) * 512) (drop 512 img) = take (nb * 512) img"
      using take_add [of 512 "(nb - 1) * 512" img] f(4) by (simp add: algebra_simps)
    let ?s' = "s3\<lparr>fs_directory := take (nb * 512) img\<rparr>"
    have "init_file_system emu_mmio s = Some (Inr (0, ?s'))"
      unfolding run using km s3(1) st dir by simp
    moreover have "?s' = (s\<lparr>kernel_heap := h, fs_directory := take (nb * 512) img\<rparr>)\<lparr>sd_state := (False, d3)\<rparr>"
      by (simp add: d3(1) s0_def)
    then have "sd_ready img (s\<lparr>kernel_heap := h, fs_directory := take (nb * 512) img\<rparr>) ?s'"
      using d3(2) card(3) img by (auto simp: sd_ready_def)
    ultimately show ?thesis using Inr ph by simp
  qed
qed

subsection \<open>Opening and reading\<close>

text \<open>
  The state after boot: the card holds the image, and the heap and the allocator of the handles are
  intact and have room for the directory and one slab.
\<close>

definition fs_boot :: "u8 list \<Rightarrow> fs_file list \<Rightarrow> nat \<Rightarrow> nat \<Rightarrow> machine fs_state \<Rightarrow> bool" where
  "fs_boot img files base limit s \<longleftrightarrow> \<not> fs_initialized s \<and> \<not> use_ramdisk s \<and> \<not> fst (sd_state s)
     \<and> card_new img (sdmmc (dev (snd (sd_state s)))) \<and> slab_inv base limit {} ((file_handle_slab s)\<lparr>heap := kernel_heap s\<rparr>)
     \<and> unat (wilderness_ptr (kernel_heap s)) + max 65536 (2 * round_up (dir_blocks (length files) * 512)) + 65536 \<le> limit"

lemma sd_ready_self:
  assumes "sd_ready img s0 s" "sd_state s' = sd_state s" "use_ramdisk s' = use_ramdisk s"
  shows "sd_ready img s' s'"
proof -
  obtain d where d: "s = s0\<lparr>sd_state := (False, d)\<rparr>" "card_idle img False False (sdmmc (dev d))" "\<not> use_ramdisk s0"
      "512 dvd length img" "length img < 2147483648"
    using assms(1) by (auto simp: sd_ready_def)
  have "s' = s'\<lparr>sd_state := (False, d)\<rparr>" using assms(2) d(1) by simp
  then show ?thesis using sd_readyI [of s' img d] d assms(3) by simp
qed

lemma open_file_ok:
  assumes boot: "fs_boot img files base limit s" and img: "fs_image img files" "512 dvd length img" "length img < 2147483648"
    and i: "i < length files" "files ! i = (name, start, contents)" "\<forall>j<i. fst (files ! j) \<noteq> name"
  shows "open_file emu_mmio name s = Some (Inl Exit_called)
    \<or> (\<exists>h s'. open_file emu_mmio name s = Some (Inr (h, s')) \<and> h \<noteq> 0 \<and> sd_ready img s' s'
        \<and> file_handles s' h = \<lparr>base_location = of_nat start, handle_length = of_nat (length contents)\<rparr>)"
proof -
  define nb where "nb = dir_blocks (length files)"
  define bytes where "bytes = ((of_nat (nb * BLOCK_SIZE) + KPAGE_SIZE - 1) AND NOT (KPAGE_SIZE - 1) :: u32)"
  define dir where "dir = take (nb * 512) img"
  let ?slab = "(file_handle_slab s)\<lparr>heap := kernel_heap s\<rparr>"
  note f = fs_image_facts [OF img(1,3), folded nb_def, folded dir_def]
  have b: "card_new img (sdmmc (dev (snd (sd_state s))))" "sd_state s = (False, snd (sd_state s))" "\<not> use_ramdisk s" "\<not> fs_initialized s"
      "slab_inv base limit {} ?slab"
    using boot by (auto simp: fs_boot_def prod_eq_iff)
  have ub: "unat bytes = round_up (nb * 512)" unfolding bytes_def using f(3) img(3) by (intro directory_bytes) simp
  have rb: "0 < unat bytes" "4096 dvd unat bytes" unfolding ub using round_up_bounds [of "nb * 512"] f(4) by auto
  have room: "unat (wilderness_ptr (kernel_heap s)) + max 65536 (2 * unat bytes) + 65536 \<le> limit"
    using boot unfolding fs_boot_def ub nb_def by blast
  obtain used where used: "kheap_inv base limit used (heap ?slab)"
      "\<And>used' h. kheap_inv base limit (used \<union> used') h \<Longrightarrow> slab_inv base limit {} (?slab\<lparr>heap := h\<rparr>)"
    by (rule slab_inv_heap [OF b(5)]) blast
  have "kheap_inv base limit used (kernel_heap s)" "0 < bytes" using used(1) rb(1) by (simp_all add: word_less_nat_alt)
  moreover have "unat (wilderness_ptr (kernel_heap s)) + max 65536 (2 * unat bytes) \<le> limit" using room by simp
  ultimately obtain r where r: "kmalloc bytes (kernel_heap s) = Some r"
      "case r of Inl e \<Rightarrow> e = Exit_called | Inr (p, h') \<Rightarrow> {unat p..<unat p + unat bytes} \<inter> used = {}
        \<and> (\<forall>va. unat va \<in> {unat p..<unat p + unat bytes} \<longrightarrow> mapped (vm h') va)
        \<and> kheap_inv base limit (used \<union> {unat p..<unat p + unat bytes}) h'
        \<and> unat (wilderness_ptr h') \<le> unat (wilderness_ptr (kernel_heap s)) + max 65536 (2 * unat bytes)"
    using kmalloc_result [OF _ _ rb(2)] by blast
  note init = init_file_system_ok [OF b(1,2,3) img nb_def bytes_def r(1)]
  show ?thesis
  proof (cases r)
    case (Inl e)
    then show ?thesis using init r(2) b(4) by (simp add: open_file_def)
  next
    case (Inr ph)
    obtain p h where ph: "ph = (p, h)" by force
    obtain s1 where s1: "init_file_system emu_mmio s = Some (Inr (0, s1))" "sd_ready img (s\<lparr>kernel_heap := h, fs_directory := dir\<rparr>) s1"
      using init Inr ph by (auto simp: dir_def)
    define s2 where "s2 = s1\<lparr>fs_initialized := True\<rparr>"
    obtain d where "s1 = s\<lparr>kernel_heap := h, fs_directory := dir, sd_state := (False, d)\<rparr>" using s1(2) by (auto simp: sd_ready_def)
    then have s2: "fs_directory s2 = dir" "kernel_heap s2 = h" "file_handle_slab s2 = file_handle_slab s" by (simp_all add: s2_def)
    have ready2: "sd_ready img s2 s2" by (rule sd_ready_self [OF s1(2)]) (simp_all add: s2_def)
    have e: "entry_holds dir i (name, start, contents)" "unat (bytes32 dir 4) = length files" using f(5) i by (auto simp: dir_holds_def)
    have "0 \<notin> set name" using e(1) by (simp add: entry_holds_def)
    then have fe: "find_entry dir name [0..<unat (bytes32 dir 4)] = Inr (Some i)"
      unfolding e(2) using find_entry_ok [OF f(5), of name "[0..<length files]"] find_first [of i "length files"] i
      by (simp add: lessThan_atLeast0)
    have run: "open_file emu_mmio name s = bindIO alloc_handle (\<lambda>handle. bindIO (modifyIO (\<lambda>s. s\<lparr>file_handles := (file_handles s)(handle :=
                 \<lparr>base_location = entry_start dir i, handle_length = entry_length dir i\<rparr>)\<rparr>)) (\<lambda>_. returnIO handle)) s2"
      using s1(1) b(4) s2(1) fe unfolding open_file_def by (simp add: s2_def)
    have slab: "slab_inv base limit {} ((file_handle_slab s2)\<lparr>heap := kernel_heap s2\<rparr>)" "slab_ready limit ((file_handle_slab s2)\<lparr>heap := kernel_heap s2\<rparr>)"
      using used(2) [of "{unat p..<unat p + unat bytes}" h] r(2) Inr ph room s2(2,3) by (auto simp: slab_ready_def)
    from slab_alloc_ok [OF slab] show ?thesis
    proof (elim disjE exE conjE)
      fix x sl assume x: "slab_alloc ((file_handle_slab s2)\<lparr>heap := kernel_heap s2\<rparr>) = Some (Inr (x, sl))" "slab_inv base limit {x} sl"
      let ?h = "\<lparr>base_location = entry_start dir i, handle_length = entry_length dir i\<rparr>"
      let ?s' = "s2\<lparr>file_handle_slab := sl, kernel_heap := heap sl, file_handles := (file_handles s2)(x := ?h)\<rparr>"
      have "open_file emu_mmio name s = Some (Inr (x, ?s'))" unfolding run using x(1) by (simp add: alloc_handle_def)
      moreover have "x \<noteq> 0" using x(2) by (auto simp: slab_inv_def slab_parts_def)
      moreover have "sd_ready img ?s' ?s'" by (rule sd_ready_self [OF ready2]) simp_all
      moreover have "?h = \<lparr>base_location = of_nat start, handle_length = of_nat (length contents)\<rparr>"
        using e(1) by (simp add: entry_holds_def) (metis of_nat_unat ucast_id)
      ultimately show ?thesis by auto
    qed (simp add: run alloc_handle_def)
  qed
qed

text \<open>How many bytes \<open>read_file\<close> copies.\<close>

lemma copy_size:
  assumes "len < 2147483648" "unat offset < 2147483648" "unat sz < 2147483648"
  shows "sint (if of_nat len < offset + sz then of_nat len - offset else sz :: u32)
    = (if len < unat offset + unat sz then int len - int (unat offset) else int (unat sz))"
proof -
  have "unat (offset + sz) = unat offset + unat sz" using assms by (intro unat_plus_no_wrap) simp
  then have lt: "of_nat len < offset + sz \<longleftrightarrow> len < unat offset + unat sz" using assms(1) by (simp add: word_less_nat_alt unat_of_nat)
  have "(of_nat len - offset :: u32) = of_int (int len - int (unat offset))" by simp
  then have "sint (of_nat len - offset :: u32) = int len - int (unat offset)"
    unfolding \<open>of_nat len - offset = _\<close> using assms(1,2) by (intro sint_of_int) linarith+
  then show ?thesis using lt sint_small [OF assms(3)] by simp
qed

lemma read_file_ok:
  assumes ready: "sd_ready img s s" and img: "fs_image img files" "(name, start, contents) \<in> set files"
    and handle: "file_handles s h = \<lparr>base_location = of_nat start, handle_length = of_nat (length contents)\<rparr>"
    and small: "unat offset < 2147483648" "unat sz < 2147483648"
  shows "\<exists>s'. read_file emu_mmio h offset sz s
      = Some (Inr ((int (length (take (unat sz) (drop (unat offset) contents))), take (unat sz) (drop (unat offset) contents)), s'))
    \<and> sd_ready img s s'"
proof -
  let ?len = "length contents" and ?data = "take (unat sz) (drop (unat offset) contents)"
  have fits: "start + ?len < 2147483648" "contents \<noteq> [] \<Longrightarrow> start + ?len \<le> length img \<and> take ?len (drop start img) = contents"
    using img by (auto simp: fs_image_def)
  define k where "k = (if ?len < unat offset + unat sz then int ?len - int (unat offset) else int (unat sz))"
  have len: "?len < 2147483648" using fits(1) by simp
  note size = copy_size [OF len small, folded k_def]
  show ?thesis
  proof (cases "k \<le> 0")
    case True
    then have "?len \<le> unat offset \<or> unat sz = 0"
      unfolding k_def by (cases "?len < unat offset + unat sz") (simp_all only: if_True if_False, linarith+)
    then have "?data = []" by auto
    then show ?thesis using True ready handle size by (auto simp: read_file_def Let_def)
  next
    case False
    define pos where "pos = start + unat offset"
    have off: "unat offset < ?len" "nat k + unat offset \<le> ?len" "nat k = min (unat sz) (?len - unat offset)"
      using False unfolding k_def by (cases "?len < unat offset + unat sz"; simp only: if_True if_False; linarith)+
    have "contents \<noteq> []" using off(1) by (cases contents) simp_all
    note c = conjunct1 [OF fits(2) [OF this]] conjunct2 [OF fits(2) [OF this]]
    have eq: "(of_nat start + offset :: u32) = of_int (int pos)" by (simp add: pos_def)
    have fo: "sint (of_nat start + offset :: u32) = int pos"
      unfolding eq using off(1) fits(1) pos_def by (intro sint_of_int) linarith+
    have div: "int pos mod 512 = int (pos mod 512)" "int pos sdiv 512 = int (pos div 512)"
      by (cases pos; simp add: of_nat_mod of_nat_div signed_divide_int_def)+
    have "pos mod 512 + nat (k - 0) + pos div 512 * 512 \<le> length img"
      using off(2) c(1) div_mult_mod_eq [of pos 512] by (simp add: pos_def)
    from sd_block.read_slices_image [OF ready _ _ this, of "\<lambda>r. r < 0"] False
    obtain s' where s': "read_slices (read_block emu_mmio) (\<lambda>r. r < 0) k 0 (int (pos mod 512)) (int (pos div 512)) s
        = Some (Inr (Some (take (nat k) (drop pos img)), s'))" "sd_ready img s s'"
      by auto
    have data: "take (nat k) (drop pos img) = ?data"
    proof -
      have "?data = take (unat sz) (drop (unat offset) (take ?len (drop start img)))" using c(2) by simp
      also have "\<dots> = take (nat k) (drop pos img)" by (simp add: drop_take off(3) pos_def add.commute)
      finally show ?thesis by simp
    qed
    have "int (length ?data) = k" using off False by simp
    then show ?thesis using s' data handle size fo div False by (auto simp: read_file_def Let_def)
  qed
qed

text \<open>
  C18: What \<open>mkfs\<close> writes, the kernel reads: when the emulated card holds an image that the tool wrote,
  \<open>open_file\<close> on the name of a source file (the first one of that name) returns a handle, or the kernel
  panics for lack of memory, and \<open>read_file\<close> then returns exactly the bytes of the source file from the
  given offset, as many as asked for or as there are.
\<close>

theorem mkfs_kernel_roundtrip:
  assumes made: "mkfs host junk ps = Inr (0, img)" and files: "list_all2 (plain_file host) ps fs" "\<exists>f\<in>set fs. snd f \<noteq> []"
    and off: "off = round512 (8 + 40 * length fs)" and small: "layout_end off fs < 2147483648"
    and boot: "fs_boot img (layout off fs) base limit s"
    and i: "i < length fs" "\<forall>j<i. fst (fs ! j) \<noteq> fst (fs ! i)" and args: "unat offset < 2147483648" "unat sz < 2147483648"
  shows "open_file emu_mmio (fst (fs ! i)) s = Some (Inl Exit_called)
    \<or> (\<exists>h s1 s2. open_file emu_mmio (fst (fs ! i)) s = Some (Inr (h, s1)) \<and> h \<noteq> 0
        \<and> read_file emu_mmio h offset sz s1
            = Some (Inr ((int (length (take (unat sz) (drop (unat offset) (snd (fs ! i))))), take (unat sz) (drop (unat offset) (snd (fs ! i)))), s2)))"
proof -
  let ?files = "layout off fs"
  obtain start where l: "?files ! i = (fst (fs ! i), start, snd (fs ! i))" using layout_nth [OF i(1), of off] by (metis prod.collapse)
  have img: "fs_image img ?files" "512 dvd length img" "length img < 2147483648"
    using mkfs_image [OF files off small, of junk] made by auto
  have first: "\<forall>j<i. fst (?files ! j) \<noteq> fst (fs ! i)" using i layout_nth [of _ fs off] by simp
  have mem: "(fst (fs ! i), start, snd (fs ! i)) \<in> set ?files" using l i(1) by (metis length_layout nth_mem)
  from open_file_ok [OF boot img _ l first] i(1) show ?thesis using read_file_ok [OF _ img(1) mem _ args] by fastforce
qed

text \<open>A kernel after boot, with the heap of \<open>Kern_Heap\<close> and an empty slab.\<close>

definition booted :: "u8 list \<Rightarrow> machine fs_state" where
  "booted img = \<lparr>fs_initialized = False, fs_directory = [], use_ramdisk = False, ramdisk_addr = 0, file_handle_slab = fresh_slab,
     file_handles = (\<lambda>_. \<lparr>base_location = 0, handle_length = 0\<rparr>), kernel_heap = fresh_heap, kernel_areas = init_area_map KERNEL_BASE 0xffffffff,
     sd_state = (False, with_card undefined 0 (snd (open_sdmmc_device (Some img) initial_sd_card)) (1, 2))\<rparr>"

theorem mkfs_kernel_roundtrip_witness:
  "\<exists>img. mkfs (\<lambda>p. if p = [0x64, 0x2f, 0x61] then Some [1, 2, 3] else None) (\<lambda>_. 7) [[0x64, 0x2f, 0x61]] = Inr (0, img)
     \<and> (open_file emu_mmio [0x61] (booted img) = Some (Inl Exit_called)
        \<or> (\<exists>h s1 s2. open_file emu_mmio [0x61] (booted img) = Some (Inr (h, s1)) \<and> h \<noteq> 0
             \<and> read_file emu_mmio h 1 100 s1 = Some (Inr ((2, [2, 3]), s2))))"
proof -
  let ?host = "\<lambda>p :: u8 list. if p = [0x64, 0x2f, 0x61] then Some [1, 2, 3] else None" and ?fs = "[([0x61], [1, 2, 3])]"
  have files: "list_all2 (plain_file ?host) [[0x64, 0x2f, 0x61]] ?fs" "\<exists>f\<in>set ?fs. snd f \<noteq> []"
    by (simp_all add: plain_file_def normalize_file_name_def)
  have off: "512 = round512 (8 + 40 * length ?fs)" and small: "layout_end 512 ?fs < 2147483648" by simp_all
  from mkfs_image [OF files off small, of "\<lambda>_. 7"]
  obtain img where made: "mkfs ?host (\<lambda>_. 7) [[0x64, 0x2f, 0x61]] = Inr (0, img)" by blast
  have "slab_inv 0xd0000000 0xd0020000 {} (fresh_slab\<lparr>heap := fresh_heap\<rparr>)"
    unfolding slab_inv_def using fresh_heap_inv
    by (intro exI [of _ "{}"] exI [of _ "[]"])
      (simp add: fresh_slab_def MAKE_SLAB_def slab_allocator.extend_def slab_parts_def slab_wilderness_def)
  then have "fs_boot img (layout 512 ?fs) 0xd0000000 0xd0020000 (booted img)"
    by (simp add: fs_boot_def booted_def card_new_open fresh_heap_def round_up_def)
  from mkfs_kernel_roundtrip [OF made files off small this, of 0 1 100] made show ?thesis by auto
qed

end
