(* ===== verification/Kern_Fault.thy ===== *)
theory Kern_Fault
  imports Kern_Data Kern_Fs
begin

text \<open>
  Page faults and areas backed by a cache, the rest of \<open>software/kernel/vm_address_space.c\<close>. An address
  space is an index into \<open>spaces\<close>; space 0 is that of the kernel. The reader/writer lock of an address
  space makes each function atomic, and a page that another thread is loading is waited for forever.
  \<open>rf\<close> is \<open>read_file\<close>, whose buffer is part of its result, on the state \<open>backing\<close> of the file system;
  when it fails, the contents of the buffer are those before the call. \<open>hw\<close> is the hardware thread.
\<close>

record vm_address_space =
  space_areas :: vm_area_map
  space_map :: nat

record 'f fault_state = cache_state +
  spaces :: "nat \<Rightarrow> vm_address_space"
  backing :: 'f

type_synonym 'f reader = "u32 \<Rightarrow> u32 \<Rightarrow> u32 \<Rightarrow> ('f, int \<times> u8 list) io"

text \<open>Physical memory as bytes, through the alias mapping.\<close>

definition phys_byte :: "(nat \<Rightarrow> nat \<Rightarrow> u32) \<Rightarrow> mem" where
  "phys_byte f a = ucast (drop_bit (8 * (a mod 4)) (f (a div 4096) (a mod 4096 div 4)))"

definition store_bytes :: "nat \<Rightarrow> u8 list \<Rightarrow> (nat \<Rightarrow> nat \<Rightarrow> u32) \<Rightarrow> nat \<Rightarrow> nat \<Rightarrow> u32" where
  "store_bytes a bs f p w = (if w < 1024
     then get32 (\<lambda>x. if a \<le> x \<and> x < a + length bs then bs ! (x - a) else phys_byte f x) (4096 * p + 4 * w) else f p w)"

definition write_phys :: "nat \<Rightarrow> u8 list \<Rightarrow> 'a page_state_scheme \<Rightarrow> 'a page_state_scheme cres" where
  "write_phys a bs s = (if a + length bs \<le> 4096 * num_pages s then Inr (s\<lparr>frames := store_bytes a bs (frames s)\<rparr>) else Inl Out_of_bounds)"

definition copy_page :: "nat \<Rightarrow> nat \<Rightarrow> 'a page_state_scheme \<Rightarrow> 'a page_state_scheme cres" where
  "copy_page dest src s = (if dest < num_pages s \<and> src < num_pages s
     then Inr (s\<lparr>frames := (frames s)(dest := frames s src)\<rparr>) else Inl Out_of_bounds)"

definition set_busy :: "bool \<Rightarrow> nat \<Rightarrow> 'a page_state_scheme \<Rightarrow> 'a page_state_scheme" where
  "set_busy b p s = s\<lparr>pages := (pages s)(p := (pages s p)\<lparr>busy := b\<rparr>)\<rparr>"

definition set_dirty :: "nat \<Rightarrow> 'a page_state_scheme \<Rightarrow> 'a page_state_scheme" where
  "set_dirty p s = s\<lparr>pages := (pages s)(p := (pages s p)\<lparr>dirty := True\<rparr>)\<rparr>"

subsection \<open>The page fault handler\<close>

definition size_to_read :: "u32 \<Rightarrow> u32 \<Rightarrow> int" where
  "size_to_read cache_length area_offset =
     (if cache_length < area_offset \<or> cache_length - area_offset < KPAGE_SIZE then sint (cache_length - area_offset) else 4096)"

definition drop_dummy :: "int \<Rightarrow> nat option \<Rightarrow> ('f fault_state, unit) io" where
  "drop_dummy hw dummy = (case dummy of None \<Rightarrow> returnIO ()
     | Some d \<Rightarrow> bindIO (lock_vm_cache hw) (\<lambda>_. bindIO (stepE (remove_cache_page hw d)) (\<lambda>_.
         bindIO (unlock_vm_cache hw) (\<lambda>_. stepE (dec_page_ref d)))))"

text \<open>The branch of the loop that reads a page of the file of cache \<open>c\<close>; \<open>None\<close> when the read fails.\<close>

definition load_file_page :: "'f reader \<Rightarrow> int \<Rightarrow> u32 \<Rightarrow> int \<Rightarrow> nat \<Rightarrow> nat option \<Rightarrow> ('f fault_state, nat option) io" where
  "load_file_page rf hw coff n c dummy =
     bindIO (callE vm_allocate_page) (\<lambda>page.
     bindIO (modifyIO (set_busy True page)) (\<lambda>_.
     bindIO (stepE (insert_cache_page hw c coff page)) (\<lambda>_.
     bindIO (unlock_vm_cache hw) (\<lambda>_.
     bindIO (getIO (\<lambda>s. cache_file (caches s c))) (\<lambda>handle.
     bindIO (if 0 < n then zoomIO backing (\<lambda>f s. s\<lparr>backing := f\<rparr>) (rf handle coff (of_int n)) else returnIO (0, [])) (\<lambda>(got, data).
       if got < 0 then
         bindIO (stepE (dec_page_ref page)) (\<lambda>_. bindIO (drop_dummy hw dummy) (\<lambda>_. returnIO None))
       else
         let size = nat (max n 0) in
         bindIO (stepE (write_phys (4096 * page) data)) (\<lambda>_.
         bindIO (if size < 4096 then stepE (write_phys (4096 * page + size) (replicate (4096 - size) 0)) else returnIO ()) (\<lambda>_.
         bindIO (lock_vm_cache hw) (\<lambda>_.
         bindIO (modifyIO (set_busy False page)) (\<lambda>_. returnIO (Some page)))))))))))"

text \<open>
  One turn of the loop over the caches: the page is found or read, reading it failed, or the next cache
  is searched, with the dummy page if there is one.
\<close>

datatype search = Found nat | Read_failed | Search_on "nat option"

definition search_cache :: "'f reader \<Rightarrow> int \<Rightarrow> nat \<Rightarrow> u32 \<Rightarrow> int \<Rightarrow> nat \<Rightarrow> nat option \<Rightarrow> ('f fault_state, search) io" where
  "search_cache rf hw tc coff n c dummy =
     bindIO (readE (lookup_cache_page hw c coff)) (\<lambda>found. case found of
         Some p \<Rightarrow> returnIO (Found p)
       | None \<Rightarrow>
           bindIO (getIO (\<lambda>s. cache_file (caches s c))) (\<lambda>handle.
             if handle \<noteq> 0 then
               bindIO (load_file_page rf hw coff n c dummy) (\<lambda>r. returnIO (case r of None \<Rightarrow> Read_failed | Some p \<Rightarrow> Found p))
             else if c = tc then
               bindIO (callE vm_allocate_page) (\<lambda>d.
               bindIO (modifyIO (set_busy True d)) (\<lambda>_.
               bindIO (stepE (insert_cache_page hw c coff d)) (\<lambda>_. returnIO (Search_on (Some d)))))
             else returnIO (Search_on dummy)))"

text \<open>
  The loop. It returns the source page, the dummy page and whether the source page belongs to another
  cache; \<open>None\<close> when a read failed.
\<close>

partial_function (option) search_caches ::
  "'f reader \<Rightarrow> int \<Rightarrow> nat \<Rightarrow> u32 \<Rightarrow> int \<Rightarrow> nat option \<Rightarrow> nat option \<Rightarrow> bool \<Rightarrow> 'f fault_state
    \<Rightarrow> ((nat option \<times> nat option \<times> bool) option \<times> 'f fault_state) cres option" where
  "search_caches rf hw tc coff n cache dummy is_cow_page s =
     (case cache of
        None \<Rightarrow> Some (Inr (Some (None, dummy, is_cow_page), s))
      | Some c \<Rightarrow> Option.bind (search_cache rf hw tc coff n c dummy s) (\<lambda>r. case r of
            Inl e \<Rightarrow> Some (Inl e)
          | Inr (Found p, s') \<Rightarrow> Some (Inr (Some (Some p, dummy, is_cow_page), s'))
          | Inr (Read_failed, s') \<Rightarrow> Some (Inr (None, s'))
          | Inr (Search_on d, s') \<Rightarrow> search_caches rf hw tc coff n (cache_source (caches s' c)) d True s'))"

text \<open>What follows the loop: the page that will be mapped.\<close>

definition choose_page :: "int \<Rightarrow> bool \<Rightarrow> nat option \<Rightarrow> nat option \<Rightarrow> bool \<Rightarrow> ('f fault_state, nat) io" where
  "choose_page hw is_store source dummy is_cow_page = (case source of
       None \<Rightarrow> (case dummy of None \<Rightarrow> failIO Assert_failed
         | Some d \<Rightarrow> bindIO (modifyIO (set_busy False d)) (\<lambda>_. returnIO d))
     | Some p \<Rightarrow>
         if \<not> is_cow_page then returnIO p
         else (case dummy of None \<Rightarrow> failIO Assert_failed
           | Some d \<Rightarrow>
               if is_store then bindIO (stepE (copy_page d p)) (\<lambda>_. bindIO (modifyIO (set_busy False d)) (\<lambda>_. returnIO d))
               else bindIO (stepE (remove_cache_page hw d)) (\<lambda>_. bindIO (stepE (dec_page_ref d)) (\<lambda>_. returnIO p))))"

definition await_loaded :: "nat \<Rightarrow> ('f fault_state, unit) io" where
  "await_loaded p s = (if busy (pages s p) then None else Some (Inr ((), s)))"

definition fault_flags :: "bool \<Rightarrow> u32 \<Rightarrow> bool \<Rightarrow> bool \<Rightarrow> u32" where
  "fault_flags in_kernel aflags is_dirty is_store =
     PAGE_PRESENT OR (if aflags AND AREA_WRITABLE \<noteq> 0 \<and> (is_dirty \<or> is_store) then PAGE_WRITABLE else 0)
       OR (if aflags AND AREA_EXECUTABLE \<noteq> 0 then PAGE_EXECUTABLE else 0)
       OR (if in_kernel then PAGE_SUPERVISOR OR PAGE_GLOBAL else 0)"

text \<open>The last part of \<open>soft_fault\<close>, with the reference for the mapping.\<close>

definition map_fault_page :: "int \<Rightarrow> nat \<Rightarrow> u32 \<Rightarrow> u32 \<Rightarrow> bool \<Rightarrow> nat \<Rightarrow> ('f fault_state, bool) io" where
  "map_fault_page hw space aflags address is_store p =
     bindIO (modifyIO (inc_page_ref p)) (\<lambda>_.
     bindIO (unlock_vm_cache hw) (\<lambda>_.
     bindIO (await_loaded p) (\<lambda>_.
     bindIO (modifyIO (if is_store then set_dirty p else id)) (\<lambda>_.
     bindIO (getIO (\<lambda>s. (space_map (spaces s space), dirty (pages s p)))) (\<lambda>(m, is_dirty).
     bindIO (stepE (vm_map_page m address (page_to_pa p OR fault_flags (space = 0) aflags is_dirty is_store))) (\<lambda>_. returnIO True))))))"

definition soft_fault :: "'f reader \<Rightarrow> int \<Rightarrow> nat \<Rightarrow> vm_area \<Rightarrow> u32 \<Rightarrow> bool \<Rightarrow> ('f fault_state, bool) io" where
  "soft_fault rf hw space area address is_store =
     (if is_store \<and> area_flags area AND AREA_WRITABLE = 0 then returnIO False
      else let area_offset = PAGE_ALIGN (address - low_address area);
               coff = PAGE_ALIGN (area_offset + area_cache_offset area) in
        bindIO (lock_vm_cache hw) (\<lambda>_. case area_cache area of
            None \<Rightarrow> failIO Assert_failed
          | Some tc \<Rightarrow>
              bindIO (search_caches rf hw tc coff (size_to_read (area_cache_length area) area_offset) (Some tc) None False) (\<lambda>r. case r of
                  None \<Rightarrow> returnIO False
                | Some (source, dummy, is_cow_page) \<Rightarrow>
                    bindIO (choose_page hw is_store source dummy is_cow_page)
                      (map_fault_page hw space (area_flags area) address is_store))))"

text \<open>\<open>current\<close> is the address space of the current process.\<close>

definition handle_page_fault :: "'f reader \<Rightarrow> int \<Rightarrow> nat \<Rightarrow> u32 \<Rightarrow> bool \<Rightarrow> ('f fault_state, bool) io" where
  "handle_page_fault rf hw current address is_store =
     (let space = (if KERNEL_BASE \<le> address then 0 else current) in
      bindIO (getIO (\<lambda>s. lookup_area (space_areas (spaces s space)) address)) (\<lambda>area. case area of
          None \<Rightarrow> returnIO False
        | Some a \<Rightarrow> soft_fault rf hw space a address is_store))"

subsection \<open>Areas\<close>

definition set_areas :: "nat \<Rightarrow> vm_area_map \<Rightarrow> 'f fault_state \<Rightarrow> 'f fault_state" where
  "set_areas space m s = s\<lparr>spaces := (spaces s)(space := (spaces s space)\<lparr>space_areas := m\<rparr>)\<rparr>"

text \<open>An area is changed in place in the list of its map.\<close>

definition replace_area :: "vm_area \<Rightarrow> vm_area_map \<Rightarrow> vm_area_map" where
  "replace_area a m = m\<lparr>area_list := map (\<lambda>b. if low_address b = low_address a then a else b) (area_list m)\<rparr>"

partial_function (option) wire_area ::
  "'f reader \<Rightarrow> int \<Rightarrow> nat \<Rightarrow> vm_area \<Rightarrow> u32 \<Rightarrow> 'f fault_state \<Rightarrow> (unit \<times> 'f fault_state) cres option" where
  "wire_area rf hw space area fault_addr s =
     (if fault_addr < high_address area then
        Option.bind (soft_fault rf hw space area fault_addr True s) (\<lambda>r. case r of
            Inl e \<Rightarrow> Some (Inl e)
          | Inr (ok, s') \<Rightarrow> if ok then wire_area rf hw space area (fault_addr + KPAGE_SIZE) s' else Some (Inl Exit_called))
      else Some (Inr ((), s)))"

text \<open>\<open>fresh\<close> is the structure that the slab allocator returns for a new cache.\<close>

definition create_area ::
  "'f reader \<Rightarrow> int \<Rightarrow> nat \<Rightarrow> nat \<Rightarrow> u32 \<Rightarrow> u32 \<Rightarrow> placement \<Rightarrow> string \<Rightarrow> u32 \<Rightarrow> nat option \<Rightarrow> u32 \<Rightarrow> ('f fault_state, vm_area option) io" where
  "create_area rf hw fresh space address sz place name aflags cache offset =
     bindIO (modifyIO (case cache of None \<Rightarrow> create_vm_cache fresh None | Some c \<Rightarrow> inc_cache_ref c)) (\<lambda>_.
     bindIO (getIO (\<lambda>s. create_vm_area (space_areas (spaces s space)) address sz place name aflags)) (\<lambda>created. case created of
         None \<Rightarrow> returnIO None
       | Some (new, m) \<Rightarrow>
           let area = new\<lparr>area_cache := Some (case cache of None \<Rightarrow> fresh | Some c \<Rightarrow> c),
                         area_cache_offset := offset, area_cache_length := sz\<rparr> in
           bindIO (modifyIO (set_areas space (replace_area area m))) (\<lambda>_.
           bindIO (if aflags AND AREA_WIRED \<noteq> 0 then wire_area rf hw space area (low_address area) else returnIO ()) (\<lambda>_.
             returnIO (Some area)))))"

partial_function (option) release_pages :: "nat \<Rightarrow> u32 \<Rightarrow> u32 \<Rightarrow> 'f fault_state \<Rightarrow> 'f fault_state cres option" where
  "release_pages m high va s =
     (if va < high then
        (case query_translation_map m va s of
           Inl e \<Rightarrow> Some (Inl e)
         | Inr ptentry \<Rightarrow>
             (case if ptentry AND PAGE_PRESENT \<noteq> 0 then bindE (pa_to_page ptentry s) (\<lambda>p. dec_page_ref p s) else Inr s of
                Inl e \<Rightarrow> Some (Inl e)
              | Inr s' \<Rightarrow> release_pages m high (va + KPAGE_SIZE) s'))
      else Some (Inr s))"

definition destroy_area :: "int \<Rightarrow> nat \<Rightarrow> vm_area \<Rightarrow> ('f fault_state, unit) io" where
  "destroy_area hw space area =
     bindIO (\<lambda>s. map_option (\<lambda>r. bindE r (\<lambda>s'. Inr ((), s')))
               (release_pages (space_map (spaces s space)) (high_address area) (low_address area) s)) (\<lambda>_.
     bindIO (modifyIO (\<lambda>s. set_areas space (destroy_vm_area area (space_areas (spaces s space))) s)) (\<lambda>_.
       case area_cache area of None \<Rightarrow> returnIO () | Some c \<Rightarrow> dec_cache_ref hw c))"

partial_function (option) destroy_areas :: "int \<Rightarrow> nat \<Rightarrow> 'f fault_state \<Rightarrow> (unit \<times> 'f fault_state) cres option" where
  "destroy_areas hw space s = (case first_area (space_areas (spaces s space)) of
       None \<Rightarrow> Some (Inr ((), s))
     | Some area \<Rightarrow> Option.bind (case area_cache area of None \<Rightarrow> Some (Inr ((), s)) | Some c \<Rightarrow> dec_cache_ref hw c s) (\<lambda>r. case r of
           Inl e \<Rightarrow> Some (Inl e)
         | Inr (_, s') \<Rightarrow> destroy_areas hw space (set_areas space (destroy_vm_area area (space_areas (spaces s' space))) s')))"

definition destroy_address_space :: "int \<Rightarrow> nat \<Rightarrow> ('f fault_state, unit) io" where
  "destroy_address_space hw space =
     bindIO (destroy_areas hw space) (\<lambda>_ s. stepE (destroy_translation_map (space_map (spaces s space))) s)"

subsection \<open>Physical memory as bytes\<close>

definition page_data :: "(nat \<Rightarrow> nat \<Rightarrow> u32) \<Rightarrow> nat \<Rightarrow> u8 list" where
  "page_data f p = map (\<lambda>i. phys_byte f (4096 * p + i)) [0..<4096]"

lemma ucast_get32: "j < 4 \<Longrightarrow> ucast (drop_bit (8 * j) (get32 m a)) = m (a + j)"
proof -
  assume "j < 4"
  then consider "j = 0" | "j = 1" | "j = 2" | "j = 3" by linarith
  then show ?thesis
    by cases (rule bit_word_eqI; auto simp: get32_def bit_simps dest: bit_imp_le_length)+
qed

lemma phys_byte_word: "w < 1024 \<Longrightarrow> j < 4 \<Longrightarrow> phys_byte f (4096 * p + 4 * w + j) = ucast (drop_bit (8 * j) (f p w))"
proof -
  assume a: "w < 1024" "j < 4"
  have "4 * (1024 * p + w) + j = 4096 * p + 4 * w + j" by simp
  then have "(4096 * p + 4 * w + j) mod 4 = j" using a(2) by (metis mod_mult_self4 mod_less)
  moreover have "(4096 * p + 4 * w + j) div 4096 = p" "(4096 * p + 4 * w + j) mod 4096 div 4 = w"
    using a by (simp_all add: add.assoc div_mult_self4 mod_mult_self4)
  ultimately show ?thesis by (simp add: phys_byte_def)
qed

lemma get32_phys_byte: "w < 1024 \<Longrightarrow> get32 (phys_byte f) (4096 * p + 4 * w) = f p w"
proof (rule bit_word_eqI)
  fix i assume w: "w < 1024" and i: "i < LENGTH(32)"
  have b: "phys_byte f (4096 * p + 4 * w) = ucast (f p w)" "phys_byte f (4096 * p + 4 * w + 1) = ucast (drop_bit 8 (f p w))"
      "phys_byte f (4096 * p + 4 * w + 2) = ucast (drop_bit 16 (f p w))" "phys_byte f (4096 * p + 4 * w + 3) = ucast (drop_bit 24 (f p w))"
    using phys_byte_word [OF w, of 0 f p] phys_byte_word [OF w, of 1 f p] phys_byte_word [OF w, of 2 f p] phys_byte_word [OF w, of 3 f p] by simp_all
  consider "i < 8" | "8 \<le> i" "i < 16" | "16 \<le> i" "i < 24" | "24 \<le> i" by linarith
  then show "bit (get32 (phys_byte f) (4096 * p + 4 * w)) i = bit (f p w) i"
    unfolding get32_def b by cases (use i in \<open>simp_all add: bit_simps less_diff_conv2\<close>)
qed

lemma phys_byte_store: "phys_byte (store_bytes a bs f) x = (if a \<le> x \<and> x < a + length bs then bs ! (x - a) else phys_byte f x)"
proof -
  let ?p = "x div 4096" and ?w = "x mod 4096 div 4" and ?j = "x mod 4"
  have w: "?w < 1024" "?j < 4" by simp_all
  have "x mod 4096 mod 4 = ?j" by (simp add: mod_mod_cancel)
  then have x: "4096 * ?p + 4 * ?w + ?j = x" using div_mult_mod_eq [of x 4096] div_mult_mod_eq [of "x mod 4096" 4] by linarith
  have "phys_byte (store_bytes a bs f) x = ucast (drop_bit (8 * ?j) (store_bytes a bs f ?p ?w))"
    by (simp add: phys_byte_def)
  also have "\<dots> = (if a \<le> x \<and> x < a + length bs then bs ! (x - a) else phys_byte f x)"
    unfolding store_bytes_def using ucast_get32 [OF w(2), of _ "4096 * ?p + 4 * ?w"] w(1) x by simp
  finally show ?thesis .
qed

lemma store_other_page:
  assumes "4096 * p \<le> a" "a + length bs \<le> 4096 * p + 4096" "q \<noteq> p"
  shows "store_bytes a bs f q = f q"
proof
  fix w
  have "get32 (\<lambda>x. if a \<le> x \<and> x < a + length bs then bs ! (x - a) else phys_byte f x) (4096 * q + 4 * w) = get32 (phys_byte f) (4096 * q + 4 * w)"
    if w: "w < 1024"
  proof (rule get32_cong)
    fix i assume i: "4096 * q + 4 * w \<le> i" "i < 4096 * q + 4 * w + 4"
    have "p < q \<or> q < p" using assms(3) by auto
    then have "\<not> (a \<le> i \<and> i < a + length bs)" using assms(1,2) i w by auto
    then show "(if a \<le> i \<and> i < a + length bs then bs ! (i - a) else phys_byte f i) = phys_byte f i" by argo
  qed
  then show "store_bytes a bs f q w = f q w" using get32_phys_byte [of w f q] by (simp add: store_bytes_def)
qed

lemma page_data_copy: "f p = g q \<Longrightarrow> page_data f p = page_data g q"
proof -
  assume "f p = g q"
  moreover have "(4096 * r + i) mod 4 = i mod 4" for r i :: nat using mod_mult_self4 [of 4 "1024 * r" i] by simp
  ultimately show ?thesis by (intro nth_equalityI) (simp_all add: page_data_def phys_byte_def)
qed

lemmas page_data_cong = page_data_copy [of _ p _ p for p]

lemma page_data_zero: "page_data (f(p := (\<lambda>_. 0))) p = replicate 4096 0"
  by (rule nth_equalityI) (simp_all add: page_data_def phys_byte_def)

text \<open>A page of a file: at most \<open>n\<close> bytes of it, then zeros.\<close>

definition file_page :: "u8 list \<Rightarrow> int \<Rightarrow> u32 \<Rightarrow> u8 list" where
  "file_page bs n off = (let d = take (nat n) (drop (unat off) bs) in d @ replicate (4096 - length d) 0)"

lemma page_data_loaded:
  assumes len: "length d \<le> sz" "sz \<le> 4096" and zero: "f p = (\<lambda>_. 0)"
  shows "page_data (store_bytes (4096 * p + sz) (replicate (4096 - sz) 0) (store_bytes (4096 * p) d f)) p = d @ replicate (4096 - length d) 0"
    "sz = 4096 \<Longrightarrow> page_data (store_bytes (4096 * p) d f) p = d @ replicate (4096 - length d) 0"
proof -
  have z: "phys_byte f (4096 * p + i) = 0" if "i < 4096" for i using that zero by (simp add: phys_byte_def)
  show "page_data (store_bytes (4096 * p + sz) (replicate (4096 - sz) 0) (store_bytes (4096 * p) d f)) p = d @ replicate (4096 - length d) 0"
    "sz = 4096 \<Longrightarrow> page_data (store_bytes (4096 * p) d f) p = d @ replicate (4096 - length d) 0"
    using len by (auto intro!: nth_equalityI simp: page_data_def phys_byte_store nth_append z)
qed

subsection \<open>What a cache holds\<close>

text \<open>
  A page of a cache is the page in the hash table, or else the page of its file, or else what the caches
  behind it hold, and zeros at the end. \<open>chain\<close> lists the caches that a search visits; \<open>R\<close> are the
  contents of the files; \<open>n\<close> is how much the area of the fault reads of a file page.
\<close>

primrec chain :: "(nat \<Rightarrow> vm_cache) \<Rightarrow> nat option \<Rightarrow> nat list \<Rightarrow> bool" where
  "chain cf c [] \<longleftrightarrow> c = None"
| "chain cf c (x # xs) \<longleftrightarrow> c = Some x \<and> chain cf (cache_source (cf x)) xs"

definition page_view :: "'a cache_state_scheme \<Rightarrow> u32 \<Rightarrow> nat \<Rightarrow> u8 list option" where
  "page_view s off c = map_option (page_data (frames s)) (cache_at (c, off) s)"

definition file_view :: "(u32 \<Rightarrow> u8 list) \<Rightarrow> int \<Rightarrow> 'a cache_state_scheme \<Rightarrow> u32 \<Rightarrow> nat \<Rightarrow> u8 list option" where
  "file_view R n s off c = (if cache_file (caches s c) = 0 then None else Some (file_page (R (cache_file (caches s c))) n (PAGE_ALIGN off)))"

primrec seen :: "(nat \<Rightarrow> u8 list option) \<Rightarrow> (nat \<Rightarrow> u8 list option) \<Rightarrow> nat list \<Rightarrow> u8 list" where
  "seen V F [] = replicate 4096 0"
| "seen V F (c # cs) = (case V c of Some d \<Rightarrow> d | None \<Rightarrow> (case F c of Some d \<Rightarrow> d | None \<Rightarrow> seen V F cs))"

abbreviation holds :: "(u32 \<Rightarrow> u8 list) \<Rightarrow> int \<Rightarrow> 'a cache_state_scheme \<Rightarrow> u32 \<Rightarrow> nat list \<Rightarrow> u8 list" where
  "holds R n s off \<equiv> seen (page_view s off) (file_view R n s off)"

lemma chain_unique: "chain cf c xs \<Longrightarrow> chain cf c ys \<Longrightarrow> xs = ys"
proof (induction xs arbitrary: c ys)
  case Nil
  then show ?case by (cases ys) auto
next
  case (Cons x xs)
  then show ?case by (cases ys) auto
qed

lemma chain_suffix: "chain cf c (xs @ y # ys) \<Longrightarrow> chain cf (Some y) (y # ys)"
  by (induction xs arbitrary: c) auto

lemma chain_distinct: "chain cf c xs \<Longrightarrow> distinct xs"
proof (induction xs arbitrary: c)
  case (Cons x xs)
  have "x \<notin> set xs"
  proof
    assume "x \<in> set xs"
    then obtain us vs where s: "xs = us @ x # vs" by (auto simp: in_set_conv_decomp)
    then have "chain cf (Some x) (x # vs)" using Cons.prems chain_suffix [of cf c "x # us" x vs] by simp
    moreover have "chain cf (Some x) (x # xs)" using Cons.prems by simp
    ultimately have "x # vs = x # xs" by (rule chain_unique)
    then have "length vs = length xs" by simp
    then show False using s by simp
  qed
  then show ?case using Cons by auto
qed simp

text \<open>What happens to the state of the memory while the caches are searched.\<close>

definition loads :: "(u32 \<Rightarrow> u8 list) \<Rightarrow> int \<Rightarrow> u32 \<Rightarrow> 'f fault_state \<Rightarrow> 'f fault_state \<Rightarrow> bool" where
  "loads R n off s s' \<longleftrightarrow> fault_inv s' \<and> same_maps s s' \<and> cache_lock s' = cache_lock s \<and> debug_cache_lock_owner s' = debug_cache_lock_owner s
     \<and> spaces s' = spaces s \<and> (\<forall>c. cache_file (caches s' c) = cache_file (caches s c) \<and> cache_source (caches s' c) = cache_source (caches s c))
     \<and> (\<forall>k q. cache_at k s = Some q \<longrightarrow> cache_at k s' = Some q)
     \<and> (\<forall>q. cached s q \<longrightarrow> pages s' q = pages s q \<and> frames s' q = frames s q)
     \<and> (\<forall>q. cached s' q \<longrightarrow> cached s q \<or> \<not> busy (pages s' q))
     \<and> (\<forall>c x. page_view s' x c = page_view s x c
          \<or> page_view s x c = None \<and> PAGE_ALIGN x = off \<and> page_view s' x c = file_view R n s off c)"

lemma loads_refl: "fault_inv s \<Longrightarrow> loads R n off s s"
  by (simp add: loads_def)

lemma loads_seen: "loads R n off s s' \<Longrightarrow> holds R n s' x cs = holds R n s x cs"
proof (induction cs)
  case (Cons c cs)
  have l: "cache_file (caches s' c) = cache_file (caches s c)"
    "page_view s' x c = page_view s x c \<or> page_view s x c = None \<and> PAGE_ALIGN x = off \<and> page_view s' x c = file_view R n s off c"
    using Cons.prems by (auto simp: loads_def)
  then show ?case using Cons by (auto simp: file_view_def split: option.splits if_splits)
qed simp

lemma chain_loads: "loads R n off s s' \<Longrightarrow> chain (caches s') c cs = chain (caches s) c cs"
  by (induction cs arbitrary: c) (auto simp: loads_def)

lemma seen_cong: "(\<And>c. c \<in> set cs \<Longrightarrow> V c = V' c \<and> F c = F' c) \<Longrightarrow> seen V F cs = seen V' F' cs"
  by (induction cs) (auto split: option.splits)

lemma view_align: "PAGE_ALIGN x = PAGE_ALIGN y \<Longrightarrow> page_view s x = page_view s y \<and> file_view R n s x = file_view R n s y"
  by (auto simp: page_view_def file_view_def fun_eq_iff cache_at_def)

text \<open>
  Pages may appear in the cache as long as they have the contents of the file, or what the caches
  behind already held.
\<close>

definition refills :: "(u32 \<Rightarrow> u8 list) \<Rightarrow> int \<Rightarrow> nat \<Rightarrow> u32 \<Rightarrow> u8 list \<Rightarrow> 'a cache_state_scheme \<Rightarrow> 'a cache_state_scheme \<Rightarrow> bool" where
  "refills R n tc off D s s' \<longleftrightarrow> (\<forall>c. cache_file (caches s' c) = cache_file (caches s c) \<and> cache_source (caches s' c) = cache_source (caches s c))
     \<and> (\<forall>c x. page_view s' x c = page_view s x c \<or> page_view s x c = None \<and>
          (page_view s' x c = file_view R n s x c \<or> c = tc \<and> PAGE_ALIGN x = off \<and> page_view s' x c = Some D))"

lemma refills_holds:
  assumes r: "refills R n tc off (holds R n s off (tc # cs)) s s'" and tc: "chain (caches s) (Some tc) (tc # cs)" "PAGE_ALIGN off = off"
  shows "chain (caches s) c cs' \<Longrightarrow> holds R n s' x cs' = holds R n s x cs'"
proof (induction cs' arbitrary: c)
  case (Cons y ys)
  have y: "c = Some y" "holds R n s' x ys = holds R n s x ys" using Cons by auto
  have f: "file_view R n s' x y = file_view R n s x y" using r by (simp add: file_view_def refills_def)
  consider "page_view s' x y = page_view s x y" | "page_view s x y = None" "page_view s' x y = file_view R n s x y"
    | "y = tc" "PAGE_ALIGN x = off" "page_view s' x y = Some (holds R n s off (tc # cs))"
    using conjunct2 [OF r [unfolded refills_def], THEN spec, THEN spec, of x y] by argo
  then show ?case
  proof cases
    case 1
    show ?thesis unfolding seen.simps f y(2) 1 ..
  next
    case 2
    then show ?thesis unfolding seen.simps f y(2) by (auto split: option.splits)
  next
    case 3
    have "chain (caches s) c (tc # cs)" using y(1) 3(1) tc(1) by simp
    then have "y # ys = tc # cs" by (rule chain_unique [OF Cons.prems])
    moreover have "holds R n s x = holds R n s off" using view_align [of x off s R n] 3(2) tc(2) by simp
    ultimately show ?thesis using 3(3) by simp
  qed
qed simp

lemma chain_refills: "refills R n tc off D s s' \<Longrightarrow> chain (caches s') c cs = chain (caches s) c cs"
  by (induction cs arbitrary: c) (auto simp: refills_def)

lemma loads_refills: "loads R n off s s' \<Longrightarrow> refills R n tc off D s s'"
  unfolding loads_def refills_def using view_align [of _ off s R n] PAGE_ALIGN_idem by metis

lemma lock_free [simp]: "\<not> cache_lock s \<Longrightarrow> lock_vm_cache hw s = Some (Inr ((), s\<lparr>cache_lock := True, debug_cache_lock_owner := hw\<rparr>))"
  by (simp add: lock_vm_cache_def)

lemma unlock_own [simp]: "debug_cache_lock_owner s = hw \<Longrightarrow> unlock_vm_cache hw s = Some (Inr ((), s\<lparr>debug_cache_lock_owner := - 1, cache_lock := False\<rparr>))"
  by (simp add: unlock_vm_cache_def)

subsection \<open>The file system behind the caches\<close>

text \<open>What the fault handler relies on: a file is read in any pieces with the same contents.\<close>

locale file_reader =
  fixes rf :: "'f reader" and ready :: "'f \<Rightarrow> bool" and is_file :: "u32 \<Rightarrow> bool" and R :: "u32 \<Rightarrow> u8 list"
  assumes reads: "ready f \<Longrightarrow> is_file h \<Longrightarrow> unat off < 2147483648 \<Longrightarrow> unat sz < 2147483648
    \<Longrightarrow> \<exists>f'. rf h off sz f = Some (Inr ((int (length (take (unat sz) (drop (unat off) (R h)))), take (unat sz) (drop (unat off) (R h))), f')) \<and> ready f'"
begin

lemma read_limited:
  assumes f: "ready (backing s)" "is_file h" "unat off < 2147483648" and n: "n \<le> 4096" and d: "d = take (nat n) (drop (unat off) (R h))"
  shows "\<exists>f' :: 'f. (if 0 < n then zoomIO backing (\<lambda>f s. s\<lparr>backing := f\<rparr>) (rf h off (of_int n)) else returnIO (0, [])) s
      = Some (Inr ((int (length d), d), s\<lparr>backing := f'\<rparr>)) \<and> ready f'"
proof (cases "0 < n")
  case True
  have "uint (of_int n :: u32) = n" using True n by (simp add: word_of_int_inverse uint_word_of_int)
  then have u: "unat (of_int n :: u32) = nat n" by (metis nat_uint_eq)
  then have "unat (of_int n :: u32) < 2147483648" using n by simp
  from reads [OF f this] True u show ?thesis unfolding d by auto
next
  case False
  then show ?thesis using f(1) d by (intro exI [of _ "backing s"]) simp
qed

lemma load_file_page_ok:
  assumes inv: "fault_inv s" "debug_cache_lock_owner s = hw" "cache_lock s" "ready (backing s)"
    and none: "cache_at (c, off) s = None" and off: "PAGE_ALIGN off = off" "unat off < 2147483648" and n: "n \<le> 4096"
    and h: "cache_file (caches s c) \<noteq> 0" "is_file (cache_file (caches s c))"
  shows "load_file_page rf hw off n c dummy s = Some (Inl Exit_called)
    \<or> (\<exists>p s'. load_file_page rf hw off n c dummy s = Some (Inr (Some p, s')) \<and> loads R n off s s' \<and> ready (backing s')
        \<and> cache_at (c, off) s' = Some p \<and> page_data (frames s') p = file_page (R (cache_file (caches s c))) n off)"
proof (cases "vm_allocate_page s")
  case (Inl e)
  then show ?thesis by (auto simp: load_file_page_def vm_allocate_page_def split: list.splits)
next
  case (Inr ps)
  obtain p s1 where al: "vm_allocate_page s = Inr (p, s1)" using Inr by (cases ps) auto
  define s2 where "s2 = set_busy True p s1"
  obtain s3 where s3: "insert_cache_page hw c off p s2 = Inr s3" "fault_inv s3" "same_maps s s3" "s3 = cache_add (c, off) p s2"
      "\<And>k. cache_at k s3 = (if (fst k, PAGE_ALIGN (snd k)) = (c, off) then Some p else cache_at k s)"
      "\<not> cached s p" "data_page s p" "frames s3 = (frames s)(p := (\<lambda>_. 0))" "\<And>q. q \<noteq> p \<Longrightarrow> pages s3 q = pages s q"
      "\<And>q. cached s3 q \<longleftrightarrow> cached s q \<or> q = p"
    using new_cache_page [OF inv(1,2) none al, of s2] off(1) by (auto simp: s2_def set_busy_def)
  obtain fl pg fr where "s1 = s\<lparr>free_page_list := fl, pages := pg, frames := fr\<rparr>"
    using al by (auto simp: vm_allocate_page_def split: list.splits)
  then have keep: "caches s1 = caches s" "backing s1 = backing s" "debug_cache_lock_owner s1 = debug_cache_lock_owner s" "cache_lock s1 = cache_lock s" "spaces s1 = spaces s"
    by simp_all
  have f3: "cache_file (caches s3 x) = cache_file (caches s x)" "cache_source (caches s3 x) = cache_source (caches s x)" "backing s3 = backing s"
      "debug_cache_lock_owner s3 = hw" "cache_lock s3" "spaces s3 = spaces s" for x
    using inv keep by (simp_all add: s3(4) s2_def set_busy_def cache_add_def Let_def)
  let ?h = "cache_file (caches s c)" and ?sz = "nat (max n 0)"
  define d where "d = take (nat n) (drop (unat off) (R ?h))"
  define s4 where "s4 = s3\<lparr>debug_cache_lock_owner := - 1, cache_lock := False\<rparr>"
  have len: "length d \<le> ?sz" "?sz \<le> 4096" using n by (simp_all add: d_def)
  have "ready (backing s4)" using inv(4) f3(3) by (simp add: s4_def)
  from read_limited [OF this h(2) off(2) n d_def] obtain f' where
    rd: "(if 0 < n then zoomIO backing (\<lambda>f s. s\<lparr>backing := f\<rparr>) (rf ?h off (of_int n)) else returnIO (0, [])) s4
      = Some (Inr ((int (length d), d), s4\<lparr>backing := f'\<rparr>))" "ready f'" by blast
  let ?F1 = "store_bytes (4096 * p) d (frames s3)"
  define F where "F = (if ?sz < 4096 then store_bytes (4096 * p + ?sz) (replicate (4096 - ?sz) 0) ?F1 else ?F1)"
  define s5 where "s5 = s4\<lparr>backing := f'\<rparr>"
  have pn: "4096 * p + 4096 \<le> 4096 * num_pages s5"
    using s3(3,7) by (simp add: s5_def s4_def data_page_def same_maps_def num_pages_def)
  have w1: "write_phys (4096 * p) d s5 = Inr (s5\<lparr>frames := ?F1\<rparr>)"
    using pn len by (simp add: write_phys_def s5_def s4_def)
  have w2: "(if ?sz < 4096 then stepE (write_phys (4096 * p + ?sz) (replicate (4096 - ?sz) 0)) else returnIO ()) (s5\<lparr>frames := ?F1\<rparr>)
      = Some (Inr ((), s5\<lparr>frames := F\<rparr>))"
    using pn by (simp add: stepE_def write_phys_def F_def num_pages_def)
  define s9 where "s9 = set_busy False p (s5\<lparr>frames := F, cache_lock := True, debug_cache_lock_owner := hw\<rparr>)"
  define s8 where "s8 = s5\<lparr>frames := F, cache_lock := True, debug_cache_lock_owner := hw\<rparr>"
  have steps: "callE vm_allocate_page s = Some (Inr (p, s1))" "modifyIO (set_busy True p) s1 = Some (Inr ((), s2))"
      "stepE (insert_cache_page hw c off p) s2 = Some (Inr ((), s3))" "unlock_vm_cache hw s3 = Some (Inr ((), s4))"
      "getIO (\<lambda>s. cache_file (caches s c)) s4 = Some (Inr (?h, s4))"
      "stepE (write_phys (4096 * p) d) s5 = Some (Inr ((), s5\<lparr>frames := ?F1\<rparr>))"
      "lock_vm_cache hw (s5\<lparr>frames := F\<rparr>) = Some (Inr ((), s8))" "modifyIO (set_busy False p) s8 = Some (Inr ((), s9))"
    using al s3(1) f3(1,4) w1 by (simp_all add: s2_def s4_def s5_def s8_def s9_def)
  have "\<not> int (length d) < 0" by simp
  then have run: "load_file_page rf hw off n c dummy s = Some (Inr (Some p, s9))"
    unfolding load_file_page_def
    by (simp only: bindIO_returns steps rd(1) [folded s5_def] w2 prod.case if_False Let_def returnIO_apply)
  have pd: "data_page s3 p" using s3(3,7) same_maps_data by metis
  have Fq: "F q = frames s3 q" if "q \<noteq> p" for q
    using that len store_other_page [of p "4096 * p" d q "frames s3"] store_other_page [of p "4096 * p + ?sz" "replicate (4096 - ?sz) 0" q ?F1]
    by (simp add: F_def)
  have data: "page_data F p = file_page (R ?h) n off"
  proof -
    have "frames s3 p = (\<lambda>_. 0)" using s3(8) by simp
    note l = page_data_loaded [of d ?sz "frames s3" p, OF len this]
    have "\<not> ?sz < 4096 \<Longrightarrow> ?sz = 4096" using len(2) by linarith
    then show ?thesis
      unfolding F_def file_page_def d_def [symmetric] Let_def using l by (cases "?sz < 4096") (simp_all only: if_True if_False simp_thms)
  qed
  have st: "fault_inv s9" "same_maps s3 s9" "cached s9 = cached s3" "\<And>k. cache_at k s9 = cache_at k s3"
    by (rule data_step [OF s3(2) pd, of s9]; simp add: s9_def s5_def s4_def set_busy_def page_key_def Fq)+
  have "cache_at k s = Some q \<Longrightarrow> cache_at k s9 = Some q" for k q
    using none page_store.lookup_norm [of k "(c, off)" s] off(1) unfolding st(4) s3(5) by auto
  moreover have "pages s9 q = pages s q \<and> frames s9 q = frames s q" if "cached s q" for q
    using that s3(6,8) s3(9) [of q] Fq [of q] by (auto simp: s9_def s5_def s4_def set_busy_def)
  moreover have "cached s q \<or> \<not> busy (pages s9 q)" if "cached s9 q" for q
    using that unfolding st(3) s3(10) by (auto simp: s9_def set_busy_def)
  moreover have "page_view s9 x y = page_view s x y \<or> page_view s x y = None \<and> PAGE_ALIGN x = off \<and> page_view s9 x y = file_view R n s off y" for x y
  proof (cases "(y, PAGE_ALIGN x) = (c, off)")
    case True
    then have "cache_at (y, x) s = None" using none page_store.lookup_norm [of "(y, x)" "(c, off)" s] off(1) by simp
    moreover have "cache_at (y, x) s9 = Some p" using True unfolding st(4) s3(5) by simp
    ultimately show ?thesis using True data h(1) off(1) by (simp add: page_view_def file_view_def s9_def set_busy_def)
  next
    case False
    then have at: "cache_at (y, x) s9 = cache_at (y, x) s" unfolding st(4) s3(5) by auto
    have "page_data (frames s9) q = page_data (frames s) q" if "cache_at (y, x) s = Some q" for q
    proof -
      have "q \<noteq> p" using cache_at_cached [OF that] s3(6) by auto
      then show ?thesis using Fq [of q] s3(8) by (intro page_data_cong) (simp add: s9_def s5_def s4_def set_busy_def)
    qed
    then show ?thesis using at by (cases "cache_at (y, x) s") (simp_all add: page_view_def)
  qed
  moreover have "same_maps s s9" by (rule same_maps_trans [OF s3(3) st(2)])
  ultimately have "loads R n off s s9"
    using st(1) f3 inv unfolding loads_def by (simp add: s9_def s5_def s4_def set_busy_def)
  moreover have "ready (backing s9)" "cache_at (c, off) s9 = Some p" "page_data (frames s9) p = file_page (R ?h) n off"
    using rd(2) st(4) s3(5) off(1) data by (simp_all add: s9_def s5_def s4_def set_busy_def)
  ultimately show ?thesis using run by blast
qed

text \<open>The caches behind the first one, which has no dummy page of its own.\<close>

lemma search_tail:
  assumes "fault_inv s" "debug_cache_lock_owner s = hw" "cache_lock s" "ready (backing s)"
    and "chain (caches s) c cs" "tc \<notin> set cs" "PAGE_ALIGN off = off" "unat off < 2147483648" "n \<le> 4096"
    and "\<forall>c\<in>set cs. cache_file (caches s c) \<noteq> 0 \<longrightarrow> is_file (cache_file (caches s c))"
  shows "search_caches rf hw tc off n c dummy True s = Some (Inl Exit_called)
    \<or> (\<exists>src s'. search_caches rf hw tc off n c dummy True s = Some (Inr (Some (src, dummy, True), s')) \<and> loads R n off s s' \<and> ready (backing s')
        \<and> (case src of None \<Rightarrow> holds R n s off cs = replicate 4096 0 \<and> s' = s
            | Some p \<Rightarrow> (\<exists>c\<in>set cs. cache_at (c, off) s' = Some p) \<and> page_data (frames s') p = holds R n s off cs))"
  using assms(5,6,10)
proof (induction cs arbitrary: c)
  case Nil
  then show ?case using loads_refl [OF assms(1), of R n off] assms(4) by (subst search_caches.simps) auto
next
  case (Cons x cs)
  have c: "c = Some x" "chain (caches s) (cache_source (caches s x)) cs" "x \<noteq> tc" using Cons.prems by auto
  have lk: "readE (lookup_cache_page hw x off) s = Some (Inr (cache_at (x, off) s, s))"
    using lookup_cache_page_at [OF assms(2)] by simp
  show ?case
  proof (cases "cache_at (x, off) s")
    case (Some p)
    then have "search_cache rf hw tc off n x dummy s = Some (Inr (Found p, s))" using lk by (simp add: search_cache_def)
    then show ?thesis
      using Some loads_refl [OF assms(1), of R n off] assms(4) c(1) by (subst (1 2) search_caches.simps) (auto simp: page_view_def)
  next
    case None
    show ?thesis
    proof (cases "cache_file (caches s x) = 0")
      case True
      then have "search_cache rf hw tc off n x dummy s = Some (Inr (Search_on dummy, s))"
        using None lk c(3) by (simp add: search_cache_def)
      then have e1: "search_caches rf hw tc off n c dummy True s = search_caches rf hw tc off n (cache_source (caches s x)) dummy True s"
        using c(1) by (subst search_caches.simps) simp
      have e2: "holds R n s off (x # cs) = holds R n s off cs" using True None by (simp add: page_view_def file_view_def)
      note e = e1 e2
      have "tc \<notin> set cs" "\<forall>c\<in>set cs. cache_file (caches s c) \<noteq> 0 \<longrightarrow> is_file (cache_file (caches s c))" using Cons.prems(2,3) by auto
      from Cons.IH [OF c(2) this] show ?thesis
      proof (elim disjE exE conjE)
        fix src s' assume r: "search_caches rf hw tc off n (cache_source (caches s x)) dummy True s = Some (Inr (Some (src, dummy, True), s'))"
          "loads R n off s s'" "ready (backing s')"
          "case src of None \<Rightarrow> holds R n s off cs = replicate 4096 0 \<and> s' = s
            | Some p \<Rightarrow> (\<exists>c\<in>set cs. cache_at (c, off) s' = Some p) \<and> page_data (frames s') p = holds R n s off cs"
        then show ?thesis unfolding e by (intro disjI2 exI [of _ src] exI [of _ s']) (auto split: option.splits)
      qed (simp add: e)
    next
      case False
      have sc: "search_cache rf hw tc off n x dummy s
          = bindIO (load_file_page rf hw off n x dummy) (\<lambda>r. returnIO (case r of None \<Rightarrow> Read_failed | Some p \<Rightarrow> Found p)) s"
        using None lk False by (simp add: search_cache_def)
      have "is_file (cache_file (caches s x))" using Cons.prems(3) False by simp
      from load_file_page_ok [OF assms(1-4) None assms(7-9) False this, of dummy] show ?thesis
      proof (elim disjE exE conjE)
        assume "load_file_page rf hw off n x dummy s = Some (Inl Exit_called)"
        then show ?thesis using sc c(1) by (subst search_caches.simps) simp
      next
        fix p s' assume l: "load_file_page rf hw off n x dummy s = Some (Inr (Some p, s'))" "loads R n off s s'" "ready (backing s')"
          "cache_at (x, off) s' = Some p" "page_data (frames s') p = file_page (R (cache_file (caches s x))) n off"
        then have "search_caches rf hw tc off n c dummy True s = Some (Inr (Some (Some p, dummy, True), s'))"
          using sc c(1) by (subst search_caches.simps) simp
        moreover have "holds R n s off (x # cs) = file_page (R (cache_file (caches s x))) n off"
          using None False assms(7) by (simp add: page_view_def file_view_def)
        ultimately show ?thesis using l by auto
      qed
    qed
  qed
qed

text \<open>The page that the handler maps, with the lock still held.\<close>

definition picked :: "int \<Rightarrow> bool \<Rightarrow> nat \<Rightarrow> u32 \<Rightarrow> u8 list \<Rightarrow> int \<Rightarrow> 'f fault_state \<Rightarrow> nat \<Rightarrow> 'f fault_state \<Rightarrow> bool" where
  "picked hw is_store tc off D n s p s' \<longleftrightarrow> fault_inv s' \<and> same_maps s s' \<and> debug_cache_lock_owner s' = hw \<and> cache_lock s' \<and> spaces s' = spaces s
     \<and> ready (backing s') \<and> cached s' p \<and> (\<forall>q. cached s' q \<longrightarrow> \<not> busy (pages s' q)) \<and> page_data (frames s') p = D
     \<and> (is_store \<longrightarrow> cache_at (tc, off) s' = Some p) \<and> refills R n tc off D s s'"

lemma choose_loaded:
  assumes l: "loads R n off s s'" "ready (backing s')" "cache_at (tc, off) s' = Some p" "page_data (frames s') p = D"
    and s: "debug_cache_lock_owner s = hw" "cache_lock s" "\<And>q. cached s q \<Longrightarrow> \<not> busy (pages s q)"
  shows "picked hw is_store tc off D n s p s'"
  using l s cache_at_cached [OF l(3)] loads_refills [OF l(1)] unfolding picked_def loads_def by auto

lemma choose_dummy:
  assumes s: "fault_inv s" "debug_cache_lock_owner s = hw" "cache_lock s" "ready (backing s)" "\<And>q. cached s q \<Longrightarrow> \<not> busy (pages s q)"
    and none: "cache_at (tc, off) s = None" "cache_file (caches s tc) = 0"
    and ch: "chain (caches s) (Some tc) (tc # cs)" and off: "PAGE_ALIGN off = off" "unat off < 2147483648" and n: "n \<le> 4096"
    and files: "\<forall>c\<in>set cs. cache_file (caches s c) \<noteq> 0 \<longrightarrow> is_file (cache_file (caches s c))"
  shows "search_caches rf hw tc off n (Some tc) None False s = Some (Inl Exit_called)
    \<or> (\<exists>src d s2 p s3. search_caches rf hw tc off n (Some tc) None False s = Some (Inr (Some (src, d, True), s2))
        \<and> choose_page hw is_store src d True s2 = Some (Inr (p, s3)) \<and> picked hw is_store tc off (holds R n s off (tc # cs)) n s p s3)"
proof (cases "vm_allocate_page s")
  case (Inl e)
  then have "e = Exit_called" by (auto simp: vm_allocate_page_def split: list.splits)
  then have "search_cache rf hw tc off n tc None s = Some (Inl Exit_called)"
    using none lookup_cache_page_at [OF s(2)] Inl by (simp add: search_cache_def)
  then show ?thesis by (subst search_caches.simps) simp
next
  case (Inr ps)
  obtain d s1 where al: "vm_allocate_page s = Inr (d, s1)" using Inr by (cases ps) auto
  define s1' where "s1' = set_busy True d s1"
  obtain s2 where s2: "insert_cache_page hw tc off d s1' = Inr s2" "fault_inv s2" "same_maps s s2" "s2 = cache_add (tc, off) d s1'"
      "\<And>k. cache_at k s2 = (if (fst k, PAGE_ALIGN (snd k)) = (tc, off) then Some d else cache_at k s)"
      "\<not> cached s d" "data_page s d" "frames s2 = (frames s)(d := (\<lambda>_. 0))" "ref_count (pages s2 d) = 1"
      "\<And>q. q \<noteq> d \<Longrightarrow> pages s2 q = pages s q" "\<And>q. cached s2 q \<longleftrightarrow> cached s q \<or> q = d"
    using new_cache_page [OF s(1,2) none(1) al, of s1'] off(1) by (auto simp: s1'_def set_busy_def)
  have "caches s1 = caches s" "backing s1 = backing s" "debug_cache_lock_owner s1 = debug_cache_lock_owner s" "cache_lock s1 = cache_lock s" "spaces s1 = spaces s"
    using al by (auto simp: vm_allocate_page_def split: list.splits)
  then have f2: "cache_file (caches s2 x) = cache_file (caches s x)" "cache_source (caches s2 x) = cache_source (caches s x)" "backing s2 = backing s"
      "debug_cache_lock_owner s2 = hw" "cache_lock s2" "spaces s2 = spaces s" for x
    using s by (simp_all add: s2(4) s1'_def set_busy_def cache_add_def Let_def)
  have view2: "page_view s2 x y = (if (y, PAGE_ALIGN x) = (tc, off) then Some (replicate 4096 0) else page_view s x y)" for x y
  proof (cases "(y, PAGE_ALIGN x) = (tc, off)")
    case True
    then show ?thesis using page_data_zero [of "frames s" d] by (simp add: page_view_def s2(5,8))
  next
    case False
    have "page_data (frames s2) q = page_data (frames s) q" if "cache_at (y, x) s = Some q" for q
      using cache_at_cached [OF that] s2(6,8) by (intro page_data_cong) auto
    moreover have "cache_at (y, x) s2 = cache_at (y, x) s" using False by (auto simp: s2(5))
    ultimately show ?thesis using False by (cases "cache_at (y, x) s") (auto simp: page_view_def)
  qed
  have tc: "tc \<notin> set cs" "chain (caches s) (cache_source (caches s tc)) cs" using ch chain_distinct [OF ch] by auto
  have "chain (caches s2) c zs = chain (caches s) c zs" for c zs by (induction zs arbitrary: c) (simp_all add: f2(2))
  then have ch2: "chain (caches s2) (cache_source (caches s2 tc)) cs" using tc(2) by (simp add: f2(2))
  have "search_cache rf hw tc off n tc None s = Some (Inr (Search_on (Some d), s2))"
    using none lookup_cache_page_at [OF s(2)] al s2(1) by (simp add: search_cache_def s1'_def)
  then have go: "search_caches rf hw tc off n (Some tc) None False s = search_caches rf hw tc off n (cache_source (caches s2 tc)) (Some d) True s2"
    by (subst search_caches.simps) simp
  have rest: "holds R n s off (tc # cs) = holds R n s2 off cs"
  proof -
    have "holds R n s off (tc # cs) = holds R n s off cs" using none by (simp add: page_view_def file_view_def)
    also have "\<dots> = holds R n s2 off cs" using tc(1) view2 f2(1) by (intro seen_cong) (auto simp: file_view_def)
    finally show ?thesis .
  qed
  let ?D = "holds R n s off (tc # cs)"
  have "ready (backing s2)" "\<forall>c\<in>set cs. cache_file (caches s2 c) \<noteq> 0 \<longrightarrow> is_file (cache_file (caches s2 c))"
    using s(4) files f2 by simp_all
  from search_tail [OF s2(2) f2(4,5) this(1) ch2 tc(1) off n this(2), of "Some d"] show ?thesis
  proof (elim disjE exE conjE)
    assume "search_caches rf hw tc off n (cache_source (caches s2 tc)) (Some d) True s2 = Some (Inl Exit_called)"
    then show ?thesis unfolding go by blast
  next
    fix src s3 assume r: "search_caches rf hw tc off n (cache_source (caches s2 tc)) (Some d) True s2 = Some (Inr (Some (src, Some d, True), s3))"
        "loads R n off s2 s3" "ready (backing s3)"
      and src: "case src of None \<Rightarrow> holds R n s2 off cs = replicate 4096 0 \<and> s3 = s2
            | Some p \<Rightarrow> (\<exists>c\<in>set cs. cache_at (c, off) s3 = Some p) \<and> page_data (frames s3) p = holds R n s2 off cs"
    note l = r(2) [unfolded loads_def]
    have at3: "cache_at (tc, off) s3 = Some d" using l s2(5) [of "(tc, off)"] off(1) by auto
    have "fault_inv s3" "\<forall>q. cached s2 q \<longrightarrow> pages s3 q = pages s2 q \<and> frames s3 q = frames s2 q" using l by simp_all
    then have d3: "pages s3 d = pages s2 d" "data_page s3 d" using cache_at_cached [OF at3] s2(11) by (auto simp: fault_inv_def)
    have quiet: "\<not> busy (pages s3 q)" if "cached s3 q" "q \<noteq> d" for q
      using that l s(5) s2(10,11) by metis
    have view3: "page_view s3 x y = page_view s x y \<or> page_view s x y = None \<and> page_view s3 x y = file_view R n s x y"
      if "(y, PAGE_ALIGN x) \<noteq> (tc, off)" for x y
    proof -
      have "page_view s2 x y = page_view s x y" "file_view R n s2 off y = file_view R n s off y"
        using view2 [of x y] that f2(1) by (auto simp: file_view_def)
      moreover have "PAGE_ALIGN x = off \<Longrightarrow> file_view R n s off y = file_view R n s x y" using view_align [of x off s R n] off(1) by simp
      ultimately show ?thesis using l by metis
    qed
    have view_none: "page_view s x tc = None" if "PAGE_ALIGN x = off" for x
      using that none(1) view_align [of x off s R n] off(1) by (simp add: page_view_def)
    have files3: "cache_file (caches s3 c) = cache_file (caches s c) \<and> cache_source (caches s3 c) = cache_source (caches s c)" for c
      using l f2(1,2) by simp
    have maps3: "same_maps s s3" using l same_maps_trans [OF s2(3)] by blast
    show ?thesis
    proof (cases "src = None \<or> is_store")
      case True
      define F where "F = (case src of None \<Rightarrow> frames s3 | Some p \<Rightarrow> (frames s3)(d := frames s3 p))"
      define s4 where "s4 = set_busy False d (s3\<lparr>frames := F\<rparr>)"
      have run: "choose_page hw is_store src (Some d) True s3 = Some (Inr (d, s4))"
      proof (cases src)
        case None
        then show ?thesis by (simp add: choose_page_def s4_def F_def)
      next
        case (Some p)
        then have "cached s3 p" using src cache_at_cached by auto
        then have "p < num_pages s3" "d < num_pages s3" using l d3(2) by (auto simp: fault_inv_def data_page_def)
        then have "stepE (copy_page d p) s3 = Some (Inr ((), s3\<lparr>frames := F\<rparr>))" by (simp add: copy_page_def F_def Some)
        then show ?thesis using Some True by (simp add: choose_page_def s4_def)
      qed
      have Fd: "page_data F d = ?D" "\<And>q. q \<noteq> d \<Longrightarrow> F q = frames s3 q"
      proof -
        show "page_data F d = ?D"
        proof (cases src)
          case None
          then show ?thesis using src page_data_zero [of "frames s" d] unfolding rest F_def by (simp add: s2(8))
        next
          case (Some p)
          then have "page_data F d = page_data (frames s3) p" by (intro page_data_copy) (simp add: F_def)
          then show ?thesis using src Some rest by simp
        qed
      qed (simp add: F_def split: option.split)
      have st: "fault_inv s4" "same_maps s3 s4" "cached s4 = cached s3" "\<And>k. cache_at k s4 = cache_at k s3"
        by (rule data_step [of s3 d s4]; use l d3(2) in \<open>simp add: s4_def set_busy_def page_key_def Fd(2)\<close>)+
      have f4: "frames s4 = F" "debug_cache_lock_owner s4 = hw" "cache_lock s4" "spaces s4 = spaces s" "backing s4 = backing s3" "caches s4 = caches s3"
        using l f2 by (simp_all add: s4_def set_busy_def)
      have view4: "page_view s4 x y = (if (y, PAGE_ALIGN x) = (tc, off) then Some ?D else page_view s3 x y)" for x y
      proof (cases "(y, PAGE_ALIGN x) = (tc, off)")
        case True
        then have "cache_at (y, x) s4 = Some d" using at3 page_store.lookup_norm [of "(y, x)" "(tc, off)" s3] off(1) unfolding st(4) by simp
        then show ?thesis using True Fd(1) f4(1) by (simp add: page_view_def)
      next
        case False
        have "page_data F q = page_data (frames s3) q" if "cache_at (y, x) s3 = Some q" for q
        proof -
          have "q \<noteq> d" using cache_at_cached [OF that] cache_at_cached [OF at3] False off(1) by auto
          then show ?thesis by (intro page_data_cong Fd(2))
        qed
        then show ?thesis unfolding if_not_P [OF False] using f4(1) by (cases "cache_at (y, x) s3") (simp_all add: page_view_def st(4))
      qed
      have "refills R n tc off ?D s s4"
        unfolding refills_def f4(6) using files3 view3 view_none view4 by (metis prod.inject)
      moreover have "\<not> busy (pages s4 q)" if "cached s4 q" for q
        using that quiet [of q] unfolding st(3) by (cases "q = d") (simp_all add: s4_def set_busy_def)
      moreover have "cached s4 d" using cache_at_cached [OF at3] st(3) by simp
      moreover have "same_maps s s4" by (rule same_maps_trans [OF maps3 st(2)])
      ultimately have "picked hw is_store tc off ?D n s d s4"
        unfolding picked_def using st f4 Fd(1) r(3) at3 by simp
      then show ?thesis unfolding go using r(1) run by blast
    next
      case False
      then obtain p where p: "src = Some p" "\<not> is_store" by auto
      then obtain c where c: "c \<in> set cs" "cache_at (c, off) s3 = Some p" "page_data (frames s3) p = ?D" using src rest by auto
      have pd: "p \<noteq> d" using cache_at_cached [OF c(2)] cache_at_cached [OF at3] c(1) tc(1) by auto
      have "ref_count (pages s3 d) = 1" using d3(1) s2(9) by simp
      moreover have "fault_inv s3" "debug_cache_lock_owner s3 = hw" using l f2 by auto
      ultimately obtain s3' s4 where s4: "remove_cache_page hw d s3 = Inr s3'" "dec_page_ref d s3' = Inr s4" "fault_inv s4" "same_maps s3 s4"
          "\<And>k. cache_at k s4 = (if (fst k, PAGE_ALIGN (snd k)) = (tc, off) then None else cache_at k s3)"
          "frames s4 = frames s3" "\<And>q. q \<noteq> d \<Longrightarrow> pages s4 q = pages s3 q" "\<And>q. cached s4 q \<longleftrightarrow> cached s3 q \<and> q \<noteq> d"
          "s4 = (cache_drop d s3)\<lparr>pages := pages s4, free_page_list := d # free_page_list s3\<rparr>"
        using drop_cache_page [of s3 hw tc off d] at3 off(1) by auto
      have run: "choose_page hw is_store src (Some d) True s3 = Some (Inr (p, s4))"
        using p s4(1,2) by (simp add: choose_page_def)
      have f4: "debug_cache_lock_owner s4 = hw" "cache_lock s4" "spaces s4 = spaces s" "backing s4 = backing s3"
          "cache_file (caches s4 y) = cache_file (caches s3 y)" "cache_source (caches s4 y) = cache_source (caches s3 y)" for y
        using l f2 by (subst s4(9), simp add: cache_drop_def)+
      have "page_view s4 x y = (if (y, PAGE_ALIGN x) = (tc, off) then None else page_view s3 x y)" for x y
        by (simp add: page_view_def s4(5,6))
      then have "refills R n tc off ?D s s4"
        unfolding refills_def f4(5,6) using files3 view3 view_none by (metis prod.inject)
      moreover have "cached s4 p" using cache_at_cached [OF c(2)] pd s4(8) by simp
      moreover have "same_maps s s4" by (rule same_maps_trans [OF maps3 s4(4)])
      moreover have "\<not> busy (pages s4 q)" if "cached s4 q" for q using that quiet [of q] s4(7,8) by simp
      ultimately have "picked hw is_store tc off ?D n s p s4"
        unfolding picked_def using s4(3,6) f4 c(3) r(3) p(2) by simp
      then show ?thesis unfolding go using r(1) run by blast
    qed
  qed
qed

lemma find_page:
  assumes s: "fault_inv s" "debug_cache_lock_owner s = hw" "cache_lock s" "ready (backing s)" "\<forall>q. cached s q \<longrightarrow> \<not> busy (pages s q)"
    and ch: "chain (caches s) (Some tc) (tc # cs)" and off: "PAGE_ALIGN off = off" "unat off < 2147483648" and n: "n \<le> 4096"
    and files: "\<forall>c\<in>set (tc # cs). cache_file (caches s c) \<noteq> 0 \<longrightarrow> is_file (cache_file (caches s c))"
  shows "search_caches rf hw tc off n (Some tc) None False s = Some (Inl Exit_called)
    \<or> (\<exists>src d cow s2 p s3. search_caches rf hw tc off n (Some tc) None False s = Some (Inr (Some (src, d, cow), s2))
        \<and> choose_page hw is_store src d cow s2 = Some (Inr (p, s3)) \<and> picked hw is_store tc off (holds R n s off (tc # cs)) n s p s3)"
proof -
  note quiet = s(5) [rule_format]
  show ?thesis
  proof (cases "cache_at (tc, off) s")
  case (Some p)
  then have "search_cache rf hw tc off n tc None s = Some (Inr (Found p, s))"
    using lookup_cache_page_at [OF s(2)] by (simp add: search_cache_def)
  then have "search_caches rf hw tc off n (Some tc) None False s = Some (Inr (Some (Some p, None, False), s))"
    by (subst search_caches.simps) simp
  moreover have "choose_page hw is_store (Some p) None False s = Some (Inr (p, s))" by (simp add: choose_page_def)
  moreover have "picked hw is_store tc off (holds R n s off (tc # cs)) n s p s"
    using Some by (intro choose_loaded [OF loads_refl [OF s(1)] s(4) Some _ s(2,3) quiet]) (simp_all add: page_view_def)
  ultimately show ?thesis by blast
next
  case None
  show ?thesis
  proof (cases "cache_file (caches s tc) = 0")
    case True
    have "\<forall>c\<in>set cs. cache_file (caches s c) \<noteq> 0 \<longrightarrow> is_file (cache_file (caches s c))" using files by simp
    from choose_dummy [OF s(1-4) quiet None True ch off n this] show ?thesis by blast
  next
    case False
    have sc: "search_cache rf hw tc off n tc None s
        = bindIO (load_file_page rf hw off n tc None) (\<lambda>r. returnIO (case r of None \<Rightarrow> Read_failed | Some p \<Rightarrow> Found p)) s"
      using None lookup_cache_page_at [OF s(2)] False by (simp add: search_cache_def)
    have "is_file (cache_file (caches s tc))" using files False by simp
    from load_file_page_ok [OF s(1-4) None off n False this, of None] show ?thesis
    proof (elim disjE exE conjE)
      assume "load_file_page rf hw off n tc None s = Some (Inl Exit_called)"
      then show ?thesis using sc by (subst search_caches.simps) simp
    next
      fix p s' assume l: "load_file_page rf hw off n tc None s = Some (Inr (Some p, s'))" "loads R n off s s'" "ready (backing s')"
        "cache_at (tc, off) s' = Some p" "page_data (frames s') p = file_page (R (cache_file (caches s tc))) n off"
      have "search_caches rf hw tc off n (Some tc) None False s = Some (Inr (Some (Some p, None, False), s'))"
        using sc l(1) by (subst search_caches.simps) simp
      moreover have "choose_page hw is_store (Some p) None False s' = Some (Inr (p, s'))" by (simp add: choose_page_def)
      moreover have "holds R n s off (tc # cs) = file_page (R (cache_file (caches s tc))) n off"
        using None False off(1) by (simp add: page_view_def file_view_def)
      then have "picked hw is_store tc off (holds R n s off (tc # cs)) n s p s'"
        using l(5) by (intro choose_loaded [OF l(2-4) _ s(2,3) quiet]) simp_all
      ultimately show ?thesis by blast
    qed
  qed
qed
qed

lemma map_fault_page_ok:
  assumes p: "picked hw is_store tc off D n s p s1" and m: "m = space_map (spaces s space)"
    and va: "address < KERNEL_BASE \<and> m \<in> set (map_list s) \<or> KERNEL_BASE \<le> address \<and> present s (slot_of s m address)"
  shows "map_fault_page hw space aflags address is_store p s1 = Some (Inl Exit_called)
    \<or> (\<exists>s' d. map_fault_page hw space aflags address is_store p s1 = Some (Inr (True, s')) \<and> fault_inv s' \<and> \<not> cache_lock s' \<and> ready (backing s')
        \<and> spaces s' = spaces s \<and> map_list s' = map_list s \<and> (\<forall>q. cached s' q \<longrightarrow> \<not> busy (pages s' q)) \<and> refills R n tc off D s s' \<and> page_data (frames s') p = D
        \<and> (is_store \<longrightarrow> cache_at (tc, off) s' = Some p)
        \<and> (\<forall>m' va. KERNEL_BASE \<le> va \<or> m' \<in> set (map_list s) \<longrightarrow> query_translation_map m' va s'
            = (if unat va div 4096 = unat address div 4096 \<and> (KERNEL_BASE \<le> address \<or> m' = m)
               then Inr (page_to_pa p OR fault_flags (space = 0) aflags d is_store) else query_translation_map m' va s)))"
proof -
  have pk: "fault_inv s1" "same_maps s s1" "debug_cache_lock_owner s1 = hw" "cache_lock s1" "spaces s1 = spaces s" "ready (backing s1)" "cached s1 p"
      "\<And>q. cached s1 q \<Longrightarrow> \<not> busy (pages s1 q)" "page_data (frames s1) p = D" "is_store \<longrightarrow> cache_at (tc, off) s1 = Some p" "refills R n tc off D s s1"
    using p unfolding picked_def by auto
  have pd: "data_page s1 p" "page_in_use s1 p" using pk(1,7) by (auto simp: fault_inv_def)
  define s2 where "s2 = (if is_store then set_dirty p else id) ((inc_page_ref p s1)\<lparr>debug_cache_lock_owner := - 1, cache_lock := False\<rparr>)"
  have pg: "pages s2 = (pages s1)(p := (pages s1 p)\<lparr>ref_count := ref_count (pages s1 p) + 1, dirty := dirty (pages s1 p) \<or> is_store\<rparr>)"
    by (simp add: s2_def set_dirty_def inc_page_ref_def)
  have fields: "kernel_dir s2 = kernel_dir s1" "maps s2 = maps s1" "map_list s2 = map_list s1" "phys_size s2 = phys_size s1" "free_page_list s2 = free_page_list s1"
      "hash_table s2 = hash_table s1" "caches s2 = caches s1" "frames s2 = frames s1" "spaces s2 = spaces s" "backing s2 = backing s1" "\<not> cache_lock s2"
    using pk(5) by (auto simp: s2_def set_dirty_def inc_page_ref_def)
  have nf: "p \<notin> set (free_page_list s1)" using pd(2) pk(1) by (auto simp: fault_inv_def space_ok_def page_state_ok_def page_in_use_def)
  have st: "fault_inv s2" "same_maps s1 s2" "cached s2 = cached s1" "\<And>k. cache_at k s2 = cache_at k s1"
    by (rule data_step [OF pk(1) pd(1) fields(1-7)]; use nf in \<open>simp add: pg page_key_def fields(8)\<close>)+
  have sm: "same_maps s s2" by (rule same_maps_trans [OF pk(2) st(2)])
  have va2: "address < KERNEL_BASE \<and> m \<in> set (map_list s2) \<or> KERNEL_BASE \<le> address \<and> present s2 (slot_of s2 m address)"
    using va sm slot_of_slots [of address m s] unfolding same_maps_def by auto
  have quiet: "\<not> busy (pages s2 q)" if "cached s2 q" for q using that pk(8) [of q] st(3) by (auto simp: pg)
  let ?f = "page_to_pa p OR fault_flags (space = 0) aflags (dirty (pages s2 p)) is_store"
  have run: "map_fault_page hw space aflags address is_store p s1 = bindIO (stepE (vm_map_page m address ?f)) (\<lambda>_. returnIO True) s2"
  proof -
    define t where "t = (inc_page_ref p s1)\<lparr>debug_cache_lock_owner := - 1, cache_lock := False\<rparr>"
    have "unlock_vm_cache hw (inc_page_ref p s1) = Some (Inr ((), t))" "await_loaded p t = Some (Inr ((), t))"
        "modifyIO (if is_store then set_dirty p else id) t = Some (Inr ((), s2))"
      using pk(3) pk(8) [OF pk(7)] by (simp_all add: t_def s2_def inc_page_ref_def await_loaded_def)
    then show ?thesis unfolding map_fault_page_def using m fields(9) by simp
  qed
  show ?thesis
  proof (cases "vm_map_page m address ?f s2")
    case (Inl e)
    then have "e = Exit_called" using vm_map_page_ok [OF _ va2, of ?f] st(1) by (simp add: fault_inv_def)
    then show ?thesis using run Inl by simp
  next
    case (Inr s')
    note k = map_keeps_cache [OF st(1) va2 Inr]
    have ml: "map_list s2 = map_list s" using sm by (simp add: same_maps_def)
    have q: "query_translation_map m' va s' = (if unat va div 4096 = unat address div 4096 \<and> (KERNEL_BASE \<le> address \<or> m' = m) then Inr ?f
        else query_translation_map m' va s)" if "KERNEL_BASE \<le> va \<or> m' \<in> set (map_list s)" for m' va
    proof -
      have "space_ok s2" using st(1) by (simp add: fault_inv_def)
      from vm_map_page_ok [OF this va2, of ?f] have "\<forall>m' va'. KERNEL_BASE \<le> va' \<or> m' \<in> set (map_list s) \<longrightarrow> query_translation_map m' va' s'
            = (if unat va' div 4096 = unat address div 4096 \<and> (KERNEL_BASE \<le> address \<or> m' = m) then Inr ?f else query_translation_map m' va' s2)"
        unfolding Inr ml sum.case by blast
      moreover have "query_translation_map m' va s2 = query_translation_map m' va s" using sm that unfolding same_maps_def by blast
      ultimately show ?thesis using that by (simp only: simp_thms)
    qed
    have keep: "caches s' = caches s1" "spaces s' = spaces s" "backing s' = backing s1" "\<not> cache_lock s'" "map_list s' = map_list s"
      using k(5) fields ml by auto
    have data: "page_data (frames s') q = page_data (frames s1) q" if "cached s1 q" for q
      using k(4) [of q] that st(3) fields(8) by (intro page_data_cong) simp
    have "page_view s' x y = page_view s1 x y" for x y
      using data cache_at_cached [of "(y, x)" s1] by (cases "cache_at (y, x) s1") (simp_all add: page_view_def k(3) st(4))
    then have "refills R n tc off D s s'" using pk(11) unfolding refills_def keep(1) by simp
    moreover have "\<forall>q. cached s' q \<longrightarrow> \<not> busy (pages s' q)" using quiet k(2,4) by simp
    moreover have "page_data (frames s') p = D" using data [OF pk(7)] pk(9) by simp
    moreover have "is_store \<longrightarrow> cache_at (tc, off) s' = Some p" using pk(10) k(3) st(4) by simp
    ultimately show ?thesis using run Inr k(1) keep pk(6) q by (intro disjI2 exI [of _ s'] exI [of _ "dirty (pages s2 p)"]) simp
  qed
qed

lemma soft_fault_ok:
  assumes s: "fault_inv s" "\<not> cache_lock s" "ready (backing s)" "\<forall>q. cached s q \<longrightarrow> \<not> busy (pages s q)"
    and area: "area_cache area = Some tc" "chain (caches s) (Some tc) (tc # cs)" "is_store \<longrightarrow> area_flags area AND AREA_WRITABLE \<noteq> 0"
    and files: "\<forall>c\<in>set (tc # cs). cache_file (caches s c) \<noteq> 0 \<longrightarrow> is_file (cache_file (caches s c))"
    and off: "off = PAGE_ALIGN (PAGE_ALIGN (address - low_address area) + area_cache_offset area)" "unat off < 2147483648"
    and n: "n = size_to_read (area_cache_length area) (PAGE_ALIGN (address - low_address area))" "n \<le> 4096"
    and m: "m = space_map (spaces s space)"
      "address < KERNEL_BASE \<and> m \<in> set (map_list s) \<or> KERNEL_BASE \<le> address \<and> present s (slot_of s m address)"
    and D: "D = holds R n s off (tc # cs)"
  shows "soft_fault rf hw space area address is_store s = Some (Inl Exit_called)
    \<or> (\<exists>s' p d. soft_fault rf hw space area address is_store s = Some (Inr (True, s')) \<and> fault_inv s' \<and> \<not> cache_lock s' \<and> ready (backing s')
        \<and> spaces s' = spaces s \<and> map_list s' = map_list s \<and> (\<forall>q. cached s' q \<longrightarrow> \<not> busy (pages s' q)) \<and> page_data (frames s') p = D
        \<and> (is_store \<longrightarrow> cache_at (tc, off) s' = Some p)
        \<and> (\<forall>c cs' x. chain (caches s) c cs' \<longrightarrow> chain (caches s') c cs' \<and> holds R n s' x cs' = holds R n s x cs')
        \<and> (\<forall>m' va. KERNEL_BASE \<le> va \<or> m' \<in> set (map_list s) \<longrightarrow> query_translation_map m' va s'
            = (if unat va div 4096 = unat address div 4096 \<and> (KERNEL_BASE \<le> address \<or> m' = m)
               then Inr (page_to_pa p OR fault_flags (space = 0) (area_flags area) d is_store) else query_translation_map m' va s)))"
proof -
  define s1 where "s1 = s\<lparr>cache_lock := True, debug_cache_lock_owner := hw\<rparr>"
  have al: "PAGE_ALIGN off = off" by (simp add: off(1))
  have c: "cache_inv s" using s(1) by (simp add: fault_inv_def)
  have c1: "cache_inv s1" "cached s1 = cached s" "cache_at k s1 = cache_at k s" for k
    by (rule cache_same [of s1 s, OF _ _ _ c]; simp add: s1_def page_key_def)+
  have rd: "read_entry t i s1 = read_entry t i s" for t i
    by (cases "unat t div 4096 < num_pages s") (simp_all add: read_entry_def num_pages_def s1_def)
  have sm: "dir_frames s1 = dir_frames s" "slots s1 = slots s" "slot_of s1 = slot_of s" "num_pages s1 = num_pages s"
      "present s1 = present s" "table_of s1 = table_of s" "page_in_use s1 = page_in_use s"
      "query_translation_map m' va s1 = query_translation_map m' va s" for m' va
    unfolding query_translation_map_def rd by (simp_all add: s1_def dir_frames_def slots_def slot_of_def num_pages_def present_def table_of_def
        page_in_use_def fun_eq_iff)
  have fl: "free_page_list s1 = free_page_list s" "page_state_ok s1"
    using s(1) by (simp_all add: s1_def fault_inv_def space_ok_def page_state_ok_def num_pages_def)
  then have "space_ok s1" using s(1) unfolding fault_inv_def space_ok_def sm(1-6) fl(1) by blast
  moreover have "data_page s1 = data_page s" unfolding data_page_def sm(1-6) ..
  ultimately have inv1: "fault_inv s1" using s(1) c1 sm(7) by (simp add: fault_inv_def)
  have f1: "caches s1 = caches s" "spaces s1 = spaces s" "backing s1 = backing s" "pages s1 = pages s" "debug_cache_lock_owner s1 = hw" "cache_lock s1" "map_list s1 = map_list s"
    by (simp_all add: s1_def)
  have "page_view s1 x y = page_view s x y" "file_view R n s1 x y = file_view R n s x y" for x y
    by (simp_all add: page_view_def file_view_def c1(3) f1(1)) (simp add: s1_def)
  then have h1: "holds R n s1 x cs' = holds R n s x cs'" for x cs' by (intro seen_cong) simp
  have run: "soft_fault rf hw space area address is_store s
      = bindIO (search_caches rf hw tc off n (Some tc) None False) (\<lambda>r. case r of None \<Rightarrow> returnIO False
          | Some (source, dummy, is_cow_page) \<Rightarrow> bindIO (choose_page hw is_store source dummy is_cow_page)
              (map_fault_page hw space (area_flags area) address is_store)) s1"
    using area(1,3) s(2) unfolding soft_fault_def Let_def off(1) [symmetric] n(1) [symmetric] by (auto simp: s1_def)
  have "ready (backing s1)" "\<forall>q. cached s1 q \<longrightarrow> \<not> busy (pages s1 q)" "chain (caches s1) (Some tc) (tc # cs)"
      "\<forall>c\<in>set (tc # cs). cache_file (caches s1 c) \<noteq> 0 \<longrightarrow> is_file (cache_file (caches s1 c))"
    using s area files c1(2) f1 by simp_all
  from find_page [OF inv1 f1(5,6) this(1-3) al off(2) n(2) this(4), of is_store] show ?thesis
  proof (elim disjE exE conjE)
    assume "search_caches rf hw tc off n (Some tc) None False s1 = Some (Inl Exit_called)"
    then show ?thesis using run by simp
  next
    fix src d cow s2 p s3
    assume r: "search_caches rf hw tc off n (Some tc) None False s1 = Some (Inr (Some (src, d, cow), s2))"
      "choose_page hw is_store src d cow s2 = Some (Inr (p, s3))" "picked hw is_store tc off (holds R n s1 off (tc # cs)) n s1 p s3"
    then have run': "soft_fault rf hw space area address is_store s = map_fault_page hw space (area_flags area) address is_store p s3"
      using run by simp
    have "m = space_map (spaces s1 space)" "address < KERNEL_BASE \<and> m \<in> set (map_list s1) \<or> KERNEL_BASE \<le> address \<and> present s1 (slot_of s1 m address)"
      using m f1 sm by simp_all
    note mf = map_fault_page_ok [OF r(3)[unfolded h1, folded D] this, of "area_flags area"]
    have "chain (caches s1) c cs' \<longrightarrow> chain (caches s') c cs' \<and> holds R n s' x cs' = holds R n s1 x cs'"
      if "refills R n tc off D s1 s'" for s' :: "'f fault_state" and c cs' x
      using that refills_holds [of R n tc off s1 cs s'] chain_refills [OF that] area(2) al unfolding h1 D f1(1) by blast
    then show ?thesis using mf unfolding run' h1 f1 sm(8) by (elim disjE exE conjE) auto
  qed
qed

end

lemma size_to_read_le:
  assumes "unat area_offset \<le> 2147483648"
  shows "size_to_read len area_offset \<le> 4096"
proof (cases "len < area_offset")
  case True
  have "len - area_offset = of_int (int (unat len) - int (unat area_offset))" by simp
  moreover have less: "unat len < unat area_offset" using True by (simp add: word_less_nat_alt)
  then have "sint (of_int (int (unat len) - int (unat area_offset)) :: u32) = int (unat len) - int (unat area_offset)"
    using assms by (intro sint_of_int) linarith+
  ultimately have "sint (len - area_offset) = int (unat len) - int (unat area_offset)" by (simp only:)
  then have "size_to_read len area_offset = int (unat len) - int (unat area_offset)" using True by (simp add: size_to_read_def)
  then show ?thesis using less by linarith
next
  case False
  have "sint (len - area_offset) = int (unat (len - area_offset))" if "len - area_offset < KPAGE_SIZE"
    using that by (intro sint_small) (simp add: word_less_nat_alt)
  moreover have "int (unat (len - area_offset)) \<le> 4096" if "len - area_offset < KPAGE_SIZE"
  proof -
    have "unat (len - area_offset) < 4096" using that by (simp add: word_less_nat_alt)
    then show ?thesis by linarith
  qed
  ultimately have "sint (len - area_offset) \<le> 4096" if "len - area_offset < KPAGE_SIZE" using that by (simp only:)
  then show ?thesis using False by (simp add: size_to_read_def)
qed

subsection \<open>Files on the card\<close>

text \<open>The handles that \<open>open_file\<close> made for the files of the image.\<close>

definition card_files :: "u8 list \<Rightarrow> fs_file list \<Rightarrow> machine fs_state \<Rightarrow> machine fs_state \<Rightarrow> bool" where
  "card_files img files s0 s \<longleftrightarrow> fs_image img files \<and> sd_ready img s0 s"

definition is_handle :: "fs_file list \<Rightarrow> machine fs_state \<Rightarrow> u32 \<Rightarrow> bool" where
  "is_handle files s0 h \<longleftrightarrow> (\<exists>(name, start, contents)\<in>set files.
     file_handles s0 h = \<lparr>base_location = of_nat start, handle_length = of_nat (length contents)\<rparr>)"

definition handle_contents :: "u8 list \<Rightarrow> machine fs_state \<Rightarrow> u32 \<Rightarrow> u8 list" where
  "handle_contents img s0 h = take (unat (handle_length (file_handles s0 h))) (drop (unat (base_location (file_handles s0 h))) img)"

interpretation card_reader: file_reader "read_file emu_mmio" "card_files img files s0" "is_handle files s0" "handle_contents img s0" for img files s0
proof unfold_locales
  fix f h and off sz :: u32
  assume a: "card_files img files s0 f" "is_handle files s0 h" "unat off < 2147483648" "unat sz < 2147483648"
  obtain name start contents where c: "(name, start, contents) \<in> set files"
      "file_handles s0 h = \<lparr>base_location = of_nat start, handle_length = of_nat (length contents)\<rparr>"
    using a(2) by (auto simp: is_handle_def)
  have i: "fs_image img files" "sd_ready img s0 f" using a(1) by (auto simp: card_files_def)
  have "start + length contents < 2147483648" "contents \<noteq> [] \<Longrightarrow> take (length contents) (drop start img) = contents"
    using i(1) c(1) by (auto simp: fs_image_def)
  then have hc: "handle_contents img s0 h = contents"
    by (cases "contents = []") (simp_all add: handle_contents_def c(2) unat_of_nat)
  have self: "sd_ready img f f" by (rule sd_ready_self [OF i(2)]) simp_all
  have fh: "file_handles f h = \<lparr>base_location = of_nat start, handle_length = of_nat (length contents)\<rparr>"
    using i(2) c(2) by (auto simp: sd_ready_def)
  from read_file_ok [OF self i(1) c(1) fh a(3,4)] obtain f' where f': "read_file emu_mmio h off sz f
      = Some (Inr ((int (length (take (unat sz) (drop (unat off) contents))), take (unat sz) (drop (unat off) contents)), f'))" "sd_ready img f f'"
    by blast
  have "sd_ready img s0 f'" using f'(2) i(2) by (auto simp: sd_ready_def)
  then show "\<exists>f'. read_file emu_mmio h off sz f = Some (Inr ((int (length (take (unat sz) (drop (unat off) (handle_contents img s0 h)))),
      take (unat sz) (drop (unat off) (handle_contents img s0 h))), f')) \<and> card_files img files s0 f'"
    using f'(1) i(1) unfolding hc card_files_def by blast
qed


text \<open>
  A process whose writable area at 0x400000 has cache 7 in front of cache 8, which is the file of handle
  0x2000. No page is in memory yet.
\<close>

definition faulting :: "'f \<Rightarrow> 'f fault_state" where
  "faulting f = cache_state.extend (empty_cache\<lparr>free_page_list := [4, 5, 6], cache_lock := False,
       caches := (\<lambda>c. \<lparr>page_list = [], cache_file = (if c = 8 then 0x2000 else 0), cache_refs = 1, cache_source = (if c = 7 then Some 8 else None)\<rparr>)\<rparr>)
     \<lparr>spaces = (\<lambda>_. \<lparr>space_areas = \<lparr>am_low = 0x1000, am_high = 0xbfffffff, area_list = [\<lparr>low_address = 0x400000, high_address = 0x401fff,
        area_cache = Some 7, area_cache_offset = 0, area_cache_length = 0x2000, area_flags = AREA_WRITABLE, area_name = ''data''\<rparr>]\<rparr>, space_map = 0\<rparr>),
      backing = f\<rparr>"

lemma faulting_simps [simp]:
  "backing (faulting f) = f" "\<not> cache_lock (faulting f)" "hash_table (faulting f) b = []" "map_list (faulting f) = [0, 1]" "space_map (spaces (faulting f) sp) = 0"
  "cache_file (caches (faulting f) c) = (if c = 8 then 0x2000 else 0)" "cache_source (caches (faulting f) c) = (if c = 7 then Some 8 else None)"
  by (simp_all add: faulting_def cache_state.extend_def empty_cache_def small_system_def translation_state.extend_def)

lemma faulting_inv: "fault_inv (faulting f)" "\<not> cached (faulting f) p"
proof -
  show c: "\<not> cached (faulting f) p" for p by (simp add: cached_def)
  have "space_ok (faulting f)"
    by (auto simp: space_ok_def faulting_def cache_state.extend_def empty_cache_def small_system_def translation_state.extend_def
        page_state_ok_def dir_frames_def present_def num_pages_def)
  moreover have "page_list (caches (faulting f) y) = []" for y by (simp add: faulting_def cache_state.extend_def)
  then have "cache_inv (faulting f)" using c by (simp add: cache_inv_def)
  ultimately show "fault_inv (faulting f)" using c by (simp add: fault_inv_def)
qed

lemma card_with_file:
  "\<exists>img files s0. card_files img files s0 s0 \<and> is_handle files s0 0x2000 \<and> handle_contents img s0 0x2000 = [1, 2, 3]"
proof -
  let ?host = "\<lambda>p :: u8 list. if p = [0x64, 0x2f, 0x61] then Some [1, 2, 3] else None" and ?fs = "[([0x61], [1, 2, 3])]"
  have files: "list_all2 (plain_file ?host) [[0x64, 0x2f, 0x61]] ?fs" "\<exists>f\<in>set ?fs. snd f \<noteq> []"
    by (simp_all add: plain_file_def normalize_file_name_def)
  have "512 = round512 (8 + 40 * length ?fs)" "layout_end 512 ?fs < 2147483648" by simp_all
  from mkfs_image [OF files this, of "\<lambda>_. 7"] obtain img where img: "fs_image img (layout 512 ?fs)" "512 dvd length img" "length img < 2147483648"
    by blast
  have "card_new img (sdmmc (dev (snd (sd_state (booted img)))))" by (simp add: booted_def card_new_open)
  from carries_at [OF init_card_ok [OF sends_kernel, of 0] this] obtain d :: machine where "card_idle img False False (sdmmc (dev d))" by auto
  moreover define s0 where "s0 = (booted img)\<lparr>sd_state := (False, d), file_handles := (\<lambda>_. \<lparr>base_location = 512, handle_length = 3\<rparr>)\<rparr>"
  ultimately have "sd_ready img s0 s0" using sd_readyI [of s0 img d] img by (simp add: s0_def booted_def)
  moreover have "([0x61], 512, [1, 2, 3]) \<in> set (layout 512 ?fs)" by simp
  moreover from this have "take 3 (drop 512 img) = [1, 2, 3]" using img(1) by (auto simp: fs_image_def numeral_3_eq_3)
  ultimately show ?thesis using img(1)
    by (intro exI [of _ img] exI [of _ "layout 512 ?fs"] exI [of _ s0])
      (auto simp: card_files_def is_handle_def handle_contents_def s0_def)
qed


subsection \<open>Failed reads\<close>



subsection \<open>Removing an area\<close>

definition same_tables :: "'a translation_state_scheme \<Rightarrow> 'a translation_state_scheme \<Rightarrow> bool" where
  "same_tables s s' \<longleftrightarrow> frames s' = frames s \<and> phys_size s' = phys_size s \<and> kernel_dir s' = kernel_dir s \<and> maps s' = maps s"

lemma same_tables_query: "same_tables s s' \<Longrightarrow> query_translation_map m va s' = query_translation_map m va s"
proof -
  assume st: "same_tables s s'"
  have "read_entry t i s' = read_entry t i s" for t i using st by (simp add: read_entry_def num_pages_def same_tables_def)
  then show ?thesis using st by (simp only: query_translation_map_def same_tables_def)
qed

lemma dec_page_ref_tables: "dec_page_ref p s = Inr s' \<Longrightarrow> same_tables s s'"
  by (auto simp: dec_page_ref_def same_tables_def Let_def split: if_splits)

lemma release_pages_tables: "release_pages m high va s = Some (Inr s') \<Longrightarrow> same_tables s s'"
proof -
  have "case r of Inl _ \<Rightarrow> True | Inr s' \<Rightarrow> same_tables s s'" if "release_pages m high va s = Some r" for r
  proof (rule release_pages.raw_induct [OF _ that])
    fix rec m high va s r
    assume 1: "\<And>m high va s r. rec m high va s = Some r \<Longrightarrow> (case r of Inl _ \<Rightarrow> True | Inr s' \<Rightarrow> same_tables s s')"
      "(if va < high then
          (case query_translation_map m va s of
             Inl e \<Rightarrow> Some (Inl e)
           | Inr ptentry \<Rightarrow>
               (case if ptentry AND PAGE_PRESENT \<noteq> 0 then bindE (pa_to_page ptentry s) (\<lambda>p. dec_page_ref p s) else Inr s of
                  Inl e \<Rightarrow> Some (Inl e)
                | Inr s' \<Rightarrow> rec m high (va + KPAGE_SIZE) s'))
        else Some (Inr s)) = Some r"
    show "case r of Inl _ \<Rightarrow> True | Inr s' \<Rightarrow> same_tables s s'"
    proof (cases "va < high")
      case True
      obtain pte where pte: "query_translation_map m va s = Inr pte \<or> (\<exists>e. r = Inl e)"
        using 1(2) True by (cases "query_translation_map m va s") auto
      then show ?thesis
      proof (elim disjE exE)
        assume q: "query_translation_map m va s = Inr pte"
        show ?thesis
        proof (cases "if pte AND PAGE_PRESENT \<noteq> 0 then bindE (pa_to_page pte s) (\<lambda>p. dec_page_ref p s) else Inr s")
          case (Inl e)
          then show ?thesis using 1(2) True q by (auto split: sum.splits)
        next
          case (Inr s1)
          then have s1: "same_tables s s1"
            by (cases "pte AND PAGE_PRESENT = 0"; cases "pa_to_page pte s") (auto simp: same_tables_def dest: dec_page_ref_tables)
          have "rec m high (va + KPAGE_SIZE) s1 = Some r" using 1(2) True q Inr by simp
          from 1(1) [OF this] show ?thesis using s1 by (auto simp: same_tables_def split: sum.splits)
        qed
      qed simp
    next
      case False
      then show ?thesis using 1(2) by (auto simp: same_tables_def)
    qed
  qed
  then show "release_pages m high va s = Some (Inr s') \<Longrightarrow> same_tables s s'" by fastforce
qed

lemma free_cache_pages_tables: "free_cache_pages hw ps s = Inr s' \<Longrightarrow> same_tables s s'"
proof (induction ps arbitrary: s)
  case (Cons p ps)
  then obtain s1 s2 where s: "remove_cache_page hw p s = Inr s1" "dec_page_ref p s1 = Inr s2" "free_cache_pages hw ps s2 = Inr s'"
    by (auto simp: bindE_def split: sum.splits)
  have "same_tables s s1" using s(1) by (auto simp: remove_cache_page_def same_tables_def split: if_splits)
  then show ?case using dec_page_ref_tables [OF s(2)] Cons.IH [OF s(3)] by (simp add: same_tables_def)
qed (simp add: same_tables_def)

lemma destroy_cache_pages_tables: "destroy_cache_pages hw c s = Some (Inr (u, s')) \<Longrightarrow> same_tables s s'"
  using free_cache_pages_tables [of hw "page_list (caches s c)" "s\<lparr>cache_lock := True, debug_cache_lock_owner := hw\<rparr>"]
  by (fastforce simp: destroy_cache_pages_def bindIO_eq_Inr lock_vm_cache_def unlock_vm_cache_def same_tables_def split: if_splits sum.splits)

lemma dec_cache_ref_tables: "dec_cache_ref hw c s = Some (Inr (u, s')) \<Longrightarrow> same_tables s s'"
proof -
  have "case r of Inl _ \<Rightarrow> True | Inr x \<Rightarrow> same_tables s (snd x)" if "dec_cache_ref hw c s = Some r" for r
  proof (rule dec_cache_ref.raw_induct [OF _ that])
    fix rec hw c s r
    assume 1: "\<And>hw c s r. rec hw c s = Some r \<Longrightarrow> (case r of Inl _ \<Rightarrow> True | Inr x \<Rightarrow> same_tables s (snd x))"
      "(if debug_cache_lock_owner s = hw \<or> cache_refs (caches s c) \<le> 0 then Some (Inl Assert_failed)
        else let s1 = s\<lparr>caches := (caches s)(c := (caches s c)\<lparr>cache_refs := cache_refs (caches s c) - 1\<rparr>)\<rparr> in
          if cache_refs (caches s c) \<noteq> 1 then Some (Inr ((), s1))
          else Option.bind (case cache_source (caches s c) of None \<Rightarrow> Some (Inr ((), s1)) | Some src \<Rightarrow> rec hw src s1)
            (\<lambda>r. case r of Inl e \<Rightarrow> Some (Inl e) | Inr (_, s2) \<Rightarrow> destroy_cache_pages hw c s2)) = Some r"
    define s1 where "s1 = s\<lparr>caches := (caches s)(c := (caches s c)\<lparr>cache_refs := cache_refs (caches s c) - 1\<rparr>)\<rparr>"
    have s1: "same_tables s s1" by (simp add: s1_def same_tables_def)
    show "case r of Inl _ \<Rightarrow> True | Inr x \<Rightarrow> same_tables s (snd x)"
    proof (cases r)
      case (Inr x)
      let ?sub = "case cache_source (caches s c) of None \<Rightarrow> Some (Inr ((), s1)) | Some src \<Rightarrow> rec hw src s1"
      note run = 1(2) [unfolded Let_def s1_def [symmetric] Inr]
      show ?thesis
      proof (cases "cache_refs (caches s c) = 1 \<and> \<not> (debug_cache_lock_owner s = hw \<or> cache_refs (caches s c) \<le> 0)")
        case True
        then have "Option.bind ?sub (\<lambda>r. case r of Inl e \<Rightarrow> Some (Inl e) | Inr (_, s2) \<Rightarrow> destroy_cache_pages hw c s2) = Some (Inr x)"
          using run by simp
        then obtain q where q: "?sub = Some (Inr ((), q))" "destroy_cache_pages hw c q = Some (Inr x)"
          by (cases ?sub) (auto split: sum.splits)
        have "same_tables s1 q"
          using q(1) 1(1) [of hw _ s1 "Inr ((), q)"] by (cases "cache_source (caches s c)") (auto simp: same_tables_def)
        moreover have "same_tables q (snd x)" using destroy_cache_pages_tables q(2) by (cases x) simp
        ultimately show ?thesis using s1 Inr by (simp add: same_tables_def)
      next
        case False
        then have "x = ((), s1)" using run by (auto split: if_splits)
        then show ?thesis using s1 Inr by simp
      qed
    qed simp
  qed
  then show "dec_cache_ref hw c s = Some (Inr (u, s')) \<Longrightarrow> same_tables s s'" by fastforce
qed

text \<open>
  C37: \<open>destroy_area\<close> gives up the references of the area to its pages but removes no translation: every
  page stays mapped, also when it is free afterwards and will be used for something else.
\<close>

theorem destroy_area_keeps_mapping:
  assumes "destroy_area hw space area s = Some (Inr (u, s'))"
  shows "query_translation_map m va s' = query_translation_map m va s"
proof -
  obtain s1 where s1: "release_pages (space_map (spaces s space)) (high_address area) (low_address area) s = Some (Inr s1)"
      and r: "(case area_cache area of None \<Rightarrow> returnIO () | Some c \<Rightarrow> dec_cache_ref hw c)
        (set_areas space (destroy_vm_area area (space_areas (spaces s1 space))) s1) = Some (Inr (u, s'))"
    using assms unfolding destroy_area_def
    by (cases "release_pages (space_map (spaces s space)) (high_address area) (low_address area) s") (auto simp: bindIO_eq_Inr bindE_def split: sum.splits)
  let ?s2 = "set_areas space (destroy_vm_area area (space_areas (spaces s1 space))) s1"
  have "same_tables ?s2 s'" using r dec_cache_ref_tables by (cases "area_cache area") (auto simp: same_tables_def)
  moreover have "same_tables s1 ?s2" by (simp add: same_tables_def set_areas_def)
  ultimately have "same_tables s s'" using release_pages_tables [OF s1] by (simp add: same_tables_def)
  then show ?thesis by (rule same_tables_query)
qed

text \<open>
  Page 4 is the page of cache 7 at offset 0 and is mapped at 0x400000. Removing the area frees page 4,
  which is still mapped.
\<close>

definition mapped_area :: vm_area where
  "mapped_area = \<lparr>low_address = 0x400000, high_address = 0x400fff, area_cache = Some 7, area_cache_offset = 0,
     area_cache_length = 0x1000, area_flags = AREA_WRITABLE, area_name = ''data''\<rparr>"

definition with_mapped_page :: "unit fault_state" where
  "with_mapped_page = (faulting ())\<lparr>
     frames := (\<lambda>p i. if p = 2 \<and> i = 1 then 0x3001 else if p = 3 \<and> i = 0 then 0x4003 else 0),
     pages := (\<lambda>p. \<lparr>cache_offset = 0, page_cache = (if p = 4 then Some 7 else None), busy = False, dirty = True, ref_count = (if p = 4 then 2 else 0)\<rparr>),
     free_page_list := [5], debug_cache_lock_owner := - 1, hash_table := (\<lambda>b. if b = 7 then [4] else []),
     caches := (\<lambda>c. \<lparr>page_list = (if c = 7 then [4] else []), cache_file = 0, cache_refs = 1, cache_source = None\<rparr>)\<rparr>"

theorem destroy_area_keeps_mapping_witness:
  "\<exists>s'. destroy_area 0 1 mapped_area with_mapped_page = Some (Inr ((), s')) \<and> 4 \<in> set (free_page_list s')
     \<and> query_translation_map 0 0x400000 s' = Inr 0x4003"
proof -
  let ?s = with_mapped_page
  have q: "query_translation_map 0 0x400000 ?s = Inr 0x4003"
    by (simp add: query_translation_map_def read_entry_def pgd_index_def pgt_index_def num_pages_def with_mapped_page_def faulting_def
        cache_state.extend_def empty_cache_def translation_state.extend_def small_system_def word_le_nat_alt)
  define s1 where "s1 = ?s\<lparr>pages := (pages ?s)(4 := (pages ?s 4)\<lparr>ref_count := 1\<rparr>)\<rparr>"
  have d: "bindE (pa_to_page 0x4003 ?s) (\<lambda>p. dec_page_ref p ?s) = Inr s1"
    by (simp add: s1_def pa_to_page_def dec_page_ref_def with_mapped_page_def faulting_def cache_state.extend_def empty_cache_def
        translation_state.extend_def small_system_def word_less_nat_alt Let_def)
  have r: "release_pages 0 0x400fff 0x400000 ?s = Some (Inr s1)"
    by (subst release_pages.simps) (simp add: q d, subst release_pages.simps, simp)
  define s2 where "s2 = set_areas 1 (destroy_vm_area mapped_area (space_areas (spaces s1 1))) s1"
  have e: "destroy_area 0 1 mapped_area ?s = dec_cache_ref 0 7 s2"
    using r by (simp add: destroy_area_def mapped_area_def s2_def) (simp add: with_mapped_page_def s1_def)
  have "\<exists>s'. dec_cache_ref 0 7 s2 = Some (Inr ((), s')) \<and> 4 \<in> set (free_page_list s')"
    by (subst dec_cache_ref.simps)
      (simp add: s2_def s1_def set_areas_def with_mapped_page_def destroy_cache_pages_def faulting_def cache_state.extend_def lock_vm_cache_def
        empty_cache_def remove_cache_page_def dec_page_ref_def unlock_vm_cache_def Let_def bindIO_def)
  then obtain s' where s': "destroy_area 0 1 mapped_area ?s = Some (Inr ((), s'))" "4 \<in> set (free_page_list s')" using e by auto
  from destroy_area_keeps_mapping [OF s'(1), of 0 "0x400000"] show ?thesis using s' q by auto
qed

end
