(* ===== verification/Kern_Loader.thy ===== *)
theory Kern_Loader
  imports Kern_Fault
begin

text \<open>
  The program loader of \<open>software/kernel/loader.c\<close>: it reads the header and the segment table of an ELF
  file and makes an area for each loadable segment, read-only segments in a cache of the file and
  writable ones in a copy-on-write cache in front of it. \<open>opener\<close> and \<open>rf\<close> are \<open>open_file\<close> and \<open>read_file\<close>;
  \<open>image_cache\<close> and \<open>cow_cache\<close> are the structures that the slab allocator returns for the two caches. A read that
  returns less than was asked for leaves the rest of the buffer as it was: \<open>stack\<close> are the 372 bytes of
  the header and the segment table on the stack.
\<close>

type_synonym 'f opener = "u8 list \<Rightarrow> ('f, u32) io"

record elf_header =
  e_ident :: "u8 list"
  e_machine :: u16
  e_entry :: u32
  e_phoff :: u32
  e_phnum :: u16

record elf_segment =
  p_type :: u32
  p_offset :: u32
  p_vaddr :: u32
  p_filesz :: u32
  p_memsz :: u32
  p_flags :: u32

abbreviation (input) ELF_MAGIC :: "u8 list" where "ELF_MAGIC \<equiv> [0x7f, 0x45, 0x4c, 0x46]"
abbreviation (input) EM_NYUZI :: u16 where "EM_NYUZI \<equiv> 9999"
abbreviation (input) PF_X :: u32 where "PF_X \<equiv> 1"
abbreviation (input) PF_W :: u32 where "PF_W \<equiv> 2"
abbreviation (input) PT_LOAD :: u32 where "PT_LOAD \<equiv> 1"
abbreviation (input) MAX_SEGMENTS :: u16 where "MAX_SEGMENTS \<equiv> 10"

definition bytes16 :: "u8 list \<Rightarrow> nat \<Rightarrow> u16" where
  "bytes16 bs i = ucast (bs ! i) OR push_bit 8 (ucast (bs ! (i + 1)))"

definition elf_header_at :: "u8 list \<Rightarrow> elf_header" where
  "elf_header_at bs = \<lparr>e_ident = take 16 bs, e_machine = bytes16 bs 18, e_entry = bytes32 bs 24, e_phoff = bytes32 bs 28, e_phnum = bytes16 bs 44\<rparr>"

definition elf_segment_at :: "u8 list \<Rightarrow> nat \<Rightarrow> elf_segment" where
  "elf_segment_at bs i = \<lparr>p_type = bytes32 bs (32 * i), p_offset = bytes32 bs (32 * i + 4), p_vaddr = bytes32 bs (32 * i + 8),
     p_filesz = bytes32 bs (32 * i + 16), p_memsz = bytes32 bs (32 * i + 20), p_flags = bytes32 bs (32 * i + 24)\<rparr>"

text \<open>A buffer of \<open>n\<close> bytes on the stack into which \<open>data\<close> was read.\<close>

definition buffer :: "u8 list \<Rightarrow> nat \<Rightarrow> u8 list \<Rightarrow> u8 list" where
  "buffer stack n data = take n (data @ drop (length data) stack)"

definition loadable :: "elf_segment \<Rightarrow> bool" where
  "loadable seg \<longleftrightarrow> p_type seg AND PT_LOAD \<noteq> 0 \<and> p_memsz seg \<noteq> 0"

definition segment_writable :: "elf_segment \<Rightarrow> bool" where
  "segment_writable seg \<longleftrightarrow> p_flags seg AND PF_W \<noteq> 0"

definition segment_flags :: "elf_segment \<Rightarrow> u32" where
  "segment_flags seg = (if segment_writable seg then AREA_WRITABLE else 0) OR (if p_flags seg AND PF_X \<noteq> 0 then AREA_EXECUTABLE else 0)"

text \<open>
  The loop over the segments; \<open>has_cow\<close> tells whether \<open>cow_cache\<close> is set. The result is \<open>None\<close> when an
  area cannot be created.
\<close>

primrec load_segments ::
  "'f reader \<Rightarrow> int \<Rightarrow> nat \<Rightarrow> nat \<Rightarrow> nat \<Rightarrow> elf_segment list \<Rightarrow> bool \<Rightarrow> ('f fault_state, bool option) io" where
  "load_segments rf hw space image_cache cow_cache [] has_cow = returnIO (Some has_cow)"
| "load_segments rf hw space image_cache cow_cache (seg # segs) has_cow =
     (if \<not> loadable seg then load_segments rf hw space image_cache cow_cache segs has_cow
      else
        bindIO (modifyIO (if segment_writable seg \<and> \<not> has_cow then create_vm_cache cow_cache (Some image_cache) else id)) (\<lambda>_.
        bindIO (create_area rf hw 0 space (p_vaddr seg) (p_memsz seg) PLACE_EXACT ''program segment'' (segment_flags seg)
                 (Some (if segment_writable seg then cow_cache else image_cache)) (p_offset seg)) (\<lambda>area. case area of
            None \<Rightarrow> returnIO None
          | Some a \<Rightarrow>
              bindIO (modifyIO (\<lambda>s. set_areas space (replace_area (a\<lparr>area_cache_length := p_filesz seg\<rparr>) (space_areas (spaces s space))) s)) (\<lambda>_.
                load_segments rf hw space image_cache cow_cache segs (segment_writable seg \<or> has_cow)))))"

text \<open>The result is the entry point, or \<open>None\<close> for the error \<open>-1\<close>.\<close>

definition load_program ::
  "'f opener \<Rightarrow> 'f reader \<Rightarrow> u8 list \<Rightarrow> int \<Rightarrow> nat \<Rightarrow> nat \<Rightarrow> nat \<Rightarrow> u8 list \<Rightarrow> ('f fault_state, u32 option) io" where
  "load_program opener rf stack hw image_cache cow_cache space filename =
     bindIO (zoomIO backing (\<lambda>f s. s\<lparr>backing := f\<rparr>) (opener filename)) (\<lambda>file. if file = 0 then returnIO None else
      bindIO (zoomIO backing (\<lambda>f s. s\<lparr>backing := f\<rparr>) (rf file 0 52)) (\<lambda>(got, data). if got < 0 then returnIO None else
      let image_header = elf_header_at (buffer (take 52 stack) 52 data) in
      if take 4 (e_ident image_header) \<noteq> ELF_MAGIC \<or> e_machine image_header \<noteq> EM_NYUZI \<or> MAX_SEGMENTS < e_phnum image_header
          \<or> e_phnum image_header = 0 then returnIO None
      else let phnum = unat (e_phnum image_header) in
        bindIO (zoomIO backing (\<lambda>f s. s\<lparr>backing := f\<rparr>) (rf file (e_phoff image_header) (of_nat (phnum * 32)))) (\<lambda>(got, data). if got < 0 then returnIO None else
        bindIO (modifyIO (\<lambda>s. let s1 = create_vm_cache image_cache None s in s1\<lparr>caches := (caches s1)(image_cache := (caches s1 image_cache)\<lparr>cache_file := file\<rparr>)\<rparr>)) (\<lambda>_.
        bindIO (load_segments rf hw space image_cache cow_cache (map (elf_segment_at (buffer (drop 52 stack) 320 data)) [0..<phnum]) False) (\<lambda>r. case r of
            None \<Rightarrow> returnIO None
          | Some has_cow \<Rightarrow>
              bindIO (dec_cache_ref hw image_cache) (\<lambda>_.
              bindIO (if has_cow then dec_cache_ref hw cow_cache else returnIO ()) (\<lambda>_.
                returnIO (Some (e_entry image_header)))))))))"

subsection \<open>Areas in a free range\<close>

lemma create_exact_at:
  assumes ok: "area_map_ok m" and sz: "0 < sz" "unat sz \<le> 0xfffff000" "4096 dvd unat address"
    and free: "am_low m \<le> address" "unat address + round_up (unat sz) \<le> unat (am_high m) + 1"
      "range_free (unat address) (unat address + round_up (unat sz)) (area_list m)"
  shows "\<exists>xs ys a. create_vm_area m address sz PLACE_EXACT name fl = Some (a, m\<lparr>area_list := xs @ a # ys\<rparr>)
    \<and> area_list m = xs @ ys \<and> area_map_ok (m\<lparr>area_list := xs @ a # ys\<rparr>)
    \<and> a = \<lparr>low_address = address, high_address = of_nat (unat address + round_up (unat sz) - 1), area_cache = None, area_cache_offset = 0,
        area_cache_length = 0, area_flags = fl, area_name = take 32 name\<rparr>"
proof -
  obtain a m' where c: "create_vm_area m address sz PLACE_EXACT name fl = Some (a, m')"
    using create_exact_free [OF ok sz, of name fl] free by auto
  note p = create_vm_area_placed [OF ok sz(1,2) _ c, of undefined, unfolded placeable_def placement.case, OF sz(3)]
  let ?n = "PAGE_ALIGN (sz + KPAGE_SIZE - 1)"
  have u: "unat ?n = round_up (unat sz)" using sz(2) by (rule unat_rounded_size)
  have n: "4096 dvd unat ?n" "0 < ?n" using round_up_bounds [of "unat sz"] sz(1) u by (simp_all add: word_less_nat_alt)
  obtain xs new ys where r: "insert_fixed m address ?n = Some (xs, new, ys)" "m' = m\<lparr>area_list := xs @ a # ys\<rparr>"
      "a = new\<lparr>area_name := take 32 name, area_flags := fl, area_cache := None, area_cache_offset := 0, area_cache_length := 0\<rparr>"
    using c by (auto simp: create_vm_area_def Let_def)
  have l: "area_list m = xs @ ys" using insert_fixed_ok [OF ok sz(3) n] r(1) by (simp add: placed_ok_def)
  have "hi a = unat address + round_up (unat sz) - 1" "low_address a = address" using p by auto
  moreover have "high_address a = of_nat (hi a)" by simp
  ultimately have "a = \<lparr>low_address = address, high_address = of_nat (unat address + round_up (unat sz) - 1), area_cache = None,
      area_cache_offset = 0, area_cache_length = 0, area_flags = fl, area_name = take 32 name\<rparr>"
    using p r(3) by simp
  then show ?thesis using c [unfolded r(2)] l p [unfolded r(2)] by (intro exI conjI) (assumption | elim conjE)+
qed

lemma replace_area_at:
  assumes "area_map_ok (m\<lparr>area_list := xs @ a # ys\<rparr>)" "low_address b = low_address a" "high_address b = high_address a"
  shows "replace_area b (m\<lparr>area_list := xs @ a # ys\<rparr>) = m\<lparr>area_list := xs @ b # ys\<rparr>" "area_map_ok (m\<lparr>area_list := xs @ b # ys\<rparr>)"
proof -
  have w: "areas_within (unat (am_low m)) (unat (am_high m)) (xs @ a # ys)" using assms(1) by (simp add: area_map_ok_def)
  have ne: "low_address c \<noteq> low_address a" if "c \<in> set (xs @ ys)" for c
  proof -
    have "hi c < lo a \<or> hi a < lo c" "lo c < hi c" "lo a < hi a"
      using w that by (auto simp: areas_within_def sorted_wrt_append area_ok_def)
    then show ?thesis by (auto simp: word_unat_eq_iff)
  qed
  then have "map (\<lambda>c. if low_address c = low_address a then b else c) xs = xs" "map (\<lambda>c. if low_address c = low_address a then b else c) ys = ys"
    by (auto intro!: map_idI)
  then show "replace_area b (m\<lparr>area_list := xs @ a # ys\<rparr>) = m\<lparr>area_list := xs @ b # ys\<rparr>" using assms(2) by (simp add: replace_area_def)
  show "area_map_ok (m\<lparr>area_list := xs @ b # ys\<rparr>)"
    using assms by (simp add: area_map_ok_def areas_within_def sorted_wrt_append area_ok_def)
qed

subsection \<open>Loading the segments\<close>

text \<open>The area of a segment, and the segments that can be loaded into a map.\<close>

definition segment_size :: "elf_segment \<Rightarrow> nat" where
  "segment_size seg = round_up (unat (p_memsz seg))"

definition segment_area :: "nat \<Rightarrow> nat \<Rightarrow> elf_segment \<Rightarrow> vm_area" where
  "segment_area image_cache cow_cache seg = \<lparr>low_address = p_vaddr seg, high_address = of_nat (unat (p_vaddr seg) + segment_size seg - 1),
     area_cache = Some (if segment_writable seg then cow_cache else image_cache), area_cache_offset = p_offset seg, area_cache_length = p_filesz seg,
     area_flags = segment_flags seg, area_name = ''program segment''\<rparr>"

definition segment_fits_map :: "vm_area_map \<Rightarrow> elf_segment \<Rightarrow> bool" where
  "segment_fits_map m seg \<longleftrightarrow> 4096 dvd unat (p_vaddr seg) \<and> unat (p_memsz seg) \<le> 0xfffff000 \<and> am_low m \<le> p_vaddr seg
     \<and> unat (p_vaddr seg) + segment_size seg \<le> unat (am_high m) + 1
     \<and> range_free (unat (p_vaddr seg)) (unat (p_vaddr seg) + segment_size seg) (area_list m)"

definition segments_apart :: "elf_segment \<Rightarrow> elf_segment \<Rightarrow> bool" where
  "segments_apart a b \<longleftrightarrow> unat (p_vaddr a) + segment_size a \<le> unat (p_vaddr b) \<or> unat (p_vaddr b) + segment_size b \<le> unat (p_vaddr a)"

lemma not_wired: "segment_flags seg AND AREA_WIRED = 0"
  by (simp add: segment_flags_def)

lemma set_areas_twice: "set_areas sp m (set_areas sp m' s) = set_areas sp m s"
  by (simp add: set_areas_def)

lemma set_areas_same: "set_areas sp (space_areas (spaces s sp)) s = s"
proof -
  have "(spaces s)(sp := spaces s sp) = spaces s" by (rule fun_upd_triv)
  then show ?thesis by (simp add: set_areas_def)
qed

lemma areas_set_areas [simp]: "space_areas (spaces (set_areas sp m s) sp) = m"
  by (simp add: set_areas_def)

lemma space_areas_frame [simp]:
  "spaces (inc_cache_ref c s) = spaces s" "spaces (create_vm_cache c src s) = spaces s"
  by (simp_all add: inc_cache_ref_def create_vm_cache_def Let_def split: option.splits)

text \<open>One turn of the loop, from the creation of the area to the new length.\<close>

lemma load_area:
  fixes s :: "'f fault_state"
  assumes l: "loadable seg" and m: "m = space_areas (spaces s space)" "area_map_ok m" and fits: "segment_fits_map m seg"
    and c: "c = (if segment_writable seg then cow_cache else image_cache)"
  shows "\<exists>xs ys a. create_area rf hw 0 space (p_vaddr seg) (p_memsz seg) PLACE_EXACT ''program segment'' (segment_flags seg) (Some c) (p_offset seg) s
      = Some (Inr (Some a, set_areas space (m\<lparr>area_list := xs @ a # ys\<rparr>) (inc_cache_ref c s)))
    \<and> area_list m = xs @ ys \<and> area_map_ok (m\<lparr>area_list := xs @ segment_area image_cache cow_cache seg # ys\<rparr>)
    \<and> replace_area (a\<lparr>area_cache_length := p_filesz seg\<rparr>) (m\<lparr>area_list := xs @ a # ys\<rparr>)
        = m\<lparr>area_list := xs @ segment_area image_cache cow_cache seg # ys\<rparr>"
proof -
  have "0 < p_memsz seg" using l by (simp add: loadable_def word_less_nat_alt unat_gt_0)
  from create_exact_at [OF m(2) this, of "p_vaddr seg" "''program segment''" "segment_flags seg"] fits obtain xs ys a where
      a: "create_vm_area m (p_vaddr seg) (p_memsz seg) PLACE_EXACT ''program segment'' (segment_flags seg) = Some (a, m\<lparr>area_list := xs @ a # ys\<rparr>)"
        "area_list m = xs @ ys" "area_map_ok (m\<lparr>area_list := xs @ a # ys\<rparr>)"
      and b: "a\<lparr>area_cache := Some c, area_cache_offset := p_offset seg, area_cache_length := p_filesz seg\<rparr> = segment_area image_cache cow_cache seg"
    by (auto simp: segment_fits_map_def segment_size_def segment_area_def c)
  let ?a = "a\<lparr>area_cache := Some c, area_cache_offset := p_offset seg, area_cache_length := p_memsz seg\<rparr>"
  have "create_area rf hw 0 space (p_vaddr seg) (p_memsz seg) PLACE_EXACT ''program segment'' (segment_flags seg) (Some c) (p_offset seg) s
      = Some (Inr (Some ?a, set_areas space (m\<lparr>area_list := xs @ ?a # ys\<rparr>) (inc_cache_ref c s)))"
    using a(1) m(1) replace_area_at(1) [OF a(3), of ?a] not_wired [of seg] by (simp add: create_area_def Let_def)
  moreover have "area_map_ok (m\<lparr>area_list := xs @ ?a # ys\<rparr>)" using replace_area_at(2) [OF a(3), of ?a] by simp
  moreover have "low_address (segment_area image_cache cow_cache seg) = low_address a" "high_address (segment_area image_cache cow_cache seg) = high_address a"
    unfolding b [symmetric] by simp_all
  moreover from replace_area_at [OF calculation(2), of "?a\<lparr>area_cache_length := p_filesz seg\<rparr>"] b
  have "replace_area (?a\<lparr>area_cache_length := p_filesz seg\<rparr>) (m\<lparr>area_list := xs @ ?a # ys\<rparr>) = m\<lparr>area_list := xs @ segment_area image_cache cow_cache seg # ys\<rparr>"
    "area_map_ok (m\<lparr>area_list := xs @ segment_area image_cache cow_cache seg # ys\<rparr>)"
    using calculation(3,4) by simp_all
  ultimately show ?thesis using a(2) by blast
qed

lemma fits_after:
  assumes "segment_fits_map m seg" "segments_apart seg' seg" "area_list m = xs @ ys" "loadable seg'" "segment_fits_map m seg'"
  shows "segment_fits_map (m\<lparr>area_list := xs @ segment_area i c seg' # ys\<rparr>) seg"
proof -
  have "0 < unat (p_memsz seg')" using assms(4) by (simp add: loadable_def unat_gt_0)
  then have pos: "0 < segment_size seg'" using round_up_bounds [of "unat (p_memsz seg')"] by (simp add: segment_size_def)
  have "unat (p_vaddr seg') + segment_size seg' - 1 < 4294967296"
    using assms(5) pos unat_u32_bound [of "am_high m"] by (auto simp: segment_fits_map_def)
  then have "hi (segment_area i c seg') = unat (p_vaddr seg') + segment_size seg' - 1"
    by (simp add: segment_area_def unat_of_nat take_bit_nat_eq_self)
  then show ?thesis using assms(1-3) pos by (auto simp: segment_fits_map_def range_free_def segments_apart_def segment_area_def)
qed

text \<open>
  The caches after the loop, for \<open>r\<close> read-only and \<open>w\<close> writable segments: every area holds a reference,
  and so does the copy-on-write cache, which the first writable segment creates.
\<close>

definition load_caches :: "nat \<Rightarrow> nat \<Rightarrow> nat \<Rightarrow> nat \<Rightarrow> bool \<Rightarrow> (nat \<Rightarrow> vm_cache) \<Rightarrow> nat \<Rightarrow> vm_cache" where
  "load_caches image_cache cow_cache r w has_cow cf = cf(
     image_cache := (cf image_cache)\<lparr>cache_refs := cache_refs (cf image_cache) + int r + (if \<not> has_cow \<and> 0 < w then 1 else 0)\<rparr>,
     cow_cache := (if has_cow then (cf cow_cache)\<lparr>cache_refs := cache_refs (cf cow_cache) + int w\<rparr>
       else if w = 0 then cf cow_cache
       else (cf cow_cache)\<lparr>page_list := [], cache_refs := 1 + int w, cache_source := Some image_cache\<rparr>))"

abbreviation read_only_segments :: "elf_segment list \<Rightarrow> nat" where
  "read_only_segments segs \<equiv> length (filter (\<lambda>seg. loadable seg \<and> \<not> segment_writable seg) segs)"

abbreviation writable_segments :: "elf_segment list \<Rightarrow> nat" where
  "writable_segments segs \<equiv> length (filter (\<lambda>seg. loadable seg \<and> segment_writable seg) segs)"

lemma load_no_caches: "load_caches image_cache cow_cache 0 0 has_cow cf = cf"
  by (simp add: load_caches_def fun_eq_iff)

lemma load_segments_loads:
  fixes s :: "'f fault_state"
  assumes "area_map_ok (space_areas (spaces s space))" "image_cache \<noteq> cow_cache"
    and "\<forall>seg\<in>set segs. loadable seg \<longrightarrow> segment_fits_map (space_areas (spaces s space)) seg" "sorted_wrt segments_apart (filter loadable segs)"
  shows "\<exists>m'. load_segments rf hw space image_cache cow_cache segs has_cow s
      = Some (Inr (Some (has_cow \<or> 0 < writable_segments segs), (set_areas space m' s)\<lparr>caches := load_caches image_cache cow_cache (read_only_segments segs) (writable_segments segs) has_cow (caches s)\<rparr>))
    \<and> area_map_ok m' \<and> set (area_list m') = set (area_list (space_areas (spaces s space))) \<union> segment_area image_cache cow_cache ` set (filter loadable segs)"
  using assms
proof (induction segs arbitrary: s has_cow)
  case Nil
  then show ?case by (intro exI [of _ "space_areas (spaces s space)"]) (simp add: load_no_caches set_areas_same)
next
  case (Cons seg segs)
  show ?case
  proof (cases "loadable seg")
    case False
    then show ?thesis using Cons.IH [of s has_cow] Cons.prems by simp
  next
    case True
    let ?c = "if segment_writable seg then cow_cache else image_cache" and ?a = "segment_area image_cache cow_cache seg"
    define s1 where "s1 = (if segment_writable seg \<and> \<not> has_cow then create_vm_cache cow_cache (Some image_cache) else id) s"
    define m where "m = space_areas (spaces s space)"
    have s1: "spaces s1 = spaces s" by (simp add: s1_def)
    have fits: "segment_fits_map m seg" using Cons.prems(3) True by (simp add: m_def)
    obtain xs ys a where a: "create_area rf hw 0 space (p_vaddr seg) (p_memsz seg) PLACE_EXACT ''program segment'' (segment_flags seg) (Some ?c) (p_offset seg) s1
          = Some (Inr (Some a, set_areas space (m\<lparr>area_list := xs @ a # ys\<rparr>) (inc_cache_ref ?c s1)))"
        "area_list m = xs @ ys" "area_map_ok (m\<lparr>area_list := xs @ ?a # ys\<rparr>)"
        "replace_area (a\<lparr>area_cache_length := p_filesz seg\<rparr>) (m\<lparr>area_list := xs @ a # ys\<rparr>) = m\<lparr>area_list := xs @ ?a # ys\<rparr>"
      using load_area [OF True _ _ fits refl, where s = s1 and space = space and rf = rf and hw = hw and image_cache = image_cache and cow_cache = cow_cache]
        Cons.prems(1) s1 m_def by metis
    define s2 where "s2 = set_areas space (m\<lparr>area_list := xs @ ?a # ys\<rparr>) (inc_cache_ref ?c s1)"
    have run: "load_segments rf hw space image_cache cow_cache (seg # segs) has_cow s
        = load_segments rf hw space image_cache cow_cache segs (segment_writable seg \<or> has_cow) s2"
      using True a(1,4) by (simp add: s1_def [symmetric] s2_def set_areas_twice)
    have m2: "space_areas (spaces s2 space) = m\<lparr>area_list := xs @ ?a # ys\<rparr>" by (simp add: s2_def)
    have "\<forall>seg'\<in>set segs. loadable seg' \<longrightarrow> segment_fits_map (m\<lparr>area_list := xs @ ?a # ys\<rparr>) seg'"
      using Cons.prems(3,4) True a(2) fits fits_after by (simp add: m_def)
    with Cons.IH [of s2 "segment_writable seg \<or> has_cow"] Cons.prems(2,4) True a(3) obtain m' where
        m': "load_segments rf hw space image_cache cow_cache (seg # segs) has_cow s = Some (Inr (Some (segment_writable seg \<or> has_cow \<or> 0 < writable_segments segs),
          (set_areas space m' s2)\<lparr>caches := load_caches image_cache cow_cache (read_only_segments segs) (writable_segments segs) (segment_writable seg \<or> has_cow) (caches s2)\<rparr>))"
        "area_map_ok m'" "set (area_list m') = set (xs @ ?a # ys) \<union> segment_area image_cache cow_cache ` set (filter loadable segs)"
      unfolding m2 run by auto
    have "load_caches image_cache cow_cache (read_only_segments segs) (writable_segments segs) (segment_writable seg \<or> has_cow) (caches s2)
        = load_caches image_cache cow_cache (read_only_segments (seg # segs)) (writable_segments (seg # segs)) has_cow (caches s)"
      using Cons.prems(2) True
      by (auto simp: load_caches_def s2_def s1_def set_areas_def inc_cache_ref_def create_vm_cache_def fun_eq_iff)
    moreover have "(set_areas space m' s2)\<lparr>caches := cf\<rparr> = (set_areas space m' s)\<lparr>caches := cf\<rparr>" for cf
      by (simp add: s2_def s1_def set_areas_def inc_cache_ref_def create_vm_cache_def)
    ultimately show ?thesis using m' a(2) True by (intro exI [of _ m']) (auto simp: m_def)
  qed
qed

subsection \<open>Programs\<close>

definition elf_segments :: "u8 list \<Rightarrow> elf_segment list" where
  "elf_segments bs = map (elf_segment_at (drop (unat (e_phoff (elf_header_at bs))) bs)) [0..<unat (e_phnum (elf_header_at bs))]"

definition elf_ok :: "u8 list \<Rightarrow> bool" where
  "elf_ok bs \<longleftrightarrow> 52 \<le> length bs \<and> take 4 bs = ELF_MAGIC \<and> e_machine (elf_header_at bs) = EM_NYUZI
     \<and> 0 < e_phnum (elf_header_at bs) \<and> e_phnum (elf_header_at bs) \<le> MAX_SEGMENTS
     \<and> unat (e_phoff (elf_header_at bs)) + 32 * unat (e_phnum (elf_header_at bs)) \<le> length bs \<and> unat (e_phoff (elf_header_at bs)) < 2147483648"

lemma buffer_filled: "length data = n \<Longrightarrow> length stack \<le> n \<Longrightarrow> buffer stack n data = data"
  by (simp add: buffer_def)

lemma elf_header_take: "elf_header_at (take 52 bs) = elf_header_at bs"
  by (simp add: elf_header_at_def bytes16_def) (intro conjI get32_cong; simp)

lemma elf_segment_buffer:
  assumes "32 * n \<le> length bs" "n \<le> 10" "i < n"
  shows "elf_segment_at (buffer stack 320 (take (32 * n) bs)) i = elf_segment_at bs i"
proof -
  have "buffer stack 320 (take (32 * n) bs) ! k = bs ! k" if "k < 32 * n" for k
    using that assms by (simp add: buffer_def nth_append)
  then show ?thesis unfolding elf_segment_at_def using assms(3) by (intro elf_segment.equality; simp) (intro get32_cong; simp)+
qed

lemma dec_cache_ref_keeps:
  assumes "debug_cache_lock_owner s \<noteq> hw" "1 < cache_refs (caches s c)"
  shows "dec_cache_ref hw c s = Some (Inr ((), s\<lparr>caches := (caches s)(c := (caches s c)\<lparr>cache_refs := cache_refs (caches s c) - 1\<rparr>)\<rparr>))"
  using assms by (subst dec_cache_ref.simps) (simp add: Let_def)

definition program_loaded ::
  "nat \<Rightarrow> nat \<Rightarrow> nat \<Rightarrow> u32 \<Rightarrow> elf_segment list \<Rightarrow> 'f fault_state \<Rightarrow> 'f fault_state \<Rightarrow> bool" where
  "program_loaded image_cache cow_cache space file segs s s' \<longleftrightarrow>
     area_map_ok (space_areas (spaces s' space))
     \<and> set (area_list (space_areas (spaces s' space)))
         = set (area_list (space_areas (spaces s space))) \<union> segment_area image_cache cow_cache ` set (filter loadable segs)
     \<and> caches s' image_cache = \<lparr>page_list = [], cache_file = file,
         cache_refs = int (read_only_segments segs) + (if 0 < writable_segments segs then 1 else 0), cache_source = None\<rparr>
     \<and> (0 < writable_segments segs \<longrightarrow> caches s' cow_cache = \<lparr>page_list = [], cache_file = cache_file (caches s cow_cache),
         cache_refs = int (writable_segments segs), cache_source = Some image_cache\<rparr>)
     \<and> s' = s\<lparr>spaces := (spaces s)(space := spaces s' space), caches := caches s', backing := backing s'\<rparr>
     \<and> (\<forall>c. c \<noteq> image_cache \<longrightarrow> c \<noteq> cow_cache \<longrightarrow> caches s' c = caches s c)"

lemma cache_fields:
  "x\<lparr>page_list := ps, cache_refs := n, cache_source := c, cache_file := h\<rparr> = \<lparr>page_list = ps, cache_file = h, cache_refs = n, cache_source = c\<rparr>"
  for x :: vm_cache
  by (rule vm_cache.equality) simp_all

context file_reader
begin

lemma load_program_ok:
  assumes opener: "opener filename (backing s) = Some (Inr (file, f))" "file \<noteq> 0" "ready f" "is_file file"
    and elf: "elf_ok (R file)" "segs = elf_segments (R file)" "\<exists>seg\<in>set segs. loadable seg"
    and space: "m = space_areas (spaces s space)" "area_map_ok m" "\<forall>seg\<in>set segs. loadable seg \<longrightarrow> segment_fits_map m seg"
      "sorted_wrt segments_apart (filter loadable segs)"
    and caches: "image_cache \<noteq> cow_cache" "debug_cache_lock_owner s \<noteq> hw"
  shows "\<exists>s'. load_program opener rf stack hw image_cache cow_cache space filename s = Some (Inr (Some (e_entry (elf_header_at (R file))), s'))
    \<and> program_loaded image_cache cow_cache space file segs s s' \<and> ready (backing s')"
proof -
  let ?bs = "R file" and ?h = "elf_header_at (R file)"
  let ?n = "unat (e_phnum ?h)" and ?files = "\<lambda>m. zoomIO backing (\<lambda>f s. s\<lparr>backing := f\<rparr>) m"
  have n: "?n \<le> 10" "0 < ?n" using elf(1) by (simp_all add: elf_ok_def word_le_nat_alt word_less_nat_alt)
  have small: "unat (of_nat k :: u32) = k" if "k \<le> 320" for k using that by (simp add: unat_of_nat take_bit_nat_eq_self)
  have un: "unat (of_nat (?n * 32) :: u32) = 32 * ?n" unfolding mult.commute [of 32 ?n] by (rule small) (use n in simp)
  obtain f1 where f1: "rf file 0 52 f = Some (Inr ((52, take 52 ?bs), f1))" "ready f1"
    using reads [OF opener(3,4), of 0 52] elf(1) by (auto simp: elf_ok_def)
  obtain f2 where f2: "rf file (e_phoff ?h) (of_nat (?n * 32)) f1 = Some (Inr ((int (32 * ?n), take (32 * ?n) (drop (unat (e_phoff ?h)) ?bs)), f2))" "ready f2"
    using reads [OF f1(2) opener(4), of "e_phoff ?h" "of_nat (?n * 32)"] elf(1) n unfolding un by (auto simp: elf_ok_def)
  have header: "elf_header_at (buffer (take 52 stack) 52 (take 52 ?bs)) = ?h"
    using elf(1) by (subst buffer_filled) (simp_all add: elf_ok_def elf_header_take)
  have table: "map (elf_segment_at (buffer (drop 52 stack) 320 (take (32 * ?n) (drop (unat (e_phoff ?h)) ?bs)))) [0..<?n] = segs"
    unfolding elf(2) elf_segments_def using elf(1) n by (intro map_cong refl elf_segment_buffer) (auto simp: elf_ok_def)
  define s1 where "s1 = s\<lparr>backing := f2, caches := (caches s)(image_cache := \<lparr>page_list = [], cache_file = file, cache_refs = 1, cache_source = None\<rparr>)\<rparr>"
  let ?r = "read_only_segments segs" and ?w = "writable_segments segs"
  obtain m' where m': "load_segments rf hw space image_cache cow_cache segs False s1
        = Some (Inr (Some (0 < ?w), (set_areas space m' s1)\<lparr>caches := load_caches image_cache cow_cache ?r ?w False (caches s1)\<rparr>))"
      "area_map_ok m'" "set (area_list m') = set (area_list m) \<union> segment_area image_cache cow_cache ` set (filter loadable segs)"
    using load_segments_loads [of s1 space image_cache cow_cache segs rf hw False] space caches(1) by (auto simp: s1_def)
  define s2 where "s2 = (set_areas space m' s1)\<lparr>caches := load_caches image_cache cow_cache ?r ?w False (caches s1)\<rparr>"
  have some: "0 < ?r \<or> 0 < ?w" using elf(3) by (auto simp: filter_empty_conv)
  have owner: "debug_cache_lock_owner s2 \<noteq> hw" using caches(2) by (simp add: s2_def s1_def set_areas_def)
  have cf: "caches s2 image_cache = \<lparr>page_list = [], cache_file = file, cache_refs = 1 + int ?r + (if 0 < ?w then 1 else 0), cache_source = None\<rparr>"
    "0 < ?w \<Longrightarrow> caches s2 cow_cache = \<lparr>page_list = [], cache_file = cache_file (caches s cow_cache), cache_refs = 1 + int ?w, cache_source = Some image_cache\<rparr>"
    "?w = 0 \<Longrightarrow> caches s2 cow_cache = caches s cow_cache" "\<And>c. c \<noteq> image_cache \<Longrightarrow> c \<noteq> cow_cache \<Longrightarrow> caches s2 c = caches s c"
    using caches(1) by (simp_all add: s2_def s1_def load_caches_def)
  define s3 where "s3 = s2\<lparr>caches := (caches s2)(image_cache := (caches s2 image_cache)\<lparr>cache_refs := cache_refs (caches s2 image_cache) - 1\<rparr>)\<rparr>"
  define s4 where "s4 = (if 0 < ?w then s3\<lparr>caches := (caches s3)(cow_cache := (caches s3 cow_cache)\<lparr>cache_refs := cache_refs (caches s3 cow_cache) - 1\<rparr>)\<rparr> else s3)"
  have d3: "dec_cache_ref hw image_cache s2 = Some (Inr ((), s3))"
    unfolding s3_def using owner cf(1) some by (intro dec_cache_ref_keeps) auto
  have d4: "(if 0 < ?w then dec_cache_ref hw cow_cache else returnIO ()) s3 = Some (Inr ((), s4))"
  proof (cases "0 < ?w")
    case True
    have "dec_cache_ref hw cow_cache s3 = Some (Inr ((), s3\<lparr>caches := (caches s3)(cow_cache := (caches s3 cow_cache)\<lparr>cache_refs := cache_refs (caches s3 cow_cache) - 1\<rparr>)\<rparr>))"
      using owner cf(2) [OF True] caches(1) True by (intro dec_cache_ref_keeps) (simp_all add: s3_def)
    then show ?thesis using True by (simp add: s4_def)
  qed (simp add: s4_def)
  have c1: "(let s1 = create_vm_cache image_cache None (s\<lparr>backing := f2\<rparr>) in s1\<lparr>caches := (caches s1)(image_cache := (caches s1 image_cache)\<lparr>cache_file := file\<rparr>)\<rparr>) = s1"
    by (simp add: create_vm_cache_def s1_def Let_def cache_fields)
  have valid: "take 4 (e_ident ?h) = ELF_MAGIC" "e_machine ?h = EM_NYUZI" "\<not> MAX_SEGMENTS < e_phnum ?h" "e_phnum ?h \<noteq> 0"
    using elf(1) n by (auto simp: elf_ok_def elf_header_at_def)
  have "load_program opener rf stack hw image_cache cow_cache space filename s = Some (Inr (Some (e_entry ?h), s4))"
    unfolding load_program_def using opener(1,2) f1(1) f2(1) valid header table m'(1) [folded s2_def] d3 d4 c1
    by (simp add: Let_def)
  moreover have "program_loaded image_cache cow_cache space file segs s s4"
    using cf m'(2,3) space(1) caches(1)
    by (auto simp: program_loaded_def s4_def s3_def s2_def s1_def set_areas_def)
  moreover have "ready (backing s4)" using f2(2) by (simp add: s4_def s3_def s2_def s1_def set_areas_def)
  ultimately show ?thesis by blast
qed

end

lemma opened_file:
  assumes "sd_ready img f f" "fs_image img files" "(name, start, contents) \<in> set files" "contents \<noteq> []"
    "file_handles f h = \<lparr>base_location = of_nat start, handle_length = of_nat (length contents)\<rparr>"
  shows "card_files img files f f" "is_handle files f h" "handle_contents img f h = contents"
proof -
  show "card_files img files f f" using assms by (simp add: card_files_def)
  show "is_handle files f h" using assms(3,5) by (auto simp: is_handle_def)
  have "start + length contents < 2147483648" "take (length contents) (drop start img) = contents"
    using assms(2-4) by (auto simp: fs_image_def)
  then show "handle_contents img f h = contents" using assms(5) by (simp add: handle_contents_def unat_of_nat take_bit_nat_eq_self)
qed

text \<open>
  C25: Loading a program. When the file on the card is an ELF program for this processor whose segments do not
  overlap, \<open>load_program\<close> returns its entry point or the kernel panics for lack of memory. Afterwards the
  address space has exactly one more area for each loadable segment, at its address, with its size in
  pages, its permissions, and its place and length in the file; read-only segments share the cache of the
  file, writable ones have the copy-on-write cache in front of it, and each cache counts the areas and
  caches that use it. Nothing else has changed.
\<close>

theorem load_program_makes_areas:
  assumes card: "fs_boot img files base limit (backing s)" "fs_image img files" "512 dvd length img" "length img < 2147483648"
    and entry: "i < length files" "files ! i = (name, start, contents)" "\<forall>j<i. fst (files ! j) \<noteq> name"
    and elf: "elf_ok contents" "segs = elf_segments contents" "\<exists>seg\<in>set segs. loadable seg"
    and space: "m = space_areas (spaces s space)" "area_map_ok m" "\<forall>seg\<in>set segs. loadable seg \<longrightarrow> segment_fits_map m seg"
      "sorted_wrt segments_apart (filter loadable segs)"
    and caches: "image_cache \<noteq> cow_cache" "debug_cache_lock_owner s \<noteq> hw"
  shows "load_program (open_file emu_mmio) (read_file emu_mmio) stack hw image_cache cow_cache space name s = Some (Inl Exit_called)
    \<or> (\<exists>s' file f. load_program (open_file emu_mmio) (read_file emu_mmio) stack hw image_cache cow_cache space name s
          = Some (Inr (Some (e_entry (elf_header_at contents)), s'))
        \<and> program_loaded image_cache cow_cache space file segs s s' \<and> card_files img files f (backing s') \<and> handle_contents img f file = contents)"
proof -
  from open_file_ok [OF card entry] show ?thesis
  proof (elim disjE exE conjE)
    assume "open_file emu_mmio name (backing s) = Some (Inl Exit_called)"
    then show ?thesis by (simp add: load_program_def)
  next
    fix h f
    assume o: "open_file emu_mmio name (backing s) = Some (Inr (h, f))" "h \<noteq> 0" "sd_ready img f f"
      "file_handles f h = \<lparr>base_location = of_nat start, handle_length = of_nat (length contents)\<rparr>"
    have "contents \<noteq> []" using elf(1) by (auto simp: elf_ok_def)
    moreover have "(name, start, contents) \<in> set files" using entry(1,2) by (metis nth_mem)
    ultimately have h: "card_files img files f f" "is_handle files f h" "handle_contents img f h = contents"
      using opened_file [OF o(3) card(2) _ _ o(4)] by auto
    show ?thesis
      using card_reader.load_program_ok [where opener = "open_file emu_mmio" and filename = name and s = s,
          OF o(1,2) h(1,2) _ _ elf(3) space caches, unfolded h(3), OF elf(1,2)] h(3) by blast
  qed
qed

text \<open>A program with one writable segment of 6144 bytes at 0x1000.\<close>

definition tiny_program :: "u8 list" where
  "tiny_program =
     [127, 69, 76, 70, 0, 0, 0, 0, 0, 0, 0, 0, 0, 0, 0, 0, 2, 0, 15, 39, 1, 0, 0, 0, 0, 16, 0, 0, 52, 0, 0, 0, 0, 0, 0, 0, 0, 0, 0, 0, 52, 0, 32, 0, 1, 0,
     0, 0, 0, 0, 0, 0, 1, 0, 0, 0, 0, 0, 0, 0, 0, 16, 0, 0, 0, 16, 0, 0, 84, 0, 0, 0, 0, 24, 0, 0, 2, 0, 0, 0, 0, 16, 0, 0]"

definition empty_space :: "machine fs_state \<Rightarrow> machine fs_state fault_state" where
  "empty_space f = (faulting f)\<lparr>spaces := (\<lambda>_. \<lparr>space_areas = init_area_map 0x1000 0xbfffffff, space_map = 0\<rparr>), debug_cache_lock_owner := - 1\<rparr>"

lemma tiny_elf:
  "elf_header_at tiny_program = \<lparr>e_ident = take 16 tiny_program, e_machine = EM_NYUZI, e_entry = 0x1000, e_phoff = 52, e_phnum = 1\<rparr>"
  "elf_segments tiny_program = [\<lparr>p_type = 1, p_offset = 0, p_vaddr = 0x1000, p_filesz = 84, p_memsz = 0x1800, p_flags = 2\<rparr>]"
  "length tiny_program = 84"
proof -
  show h: "elf_header_at tiny_program = \<lparr>e_ident = take 16 tiny_program, e_machine = EM_NYUZI, e_entry = 0x1000, e_phoff = 52, e_phnum = 1\<rparr>"
    by (simp add: elf_header_at_def tiny_program_def bytes16_def get32_def)
  show "elf_segments tiny_program = [\<lparr>p_type = 1, p_offset = 0, p_vaddr = 0x1000, p_filesz = 84, p_memsz = 0x1800, p_flags = 2\<rparr>]"
    unfolding elf_segments_def h by (simp add: elf_segment_at_def tiny_program_def get32_def)
  show "length tiny_program = 84" by (simp add: tiny_program_def)
qed

theorem load_program_makes_areas_witness:
  "\<exists>img. load_program (open_file emu_mmio) (read_file emu_mmio) [] 0 7 8 1 [0x61] (empty_space (booted img)) = Some (Inl Exit_called)
     \<or> (\<exists>s'. load_program (open_file emu_mmio) (read_file emu_mmio) [] 0 7 8 1 [0x61] (empty_space (booted img)) = Some (Inr (Some 0x1000, s'))
         \<and> set (area_list (space_areas (spaces s' 1))) = {\<lparr>low_address = 0x1000, high_address = 0x2fff, area_cache = Some 8, area_cache_offset = 0,
             area_cache_length = 84, area_flags = AREA_WRITABLE, area_name = ''program segment''\<rparr>}
         \<and> cache_source (caches s' 8) = Some 7 \<and> cache_refs (caches s' 7) = 1)"
proof -
  let ?host = "\<lambda>p :: u8 list. if p = [0x64, 0x2f, 0x61] then Some tiny_program else None" and ?fs = "[([0x61], tiny_program)]"
  have ne: "tiny_program \<noteq> []" using tiny_elf(3) by auto
  have files: "list_all2 (plain_file ?host) [[0x64, 0x2f, 0x61]] ?fs" "\<exists>f\<in>set ?fs. snd f \<noteq> []"
    using ne by (simp_all add: plain_file_def normalize_file_name_def tiny_elf(3))
  have "512 = round512 (8 + 40 * length ?fs)" "layout_end 512 ?fs < 2147483648" by (simp_all add: tiny_elf(3))
  from mkfs_image [OF files this, of "\<lambda>_. 7"] obtain img where img: "fs_image img (layout 512 ?fs)" "512 dvd length img" "length img < 2147483648"
    by blast
  have "slab_inv 0xd0000000 0xd0020000 {} (fresh_slab\<lparr>heap := fresh_heap\<rparr>)"
    unfolding slab_inv_def using fresh_heap_inv
    by (intro exI [of _ "{}"] exI [of _ "[]"])
      (simp add: fresh_slab_def MAKE_SLAB_def slab_allocator.extend_def slab_parts_def slab_wilderness_def)
  then have boot: "fs_boot img (layout 512 ?fs) 0xd0000000 0xd0020000 (backing (empty_space (booted img)))"
    by (simp add: fs_boot_def booted_def card_new_open fresh_heap_def round_up_def empty_space_def)
  have elf: "elf_ok tiny_program" by (simp add: elf_ok_def tiny_elf) (simp add: tiny_program_def)
  let ?seg = "\<lparr>p_type = 1, p_offset = 0, p_vaddr = 0x1000, p_filesz = 84, p_memsz = 0x1800, p_flags = 2\<rparr>" and ?m = "init_area_map 0x1000 0xbfffffff"
  have seg: "loadable ?seg" "segment_writable ?seg" "segment_size ?seg = 8192" "segment_flags ?seg = AREA_WRITABLE"
    by (simp_all add: loadable_def segment_writable_def segment_size_def segment_flags_def round_up_def)
  have m: "area_map_ok ?m" by (simp add: area_map_ok_def init_area_map_def PAGE_ALIGN_def)
  have fits: "segment_fits_map ?m ?seg" using seg(3) by (simp add: segment_fits_map_def init_area_map_def PAGE_ALIGN_def range_free_def)
  have s: "space_areas (spaces (empty_space f) sp) = ?m" "debug_cache_lock_owner (empty_space f) \<noteq> 0" for f sp by (simp_all add: empty_space_def)
  have run: "load_program (open_file emu_mmio) (read_file emu_mmio) [] 0 7 8 1 [0x61] (empty_space (booted img)) = Some (Inl Exit_called)
     \<or> (\<exists>s' file f. load_program (open_file emu_mmio) (read_file emu_mmio) [] 0 7 8 1 [0x61] (empty_space (booted img))
          = Some (Inr (Some (e_entry (elf_header_at tiny_program)), s'))
        \<and> program_loaded 7 8 1 file [?seg] (empty_space (booted img)) s' \<and> card_files img (layout 512 ?fs) f (backing s') \<and> handle_contents img f file = tiny_program)"
  proof (rule load_program_makes_areas [OF boot img])
    show "layout 512 ?fs ! 0 = ([0x61], 512, tiny_program)" by simp
    show "[?seg] = elf_segments tiny_program" by (simp add: tiny_elf(2))
    show "init_area_map 0x1000 0xbfffffff = space_areas (spaces (empty_space (booted img)) 1)" by (rule s(1) [symmetric])
  qed (use elf seg(1) m fits s(2) in simp_all)
  have "area_list ?m = []" "segment_area 7 8 ?seg = \<lparr>low_address = 0x1000, high_address = 0x2fff, area_cache = Some 8, area_cache_offset = 0,
             area_cache_length = 84, area_flags = AREA_WRITABLE, area_name = ''program segment''\<rparr>"
    using seg by (simp_all add: init_area_map_def segment_area_def)
  then have "set (area_list (space_areas (spaces s' 1))) = {\<lparr>low_address = 0x1000, high_address = 0x2fff, area_cache = Some 8, area_cache_offset = 0,
             area_cache_length = 84, area_flags = AREA_WRITABLE, area_name = ''program segment''\<rparr>}
      \<and> cache_source (caches s' 8) = Some 7 \<and> cache_refs (caches s' 7) = 1"
    if "program_loaded 7 8 1 h [?seg] (empty_space (booted img)) s'" for h s'
    using that seg s(1) by (simp add: program_loaded_def)
  note areas = this
  have "e_entry (elf_header_at tiny_program) = 0x1000" by (simp add: tiny_elf(1))
  then show ?thesis using run areas by metis
qed

end
