(* ===== verification/Kern_Thread.thy ===== *)
theory Kern_Thread
  imports Kern_Loader
begin

text \<open>
  Threads and processes: \<open>software/kernel/thread.c\<close>, with the interrupt tables of \<open>trap.c\<close> that it uses.
  Threads and processes are numbers that index tables of structures; the queues are sequences (see
  \<open>Kern_List\<close>). \<open>hw\<close> is the hardware thread that executes. A structure from a slab is an argument of the
  function that allocates it. The code between taking and releasing \<open>thread_q_lock\<close> is atomic; in
  \<open>reschedule\<close> that includes the context switch, after which the new thread releases the lock. \<open>sp\<close> is
  the stack pointer that the context switch saves. Names are cut to 32 characters; for a longer name
  \<open>strlcpy\<close> writes its terminator past the field. The word of a context frame that holds the return
  address is the field \<open>saved_ra\<close>.
\<close>

datatype thread_state = THREAD_READY | THREAD_RUNNING | THREAD_WAITING | THREAD_DEAD

datatype start_code = User_thread_kernel_start | Kernel_thread_kernel_start | New_process_start

datatype interrupt_handler = Timer_tick

record kthread =
  th_id :: int
  kernel_stack_ptr :: u32
  current_stack :: u32
  kernel_stack_area :: "vm_area option"
  user_stack_area :: "vm_area option"
  th_proc :: nat
  start_func :: u32
  th_param :: u32
  th_state :: thread_state
  th_name :: string
  saved_ra :: "start_code option"

record kprocess =
  proc_refs :: int
  proc_id :: int
  thread_list :: "nat list"
  proc_space :: nat

record 'f kernel =
  vm_state :: "'f fault_state"
  threads :: "nat \<Rightarrow> kthread"
  processes :: "nat \<Rightarrow> kprocess"
  cur_thread :: "nat \<Rightarrow> nat option"
  disable_preempt_count :: "nat \<Rightarrow> int"
  ready_q :: "nat list"
  dead_q :: "nat list"
  next_thread_id :: int
  next_process_id :: int
  kernel_proc :: nat
  process_list :: "nat list"
  trap_kernel_stack :: "nat \<Rightarrow> u32"
  hw_page_dir :: "nat \<Rightarrow> u32"
  hw_asid :: "nat \<Rightarrow> nat option"
  handlers :: "nat \<Rightarrow> interrupt_handler option"
  enabled_interrupts :: "nat \<Rightarrow> u32"
  interrupt_pending :: "nat \<Rightarrow> u32"
  timer_interval :: u32

abbreviation (input) TIMER_INTERVAL :: u32 where "TIMER_INTERVAL \<equiv> 500000"
abbreviation (input) CONTEXT_FRAME_SIZE :: u32 where "CONTEXT_FRAME_SIZE \<equiv> 0x840"

subsection \<open>Interrupts and the timer\<close>

definition unmask_interrupt :: "nat \<Rightarrow> nat \<Rightarrow> 'f kernel \<Rightarrow> 'f kernel" where
  "unmask_interrupt hw i s = s\<lparr>enabled_interrupts := (enabled_interrupts s)(hw := enabled_interrupts s hw OR push_bit i 1)\<rparr>"

definition register_interrupt_handler :: "nat \<Rightarrow> nat \<Rightarrow> interrupt_handler \<Rightarrow> 'f kernel \<Rightarrow> 'f kernel" where
  "register_interrupt_handler hw i h s = unmask_interrupt hw i (s\<lparr>handlers := (handlers s)(i := Some h)\<rparr>)"

definition ack_interrupt :: "nat \<Rightarrow> nat \<Rightarrow> 'f kernel \<Rightarrow> 'f kernel" where
  "ack_interrupt hw i s = s\<lparr>interrupt_pending := (interrupt_pending s)(hw := interrupt_pending s hw AND NOT (push_bit i 1))\<rparr>"

definition start_timer :: "'f kernel \<Rightarrow> 'f kernel" where
  "start_timer s = s\<lparr>timer_interval := TIMER_INTERVAL\<rparr>"

subsection \<open>Switching threads\<close>

definition set_state :: "thread_state \<Rightarrow> nat \<Rightarrow> 'f kernel \<Rightarrow> 'f kernel" where
  "set_state st t s = s\<lparr>threads := (threads s)(t := (threads s t)\<lparr>th_state := st\<rparr>)\<rparr>"

definition space_of :: "nat \<Rightarrow> 'f kernel \<Rightarrow> nat" where
  "space_of t s = proc_space (processes s (th_proc (threads s t)))"

definition map_of_thread :: "nat \<Rightarrow> 'f kernel \<Rightarrow> vm_translation_map" where
  "map_of_thread t s = maps (vm_state s) (space_map (spaces (vm_state s) (space_of t s)))"

text \<open>The body of the last \<open>if\<close> of \<open>reschedule\<close>: the registers of the hardware thread and the context switch.\<close>

definition switch_thread :: "nat \<Rightarrow> u32 \<Rightarrow> nat \<Rightarrow> nat \<Rightarrow> 'f kernel \<Rightarrow> 'f kernel" where
  "switch_thread hw sp old_thread next_thread s =
     s\<lparr>cur_thread := (cur_thread s)(hw := Some next_thread),
       trap_kernel_stack := (trap_kernel_stack s)(hw := kernel_stack_ptr (threads s next_thread)),
       hw_page_dir := (hw_page_dir s)(hw := vm_translation_map.page_dir (map_of_thread next_thread s)),
       hw_asid := (hw_asid s)(hw := map_asid (map_of_thread next_thread s)),
       threads := (threads s)(old_thread := (threads s old_thread)\<lparr>current_stack := sp - CONTEXT_FRAME_SIZE\<rparr>)\<rparr>"

definition reschedule :: "nat \<Rightarrow> u32 \<Rightarrow> 'f kernel \<Rightarrow> 'f kernel cres" where
  "reschedule hw sp s =
     (if disable_preempt_count s hw \<noteq> 0 then Inl Assert_failed
      else case cur_thread s hw of None \<Rightarrow> Inl Out_of_bounds
      | Some old_thread \<Rightarrow>
          if th_state (threads s old_thread) = THREAD_READY then Inl Assert_failed
          else let s1 = (if th_state (threads s old_thread) = THREAD_RUNNING
                         then (set_state THREAD_READY old_thread s)\<lparr>ready_q := ready_q s @ [old_thread]\<rparr> else s)
            in case ready_q s1 of [] \<Rightarrow> Inl Assert_failed
            | next_thread # rest \<Rightarrow>
                let s2 = set_state THREAD_RUNNING next_thread (s1\<lparr>ready_q := rest\<rparr>)
                in Inr (if old_thread \<noteq> next_thread then switch_thread hw sp old_thread next_thread s2 else s2))"

definition kernel_timer_tick :: "nat \<Rightarrow> u32 \<Rightarrow> 'f kernel \<Rightarrow> 'f kernel cres" where
  "kernel_timer_tick hw sp s =
     (let s1 = ack_interrupt hw 1 (start_timer s) in
      if disable_preempt_count s1 hw = 0 then reschedule hw sp s1 else Inr s1)"

definition disable_preempt :: "nat \<Rightarrow> 'f kernel \<Rightarrow> 'f kernel" where
  "disable_preempt hw s = s\<lparr>disable_preempt_count := (disable_preempt_count s)(hw := disable_preempt_count s hw + 1)\<rparr>"

definition enable_preempt :: "nat \<Rightarrow> 'f kernel \<Rightarrow> 'f kernel" where
  "enable_preempt hw s = s\<lparr>disable_preempt_count := (disable_preempt_count s)(hw := disable_preempt_count s hw - 1)\<rparr>"

definition make_thread_ready :: "nat \<Rightarrow> 'f kernel \<Rightarrow> 'f kernel cres" where
  "make_thread_ready t s =
     (if th_state (threads s t) \<noteq> THREAD_WAITING then Inl Assert_failed
      else Inr ((set_state THREAD_READY t s)\<lparr>ready_q := ready_q s @ [t]\<rparr>))"

text \<open>
  \<open>thread_exit\<close>: the thread is put into the queue of dead threads, is marked as dead, and switches to
  another thread; these are three steps that other hardware threads can observe.
\<close>

definition exit_enqueue :: "nat \<Rightarrow> 'f kernel \<Rightarrow> 'f kernel" where
  "exit_enqueue t s = s\<lparr>dead_q := dead_q s @ [t]\<rparr>"

definition thread_exit :: "nat \<Rightarrow> u32 \<Rightarrow> 'f kernel \<Rightarrow> 'f kernel cres" where
  "thread_exit hw sp s = (case cur_thread s hw of None \<Rightarrow> Inl Out_of_bounds
     | Some t \<Rightarrow> bindE (reschedule hw sp (set_state THREAD_DEAD t (exit_enqueue t s))) (\<lambda>s'.
         if cur_thread s' hw = Some t then Inl Exit_called else Inr s'))"

subsection \<open>Processes and threads\<close>

definition bool_init_kernel_process :: "nat \<Rightarrow> 'f kernel \<Rightarrow> 'f kernel" where
  "bool_init_kernel_process p s = s\<lparr>ready_q := [], dead_q := [], process_list := [p], kernel_proc := p,
     processes := (processes s)(p := (processes s p)\<lparr>thread_list := [], proc_space := 0, proc_id := 0\<rparr>), next_process_id := 1\<rparr>"

definition add_to_process :: "nat \<Rightarrow> nat \<Rightarrow> 'f kernel \<Rightarrow> 'f kernel" where
  "add_to_process p t s = s\<lparr>processes := (processes s)(p := (processes s p)\<lparr>thread_list := thread_list (processes s p) @ [t]\<rparr>)\<rparr>"

definition boot_init_thread :: "nat \<Rightarrow> nat \<Rightarrow> 'f kernel \<Rightarrow> 'f kernel" where
  "boot_init_thread hw t s =
     (let th = (threads s t)\<lparr>th_state := THREAD_RUNNING, th_proc := kernel_proc s, th_id := next_thread_id s, th_name := ''idle_thread''\<rparr>;
          s1 = s\<lparr>threads := (threads s)(t := th), next_thread_id := next_thread_id s + 1, cur_thread := (cur_thread s)(hw := Some t)\<rparr>
      in start_timer (register_interrupt_handler hw 1 Timer_tick (add_to_process (kernel_proc s) t s1)))"

abbreviation (input) in_vm :: "('f fault_state, 'a) io \<Rightarrow> ('f kernel, 'a) io" where
  "in_vm \<equiv> zoomIO vm_state (\<lambda>v s. s\<lparr>vm_state := v\<rparr>)"

text \<open>
  \<open>kc\<close> and \<open>uc\<close> are the structures for the caches of the two stacks. A kernel stack that cannot be
  created is a null pointer access.
\<close>

definition spawn_thread_internal ::
  "'f reader \<Rightarrow> nat \<Rightarrow> nat \<Rightarrow> nat \<Rightarrow> nat \<Rightarrow> string \<Rightarrow> nat \<Rightarrow> start_code \<Rightarrow> u32 \<Rightarrow> u32 \<Rightarrow> bool \<Rightarrow> ('f kernel, nat) io" where
  "spawn_thread_internal rf hw t kc uc name p init start param kernel_only =
     bindIO (in_vm (create_area rf (int hw) kc 0 0xffffffff KERNEL_STACK_SIZE PLACE_SEARCH_DOWN ''kernel stack'' (AREA_WIRED OR AREA_WRITABLE) None 0)) (\<lambda>karea.
     case karea of None \<Rightarrow> failIO Out_of_bounds | Some ka \<Rightarrow>
     bindIO (modifyIO (\<lambda>s. s\<lparr>threads := (threads s)(t := (threads s t)\<lparr>th_name := take 32 name, kernel_stack_area := Some ka,
          kernel_stack_ptr := high_address ka + 1, current_stack := high_address ka + 1 - CONTEXT_FRAME_SIZE, th_proc := p, saved_ra := Some init,
          start_func := start, th_param := param, th_id := next_thread_id s, th_state := THREAD_READY\<rparr>), next_thread_id := next_thread_id s + 1\<rparr>)) (\<lambda>_.
     bindIO (if kernel_only then returnIO None
             else bindIO (getIO (\<lambda>s. proc_space (processes s p))) (\<lambda>space.
               in_vm (create_area rf (int hw) uc space 0xffffffff 0x10000 PLACE_SEARCH_DOWN ''user stack'' AREA_WRITABLE None 0))) (\<lambda>uarea.
     bindIO (modifyIO (\<lambda>s. let s1 = add_to_process p t (s\<lparr>threads := (threads s)(t := (threads s t)\<lparr>user_stack_area := uarea\<rparr>)\<rparr>)
          in s1\<lparr>ready_q := ready_q s1 @ [t]\<rparr>)) (\<lambda>_. returnIO t))))"

definition spawn_user_thread :: "'f reader \<Rightarrow> nat \<Rightarrow> nat \<Rightarrow> nat \<Rightarrow> nat \<Rightarrow> string \<Rightarrow> nat \<Rightarrow> u32 \<Rightarrow> ('f kernel, nat) io" where
  "spawn_user_thread rf hw t kc uc name p start_address = spawn_thread_internal rf hw t kc uc name p User_thread_kernel_start start_address 0 False"

definition spawn_kernel_thread :: "'f reader \<Rightarrow> nat \<Rightarrow> nat \<Rightarrow> nat \<Rightarrow> string \<Rightarrow> u32 \<Rightarrow> u32 \<Rightarrow> ('f kernel, nat) io" where
  "spawn_kernel_thread rf hw t kc name start param =
     bindIO (getIO kernel_proc) (\<lambda>p. spawn_thread_internal rf hw t kc 0 name p Kernel_thread_kernel_start start param True)"

definition dec_proc_ref :: "nat \<Rightarrow> nat \<Rightarrow> ('f kernel, unit) io" where
  "dec_proc_ref hw p =
     bindIO (getIO (\<lambda>s. (cur_thread s hw, map_option (\<lambda>t. th_proc (threads s t)) (cur_thread s hw)))) (\<lambda>(t, cur).
       if t = None then failIO Out_of_bounds else if cur = Some p then failIO Assert_failed else
     bindIO (modifyIO (\<lambda>s. s\<lparr>processes := (processes s)(p := (processes s p)\<lparr>proc_refs := proc_refs (processes s p) - 1\<rparr>)\<rparr>)) (\<lambda>_.
     bindIO (getIO (\<lambda>s. processes s p)) (\<lambda>proc.
       if proc_refs proc \<noteq> 0 then returnIO ()
       else if thread_list proc \<noteq> [] then failIO Assert_failed
       else bindIO (modifyIO (\<lambda>s. s\<lparr>process_list := removeAll p (process_list s)\<rparr>)) (\<lambda>_.
              in_vm (destroy_address_space (int hw) (proc_space proc))))))"

definition remove_from_process :: "nat \<Rightarrow> nat \<Rightarrow> 'f kernel \<Rightarrow> 'f kernel" where
  "remove_from_process p t s = s\<lparr>processes := (processes s)(p := (processes s p)\<lparr>thread_list := removeAll t (thread_list (processes s p))\<rparr>)\<rparr>"

text \<open>Both stacks are removed from the address space of the process, also the kernel stack.\<close>

definition destroy_thread :: "nat \<Rightarrow> nat \<Rightarrow> ('f kernel, unit) io" where
  "destroy_thread hw t =
     bindIO (getIO (\<lambda>s. (threads s t, proc_space (processes s (th_proc (threads s t)))))) (\<lambda>(th, space).
       if th_state th \<noteq> THREAD_DEAD then failIO Assert_failed else
     bindIO (modifyIO (remove_from_process (th_proc th) t)) (\<lambda>_.
     bindIO (getIO (\<lambda>s. cur_thread s hw)) (\<lambda>cur. if cur = Some t then failIO Assert_failed else
     bindIO (case user_stack_area th of None \<Rightarrow> returnIO () | Some ua \<Rightarrow> in_vm (destroy_area (int hw) space ua)) (\<lambda>_.
     bindIO (case kernel_stack_area th of None \<Rightarrow> failIO Out_of_bounds | Some ka \<Rightarrow> in_vm (destroy_area (int hw) space ka)) (\<lambda>_.
       dec_proc_ref hw (th_proc th))))))"

text \<open>One turn of the loop of \<open>grim_reaper\<close>: the dead thread that is taken, if any, and the rest of the turn.\<close>

definition reap_dequeue :: "'f kernel \<Rightarrow> nat option \<times> 'f kernel" where
  "reap_dequeue s = (case dead_q s of [] \<Rightarrow> (None, s) | t # rest \<Rightarrow> (Some t, s\<lparr>dead_q := rest\<rparr>))"

definition grim_reaper_turn :: "nat \<Rightarrow> u32 \<Rightarrow> ('f kernel, unit) io" where
  "grim_reaper_turn hw sp s = (case reap_dequeue s of
       (None, s') \<Rightarrow> stepE (reschedule hw sp) s'
     | (Some t, s') \<Rightarrow> destroy_thread hw t s')"

text \<open>
  \<open>exec_program\<close> returns the process, \<open>None\<close> when the program cannot be loaded. \<open>space\<close> and \<open>m\<close> are the
  structures for the address space and its translation map.
\<close>

definition exec_program ::
  "'f opener \<Rightarrow> 'f reader \<Rightarrow> u8 list \<Rightarrow> nat \<Rightarrow> nat \<Rightarrow> nat \<Rightarrow> nat \<Rightarrow> nat \<Rightarrow> nat \<Rightarrow> nat \<Rightarrow> nat \<Rightarrow> nat \<Rightarrow> u8 list \<Rightarrow> ('f kernel, nat option) io" where
  "exec_program opener rf stack hw p space m image_cache cow_cache t kc uc filename =
     bindIO (in_vm (callE (create_address_space m))) (\<lambda>areas.
     bindIO (modifyIO (\<lambda>s. s\<lparr>
          vm_state := (vm_state s)\<lparr>spaces := (spaces (vm_state s))(space := \<lparr>space_areas = areas, space_map = m\<rparr>)\<rparr>,
          processes := (processes s)(p := \<lparr>proc_refs = 2, proc_id = next_process_id s, thread_list = [], proc_space = space\<rparr>),
          next_process_id := next_process_id s + 1, process_list := process_list s @ [p]\<rparr>)) (\<lambda>_.
     bindIO (in_vm (load_program opener rf stack (int hw) image_cache cow_cache space filename)) (\<lambda>entry. case entry of
         None \<Rightarrow> returnIO None
       | Some entry_point \<Rightarrow>
           bindIO (spawn_thread_internal rf hw t kc uc ''user_thread'' p New_process_start entry_point 0 False) (\<lambda>_. returnIO (Some p)))))"

subsection \<open>Hardware threads in parallel\<close>

text \<open>
  How far a thread is in one of the functions above; \<open>Active\<close> is a thread that can call any of them.
  Interrupts are off from the first step of an exit or of a wait until the thread is switched out.
\<close>

datatype stage = Active | Exit_queued | Exit_marked | Wait_marked | Reaping nat

record 'f sched =
  kern :: "'f kernel"
  stage_of :: "nat \<Rightarrow> stage"
  in_use :: "nat set"
  idles :: "nat set"

text \<open>A thread is settled when no hardware thread is executing it.\<close>

definition settled :: "'f kernel \<Rightarrow> nat \<Rightarrow> bool" where
  "settled k t \<longleftrightarrow> (\<forall>h. cur_thread k h \<noteq> Some t)"

definition interruptible :: "stage \<Rightarrow> bool" where
  "interruptible st = (case st of Active \<Rightarrow> True | Reaping _ \<Rightarrow> True | _ \<Rightarrow> False)"

text \<open>
  The steps of \<open>n\<close> hardware threads; \<open>r\<close> is the thread that runs \<open>grim_reaper\<close>. Idle threads and \<open>r\<close> do
  not exit, idle threads do not wait. With \<open>strict\<close>, a thread is only destroyed or woken when it is
  settled, which the code does not check.
\<close>

inductive sched_step :: "'f reader \<Rightarrow> bool \<Rightarrow> nat \<Rightarrow> nat \<Rightarrow> 'f sched \<Rightarrow> 'f sched \<Rightarrow> bool" for rf strict n r where
  boot: "hw < n \<Longrightarrow> cur_thread (kern s) hw = None \<Longrightarrow> t \<notin> in_use s \<Longrightarrow> t \<noteq> r \<Longrightarrow>
    sched_step rf strict n r s (s\<lparr>kern := boot_init_thread hw t (kern s), stage_of := (stage_of s)(t := Active),
      in_use := insert t (in_use s), idles := insert t (idles s)\<rparr>)"
| tick: "hw < n \<Longrightarrow> cur_thread (kern s) hw = Some t \<Longrightarrow> interruptible (stage_of s t) \<Longrightarrow> kernel_timer_tick hw sp (kern s) = Inr k' \<Longrightarrow>
    sched_step rf strict n r s (s\<lparr>kern := k'\<rparr>)"
| yield: "hw < n \<Longrightarrow> cur_thread (kern s) hw = Some t \<Longrightarrow> stage_of s t = Active \<Longrightarrow> reschedule hw sp (kern s) = Inr k' \<Longrightarrow>
    sched_step rf strict n r s (s\<lparr>kern := k'\<rparr>)"
| exit_queue: "hw < n \<Longrightarrow> cur_thread (kern s) hw = Some t \<Longrightarrow> stage_of s t = Active \<Longrightarrow> t \<notin> idles s \<Longrightarrow> t \<noteq> r \<Longrightarrow>
    sched_step rf strict n r s (s\<lparr>kern := exit_enqueue t (kern s), stage_of := (stage_of s)(t := Exit_queued)\<rparr>)"
| exit_mark: "hw < n \<Longrightarrow> cur_thread (kern s) hw = Some t \<Longrightarrow> stage_of s t = Exit_queued \<Longrightarrow>
    sched_step rf strict n r s (s\<lparr>kern := set_state THREAD_DEAD t (kern s), stage_of := (stage_of s)(t := Exit_marked)\<rparr>)"
| exit_switch: "hw < n \<Longrightarrow> cur_thread (kern s) hw = Some t \<Longrightarrow> stage_of s t = Exit_marked \<Longrightarrow> reschedule hw sp (kern s) = Inr k' \<Longrightarrow>
    sched_step rf strict n r s (s\<lparr>kern := k'\<rparr>)"
| wait_mark: "hw < n \<Longrightarrow> cur_thread (kern s) hw = Some t \<Longrightarrow> stage_of s t = Active \<Longrightarrow> t \<notin> idles s \<Longrightarrow>
    sched_step rf strict n r s (s\<lparr>kern := set_state THREAD_WAITING t (kern s), stage_of := (stage_of s)(t := Wait_marked)\<rparr>)"
| wait_switch: "hw < n \<Longrightarrow> cur_thread (kern s) hw = Some t \<Longrightarrow> stage_of s t = Wait_marked \<Longrightarrow> reschedule hw sp (kern s) = Inr k' \<Longrightarrow>
    sched_step rf strict n r s (s\<lparr>kern := k', stage_of := (stage_of s)(t := Active)\<rparr>)"
| wake: "hw < n \<Longrightarrow> cur_thread (kern s) hw = Some t \<Longrightarrow> stage_of s t = Active \<Longrightarrow> u \<in> in_use s \<Longrightarrow> strict \<longrightarrow> settled (kern s) u \<Longrightarrow>
    make_thread_ready u (kern s) = Inr k' \<Longrightarrow> sched_step rf strict n r s (s\<lparr>kern := k'\<rparr>)"
| spawn: "hw < n \<Longrightarrow> cur_thread (kern s) hw = Some t \<Longrightarrow> stage_of s t = Active \<Longrightarrow> u \<notin> in_use s \<Longrightarrow>
    spawn_thread_internal rf hw u kc uc name p init start param kernel_only (kern s) = Some (Inr (u, k')) \<Longrightarrow>
    sched_step rf strict n r s (s\<lparr>kern := k', stage_of := (stage_of s)(u := Active), in_use := insert u (in_use s)\<rparr>)"
| reap_take: "hw < n \<Longrightarrow> cur_thread (kern s) hw = Some r \<Longrightarrow> stage_of s r = Active \<Longrightarrow> reap_dequeue (kern s) = (Some u, k') \<Longrightarrow>
    strict \<longrightarrow> settled (kern s) u \<Longrightarrow> sched_step rf strict n r s (s\<lparr>kern := k', stage_of := (stage_of s)(r := Reaping u)\<rparr>)"
| reap_destroy: "hw < n \<Longrightarrow> cur_thread (kern s) hw = Some r \<Longrightarrow> stage_of s r = Reaping u \<Longrightarrow> destroy_thread hw u (kern s) = Some (Inr ((), k')) \<Longrightarrow>
    sched_step rf strict n r s (s\<lparr>kern := k', stage_of := (stage_of s)(r := Active), in_use := in_use s - {u}\<rparr>)"

definition sched_start :: "'f kernel \<Rightarrow> 'f sched" where
  "sched_start k = \<lparr>kern = k\<lparr>cur_thread := (\<lambda>_. None), disable_preempt_count := (\<lambda>_. 0), ready_q := [], dead_q := []\<rparr>,
     stage_of = (\<lambda>_. Active), in_use = {}, idles = {}\<rparr>"

subsection \<open>What the operations leave alone\<close>

lemma set_state_simps [simp]:
  "cur_thread (set_state st t k) = cur_thread k" "ready_q (set_state st t k) = ready_q k" "dead_q (set_state st t k) = dead_q k"
  "disable_preempt_count (set_state st t k) = disable_preempt_count k"
  "th_state (threads (set_state st t k) u) = (if u = t then st else th_state (threads k u))"
  by (simp_all add: set_state_def)

lemma switch_thread_simps [simp]:
  "cur_thread (switch_thread hw sp old t k) = (cur_thread k)(hw := Some t)" "ready_q (switch_thread hw sp old t k) = ready_q k"
  "dead_q (switch_thread hw sp old t k) = dead_q k" "disable_preempt_count (switch_thread hw sp old t k) = disable_preempt_count k"
  "th_state (threads (switch_thread hw sp old t k) u) = th_state (threads k u)"
  by (simp_all add: switch_thread_def)

lemma boot_init_thread_simps [simp]:
  "cur_thread (boot_init_thread hw t k) = (cur_thread k)(hw := Some t)" "ready_q (boot_init_thread hw t k) = ready_q k"
  "dead_q (boot_init_thread hw t k) = dead_q k" "disable_preempt_count (boot_init_thread hw t k) = disable_preempt_count k"
  "th_state (threads (boot_init_thread hw t k) u) = (if u = t then THREAD_RUNNING else th_state (threads k u))"
  by (simp_all add: boot_init_thread_def start_timer_def register_interrupt_handler_def unmask_interrupt_def add_to_process_def Let_def)

lemma tick_simps [simp]:
  "cur_thread (ack_interrupt hw i (start_timer k)) = cur_thread k" "ready_q (ack_interrupt hw i (start_timer k)) = ready_q k"
  "dead_q (ack_interrupt hw i (start_timer k)) = dead_q k" "threads (ack_interrupt hw i (start_timer k)) = threads k"
  "disable_preempt_count (ack_interrupt hw i (start_timer k)) = disable_preempt_count k"
  by (simp_all add: ack_interrupt_def start_timer_def)

lemma exit_enqueue_simps [simp]:
  "cur_thread (exit_enqueue t k) = cur_thread k" "ready_q (exit_enqueue t k) = ready_q k" "threads (exit_enqueue t k) = threads k"
  "dead_q (exit_enqueue t k) = dead_q k @ [t]" "disable_preempt_count (exit_enqueue t k) = disable_preempt_count k"
  by (simp_all add: exit_enqueue_def)

text \<open>The part of the state that the scheduler uses.\<close>

definition same_sched :: "'f kernel \<Rightarrow> 'f kernel \<Rightarrow> bool" where
  "same_sched k k' \<longleftrightarrow> cur_thread k' = cur_thread k \<and> ready_q k' = ready_q k \<and> dead_q k' = dead_q k
     \<and> disable_preempt_count k' = disable_preempt_count k \<and> (\<forall>u. th_state (threads k' u) = th_state (threads k u))"

lemma same_sched_refl [simp]: "same_sched k k"
  by (simp add: same_sched_def)

lemma same_sched_trans: "same_sched k k1 \<Longrightarrow> same_sched k1 k2 \<Longrightarrow> same_sched k k2"
  by (simp add: same_sched_def)

lemma zoom_vm_same: "in_vm m k = Some (Inr (x, k')) \<Longrightarrow> same_sched k k'"
  by (auto simp: zoomIO_def same_sched_def split: option.splits sum.splits)

lemma dec_proc_ref_same: "dec_proc_ref hw p k = Some (Inr (x, k')) \<Longrightarrow> same_sched k k'"
  by (auto simp: dec_proc_ref_def bindIO_eq_Inr same_sched_def split: if_splits dest!: zoom_vm_same)

lemma destroy_thread_same:
  assumes "destroy_thread hw t k = Some (Inr (x, k'))"
  shows "same_sched k k'"
proof -
  define k1 where "k1 = remove_from_process (th_proc (threads k t)) t k"
  have k1: "same_sched k k1" by (simp add: k1_def remove_from_process_def same_sched_def)
  obtain k2 k3 where
    "(case user_stack_area (threads k t) of None \<Rightarrow> returnIO () | Some ua \<Rightarrow> in_vm (destroy_area (int hw) (proc_space (processes k (th_proc (threads k t)))) ua)) k1 = Some (Inr ((), k2))"
    "(case kernel_stack_area (threads k t) of None \<Rightarrow> failIO Out_of_bounds | Some ka \<Rightarrow> in_vm (destroy_area (int hw) (proc_space (processes k (th_proc (threads k t)))) ka)) k2 = Some (Inr ((), k3))"
    "dec_proc_ref hw (th_proc (threads k t)) k3 = Some (Inr (x, k'))"
    using assms by (auto simp: destroy_thread_def bindIO_eq_Inr k1_def split: if_splits)
  then have "same_sched k1 k2" "same_sched k2 k3" "same_sched k3 k'"
    by (auto split: option.splits dest: zoom_vm_same dec_proc_ref_same)
  then show ?thesis using k1 by (blast intro: same_sched_trans)
qed

lemma spawn_frame:
  assumes "spawn_thread_internal rf hw u kc uc name p init start param kernel_only k = Some (Inr (x, k'))"
  shows "cur_thread k' = cur_thread k" "dead_q k' = dead_q k" "disable_preempt_count k' = disable_preempt_count k" "ready_q k' = ready_q k @ [u]"
    "th_state (threads k' v) = (if v = u then THREAD_READY else th_state (threads k v))"
proof -
  obtain k1 ka uarea k3 where k1: "same_sched k k1"
    and k3: "(if kernel_only then returnIO None else bindIO (getIO (\<lambda>s. proc_space (processes s p))) (\<lambda>space.
        in_vm (create_area rf (int hw) uc space 0xffffffff 0x10000 PLACE_SEARCH_DOWN ''user stack'' AREA_WRITABLE None 0)))
      (k1\<lparr>threads := (threads k1)(u := (threads k1 u)\<lparr>th_name := take 32 name, kernel_stack_area := Some ka,
          kernel_stack_ptr := high_address ka + 1, current_stack := high_address ka + 1 - CONTEXT_FRAME_SIZE, th_proc := p, saved_ra := Some init,
          start_func := start, th_param := param, th_id := next_thread_id k1, th_state := THREAD_READY\<rparr>), next_thread_id := next_thread_id k1 + 1\<rparr>)
      = Some (Inr (uarea, k3))"
    and k': "k' = (let s1 = add_to_process p u (k3\<lparr>threads := (threads k3)(u := (threads k3 u)\<lparr>user_stack_area := uarea\<rparr>)\<rparr>) in s1\<lparr>ready_q := ready_q s1 @ [u]\<rparr>)"
    using assms unfolding spawn_thread_internal_def bindIO_eq_Inr
    by (auto simp: bindIO_eq_Inr split: option.splits dest!: zoom_vm_same)
  let ?k2 = "k1\<lparr>threads := (threads k1)(u := (threads k1 u)\<lparr>th_name := take 32 name, kernel_stack_area := Some ka,
          kernel_stack_ptr := high_address ka + 1, current_stack := high_address ka + 1 - CONTEXT_FRAME_SIZE, th_proc := p, saved_ra := Some init,
          start_func := start, th_param := param, th_id := next_thread_id k1, th_state := THREAD_READY\<rparr>), next_thread_id := next_thread_id k1 + 1\<rparr>"
  have "same_sched ?k2 k3" using k3 by (auto split: if_splits dest: zoom_vm_same)
  then show "cur_thread k' = cur_thread k" "dead_q k' = dead_q k" "disable_preempt_count k' = disable_preempt_count k" "ready_q k' = ready_q k @ [u]"
    "th_state (threads k' v) = (if v = u then THREAD_READY else th_state (threads k v))"
    using k1 unfolding k' by (auto simp: same_sched_def add_to_process_def Let_def)
qed

subsection \<open>The invariant\<close>

text \<open>
  What is true of one thread: whether a hardware thread executes it, its state, whether it is in one of
  the queues, and how far it is.
\<close>

definition ok_status :: "bool \<Rightarrow> thread_state \<Rightarrow> bool \<Rightarrow> bool \<Rightarrow> stage \<Rightarrow> bool" where
  "ok_status away st ready dead sg =
     (if away then (case st of
          THREAD_READY \<Rightarrow> ready \<and> \<not> dead \<and> interruptible sg
        | THREAD_RUNNING \<Rightarrow> False
        | THREAD_WAITING \<Rightarrow> \<not> ready \<and> \<not> dead \<and> interruptible sg
        | THREAD_DEAD \<Rightarrow> \<not> ready)
      else \<not> ready \<and> (case sg of
          Active \<Rightarrow> st = THREAD_RUNNING \<and> \<not> dead
        | Reaping _ \<Rightarrow> st = THREAD_RUNNING \<and> \<not> dead
        | Exit_queued \<Rightarrow> st = THREAD_RUNNING \<and> dead
        | Exit_marked \<Rightarrow> st = THREAD_DEAD \<and> dead
        | Wait_marked \<Rightarrow> st = THREAD_WAITING \<and> \<not> dead))"

abbreviation status_of :: "'f sched \<Rightarrow> nat \<Rightarrow> bool" where
  "status_of s t \<equiv> ok_status (settled (kern s) t) (th_state (threads (kern s) t)) (t \<in> set (ready_q (kern s))) (t \<in> set (dead_q (kern s))) (stage_of s t)"

definition cur_ok :: "nat \<Rightarrow> nat set \<Rightarrow> (nat \<Rightarrow> nat option) \<Rightarrow> bool" where
  "cur_ok n used cur \<longleftrightarrow> (\<forall>h t. cur h = Some t \<longrightarrow> h < n \<and> t \<in> used \<and> (\<forall>h'. cur h' = Some t \<longrightarrow> h' = h))"

definition idles_ok :: "nat \<Rightarrow> 'f sched \<Rightarrow> bool" where
  "idles_ok r s \<longleftrightarrow> finite (idles s) \<and> card (idles s) = card (dom (cur_thread (kern s))) \<and> r \<notin> idles s
     \<and> (\<forall>t\<in>idles s. t \<in> in_use s \<and> stage_of s t = Active \<and> th_state (threads (kern s) t) \<in> {THREAD_READY, THREAD_RUNNING})"

definition reaping_ok :: "nat \<Rightarrow> 'f sched \<Rightarrow> bool" where
  "reaping_ok r s \<longleftrightarrow> (\<forall>t\<in>in_use s. \<forall>u. stage_of s t = Reaping u \<longrightarrow> t = r \<and> u \<noteq> r \<and> u \<in> in_use s \<and> u \<notin> set (dead_q (kern s))
     \<and> settled (kern s) u \<and> th_state (threads (kern s) u) = THREAD_DEAD)"

definition sched_inv :: "nat \<Rightarrow> nat \<Rightarrow> 'f sched \<Rightarrow> bool" where
  "sched_inv n r s \<longleftrightarrow> (\<forall>h. disable_preempt_count (kern s) h = 0) \<and> cur_ok n (in_use s) (cur_thread (kern s))
     \<and> distinct (ready_q (kern s)) \<and> set (ready_q (kern s)) \<subseteq> in_use s \<and> distinct (dead_q (kern s)) \<and> set (dead_q (kern s)) \<subseteq> in_use s
     \<and> (\<forall>t\<in>in_use s. status_of s t) \<and> idles_ok r s \<and> reaping_ok r s"

lemma not_settled: "cur_thread k h = Some t \<Longrightarrow> \<not> settled k t"
  by (auto simp: settled_def)

lemma running_status:
  assumes "sched_inv n r s" "cur_thread (kern s) hw = Some t"
  shows "t \<in> in_use s" "t \<notin> set (ready_q (kern s))"
    "ok_status False (th_state (threads (kern s) t)) False (t \<in> set (dead_q (kern s))) (stage_of s t)"
proof -
  show t: "t \<in> in_use s" using assms by (auto simp: sched_inv_def cur_ok_def)
  have "status_of s t" using assms(1) t by (simp add: sched_inv_def)
  then have f: "ok_status False (th_state (threads (kern s) t)) (t \<in> set (ready_q (kern s))) (t \<in> set (dead_q (kern s))) (stage_of s t)"
    using not_settled [OF assms(2)] by simp
  then show "t \<notin> set (ready_q (kern s))" by (simp add: ok_status_def)
  with f show "ok_status False (th_state (threads (kern s) t)) False (t \<in> set (dead_q (kern s))) (stage_of s t)" by simp
qed

lemma active_status:
  assumes "sched_inv n r s" "cur_thread (kern s) hw = Some t" "interruptible (stage_of s t)"
  shows "th_state (threads (kern s) t) = THREAD_RUNNING" "t \<notin> set (dead_q (kern s))"
  using running_status(3) [OF assms(1,2)] assms(3) by (auto simp: ok_status_def interruptible_def split: stage.splits)

text \<open>What \<open>reschedule\<close> does to the part of the state that the scheduler uses.\<close>

definition rescheduled :: "nat \<Rightarrow> nat \<Rightarrow> nat \<Rightarrow> nat list \<Rightarrow> 'f kernel \<Rightarrow> 'f kernel \<Rightarrow> bool" where
  "rescheduled hw t next rest k k' \<longleftrightarrow> cur_thread k' = (cur_thread k)(hw := Some next) \<and> ready_q k' = rest \<and> dead_q k' = dead_q k
     \<and> disable_preempt_count k' = disable_preempt_count k
     \<and> (\<forall>u. th_state (threads k' u) = (if u = next then THREAD_RUNNING
          else if u = t \<and> th_state (threads k t) = THREAD_RUNNING then THREAD_READY else th_state (threads k u)))"

lemma reschedule_result:
  assumes "disable_preempt_count k hw = 0" "cur_thread k hw = Some t" "th_state (threads k t) \<noteq> THREAD_READY"
    "(if th_state (threads k t) = THREAD_RUNNING then ready_q k @ [t] else ready_q k) = next # rest"
  shows "\<exists>k'. reschedule hw sp k = Inr k' \<and> rescheduled hw t next rest k k'"
  using assms by (cases "th_state (threads k t) = THREAD_RUNNING") (auto simp: reschedule_def rescheduled_def Let_def)

lemma ready_exists:
  assumes inv: "sched_inv n r s" and t: "cur_thread (kern s) hw = Some t" "t \<notin> idles s"
  shows "ready_q (kern s) \<noteq> []"
proof
  assume empty: "ready_q (kern s) = []"
  let ?cur = "cur_thread (kern s)"
  have "dom ?cur \<subseteq> {..<n}" using inv by (auto simp: sched_inv_def cur_ok_def)
  then have fin: "finite (dom ?cur)" by (rule finite_subset) simp
  have "i \<in> ran ?cur" if i: "i \<in> idles s" for i
  proof -
    have u: "i \<in> in_use s" "th_state (threads (kern s) i) \<in> {THREAD_READY, THREAD_RUNNING}"
      using inv i by (auto simp: sched_inv_def idles_ok_def)
    have "status_of s i" using inv u(1) by (simp add: sched_inv_def)
    with u(2) have "\<not> settled (kern s) i" using empty by (auto simp: ok_status_def)
    then show ?thesis by (auto simp: settled_def ran_def)
  qed
  then have "idles s \<subseteq> ran ?cur - {t}" using t(2) by auto
  moreover have r: "ran ?cur = (the \<circ> ?cur) ` dom ?cur" by (force simp: ran_def dom_def image_iff)
  then have fin_r: "finite (ran ?cur)" using fin by simp
  moreover have "t \<in> ran ?cur" using t(1) by (auto simp: ran_def)
  ultimately have "card (idles s) < card (ran ?cur)" by (metis card_Diff1_less card_mono finite_Diff order_le_less_trans)
  also have "\<dots> \<le> card (dom ?cur)" unfolding r by (rule card_image_le [OF fin])
  finally show False using inv by (simp add: sched_inv_def idles_ok_def)
qed

definition after_switch :: "stage \<Rightarrow> stage" where
  "after_switch sg = (if sg = Wait_marked then Active else sg)"

lemma settled_after_switch:
  assumes "cur_ok n U (cur_thread k)" "cur_thread k hw = Some t" "cur_thread k' = (cur_thread k)(hw := Some next)" "next = t \<or> settled k next"
  shows "settled k' u \<longleftrightarrow> (settled k u \<or> u = t) \<and> u \<noteq> next"
proof (cases "u = next")
  case True
  then show ?thesis using assms(3) by (auto simp: settled_def)
next
  case False
  have "(\<forall>h. h \<noteq> hw \<longrightarrow> cur_thread k h \<noteq> Some u) \<longleftrightarrow> settled k u \<or> u = t"
    using assms(1,2) by (auto simp: settled_def cur_ok_def) (metis option.inject)+
  then show ?thesis using False assms(3) by (auto simp: settled_def)
qed

lemma rescheduled_inv:
  assumes inv: "sched_inv n r s" and t: "cur_thread (kern s) hw = Some t" "stage_of s t \<noteq> Exit_queued"
    and q: "(if th_state (threads (kern s) t) = THREAD_RUNNING then ready_q (kern s) @ [t] else ready_q (kern s)) = next # rest"
    and k': "rescheduled hw t next rest (kern s) k'"
  shows "sched_inv n r (s\<lparr>kern := k', stage_of := (stage_of s)(t := after_switch (stage_of s t))\<rparr>)"
proof -
  let ?k = "kern s" and ?sg = "(stage_of s)(t := after_switch (stage_of s t))"
  note st = running_status [OF inv t(1)]
  have i: "cur_ok n (in_use s) (cur_thread ?k)" "distinct (ready_q ?k)" "set (ready_q ?k) \<subseteq> in_use s" "idles_ok r s" "reaping_ok r s"
    "\<And>u. u \<in> in_use s \<Longrightarrow> status_of s u"
    using inv by (auto simp: sched_inv_def)
  have run: "th_state (threads ?k t) = THREAD_RUNNING \<longleftrightarrow> interruptible (stage_of s t)"
    using st(3) t(2) by (auto simp: ok_status_def interruptible_def split: stage.splits)
  have next_case: "next = t \<and> th_state (threads ?k t) = THREAD_RUNNING \<or> next \<in> set (ready_q ?k) \<and> next \<noteq> t"
    using q st(2) by (cases "ready_q ?k") (auto split: if_splits)
  have nx: "next \<in> in_use s" "next \<notin> set (dead_q ?k)" "interruptible (stage_of s next)" "next = t \<or> settled ?k next"
      "next = t \<or> th_state (threads ?k next) = THREAD_READY"
    using next_case st(1) i(3) i(6) [of "next"] active_status(2) [OF inv t(1)] run
    by (auto simp: ok_status_def interruptible_def split: if_splits thread_state.splits stage.splits)
  have dist: "distinct (next # rest)" using q i(2) st(2) by (metis distinct_append distinct_singleton disjoint_insert(1) inf_bot_right list.simps(15) set_empty)
  have rest: "u \<in> set rest \<longleftrightarrow> u \<noteq> next \<and> (u \<in> set (ready_q ?k) \<or> u = t \<and> th_state (threads ?k t) = THREAD_RUNNING)" for u
    using arg_cong [OF q, of set] dist by (auto split: if_splits)
  have cur: "cur_thread k' = (cur_thread ?k)(hw := Some next)" and sth: "\<And>u. th_state (threads k' u) = (if u = next then THREAD_RUNNING
      else if u = t \<and> th_state (threads ?k t) = THREAD_RUNNING then THREAD_READY else th_state (threads ?k u))"
    and eq: "ready_q k' = rest" "dead_q k' = dead_q ?k" "disable_preempt_count k' = disable_preempt_count ?k"
    using k' by (simp_all add: rescheduled_def)
  have away: "settled k' u \<longleftrightarrow> (settled ?k u \<or> u = t) \<and> u \<noteq> next" for u
    by (rule settled_after_switch [OF i(1) t(1) cur nx(4)])
  have "ok_status (settled k' u) (th_state (threads k' u)) (u \<in> set rest) (u \<in> set (dead_q ?k)) (?sg u)" if u: "u \<in> in_use s" for u
  proof -
    consider "u = next" | "u \<noteq> next" "u = t" | "u \<noteq> next" "u \<noteq> t" by blast
    then show ?thesis
    proof cases
      case 1
      then show ?thesis using away sth rest nx next_case run
        by (auto simp: ok_status_def interruptible_def after_switch_def split: stage.splits)
    next
      case 2
      then show ?thesis using away sth rest st t(2) not_settled [OF t(1)]
        by (auto simp: ok_status_def interruptible_def after_switch_def split: stage.splits thread_state.splits)
    next
      case 3
      then show ?thesis using away sth rest i(6) [OF u] by simp
    qed
  qed
  moreover have "cur_ok n (in_use s) (cur_thread k')"
    using i(1) cur nx(1,4) t(1) by (auto simp: cur_ok_def settled_def)
  moreover have "dom (cur_thread k') = dom (cur_thread ?k)" using cur t(1) by auto
  then have "idles_ok r (s\<lparr>kern := k', stage_of := ?sg\<rparr>)"
    using i(4) sth run by (auto simp: idles_ok_def after_switch_def)
  moreover have "u \<noteq> next" "u \<noteq> t" if "settled ?k u" "th_state (threads ?k u) = THREAD_DEAD" for u
    using that nx(5) next_case not_settled [OF t(1)] by auto
  then have "reaping_ok r (s\<lparr>kern := k', stage_of := ?sg\<rparr>)"
    using i(5) away sth eq by (auto simp: reaping_ok_def after_switch_def split: if_splits)
  moreover have "set rest \<subseteq> in_use s" using rest i(3) st(1) by auto
  ultimately show ?thesis using inv eq dist by (simp add: sched_inv_def)
qed

lemma reschedule_safe:
  assumes inv: "sched_inv n r s" and t: "cur_thread (kern s) hw = Some t" "stage_of s t \<noteq> Exit_queued"
  shows "\<exists>k'. reschedule hw sp (kern s) = Inr k' \<and> sched_inv n r (s\<lparr>kern := k', stage_of := (stage_of s)(t := after_switch (stage_of s t))\<rparr>)"
proof -
  let ?k = "kern s" and ?q = "if th_state (threads (kern s) t) = THREAD_RUNNING then ready_q (kern s) @ [t] else ready_q (kern s)"
  note st = running_status(3) [OF inv t(1)]
  have "?q \<noteq> []"
  proof (cases "th_state (threads ?k t) = THREAD_RUNNING")
    case False
    then have "stage_of s t \<noteq> Active" using st by (auto simp: ok_status_def)
    then have "t \<notin> idles s" using inv by (auto simp: sched_inv_def idles_ok_def)
    from ready_exists [OF inv t(1) this] show ?thesis by simp
  qed simp
  then obtain nxt rest where q: "?q = nxt # rest" by (cases ?q) auto
  have "disable_preempt_count ?k hw = 0" using inv by (simp add: sched_inv_def)
  moreover have "th_state (threads ?k t) \<noteq> THREAD_READY" using st by (auto simp: ok_status_def split: stage.splits)
  ultimately show ?thesis using reschedule_result [OF _ t(1) _ q] rescheduled_inv [OF inv t q] by blast
qed

text \<open>Steps that change the status of one thread only and switch no hardware thread.\<close>

lemma one_thread_inv:
  assumes inv: "sched_inv n r s"
    and same: "cur_thread k' = cur_thread (kern s)" "disable_preempt_count k' = disable_preempt_count (kern s)"
      "\<And>u. u \<noteq> t \<Longrightarrow> th_state (threads k' u) = th_state (threads (kern s) u)"
      "\<And>u. u \<noteq> t \<Longrightarrow> u \<in> set (ready_q k') \<longleftrightarrow> u \<in> set (ready_q (kern s))" "\<And>u. u \<noteq> t \<Longrightarrow> u \<in> set (dead_q k') \<longleftrightarrow> u \<in> set (dead_q (kern s))"
    and queues: "distinct (ready_q k')" "distinct (dead_q k')"
    and t: "t \<notin> idles s" "\<And>u. sg = Reaping u \<Longrightarrow> t \<in> in_use s \<and> stage_of s t = Reaping u"
      "ok_status (settled (kern s) t) (th_state (threads k' t)) (t \<in> set (ready_q k')) (t \<in> set (dead_q k')) sg"
      "\<And>x. stage_of s x = Reaping t \<Longrightarrow> x \<notin> in_use s"
  shows "sched_inv n r (s\<lparr>kern := k', stage_of := (stage_of s)(t := sg), in_use := insert t (in_use s)\<rparr>)"
proof -
  have away: "settled k' u = settled (kern s) u" for u using same(1) by (simp add: settled_def)
  have "ok_status (settled k' u) (th_state (threads k' u)) (u \<in> set (ready_q k')) (u \<in> set (dead_q k')) (((stage_of s)(t := sg)) u)"
    if "u \<in> insert t (in_use s)" for u
    using that inv same(3-5) [of u] t(3) away by (cases "u = t") (auto simp: sched_inv_def)
  moreover have "idles_ok r (s\<lparr>kern := k', stage_of := (stage_of s)(t := sg), in_use := insert t (in_use s)\<rparr>)"
    using inv same(1,3) t(1) by (auto simp: sched_inv_def idles_ok_def)
  moreover have "reaping_ok r (s\<lparr>kern := k', stage_of := (stage_of s)(t := sg), in_use := insert t (in_use s)\<rparr>)"
    unfolding reaping_ok_def
  proof (intro ballI allI impI)
    fix x u assume x: "x \<in> in_use (s\<lparr>kern := k', stage_of := (stage_of s)(t := sg), in_use := insert t (in_use s)\<rparr>)"
      "stage_of (s\<lparr>kern := k', stage_of := (stage_of s)(t := sg), in_use := insert t (in_use s)\<rparr>) x = Reaping u"
    then have o: "x \<in> in_use s" "stage_of s x = Reaping u" using t(2) by (auto split: if_splits)
    then have "u \<noteq> t" using t(4) by auto
    moreover have "reaping_ok r s" using inv by (simp add: sched_inv_def)
    then have "x = r \<and> u \<noteq> r \<and> u \<in> in_use s \<and> u \<notin> set (dead_q (kern s)) \<and> settled (kern s) u \<and> th_state (threads (kern s) u) = THREAD_DEAD"
      using o unfolding reaping_ok_def by blast
    ultimately show "x = r \<and> u \<noteq> r \<and> u \<in> in_use (s\<lparr>kern := k', stage_of := (stage_of s)(t := sg), in_use := insert t (in_use s)\<rparr>)
        \<and> u \<notin> set (dead_q (kern (s\<lparr>kern := k', stage_of := (stage_of s)(t := sg), in_use := insert t (in_use s)\<rparr>)))
        \<and> settled (kern (s\<lparr>kern := k', stage_of := (stage_of s)(t := sg), in_use := insert t (in_use s)\<rparr>)) u
        \<and> th_state (threads (kern (s\<lparr>kern := k', stage_of := (stage_of s)(t := sg), in_use := insert t (in_use s)\<rparr>)) u) = THREAD_DEAD"
      using away same(3,5) [of u] by simp
  qed
  moreover have "cur_ok n (insert t (in_use s)) (cur_thread k')" using inv same(1) by (auto simp: sched_inv_def cur_ok_def)
  moreover have "set (ready_q (kern s)) \<subseteq> in_use s" "set (dead_q (kern s)) \<subseteq> in_use s" using inv by (simp_all add: sched_inv_def)
  then have "set (ready_q k') \<subseteq> insert t (in_use s)" "set (dead_q k') \<subseteq> insert t (in_use s)" using same(4,5) by blast+
  ultimately show ?thesis using inv same(2) queues by (simp add: sched_inv_def)
qed

lemma not_reaped:
  assumes "sched_inv n r s" "stage_of s x = Reaping u" "x \<in> in_use s"
  shows "settled (kern s) u" "th_state (threads (kern s) u) = THREAD_DEAD" "u \<in> in_use s" "u \<notin> set (dead_q (kern s))"
  using assms by (auto simp: sched_inv_def reaping_ok_def)

text \<open>The steps, one lemma each.\<close>

lemma exit_queue_inv:
  assumes inv: "sched_inv n r s" and t: "cur_thread (kern s) hw = Some t" "stage_of s t = Active" "t \<notin> idles s"
  shows "sched_inv n r (s\<lparr>kern := exit_enqueue t (kern s), stage_of := (stage_of s)(t := Exit_queued)\<rparr>)"
proof -
  note st = running_status [OF inv t(1)] active_status [OF inv t(1)]
  have "sched_inv n r (s\<lparr>kern := exit_enqueue t (kern s), stage_of := (stage_of s)(t := Exit_queued), in_use := insert t (in_use s)\<rparr>)"
    by (rule one_thread_inv [OF inv])
      (use inv t st not_settled [OF t(1)] not_reaped(1) [OF inv] in \<open>auto simp: sched_inv_def ok_status_def interruptible_def\<close>)
  then show ?thesis using st(1) by (simp add: insert_absorb)
qed

lemma set_running_inv:
  assumes inv: "sched_inv n r s" and t: "cur_thread (kern s) hw = Some t"
    and sg: "stage_of s t = Exit_queued \<and> st = THREAD_DEAD \<and> sg = Exit_marked \<or> stage_of s t = Active \<and> t \<notin> idles s \<and> st = THREAD_WAITING \<and> sg = Wait_marked"
  shows "sched_inv n r (s\<lparr>kern := set_state st t (kern s), stage_of := (stage_of s)(t := sg)\<rparr>)"
proof -
  note rs = running_status [OF inv t]
  have "t \<notin> idles s" using inv sg by (auto simp: sched_inv_def idles_ok_def)
  then have "sched_inv n r (s\<lparr>kern := set_state st t (kern s), stage_of := (stage_of s)(t := sg), in_use := insert t (in_use s)\<rparr>)"
    by (intro one_thread_inv [OF inv])
      (use inv sg rs not_settled [OF t] not_reaped(1) [OF inv] in \<open>auto simp: sched_inv_def ok_status_def\<close>)
  then show ?thesis using rs(1) by (simp add: insert_absorb)
qed

lemma wake_inv:
  assumes inv: "sched_inv n r s" and u: "u \<in> in_use s" "settled (kern s) u" "make_thread_ready u (kern s) = Inr k'"
  shows "sched_inv n r (s\<lparr>kern := k'\<rparr>)"
proof -
  have k': "th_state (threads (kern s) u) = THREAD_WAITING" "k' = (set_state THREAD_READY u (kern s))\<lparr>ready_q := ready_q (kern s) @ [u]\<rparr>"
    using u(3) by (auto simp: make_thread_ready_def split: if_splits)
  have st: "status_of s u" using inv u(1) by (simp add: sched_inv_def)
  then have s: "u \<notin> set (ready_q (kern s))" "u \<notin> set (dead_q (kern s))" "interruptible (stage_of s u)"
    using u(2) k'(1) by (simp_all add: ok_status_def)
  have id: "u \<notin> idles s" using inv k'(1) by (auto simp: sched_inv_def idles_ok_def)
  have dead: "th_state (threads (kern s) x) = THREAD_DEAD" if "stage_of s y = Reaping x" "y \<in> in_use s" for x y
    using not_reaped(2) [OF inv that] .
  have "sched_inv n r (s\<lparr>kern := k', stage_of := (stage_of s)(u := stage_of s u), in_use := insert u (in_use s)\<rparr>)"
    by (rule one_thread_inv [OF inv])
      (use inv s id u k' dead in \<open>auto simp: sched_inv_def ok_status_def settled_def\<close>)
  then show ?thesis using u(1) by (simp add: insert_absorb)
qed

lemma unused_status:
  assumes "sched_inv n r s" "u \<notin> in_use s"
  shows "settled (kern s) u" "u \<notin> set (ready_q (kern s))" "u \<notin> set (dead_q (kern s))" "u \<notin> idles s"
  using assms by (auto simp: sched_inv_def cur_ok_def idles_ok_def settled_def)

lemma spawn_inv:
  assumes inv: "sched_inv n r s" and u: "u \<notin> in_use s"
    and k': "spawn_thread_internal rf hw u kc uc name p init start param kernel_only (kern s) = Some (Inr (x, k'))"
  shows "sched_inv n r (s\<lparr>kern := k', stage_of := (stage_of s)(u := Active), in_use := insert u (in_use s)\<rparr>)"
  by (rule one_thread_inv [OF inv])
    (use spawn_frame [OF k'] unused_status [OF inv u] not_reaped(3) [OF inv] inv u in \<open>auto simp: sched_inv_def ok_status_def interruptible_def\<close>)

lemma boot_inv:
  assumes inv: "sched_inv n r s" and t: "hw < n" "cur_thread (kern s) hw = None" "t \<notin> in_use s" "t \<noteq> r"
  shows "sched_inv n r (s\<lparr>kern := boot_init_thread hw t (kern s), stage_of := (stage_of s)(t := Active), in_use := insert t (in_use s), idles := insert t (idles s)\<rparr>)"
proof -
  let ?k = "boot_init_thread hw t (kern s)" and ?cur = "cur_thread (kern s)"
  note un = unused_status [OF inv t(3)]
  have away: "settled ?k u \<longleftrightarrow> settled (kern s) u \<and> u \<noteq> t" for u using t(2) un(1) by (auto simp: settled_def)
  have "status_of (s\<lparr>kern := ?k, stage_of := (stage_of s)(t := Active), in_use := insert t (in_use s), idles := insert t (idles s)\<rparr>) u"
    if "u \<in> insert t (in_use s)" for u
    using that inv un away by (cases "u = t") (auto simp: sched_inv_def ok_status_def)
  moreover have "dom ?cur \<subseteq> {..<n}" using inv by (auto simp: sched_inv_def cur_ok_def)
  then have "finite (dom ?cur)" by (rule finite_subset) simp
  then have "card (insert hw (dom ?cur)) = Suc (card (dom ?cur))" using t(2) by (intro card_insert_disjoint) auto
  then have "idles_ok r (s\<lparr>kern := ?k, stage_of := (stage_of s)(t := Active), in_use := insert t (in_use s), idles := insert t (idles s)\<rparr>)"
    using inv un(4) t(4) by (auto simp: sched_inv_def idles_ok_def)
  moreover have "reaping_ok r (s\<lparr>kern := ?k, stage_of := (stage_of s)(t := Active), in_use := insert t (in_use s), idles := insert t (idles s)\<rparr>)"
    using inv t(3) away by (auto simp: sched_inv_def reaping_ok_def)
  moreover have "cur_ok n (insert t (in_use s)) (cur_thread ?k)"
    using inv t(1,3) by (auto simp: sched_inv_def cur_ok_def)
  moreover have "set (ready_q (kern s)) \<subseteq> insert t (in_use s)" "set (dead_q (kern s)) \<subseteq> insert t (in_use s)"
    using inv by (auto simp: sched_inv_def)
  ultimately show ?thesis using inv by (simp add: sched_inv_def)
qed

lemma reap_take_inv:
  assumes inv: "sched_inv n r s" and r: "cur_thread (kern s) hw = Some r" "stage_of s r = Active"
    and u: "reap_dequeue (kern s) = (Some u, k')" "settled (kern s) u"
  shows "sched_inv n r (s\<lparr>kern := k', stage_of := (stage_of s)(r := Reaping u)\<rparr>)"
proof -
  obtain rest where q: "dead_q (kern s) = u # rest" "k' = (kern s)\<lparr>dead_q := rest\<rparr>"
    using u(1) by (auto simp: reap_dequeue_def split: list.splits)
  have iu: "u \<in> in_use s" "u \<notin> set rest" "distinct rest" using inv q(1) by (auto simp: sched_inv_def)
  have "status_of s u" using inv iu(1) by (simp add: sched_inv_def)
  then have dead: "th_state (threads (kern s) u) = THREAD_DEAD" using u(2) q(1) by (auto simp: ok_status_def split: thread_state.splits)
  have ur: "u \<noteq> r" using u(2) not_settled [OF r(1)] by auto
  have away: "settled k' x = settled (kern s) x" for x using q(2) by (simp add: settled_def)
  note rs = running_status [OF inv r(1)] active_status [OF inv r(1)]
  have "status_of (s\<lparr>kern := k', stage_of := (stage_of s)(r := Reaping u)\<rparr>) x" if x: "x \<in> in_use s" for x
  proof -
    have "status_of s x" using inv x by (simp add: sched_inv_def)
    then show ?thesis using q away dead u(2) ur r rs not_settled [OF r(1)]
      by (cases "x = r"; cases "x = u") (auto simp: ok_status_def interruptible_def)
  qed
  moreover have "idles_ok r (s\<lparr>kern := k', stage_of := (stage_of s)(r := Reaping u)\<rparr>)" using inv q(2) by (auto simp: sched_inv_def idles_ok_def)
  moreover have "reaping_ok r s" using inv by (simp add: sched_inv_def)
  then have none: "stage_of s x \<noteq> Reaping v" if "x \<in> in_use s" for x v using that r(2) by (force simp: reaping_ok_def)
  then have "reaping_ok r (s\<lparr>kern := k', stage_of := (stage_of s)(r := Reaping u)\<rparr>)"
    using q(2) iu(1,2) dead ur u(2) away by (simp add: reaping_ok_def)
  moreover have "set rest \<subseteq> in_use s" using inv q(1) by (simp add: sched_inv_def)
  ultimately show ?thesis using inv q iu by (simp add: sched_inv_def)
qed

lemma reap_destroy_inv:
  assumes inv: "sched_inv n r s" and r: "cur_thread (kern s) hw = Some r" "stage_of s r = Reaping u"
    and k': "destroy_thread hw u (kern s) = Some (Inr ((), k'))"
  shows "sched_inv n r (s\<lparr>kern := k', stage_of := (stage_of s)(r := Active), in_use := in_use s - {u}\<rparr>)"
proof -
  have same: "same_sched (kern s) k'" by (rule destroy_thread_same [OF k'])
  have away: "settled k' x = settled (kern s) x" for x using same by (simp add: settled_def same_sched_def)
  note rs = running_status [OF inv r(1)]
  note u = not_reaped [OF inv r(2) rs(1)]
  have "status_of s u" using inv u(3) by (simp add: sched_inv_def)
  then have ur: "u \<notin> set (ready_q (kern s))" using u(1,2) by (simp add: ok_status_def)
  have "status_of (s\<lparr>kern := k', stage_of := (stage_of s)(r := Active), in_use := in_use s - {u}\<rparr>) x" if "x \<in> in_use s" for x
  proof -
    have "status_of s x" using inv that by (simp add: sched_inv_def)
    then show ?thesis using same away r rs not_settled [OF r(1)] by (cases "x = r") (auto simp: ok_status_def same_sched_def)
  qed
  moreover have "u \<notin> idles s" using inv u(2) by (auto simp: sched_inv_def idles_ok_def)
  then have "idles_ok r (s\<lparr>kern := k', stage_of := (stage_of s)(r := Active), in_use := in_use s - {u}\<rparr>)"
    using inv same by (auto simp: sched_inv_def idles_ok_def same_sched_def)
  moreover have "reaping_ok r (s\<lparr>kern := k', stage_of := (stage_of s)(r := Active), in_use := in_use s - {u}\<rparr>)"
    using inv by (auto simp: sched_inv_def reaping_ok_def)
  moreover have "cur_ok n (in_use s - {u}) (cur_thread k')"
    using inv u(1) same by (auto simp: sched_inv_def cur_ok_def same_sched_def settled_def)
  moreover have "set (ready_q (kern s)) \<subseteq> in_use s - {u}" "set (dead_q (kern s)) \<subseteq> in_use s - {u}"
    using inv ur u(4) by (auto simp: sched_inv_def)
  ultimately show ?thesis using inv same by (simp add: sched_inv_def same_sched_def)
qed

lemma inv_same:
  assumes "sched_inv n r s" "same_sched (kern s) k'"
  shows "sched_inv n r (s\<lparr>kern := k'\<rparr>)"
proof -
  have "settled k' x = settled (kern s) x" for x using assms(2) by (simp add: settled_def same_sched_def)
  moreover from this have "idles_ok r (s\<lparr>kern := k'\<rparr>) = idles_ok r s" "reaping_ok r (s\<lparr>kern := k'\<rparr>) = reaping_ok r s"
    using assms(2) by (simp_all add: same_sched_def idles_ok_def reaping_ok_def)
  ultimately show ?thesis using assms by (simp add: sched_inv_def same_sched_def)
qed

lemma single_hw: "sched_inv n r s \<Longrightarrow> n = 1 \<Longrightarrow> cur_thread (kern s) h = Some x \<Longrightarrow> cur_thread (kern s) hw = Some y \<Longrightarrow> h = hw"
proof -
  assume "sched_inv n r s" "n = 1" "cur_thread (kern s) h = Some x" "cur_thread (kern s) hw = Some y"
  then have "h < 1" "hw < 1" unfolding sched_inv_def cur_ok_def by blast+
  then show ?thesis by simp
qed

lemma tick_inv:
  assumes inv: "sched_inv n r s" and t: "cur_thread (kern s) hw = Some t" "interruptible (stage_of s t)"
    and k': "kernel_timer_tick hw sp (kern s) = Inr k'"
  shows "sched_inv n r (s\<lparr>kern := k'\<rparr>)"
proof -
  let ?k = "ack_interrupt hw 1 (start_timer (kern s))"
  have inv1: "sched_inv n r (s\<lparr>kern := ?k\<rparr>)" by (rule inv_same [OF inv]) (simp add: same_sched_def)
  have "disable_preempt_count (kern s) hw = 0" using inv by (simp add: sched_inv_def)
  then have run: "reschedule hw sp ?k = Inr k'" using k' by (simp add: kernel_timer_tick_def Let_def)
  have sg: "stage_of s t \<noteq> Exit_queued" "after_switch (stage_of s t) = stage_of s t"
    using t(2) by (auto simp: interruptible_def after_switch_def)
  from reschedule_safe [OF inv1, of hw t sp] run t(1) sg show ?thesis by simp
qed

lemma switch_inv:
  assumes "sched_inv n r s" "cur_thread (kern s) hw = Some t" "stage_of s t \<noteq> Exit_queued" "reschedule hw sp (kern s) = Inr k'"
  shows "sched_inv n r (s\<lparr>kern := k', stage_of := (stage_of s)(t := after_switch (stage_of s t))\<rparr>)"
  using reschedule_safe [OF assms(1-3), of sp] assms(4) by simp

theorem sched_step_inv:
  assumes step: "sched_step rf strict n r s s'" and inv: "sched_inv n r s" and safe: "strict \<or> n = 1"
  shows "sched_inv n r s'"
  using step
proof cases
  case (boot hw t)
  then show ?thesis using boot_inv [OF inv] by simp
next
  case (tick hw t sp k')
  then show ?thesis using tick_inv [OF inv] by simp
next
  case (yield hw t sp k')
  then show ?thesis using switch_inv [OF inv, of hw t sp k'] by (simp add: after_switch_def fun_upd_idem)
next
  case (exit_queue hw t)
  then show ?thesis using exit_queue_inv [OF inv] by simp
next
  case (exit_mark hw t)
  then show ?thesis using set_running_inv [OF inv] by simp
next
  case (exit_switch hw t sp k')
  then show ?thesis using switch_inv [OF inv, of hw t sp k'] by (simp add: after_switch_def fun_upd_idem)
next
  case (wait_mark hw t)
  then show ?thesis using set_running_inv [OF inv] by simp
next
  case (wait_switch hw t sp k')
  then show ?thesis using switch_inv [OF inv, of hw t sp k'] by (simp add: after_switch_def)
next
  case (wake hw t u k')
  have "settled (kern s) u"
  proof (cases strict)
    case False
    have "u \<noteq> t" using wake active_status(1) [OF inv, of hw t] by (auto simp: make_thread_ready_def interruptible_def split: if_splits)
    moreover have "h = hw" if "cur_thread (kern s) h = Some u" for h using single_hw [OF inv _ that wake(3)] False safe by simp
    ultimately show ?thesis using wake(3) by (auto simp: settled_def)
  qed (use wake in simp)
  then show ?thesis using wake wake_inv [OF inv] by simp
next
  case (spawn hw t u kc uc name p init start param kernel_only k')
  then show ?thesis using spawn_inv [OF inv] by simp
next
  case (reap_take hw u k')
  have "settled (kern s) u"
  proof (cases strict)
    case False
    have "u \<in> set (dead_q (kern s))" using reap_take(5) by (auto simp: reap_dequeue_def split: list.splits)
    then have "u \<noteq> r" using active_status(2) [OF inv reap_take(3)] reap_take(4) by (auto simp: interruptible_def)
    moreover have "h = hw" if "cur_thread (kern s) h = Some u" for h using single_hw [OF inv _ that reap_take(3)] False safe by simp
    ultimately show ?thesis using reap_take(3) by (auto simp: settled_def)
  qed (use reap_take in simp)
  then show ?thesis using reap_take reap_take_inv [OF inv] by simp
next
  case (reap_destroy hw u k')
  then show ?thesis using reap_destroy_inv [OF inv] by simp
qed

lemma sched_start_inv: "sched_inv n r (sched_start k)"
  by (simp add: sched_inv_def sched_start_def cur_ok_def idles_ok_def reaping_ok_def)

lemma reachable_inv: "(sched_step rf strict n r)\<^sup>*\<^sup>* (sched_start k) s \<Longrightarrow> strict \<or> n = 1 \<Longrightarrow> sched_inv n r s"
  by (induction rule: rtranclp_induct) (auto intro: sched_start_inv sched_step_inv)

lemma switch_registers:
  assumes "reschedule hw sp k = Inr k'" "cur_thread k hw = Some t" "cur_thread k' hw = Some u" "u \<noteq> t"
  shows "hw_page_dir k' hw = vm_translation_map.page_dir (map_of_thread u k)" "hw_asid k' hw = map_asid (map_of_thread u k)"
    "trap_kernel_stack k' hw = kernel_stack_ptr (threads k u)"
  using assms
  by (auto simp: reschedule_def Let_def set_state_def switch_thread_def map_of_thread_def space_of_def split: if_splits list.splits)

lemma reschedule_takes_first:
  assumes inv: "sched_inv n r s" and t: "cur_thread (kern s) hw = Some t" "stage_of s t \<noteq> Exit_queued"
  shows "\<exists>k'. reschedule hw sp (kern s) = Inr k' \<and> cur_thread k' hw = Some (hd (ready_q (kern s) @ [t])) \<and> th_state (threads k' (hd (ready_q (kern s) @ [t]))) = THREAD_RUNNING"
proof -
  let ?q = "if th_state (threads (kern s) t) = THREAD_RUNNING then ready_q (kern s) @ [t] else ready_q (kern s)"
  obtain k' where k': "reschedule hw sp (kern s) = Inr k'" using reschedule_safe [OF assms] by blast
  have "?q \<noteq> []" "th_state (threads (kern s) t) \<noteq> THREAD_READY" "disable_preempt_count (kern s) hw = 0"
    using k' t(1) by (auto simp: reschedule_def Let_def split: if_splits list.splits)
  moreover from this obtain nxt rest where q: "?q = nxt # rest" by (cases ?q) auto
  ultimately have "rescheduled hw t nxt rest (kern s) k'" using reschedule_result [OF _ t(1) _ q, of sp] k' by simp
  moreover have "nxt = hd (ready_q (kern s) @ [t])" using q by (cases "ready_q (kern s)") (auto split: if_splits)
  ultimately show ?thesis using k' by (simp add: rescheduled_def)
qed

subsection \<open>Properties of the scheduler\<close>

text \<open>
  C24: The scheduler on one hardware thread, or on several when threads are only destroyed or woken once they
  are off their hardware thread. In every state that any sequence of boots, timer ticks, yields, exits,
  waits, wake-ups, new threads and work of the reaper reaches, no thread runs on two hardware threads
  or is ready while it runs, and \<open>reschedule\<close> fails no assertion: it continues the first ready
  thread, or the same thread when there is none, with the page directory, the address space identifier and the
  kernel stack of that thread.
\<close>

theorem scheduler_safe:
  assumes reach: "(sched_step rf strict n r)\<^sup>*\<^sup>* (sched_start k) s" and safe: "strict \<or> n = 1"
    and t: "cur_thread (kern s) hw = Some t" "stage_of s t \<noteq> Exit_queued"
  shows "distinct (ready_q (kern s)) \<and> t \<notin> set (ready_q (kern s)) \<and> (\<forall>h. cur_thread (kern s) h = Some t \<longrightarrow> h = hw)
    \<and> (\<exists>k' u. reschedule hw sp (kern s) = Inr k' \<and> u = hd (ready_q (kern s) @ [t]) \<and> cur_thread k' hw = Some u \<and> th_state (threads k' u) = THREAD_RUNNING
        \<and> (u \<noteq> t \<longrightarrow> hw_page_dir k' hw = vm_translation_map.page_dir (map_of_thread u (kern s)) \<and> hw_asid k' hw = map_asid (map_of_thread u (kern s))
             \<and> trap_kernel_stack k' hw = kernel_stack_ptr (threads (kern s) u)))"
proof -
  have inv: "sched_inv n r s" by (rule reachable_inv [OF reach safe])
  have "distinct (ready_q (kern s))" "\<forall>h. cur_thread (kern s) h = Some t \<longrightarrow> h = hw"
    using inv t(1) by (auto simp: sched_inv_def cur_ok_def)
  moreover obtain k' where k': "reschedule hw sp (kern s) = Inr k'" "cur_thread k' hw = Some (hd (ready_q (kern s) @ [t]))"
      "th_state (threads k' (hd (ready_q (kern s) @ [t]))) = THREAD_RUNNING"
    using reschedule_takes_first [OF inv t] by blast
  ultimately show ?thesis
    using running_status(2) [OF inv t(1)] switch_registers [OF k'(1) t(1) k'(2)] by (intro conjI exI [of _ k'] exI [of _ "hd (ready_q (kern s) @ [t])"]) simp_all
qed

definition quiet_kernel :: "unit kernel" where
  "quiet_kernel = \<lparr>vm_state = with_mapped_page,
     threads = (\<lambda>_. \<lparr>th_id = 0, kernel_stack_ptr = 0, current_stack = 0, kernel_stack_area = None, user_stack_area = None, th_proc = 1,
        start_func = 0, th_param = 0, th_state = THREAD_RUNNING, th_name = [], saved_ra = None\<rparr>),
     processes = (\<lambda>_. \<lparr>proc_refs = 2, proc_id = 0, thread_list = [], proc_space = 0\<rparr>), cur_thread = (\<lambda>_. None), disable_preempt_count = (\<lambda>_. 0),
     ready_q = [], dead_q = [], next_thread_id = 0, next_process_id = 1, kernel_proc = 1, process_list = [1], trap_kernel_stack = (\<lambda>_. 0),
     hw_page_dir = (\<lambda>_. 0), hw_asid = (\<lambda>_. None), handlers = (\<lambda>_. None), enabled_interrupts = (\<lambda>_. 0), interrupt_pending = (\<lambda>_. 0), timer_interval = 0\<rparr>"

theorem scheduler_safe_witness:
  "\<exists>s k'. (sched_step (\<lambda>_ _ _. returnIO (0, [])) False 1 9)\<^sup>*\<^sup>* (sched_start quiet_kernel) s \<and> cur_thread (kern s) 0 = Some 5
     \<and> reschedule 0 0x1000 (kern s) = Inr k' \<and> cur_thread k' 0 = Some 5"
proof -
  let ?s0 = "sched_start quiet_kernel"
  define s where "s = ?s0\<lparr>kern := boot_init_thread 0 5 (kern ?s0), stage_of := (stage_of ?s0)(5 := Active), in_use := insert 5 (in_use ?s0), idles := insert 5 (idles ?s0)\<rparr>"
  have "sched_step (\<lambda>_ _ _. returnIO (0, [])) False 1 9 ?s0 s"
    unfolding s_def by (rule sched_step.boot) (simp_all add: sched_start_def)
  then have reach: "(sched_step (\<lambda>_ _ _. returnIO (0, [])) False 1 9)\<^sup>*\<^sup>* ?s0 s" by (rule r_into_rtranclp)
  have c: "cur_thread (kern s) 0 = Some 5" "stage_of s 5 \<noteq> Exit_queued" "ready_q (kern s) = []" by (simp_all add: s_def sched_start_def)
  from scheduler_safe [OF reach _ c(1,2), of "0x1000"] reach c show ?thesis by auto
qed

text \<open>
  C39: The kernel runs all hardware threads, and then neither holds. While a thread exits, the reaper on another
  hardware thread can take it from the queue before it is marked as dead: the reaper fails its
  assertion. While a thread goes to sleep, another one can wake it before it has left its hardware thread: it is
  ready while it runs, and its own call of \<open>reschedule\<close> fails an assertion.
\<close>

theorem hardware_threads_race:
  assumes n: "2 \<le> n" and r: "cur_thread (kern s) 0 = Some r" "stage_of s r = Active"
    and t: "cur_thread (kern s) 1 = Some t" "stage_of s t = Active" "t \<in> in_use s" "t \<notin> idles s" "t \<noteq> r" "th_state (threads (kern s) t) = THREAD_RUNNING"
    and q: "dead_q (kern s) = []" "disable_preempt_count (kern s) 1 = 0"
  shows "(\<exists>s'. (sched_step rf False n r)\<^sup>*\<^sup>* s s' \<and> cur_thread (kern s') 1 = Some t \<and> stage_of s' r = Reaping t
           \<and> destroy_thread 0 t (kern s') = Some (Inl Assert_failed))
    \<and> (\<exists>s'. (sched_step rf False n r)\<^sup>*\<^sup>* s s' \<and> cur_thread (kern s') 1 = Some t \<and> t \<in> set (ready_q (kern s'))
           \<and> stage_of s' t = Wait_marked \<and> reschedule 1 sp (kern s') = Inl Assert_failed)"
proof
  define s1 where "s1 = s\<lparr>kern := exit_enqueue t (kern s), stage_of := (stage_of s)(t := Exit_queued)\<rparr>"
  define s2 where "s2 = s1\<lparr>kern := (kern s1)\<lparr>dead_q := []\<rparr>, stage_of := (stage_of s1)(r := Reaping t)\<rparr>"
  have "sched_step rf False n r s s1" unfolding s1_def using n t by (intro sched_step.exit_queue [of 1]) simp_all
  moreover have "sched_step rf False n r s1 s2"
    unfolding s2_def using n r t(5) q(1) by (intro sched_step.reap_take [of 0]) (simp_all add: s1_def reap_dequeue_def)
  ultimately have "(sched_step rf False n r)\<^sup>*\<^sup>* s s2" by (meson converse_rtranclp_into_rtranclp r_into_rtranclp)
  moreover have "destroy_thread 0 t (kern s2) = Some (Inl Assert_failed)"
    using t(6) by (simp add: destroy_thread_def s2_def s1_def)
  ultimately show "\<exists>s'. (sched_step rf False n r)\<^sup>*\<^sup>* s s' \<and> cur_thread (kern s') 1 = Some t \<and> stage_of s' r = Reaping t
      \<and> destroy_thread 0 t (kern s') = Some (Inl Assert_failed)"
    using t(1) by (intro exI [of _ s2]) (simp add: s2_def s1_def)
next
  define s1 where "s1 = s\<lparr>kern := set_state THREAD_WAITING t (kern s), stage_of := (stage_of s)(t := Wait_marked)\<rparr>"
  define s2 where "s2 = s1\<lparr>kern := (set_state THREAD_READY t (kern s1))\<lparr>ready_q := ready_q (kern s1) @ [t]\<rparr>\<rparr>"
  have "sched_step rf False n r s s1" unfolding s1_def using n t by (intro sched_step.wait_mark [of 1]) simp_all
  moreover have "sched_step rf False n r s1 s2"
    unfolding s2_def using n r t(3,5) by (intro sched_step.wake [of 0 _ _ r t]) (simp_all add: s1_def make_thread_ready_def)
  ultimately have "(sched_step rf False n r)\<^sup>*\<^sup>* s s2" by (meson converse_rtranclp_into_rtranclp r_into_rtranclp)
  moreover have "reschedule 1 sp (kern s2) = Inl Assert_failed"
    using t(1) q(2) by (simp add: reschedule_def s2_def s1_def)
  ultimately show "\<exists>s'. (sched_step rf False n r)\<^sup>*\<^sup>* s s' \<and> cur_thread (kern s') 1 = Some t \<and> t \<in> set (ready_q (kern s'))
      \<and> stage_of s' t = Wait_marked \<and> reschedule 1 sp (kern s') = Inl Assert_failed"
    using t(1) by (intro exI [of _ s2]) (simp add: s2_def s1_def)
qed

definition two_running :: "unit sched" where
  "two_running = \<lparr>kern = quiet_kernel\<lparr>cur_thread := (\<lambda>h. if h = 0 then Some 9 else if h = 1 then Some 7 else None)\<rparr>, stage_of = (\<lambda>_. Active),
     in_use = {7, 9}, idles = {}\<rparr>"

theorem hardware_threads_race_witness:
  "\<exists>s'. (sched_step (\<lambda>_ _ _. returnIO (0, [])) False 2 9)\<^sup>*\<^sup>* two_running s' \<and> cur_thread (kern s') 1 = Some 7
     \<and> destroy_thread 0 7 (kern s') = Some (Inl Assert_failed)"
proof -
  have "cur_thread (kern two_running) 0 = Some 9" "stage_of two_running 9 = Active" "cur_thread (kern two_running) 1 = Some 7" "stage_of two_running 7 = Active"
    "7 \<in> in_use two_running" "7 \<notin> idles two_running" "(7 :: nat) \<noteq> 9" "th_state (threads (kern two_running) 7) = THREAD_RUNNING"
    "dead_q (kern two_running) = []" "disable_preempt_count (kern two_running) 1 = 0"
    by (simp_all add: two_running_def quiet_kernel_def)
  from hardware_threads_race [OF _ this, of 2 "\<lambda>_ _ _. returnIO (0, [])"] show ?thesis by auto
qed

text \<open>
  A thread cannot be destroyed by a thread of its own process. The reaper belongs to the kernel process,
  so that a kernel thread that ends stops the kernel.
\<close>

lemma zoom_vm_keeps: "in_vm m k = Some (Inr (x, k')) \<Longrightarrow> threads k' = threads k \<and> cur_thread k' = cur_thread k \<and> processes k' = processes k"
  by (auto simp: zoomIO_def split: option.splits sum.splits)

theorem reaping_kernel_thread_panics:
  assumes "cur_thread s hw = Some c" "th_proc (threads s t) = th_proc (threads s c)"
  shows "destroy_thread hw t s \<noteq> Some (Inr (x, s'))"
proof
  assume d: "destroy_thread hw t s = Some (Inr (x, s'))"
  define k1 where "k1 = remove_from_process (th_proc (threads s t)) t s"
  obtain k2 k3 where
    k: "(case user_stack_area (threads s t) of None \<Rightarrow> returnIO () | Some ua \<Rightarrow> in_vm (destroy_area (int hw) (proc_space (processes s (th_proc (threads s t)))) ua)) k1 = Some (Inr ((), k2))"
    "(case kernel_stack_area (threads s t) of None \<Rightarrow> failIO Out_of_bounds | Some ka \<Rightarrow> in_vm (destroy_area (int hw) (proc_space (processes s (th_proc (threads s t)))) ka)) k2 = Some (Inr ((), k3))"
    and dec: "dec_proc_ref hw (th_proc (threads s t)) k3 = Some (Inr (x, s'))"
    using d by (auto simp: destroy_thread_def bindIO_eq_Inr k1_def split: if_splits)
  have "threads k2 = threads s \<and> cur_thread k2 = cur_thread s"
    using k(1) by (auto simp: k1_def remove_from_process_def split: option.splits dest!: zoom_vm_keeps)
  then have "threads k3 = threads s \<and> cur_thread k3 = cur_thread s" using k(2) by (auto split: option.splits dest!: zoom_vm_keeps)
  then show False using dec assms by (simp add: dec_proc_ref_def)
qed

text \<open>
  \<open>spawn_thread_internal\<close> does not count the new thread in its process. \<open>exec_program\<close> counts one thread; when one
  of two threads has been destroyed and no other reference is left, the kernel stops.
\<close>

lemma spawn_keeps_refs:
  assumes "spawn_thread_internal rf hw u kc uc name p init start param kernel_only k = Some (Inr (x, k'))"
  shows "proc_refs (processes k' p) = proc_refs (processes k p)" "thread_list (processes k' p) = thread_list (processes k p) @ [u]"
  using assms unfolding spawn_thread_internal_def
  by (auto simp: bindIO_eq_Inr add_to_process_def Let_def split: option.splits if_splits dest!: zoom_vm_keeps)

theorem uncounted_thread_panics:
  assumes "cur_thread s hw = Some c" "th_proc (threads s c) \<noteq> p" "proc_refs (processes s p) = 1" "thread_list (processes s p) \<noteq> []"
  shows "dec_proc_ref hw p s = Some (Inl Assert_failed)"
  using assms by (simp add: dec_proc_ref_def)

end
