(* ===== verification/Os_Fs.thy ===== *)
theory Os_Fs
  imports Sd_Driver Fs_Mkfs "HOL-Library.Signed_Division"
begin

text \<open>
  The file calls of the operating system library, \<open>software/libs/libos/bare-metal/fs.c\<close>, over the SD
  card driver of the library. C integers are 32-bit words, read with \<open>sint\<close> where they are signed.
  \<open>mem_avail\<close> says for which sizes \<open>malloc\<close> succeeds; \<open>ram\<close> is the memory that holds a ramdisk. The
  directory pointer is null until the file system is initialised.
\<close>

datatype errno = EPERM | ENOENT | EIO | EBADF | EINVAL | EMFILE

record file_descriptor =
  is_open :: bool
  file_length :: u32
  start_offset :: u32
  current_offset :: u32

record 'd os_fs =
  os_initialized :: bool
  os_directory :: "u8 list option"
  os_ramdisk :: bool
  file_descriptors :: "file_descriptor list"
  os_errno :: "errno option"
  mem_avail :: "nat \<Rightarrow> bool"
  ram :: "u32 \<Rightarrow> u8"
  os_dev :: 'd

abbreviation (input) MAX_DESCRIPTORS :: nat where "MAX_DESCRIPTORS \<equiv> 32"
abbreviation (input) RAMDISK_BASE :: u32 where "RAMDISK_BASE \<equiv> 0x4000000"

abbreviation set_errno :: "errno \<Rightarrow> ('d os_fs, unit) io" where
  "set_errno e \<equiv> modifyIO (\<lambda>s. s\<lparr>os_errno := Some e\<rparr>)"

abbreviation fail_with :: "errno \<Rightarrow> ('d os_fs, int) io" where
  "fail_with e \<equiv> bindIO (set_errno e) (\<lambda>_. returnIO (- 1))"

definition os_read_block :: "'d mmio \<Rightarrow> u32 \<Rightarrow> ('d os_fs, int \<times> u8 list) io" where
  "os_read_block io block_num s =
     (if os_ramdisk s
      then Some (Inr ((512, map (\<lambda>i. ram s (RAMDISK_BASE + block_num * 512 + of_nat i)) [0..<512]), s))
      else zoomIO os_dev (\<lambda>d s. s\<lparr>os_dev := d\<rparr>) (read_sdmmc_device io block_num) s)"

definition os_init_file_system :: "'d mmio \<Rightarrow> ('d os_fs, int) io" where
  "os_init_file_system io =
     bindIO (zoomIO os_dev (\<lambda>d s. s\<lparr>os_dev := d\<rparr>) (init_sdmmc_device io)) (\<lambda>r.
     bindIO (if r < 0 then modifyIO (\<lambda>s. s\<lparr>os_ramdisk := True\<rparr>) else returnIO ()) (\<lambda>_.
     bindIO (os_read_block io 0) (\<lambda>(r, super_block).
       if r \<le> 0 then fail_with EIO
       else if take 4 super_block \<noteq> FS_MAGIC then fail_with EIO
       else let n = num_directory_blocks (bytes32 super_block 4) in
         bindIO (getIO mem_avail) (\<lambda>avail.
           if \<not> avail (n * 512) \<or> n * 512 < 512 then failIO Out_of_bounds
           else bindIO (modifyIO (\<lambda>s. s\<lparr>os_directory := Some super_block\<rparr>)) (\<lambda>_.
             bindIO (load_blocks (os_read_block io) [1..<n]) (\<lambda>rest. case rest of
                 None \<Rightarrow> fail_with EIO
               | Some blocks \<Rightarrow>
                   bindIO (modifyIO (\<lambda>s. s\<lparr>os_directory := Some (super_block @ blocks)\<rparr>)) (\<lambda>_. returnIO 0)))))))"

text \<open>\<open>lookup_file\<close>: the index of the entry with its directory.\<close>

definition lookup_file :: "u8 list \<Rightarrow> ('d os_fs, (u8 list \<times> nat) option) io" where
  "lookup_file path =
     bindIO (getIO os_directory) (\<lambda>directory. case directory of
         None \<Rightarrow> failIO Out_of_bounds
       | Some dir \<Rightarrow> bindIO (liftE (find_entry dir path [0..<unat (bytes32 dir 4)]))
           (\<lambda>found. returnIO (map_option (\<lambda>i. (dir, i)) found)))"

definition os_open :: "'d mmio \<Rightarrow> u8 list \<Rightarrow> ('d os_fs, int) io" where
  "os_open io path =
     bindIO (getIO os_initialized) (\<lambda>ready.
     bindIO (if ready then returnIO 0 else os_init_file_system io) (\<lambda>r.
       if r < 0 then returnIO (- 1) else
       bindIO (modifyIO (\<lambda>s. s\<lparr>os_initialized := True\<rparr>)) (\<lambda>_.
       bindIO (getIO file_descriptors) (\<lambda>fds.
         case find (\<lambda>fd. \<not> is_open (fds ! fd)) [0..<MAX_DESCRIPTORS] of
           None \<Rightarrow> fail_with EMFILE
         | Some fd \<Rightarrow> bindIO (lookup_file path) (\<lambda>entry. case entry of
               None \<Rightarrow> fail_with ENOENT
             | Some (dir, i) \<Rightarrow>
                 bindIO (modifyIO (\<lambda>s. s\<lparr>file_descriptors := (file_descriptors s)[fd :=
                     \<lparr>is_open = True, file_length = entry_length dir i, start_offset = entry_start dir i, current_offset = 0\<rparr>]\<rparr>))
                   (\<lambda>_. returnIO (int fd)))))))"

definition os_close :: "int \<Rightarrow> ('d os_fs, int) io" where
  "os_close fd =
     (if fd < 0 \<or> int MAX_DESCRIPTORS \<le> fd then fail_with EBADF
      else bindIO (modifyIO (\<lambda>s. s\<lparr>file_descriptors := (file_descriptors s)[nat fd :=
               (file_descriptors s ! nat fd)\<lparr>is_open := False\<rparr>]\<rparr>)) (\<lambda>_. returnIO 0))"

text \<open>The checks at the start of \<open>read\<close>, \<open>lseek\<close> and \<open>fstat\<close>.\<close>

definition with_open :: "int \<Rightarrow> 'a \<Rightarrow> (file_descriptor \<Rightarrow> ('d os_fs, 'a) io) \<Rightarrow> ('d os_fs, 'a) io" where
  "with_open fd bad f =
     (if fd < 0 \<or> int MAX_DESCRIPTORS \<le> fd then bindIO (set_errno EBADF) (\<lambda>_. returnIO bad)
      else bindIO (getIO (\<lambda>s. file_descriptors s ! nat fd)) (\<lambda>d.
        if \<not> is_open d then bindIO (set_errno EBADF) (\<lambda>_. returnIO bad) else f d))"

abbreviation set_offset :: "int \<Rightarrow> u32 \<Rightarrow> ('d os_fs, unit) io" where
  "set_offset fd v \<equiv> modifyIO (\<lambda>s. s\<lparr>file_descriptors := (file_descriptors s)[nat fd :=
     (file_descriptors s ! nat fd)\<lparr>current_offset := v\<rparr>]\<rparr>)"

definition os_read :: "'d mmio \<Rightarrow> int \<Rightarrow> u32 \<Rightarrow> ('d os_fs, int \<times> u8 list) io" where
  "os_read io fd nbytes = with_open fd (- 1, []) (\<lambda>d.
     let size_to_copy = file_length d - current_offset d in
     if sint size_to_copy \<le> 0 then returnIO (0, [])
     else let n = (if size_to_copy < nbytes then size_to_copy else nbytes);
              offset_in_block = sint (current_offset d) mod 512;
              block_number = sint (start_offset d + current_offset d) sdiv 512
       in bindIO (read_slices (os_read_block io) (\<lambda>r. r \<le> 0) (uint n) 0 offset_in_block block_number) (\<lambda>copied.
            case copied of
              None \<Rightarrow> bindIO (set_errno EIO) (\<lambda>_. returnIO (- 1, []))
            | Some data \<Rightarrow> bindIO (set_offset fd (current_offset d + n)) (\<lambda>_. returnIO (sint n, data))))"

definition os_write :: "int \<Rightarrow> u8 list \<Rightarrow> ('d os_fs, int) io" where
  "os_write fd buf = fail_with EPERM"

abbreviation (input) SEEK_SET :: u32 where "SEEK_SET \<equiv> 0"
abbreviation (input) SEEK_CUR :: u32 where "SEEK_CUR \<equiv> 1"
abbreviation (input) SEEK_END :: u32 where "SEEK_END \<equiv> 2"

definition lseek :: "int \<Rightarrow> u32 \<Rightarrow> u32 \<Rightarrow> ('d os_fs, int) io" where
  "lseek fd offset whence = with_open fd (- 1) (\<lambda>d.
     if whence \<notin> {SEEK_SET, SEEK_CUR, SEEK_END} then fail_with EINVAL
     else let v = (if whence = SEEK_SET then offset
                   else if whence = SEEK_CUR then current_offset d + offset
                   else file_length d - offset);
              v = (if sint v < 0 then 0 else v)
       in bindIO (set_offset fd v) (\<lambda>_. returnIO (sint v)))"

text \<open>The calls that fill a \<open>struct stat\<close> return its only field, the size.\<close>

definition os_stat :: "u8 list \<Rightarrow> ('d os_fs, int \<times> u32) io" where
  "os_stat path = bindIO (lookup_file path) (\<lambda>entry. case entry of
       None \<Rightarrow> bindIO (set_errno ENOENT) (\<lambda>_. returnIO (- 1, 0))
     | Some (dir, i) \<Rightarrow> returnIO (0, entry_length dir i))"

definition os_fstat :: "int \<Rightarrow> ('d os_fs, int \<times> u32) io" where
  "os_fstat fd = with_open fd (- 1, 0) (\<lambda>d. returnIO (0, file_length d))"

abbreviation (input) W_OK :: u32 where "W_OK \<equiv> 2"

definition os_access :: "u8 list \<Rightarrow> u32 \<Rightarrow> ('d os_fs, int) io" where
  "os_access path mode = bindIO (lookup_file path) (\<lambda>entry. case entry of
       None \<Rightarrow> fail_with ENOENT
     | Some _ \<Rightarrow> if mode AND W_OK \<noteq> 0 then fail_with EPERM else returnIO 0)"

subsection \<open>The emulated card as a block device\<close>

definition os_ready :: "u8 list \<Rightarrow> machine os_fs \<Rightarrow> machine os_fs \<Rightarrow> bool" where
  "os_ready img s0 s \<longleftrightarrow> \<not> os_ramdisk s0 \<and> 512 dvd length img \<and> length img < 2147483648
     \<and> (\<exists>d. s = s0\<lparr>os_dev := d\<rparr> \<and> card_idle img False False (sdmmc (dev d)))"

lemma os_readyI:
  "\<not> os_ramdisk s0 \<Longrightarrow> 512 dvd length img \<Longrightarrow> length img < 2147483648 \<Longrightarrow> card_idle img False False (sdmmc (dev d))
    \<Longrightarrow> os_ready img s0 (s0\<lparr>os_dev := d\<rparr>)"
  by (auto simp: os_ready_def)

lemma os_ready_self:
  assumes "os_ready img s0 s" "os_dev s' = os_dev s" "os_ramdisk s' = os_ramdisk s"
  shows "os_ready img s' s'"
proof -
  obtain d where d: "s = s0\<lparr>os_dev := d\<rparr>" "card_idle img False False (sdmmc (dev d))" "\<not> os_ramdisk s0"
      "512 dvd length img" "length img < 2147483648"
    using assms(1) by (auto simp: os_ready_def)
  have "s' = s'\<lparr>os_dev := d\<rparr>" using assms(2) d(1) by simp
  then show ?thesis using os_readyI [of s' img d] d assms(3) by simp
qed

lemma os_read_block_ready:
  assumes "os_ready img s0 s" "(unat b + 1) * 512 \<le> length img"
  shows "\<exists>s'. os_read_block emu_mmio b s = Some (Inr ((512, take 512 (drop (unat b * 512) img)), s')) \<and> os_ready img s0 s'"
proof -
  obtain d where d: "s = s0\<lparr>os_dev := d\<rparr>" "card_idle img False False (sdmmc (dev d))" "\<not> os_ramdisk s0"
      "length img < 2147483648" "512 dvd length img"
    using assms(1) by (auto simp: os_ready_def)
  have "unat b * 512 < 4294967296" using assms(2) d(4) by simp
  from carries_at [OF read_card_ok [OF sends_os assms(2) this] d(2)]
  obtain d' where d': "read_sdmmc_device emu_mmio b d = Some (Inr ((512, file_block img (unat b)), d'))"
      "card_idle img False False (sdmmc (dev d'))" by (auto simp: read_sdmmc_device_def)
  then show ?thesis
    using d by (auto simp: os_read_block_def file_block_def mult.commute os_ready_def intro!: exI [of _ d'])
qed

interpretation os_block: block_device "os_read_block emu_mmio" "os_ready img s0" img for img s0
  by unfold_locales (use os_read_block_ready in \<open>auto simp: os_ready_def\<close>)

subsection \<open>Opening a file\<close>

lemma os_init_ok:
  assumes card: "card_new img (sdmmc (dev (os_dev s)))" "\<not> os_ramdisk s"
    and img: "fs_image img files" "512 dvd length img" "length img < 2147483648"
    and nb: "nb = dir_blocks (length files)" and avail: "mem_avail s (nb * 512)"
  shows "\<exists>s'. os_init_file_system emu_mmio s = Some (Inr (0, s')) \<and> os_ready img (s\<lparr>os_directory := Some (take (nb * 512) img)\<rparr>) s'"
proof -
  note f = fs_image_facts [OF img(1,3), folded nb]
  obtain d1 where d1: "init_sdmmc_device emu_mmio (os_dev s) = Some (Inr (0, d1))" "card_idle img False False (sdmmc (dev d1))"
    using carries_at [OF init_card_ok [OF sends_os] card(1)] unfolding init_sdmmc_device_def by blast
  define s1 where "s1 = s\<lparr>os_dev := d1\<rparr>"
  have z: "zoomIO os_dev (\<lambda>d s. s\<lparr>os_dev := d\<rparr>) (init_sdmmc_device emu_mmio) s = Some (Inr (0, s1))"
    using d1(1) by (simp add: s1_def)
  have "os_ready img s s1" unfolding s1_def by (rule os_readyI [OF card(2) img(2,3) d1(2)])
  then obtain s2 where s2: "os_read_block emu_mmio 0 s1 = Some (Inr ((512, take 512 img), s2))" "os_ready img s s2"
    using os_block.rd_nat [of img s s1 0] f(3,4) by auto
  obtain d2 where d2: "s2 = s\<lparr>os_dev := d2\<rparr>" "card_idle img False False (sdmmc (dev d2))" using s2(2) by (auto simp: os_ready_def)
  define s0 where "s0 = s\<lparr>os_directory := Some (take 512 img)\<rparr>"
  have "os_ready img s0 (s0\<lparr>os_dev := d2\<rparr>)" using d2(2) card(2) img by (intro os_readyI) (simp_all add: s0_def)
  from os_block.load_blocks_image [OF this, of 1 "nb - 1"] f(3,4)
  obtain s3 where s3: "load_blocks (os_read_block emu_mmio) [1..<nb] (s0\<lparr>os_dev := d2\<rparr>)
      = Some (Inr (Some (take ((nb - 1) * 512) (drop 512 img)), s3))" "os_ready img s0 s3" by auto
  obtain d3 where d3: "s3 = s0\<lparr>os_dev := d3\<rparr>" "card_idle img False False (sdmmc (dev d3))" using s3(2) by (auto simp: os_ready_def)
  have dir: "take 512 img @ take ((nb - 1) * 512) (drop 512 img) = take (nb * 512) img"
    using take_add [of 512 "(nb - 1) * 512" img] f(4) by (simp add: algebra_simps)
  have st: "s2\<lparr>os_directory := Some (take 512 img)\<rparr> = s0\<lparr>os_dev := d2\<rparr>" "mem_avail s2 (nb * 512)" using avail by (simp_all add: d2(1) s0_def)
  let ?s' = "s3\<lparr>os_directory := Some (take (nb * 512) img)\<rparr>"
  have "os_init_file_system emu_mmio s = Some (Inr (0, ?s'))"
    unfolding os_init_file_system_def using z s2(1) f(1,2,4) s3(1) st dir by (simp add: Let_def)
  moreover have "?s' = (s\<lparr>os_directory := Some (take (nb * 512) img)\<rparr>)\<lparr>os_dev := d3\<rparr>" by (simp add: d3(1) s0_def)
  then have "os_ready img (s\<lparr>os_directory := Some (take (nb * 512) img)\<rparr>) ?s'"
    using d3(2) card(2) img by (auto simp: os_ready_def)
  ultimately show ?thesis by blast
qed

definition os_boot :: "u8 list \<Rightarrow> fs_file list \<Rightarrow> machine os_fs \<Rightarrow> bool" where
  "os_boot img files s \<longleftrightarrow> \<not> os_initialized s \<and> \<not> os_ramdisk s \<and> card_new img (sdmmc (dev (os_dev s)))
     \<and> mem_avail s (dir_blocks (length files) * 512) \<and> length (file_descriptors s) = MAX_DESCRIPTORS
     \<and> (\<exists>fd<MAX_DESCRIPTORS. \<not> is_open (file_descriptors s ! fd))"

text \<open>The descriptor \<open>fd\<close> is open on the file at \<open>start\<close> with these contents, at position \<open>pos\<close>.\<close>

definition fd_at :: "u8 list \<Rightarrow> int \<Rightarrow> nat \<Rightarrow> u8 list \<Rightarrow> nat \<Rightarrow> machine os_fs \<Rightarrow> bool" where
  "fd_at img fd start contents pos s \<longleftrightarrow> os_ready img s s \<and> length (file_descriptors s) = MAX_DESCRIPTORS
     \<and> 0 \<le> fd \<and> fd < int MAX_DESCRIPTORS
     \<and> file_descriptors s ! nat fd = \<lparr>is_open = True, file_length = of_nat (length contents), start_offset = of_nat start, current_offset = of_nat pos\<rparr>
     \<and> pos < 2147483648"

lemma os_open_ok:
  assumes boot: "os_boot img files s" and img: "fs_image img files" "512 dvd length img" "length img < 2147483648"
    and i: "i < length files" "files ! i = (name, start, contents)" "\<forall>j<i. fst (files ! j) \<noteq> name"
  shows "\<exists>fd s'. os_open emu_mmio name s = Some (Inr (fd, s')) \<and> fd_at img fd start contents 0 s'"
proof -
  define dir where "dir = take (dir_blocks (length files) * 512) img"
  note f = fs_image_facts [OF img(1,3), folded dir_def]
  have b: "card_new img (sdmmc (dev (os_dev s)))" "\<not> os_ramdisk s" "mem_avail s (dir_blocks (length files) * 512)" "\<not> os_initialized s"
    using boot by (auto simp: os_boot_def)
  obtain s1 where s1: "os_init_file_system emu_mmio s = Some (Inr (0, s1))" "os_ready img (s\<lparr>os_directory := Some dir\<rparr>) s1"
    using os_init_ok [OF b(1,2) img refl b(3)] unfolding dir_def by blast
  define s2 where "s2 = s1\<lparr>os_initialized := True\<rparr>"
  obtain d where "s1 = s\<lparr>os_directory := Some dir, os_dev := d\<rparr>" using s1(2) by (auto simp: os_ready_def)
  then have s2: "os_directory s2 = Some dir" "file_descriptors s2 = file_descriptors s" by (simp_all add: s2_def)
  have ready2: "os_ready img s2 s2" by (rule os_ready_self [OF s1(2)]) (simp_all add: s2_def)
  obtain fd where fd: "find (\<lambda>fd. \<not> is_open (file_descriptors s ! fd)) [0..<MAX_DESCRIPTORS] = Some fd" "fd < MAX_DESCRIPTORS"
  proof -
    obtain k where k: "k < 32" "\<not> is_open (file_descriptors s ! k)" using boot by (auto simp: os_boot_def)
    then have "find (\<lambda>fd. \<not> is_open (file_descriptors s ! fd)) [0..<32] \<noteq> None" by (auto simp: find_None_iff)
    then obtain fd where "find (\<lambda>fd. \<not> is_open (file_descriptors s ! fd)) [0..<32] = Some fd" by blast
    moreover then have "fd < 32" by (auto simp: find_Some_iff)
    ultimately show ?thesis using that by blast
  qed
  have e: "entry_holds dir i (name, start, contents)" "unat (bytes32 dir 4) = length files" using f(5) i by (auto simp: dir_holds_def)
  have "0 \<notin> set name" using e(1) by (simp add: entry_holds_def)
  then have fe: "find_entry dir name [0..<unat (bytes32 dir 4)] = Inr (Some i)"
    unfolding e(2) using find_entry_ok [OF f(5), of name "[0..<length files]"] find_first [of i "length files"] i
    by (simp add: lessThan_atLeast0)
  let ?d = "\<lparr>is_open = True, file_length = entry_length dir i, start_offset = entry_start dir i, current_offset = 0\<rparr>"
  let ?s' = "s2\<lparr>file_descriptors := (file_descriptors s)[fd := ?d]\<rparr>"
  have lookup: "lookup_file name s2 = Some (Inr (Some (dir, i), s2))" using s2(1) fe by (simp add: lookup_file_def)
  have "os_open emu_mmio name s = Some (Inr (int fd, ?s'))"
    unfolding os_open_def using s1(1) b(4) s2(2) fd(1) lookup by (simp add: s2_def [symmetric] del: upt_rec_numeral)
  moreover have "os_ready img ?s' ?s'" by (rule os_ready_self [OF ready2]) simp_all
  moreover have "?d = \<lparr>is_open = True, file_length = of_nat (length contents), start_offset = of_nat start, current_offset = 0\<rparr>"
    using e(1) by (simp add: entry_holds_def) (metis of_nat_unat ucast_id)
  ultimately show ?thesis using fd(2) boot by (intro exI [of _ "int fd"] exI [of _ ?s']) (simp add: fd_at_def os_boot_def)
qed

subsection \<open>A descriptor is a cursor\<close>

datatype file_op = Read u32 | Seek u32 u32

definition os_op :: "'d mmio \<Rightarrow> int \<Rightarrow> file_op \<Rightarrow> ('d os_fs, int \<times> u8 list) io" where
  "os_op io fd c = (case c of Read n \<Rightarrow> os_read io fd n
     | Seek offset whence \<Rightarrow> bindIO (lseek fd offset whence) (\<lambda>r. returnIO (r, [])))"

primrec os_run :: "'d mmio \<Rightarrow> int \<Rightarrow> file_op list \<Rightarrow> ('d os_fs, (int \<times> u8 list) list) io" where
  "os_run io fd [] = returnIO []"
| "os_run io fd (c # cs) = bindIO (os_op io fd c) (\<lambda>r. bindIO (os_run io fd cs) (\<lambda>rs. returnIO (r # rs)))"

text \<open>
  The specification: contents and a position. \<open>None\<close> for a position that does not fit into an \<open>int\<close>
  and for an invalid \<open>whence\<close>. \<open>SEEK_END\<close> goes back from the end, which is not what POSIX says.
\<close>

definition seek_target :: "u8 list \<Rightarrow> nat \<Rightarrow> u32 \<Rightarrow> u32 \<Rightarrow> int" where
  "seek_target contents pos offset whence = (if whence = SEEK_SET then sint offset
     else if whence = SEEK_CUR then int pos + sint offset else int (length contents) - sint offset)"

fun cursor :: "u8 list \<Rightarrow> nat \<Rightarrow> file_op \<Rightarrow> (nat \<times> int \<times> u8 list) option" where
  "cursor contents pos (Read n) =
     (let data = take (unat n) (drop pos contents) in Some (pos + length data, int (length data), data))"
| "cursor contents pos (Seek offset whence) =
     (let p = seek_target contents pos offset whence in
      if whence \<in> {SEEK_SET, SEEK_CUR, SEEK_END} \<and> - 2147483648 \<le> p \<and> p < 2147483648
      then Some (nat (max 0 p), max 0 p, []) else None)"

primrec cursor_run :: "u8 list \<Rightarrow> nat \<Rightarrow> file_op list \<Rightarrow> (int \<times> u8 list) list option" where
  "cursor_run contents pos [] = Some []"
| "cursor_run contents pos (c # cs) = Option.bind (cursor contents pos c)
     (\<lambda>(pos', r). map_option (\<lambda>rs. r # rs) (cursor_run contents pos' cs))"

lemma with_open_fd:
  assumes "fd_at img fd start contents pos s"
  shows "with_open fd bad f s = f \<lparr>is_open = True, file_length = of_nat (length contents), start_offset = of_nat start, current_offset = of_nat pos\<rparr> s"
  using assms by (simp add: with_open_def fd_at_def)

lemma fd_at_set_offset:
  assumes "fd_at img fd start contents pos s" "pos' < 2147483648" "os_ready img s s1" "v = of_nat pos'"
  shows "fd_at img fd start contents pos' (s1\<lparr>file_descriptors := (file_descriptors s1)[nat fd := (file_descriptors s1 ! nat fd)\<lparr>current_offset := v\<rparr>]\<rparr>)"
proof -
  have "file_descriptors s1 = file_descriptors s" using assms(3) by (auto simp: os_ready_def)
  moreover have "os_ready img (s1\<lparr>file_descriptors := fds\<rparr>) (s1\<lparr>file_descriptors := fds\<rparr>)" for fds
    by (rule os_ready_self [OF assms(3)]) simp_all
  ultimately show ?thesis using assms(1,2,4) by (simp add: fd_at_def nat_less_iff)
qed

lemma os_read_ok:
  assumes at: "fd_at img fd start contents pos s"
    and fits: "512 dvd start" "start + length contents < 2147483648"
      "contents \<noteq> [] \<Longrightarrow> start + length contents \<le> length img \<and> take (length contents) (drop start img) = contents"
  shows "\<exists>s'. os_read emu_mmio fd n s = Some (Inr ((int (length (take (unat n) (drop pos contents))), take (unat n) (drop pos contents)), s'))
    \<and> fd_at img fd start contents (pos + length (take (unat n) (drop pos contents))) s'"
proof -
  let ?len = "length contents" and ?data = "take (unat n) (drop pos contents)"
  let ?size = "of_nat ?len - of_nat pos :: u32"
  have pos: "pos < 2147483648" and ready: "os_ready img s s" using at by (simp_all add: fd_at_def)
  have "?size = of_int (int ?len - int pos)" by simp
  then have size: "sint ?size = int ?len - int pos" using fits(2) pos sint_of_int [of "int ?len - int pos"] by simp
  show ?thesis
  proof (cases "?len \<le> pos")
    case True
    then show ?thesis using at size by (simp add: os_read_def with_open_fd [OF at] Let_def)
  next
    case False
    then have "contents \<noteq> []" by auto
    note c = conjunct1 [OF fits(3) [OF this]] conjunct2 [OF fits(3) [OF this]]
    define m where "m = (if ?size < n then ?size else n)"
    have us: "unat ?size = ?len - pos" using False fits(2) by (simp add: of_nat_diff [symmetric] unat_of_nat del: of_nat_diff)
    have um: "unat m = length ?data" "unat m \<le> ?len - pos" using us by (auto simp: m_def word_less_nat_alt)
    have eq: "(of_nat start + of_nat pos :: u32) = of_int (int (start + pos))" by simp
    have bn: "sint (of_nat start + of_nat pos :: u32) = int (start + pos)"
      unfolding eq using False fits(2) by (intro sint_of_int) linarith+
    have "(of_nat pos :: u32) = of_int (int pos)" by simp
    then have ob: "sint (of_nat pos :: u32) = int pos" using pos sint_of_int [of "int pos"] by simp
    have modpos: "pos mod 512 = (start + pos) mod 512" using fits(1) by (auto elim!: dvdE)
    have div: "int pos mod 512 = int ((start + pos) mod 512)" "int (start + pos) sdiv 512 = int ((start + pos) div 512)"
      unfolding modpos [symmetric] by (cases "start + pos"; simp add: of_nat_mod of_nat_div signed_divide_int_def)+
    have inside: "(start + pos) mod 512 + nat (uint m - 0) + (start + pos) div 512 * 512 \<le> length img"
      using um(2) c(1) False div_mult_mod_eq [of "start + pos" 512] by simp
    have "nat (uint m - 0) = unat m" "(0 :: int) \<le> uint m" "(start + pos) mod 512 < 512" "\<not> (512 :: int) \<le> 0"
      by simp_all
    from os_block.read_slices_image [where failed = "\<lambda>r. r \<le> 0", OF ready this(2,3) inside this(4), unfolded this(1) div_mult_mod_eq]
    obtain s1 where s1: "read_slices (os_read_block emu_mmio) (\<lambda>r. r \<le> 0) (uint m) 0 (int ((start + pos) mod 512)) (int ((start + pos) div 512)) s
        = Some (Inr (Some (take (unat m) (drop (start + pos) img)), s1))" "os_ready img s s1"
      by blast
    have data: "take (unat m) (drop (start + pos) img) = ?data"
    proof -
      have "?data = take (unat n) (drop pos (take ?len (drop start img)))" using c(2) by simp
      also have "\<dots> = take (min (unat n) (?len - pos)) (drop (start + pos) img)" by (simp add: drop_take add.commute)
      also have "min (unat n) (?len - pos) = unat m" using us by (auto simp: m_def word_less_nat_alt)
      finally show ?thesis by simp
    qed
    have sm: "sint m = int (length ?data)" using sint_small [of m] um fits(2) by simp
    have v: "of_nat pos + m = (of_nat (pos + length ?data) :: u32)" using um(1) by (metis of_nat_add of_nat_unat ucast_id)
    have at': "fd_at img fd start contents (pos + length ?data)
        (s1\<lparr>file_descriptors := (file_descriptors s1)[nat fd := (file_descriptors s1 ! nat fd)\<lparr>current_offset := of_nat pos + m\<rparr>]\<rparr>)"
      by (rule fd_at_set_offset [OF at _ s1(2) v]) (use um False fits(2) in auto)
    have "\<not> sint ?size \<le> 0" using size False by simp
    then have "os_read emu_mmio fd n s = Some (Inr ((sint m, ?data),
        s1\<lparr>file_descriptors := (file_descriptors s1)[nat fd := (file_descriptors s1 ! nat fd)\<lparr>current_offset := of_nat pos + m\<rparr>]\<rparr>))"
      unfolding os_read_def with_open_fd [OF at] Let_def file_descriptor.select_convs m_def [symmetric] bn ob div
      using s1(1) by (simp add: data)
    then show ?thesis using at' sm by auto
  qed
qed

lemma lseek_ok:
  assumes at: "fd_at img fd start contents pos s" and len: "length contents < 2147483648"
    and p: "p = seek_target contents pos offset whence" "- 2147483648 \<le> p" "p < 2147483648" "whence \<in> {SEEK_SET, SEEK_CUR, SEEK_END}"
  shows "\<exists>s'. lseek fd offset whence s = Some (Inr (max 0 p, s')) \<and> fd_at img fd start contents (nat (max 0 p)) s'"
proof -
  define v where "v = (if whence = SEEK_SET then offset else if whence = SEEK_CUR then of_nat pos + offset else of_nat (length contents) - offset)"
  have ready: "os_ready img s s" using at by (simp add: fd_at_def)
  have "v = of_int p" using p(4) unfolding p(1) by (auto simp: v_def seek_target_def)
  then have sv: "sint v = p" using sint_of_int [OF p(2,3)] by simp
  define w where "w = (if sint v < 0 then 0 else v)"
  have w: "w = of_nat (nat (max 0 p))" "sint w = max 0 p" using sv \<open>v = of_int p\<close> by (auto simp: w_def max_def)
  have "fd_at img fd start contents (nat (max 0 p))
      (s\<lparr>file_descriptors := (file_descriptors s)[nat fd := (file_descriptors s ! nat fd)\<lparr>current_offset := w\<rparr>]\<rparr>)"
    by (rule fd_at_set_offset [OF at _ ready w(1)]) (use p(3) in auto)
  moreover have "lseek fd offset whence s = Some (Inr (sint w,
      s\<lparr>file_descriptors := (file_descriptors s)[nat fd := (file_descriptors s ! nat fd)\<lparr>current_offset := w\<rparr>]\<rparr>))"
    using p(4) by (auto simp: lseek_def with_open_fd [OF at] Let_def w_def v_def)
  ultimately show ?thesis using w(2) by auto
qed

lemma os_run_cursor:
  assumes "fd_at img fd start contents pos s" "cursor_run contents pos cs = Some rs"
    and fits: "512 dvd start" "start + length contents < 2147483648"
      "contents \<noteq> [] \<Longrightarrow> start + length contents \<le> length img \<and> take (length contents) (drop start img) = contents"
  shows "\<exists>s'. os_run emu_mmio fd cs s = Some (Inr (rs, s'))"
  using assms(1,2)
proof (induction cs arbitrary: pos s rs)
  case (Cons c cs)
  obtain pos' r rs' where c: "cursor contents pos c = Some (pos', r)" "cursor_run contents pos' cs = Some rs'" "rs = r # rs'"
    using Cons.prems(2) by (auto simp: bind_eq_Some_conv)
  have "\<exists>s1. os_op emu_mmio fd c s = Some (Inr (r, s1)) \<and> fd_at img fd start contents pos' s1"
  proof (cases c)
    case (Read n)
    then show ?thesis using os_read_ok [OF Cons.prems(1) fits, of n] c(1) by (auto simp: os_op_def Let_def)
  next
    case (Seek offset whence)
    then have "whence \<in> {SEEK_SET, SEEK_CUR, SEEK_END}" "- 2147483648 \<le> seek_target contents pos offset whence"
        "seek_target contents pos offset whence < 2147483648" and r: "pos' = nat (max 0 (seek_target contents pos offset whence))"
        "r = (max 0 (seek_target contents pos offset whence), [])"
      using c(1) by (auto simp: Let_def split: if_splits)
    from lseek_ok [OF Cons.prems(1) _ refl this(2,3,1)] fits(2) obtain s1 where
        "lseek fd offset whence s = Some (Inr (max 0 (seek_target contents pos offset whence), s1))" "fd_at img fd start contents pos' s1"
      unfolding r by auto
    then show ?thesis using Seek r by (auto simp: os_op_def)
  qed
  then obtain s1 where s1: "os_op emu_mmio fd c s = Some (Inr (r, s1))" "fd_at img fd start contents pos' s1" by blast
  from Cons.IH [OF s1(2) c(2)] show ?case using s1(1) c(3) by auto
qed simp

text \<open>
  C19: A descriptor of the library is a cursor over the source file: when the emulated card holds an image
  that \<open>mkfs\<close> wrote, \<open>open\<close> on the name of a source file returns a descriptor, and any sequence of
  \<open>read\<close> and \<open>lseek\<close> on it returns what the sequence returns on the contents of the file and a position.
\<close>

theorem os_session_refines_cursor:
  assumes made: "mkfs host junk ps = Inr (0, img)" and files: "list_all2 (plain_file host) ps fs" "\<exists>f\<in>set fs. snd f \<noteq> []"
    and off: "off = round512 (8 + 40 * length fs)" and small: "layout_end off fs < 2147483648"
    and boot: "os_boot img (layout off fs) s" and i: "i < length fs" "\<forall>j<i. fst (fs ! j) \<noteq> fst (fs ! i)"
    and spec: "cursor_run (snd (fs ! i)) 0 ops = Some rs"
  shows "\<exists>fd s1 s2. os_open emu_mmio (fst (fs ! i)) s = Some (Inr (fd, s1)) \<and> 0 \<le> fd \<and> os_run emu_mmio fd ops s1 = Some (Inr (rs, s2))"
proof -
  let ?files = "layout off fs"
  obtain start where l: "?files ! i = (fst (fs ! i), start, snd (fs ! i))" using layout_nth [OF i(1), of off] by (metis prod.collapse)
  have img: "fs_image img ?files" "512 dvd length img" "length img < 2147483648"
    using mkfs_image [OF files off small, of junk] made by auto
  have first: "\<forall>j<i. fst (?files ! j) \<noteq> fst (fs ! i)" using i layout_nth [of _ fs off] by simp
  obtain fd s1 where o: "os_open emu_mmio (fst (fs ! i)) s = Some (Inr (fd, s1))" "fd_at img fd start (snd (fs ! i)) 0 s1"
    using os_open_ok [OF boot img _ l first] i(1) by auto
  have "(fst (fs ! i), start, snd (fs ! i)) \<in> set ?files" using l i(1) by (metis length_layout nth_mem)
  then have fits: "512 dvd start" "start + length (snd (fs ! i)) < 2147483648"
      "snd (fs ! i) \<noteq> [] \<Longrightarrow> start + length (snd (fs ! i)) \<le> length img \<and> take (length (snd (fs ! i))) (drop start img) = snd (fs ! i)"
    using img(1) by (auto simp: fs_image_def)
  from os_run_cursor [OF o(2) spec fits] show ?thesis using o by (auto simp: fd_at_def)
qed

definition os_started :: "u8 list \<Rightarrow> machine os_fs" where
  "os_started img = \<lparr>os_initialized = False, os_directory = None, os_ramdisk = False,
     file_descriptors = replicate 32 \<lparr>is_open = False, file_length = 0, start_offset = 0, current_offset = 0\<rparr>,
     os_errno = None, mem_avail = (\<lambda>_. True), ram = (\<lambda>_. 0),
     os_dev = with_card undefined 0 (snd (open_sdmmc_device (Some img) initial_sd_card)) (1, 2)\<rparr>"

theorem os_session_refines_cursor_witness:
  "\<exists>img. mkfs (\<lambda>p. if p = [0x64, 0x2f, 0x61] then Some [1, 2, 3] else None) (\<lambda>_. 7) [[0x64, 0x2f, 0x61]] = Inr (0, img)
     \<and> (\<exists>fd s1 s2. os_open emu_mmio [0x61] (os_started img) = Some (Inr (fd, s1)) \<and> 0 \<le> fd
          \<and> os_run emu_mmio fd [Read 2, Seek 1 SEEK_SET, Read 100] s1 = Some (Inr ([(2, [1, 2]), (1, []), (2, [2, 3])], s2)))"
proof -
  let ?host = "\<lambda>p :: u8 list. if p = [0x64, 0x2f, 0x61] then Some [1, 2, 3] else None" and ?fs = "[([0x61], [1, 2, 3])]"
  have files: "list_all2 (plain_file ?host) [[0x64, 0x2f, 0x61]] ?fs" "\<exists>f\<in>set ?fs. snd f \<noteq> []"
    by (simp_all add: plain_file_def normalize_file_name_def)
  have off: "512 = round512 (8 + 40 * length ?fs)" and small: "layout_end 512 ?fs < 2147483648" by simp_all
  from mkfs_image [OF files off small, of "\<lambda>_. 7"]
  obtain img where made: "mkfs ?host (\<lambda>_. 7) [[0x64, 0x2f, 0x61]] = Inr (0, img)" by blast
  have "is_open (file_descriptors (os_started img) ! 0) = False" by (simp add: os_started_def del: replicate.simps)
  then have boot: "os_boot img (layout 512 ?fs) (os_started img)"
    by (auto simp: os_boot_def os_started_def card_new_open simp del: replicate.simps intro!: exI [of _ 0])
  have "cursor_run [1, 2, 3] 0 [Read 2, Seek 1 SEEK_SET, Read 100] = Some [(2, [1, 2]), (1, []), (2, [2, 3])]"
    by (simp add: seek_target_def)
  then show ?thesis using os_session_refines_cursor [OF made files off small boot, of 0 "[Read 2, Seek 1 SEEK_SET, Read 100]"] made by auto
qed

text \<open>\<open>stat\<close> and \<open>access\<close> before the first \<open>open\<close> follow the null directory pointer.\<close>

lemma stat_before_open: "os_directory s = None \<Longrightarrow> os_stat path s = Some (Inl Out_of_bounds) \<and> os_access path mode s = Some (Inl Out_of_bounds)"
  by (simp add: os_stat_def os_access_def lookup_file_def)

end
