(* ===== verification/Boot_Rom.thy ===== *)
theory Boot_Rom
  imports Emu_Bytes
begin

text \<open>
  The serial boot loader in ROM, \<open>software/bootrom/boot.c\<close>. Its \<open>main\<close> waits for bytes in
  \<open>read_serial_byte\<close>, so it is a machine that is driven by the bytes it receives: \<open>boot_pc\<close> are the
  places where it waits, with the local variables that are alive there, and \<open>boot_step\<close> is what \<open>main\<close>
  does from one byte to the next. Bytes that it sends are collected in \<open>uart_tx\<close>; the wait for space in
  the transmitter and the blinking light while it waits for input are left out. Memory is an array of
  bytes at 32-bit addresses.
\<close>

abbreviation (input) LOAD_MEMORY_REQ :: u8 where "LOAD_MEMORY_REQ \<equiv> 0xc0"
abbreviation (input) LOAD_MEMORY_ACK :: u8 where "LOAD_MEMORY_ACK \<equiv> 0xc1"
abbreviation (input) EXECUTE_REQ :: u8 where "EXECUTE_REQ \<equiv> 0xc2"
abbreviation (input) EXECUTE_ACK :: u8 where "EXECUTE_ACK \<equiv> 0xc3"
abbreviation (input) PING_REQ :: u8 where "PING_REQ \<equiv> 0xc4"
abbreviation (input) PING_ACK :: u8 where "PING_ACK \<equiv> 0xc5"
abbreviation (input) CLEAR_MEMORY_REQ :: u8 where "CLEAR_MEMORY_REQ \<equiv> 0xc6"
abbreviation (input) CLEAR_MEMORY_ACK :: u8 where "CLEAR_MEMORY_ACK \<equiv> 0xc7"
abbreviation (input) BAD_COMMAND :: u8 where "BAD_COMMAND \<equiv> 0xc8"

datatype boot_pc =
    Await_command
  | Load_address nat u32
  | Load_length u32 nat u32
  | Load_data u32 u32 u32 u32
  | Clear_address nat u32
  | Clear_length u32 nat u32
  | Started

record boot_rom =
  rom_pc :: boot_pc
  rom_mem :: mem
  uart_tx :: "u8 list"
  green_led :: u32

definition boot_init :: "mem \<Rightarrow> boot_rom" where
  "boot_init m = \<lparr>rom_pc = Await_command, rom_mem = m, uart_tx = [], green_led = 0\<rparr>"

text \<open>One byte of \<open>read_serial_long\<close>, and the bytes that \<open>write_serial_long\<close> sends.\<close>

definition shift_in :: "u32 \<Rightarrow> u8 \<Rightarrow> u32" where
  "shift_in result ch = drop_bit 8 result OR push_bit 24 (ucast ch)"

definition long_bytes :: "u32 \<Rightarrow> u8 list" where
  "long_bytes value = [ucast value, ucast (drop_bit 8 value), ucast (drop_bit 16 value), ucast (drop_bit 24 value)]"

definition transmit :: "u8 list \<Rightarrow> boot_rom \<Rightarrow> boot_rom" where
  "transmit bs s = s\<lparr>uart_tx := uart_tx s @ bs\<rparr>"

text \<open>\<open>memset\<close> of the ROM: words while more than four bytes remain at an aligned address, then bytes.\<close>

function fill_words :: "u32 \<Rightarrow> u32 \<Rightarrow> u32 \<Rightarrow> mem \<Rightarrow> u32 \<times> u32 \<times> mem" where
  "fill_words dest wide_val len m =
     (if 4 < len then fill_words (dest + 4) wide_val (len - 4) (put32 (unat dest) wide_val m) else (dest, len, m))"
  by pat_completeness auto

termination
  by (relation "measure (\<lambda>(_, _, len, _). unat len)") (auto simp: word_less_nat_alt unat_sub_if')

function fill_bytes :: "u32 \<Rightarrow> u8 \<Rightarrow> u32 \<Rightarrow> mem \<Rightarrow> mem" where
  "fill_bytes dest value len m =
     (if 0 < len then fill_bytes (dest + 1) value (len - 1) (m(unat dest := value)) else m)"
  by pat_completeness auto

termination
  by (relation "measure (\<lambda>(_, _, len, _). unat len)") (auto simp: word_less_nat_alt unat_sub_if')

declare fill_words.simps [simp del] fill_bytes.simps [simp del]

definition boot_memset :: "u32 \<Rightarrow> u8 \<Rightarrow> u32 \<Rightarrow> mem \<Rightarrow> mem" where
  "boot_memset dest value len m =
     (let v = ucast value; wide_val = v OR push_bit 8 v OR push_bit 16 v OR push_bit 24 v;
          (dest', len', m') = (if dest AND 3 = 0 then fill_words dest wide_val len m else (dest, len, m))
      in fill_bytes dest' value len' m')"

definition fnv_step :: "u32 \<Rightarrow> u8 \<Rightarrow> u32" where
  "fnv_step checksum ch = (checksum XOR ucast ch) * 16777619"

text \<open>The test of the loop of \<open>LOAD_MEMORY_REQ\<close>: the loop goes on or the request is acknowledged.\<close>

definition load_next :: "u32 \<Rightarrow> u32 \<Rightarrow> u32 \<Rightarrow> u32 \<Rightarrow> boot_rom \<Rightarrow> boot_rom" where
  "load_next load_addr len i checksum s =
     (if i < len then s\<lparr>rom_pc := Load_data load_addr len i checksum\<rparr>
      else transmit (LOAD_MEMORY_ACK # long_bytes checksum) (s\<lparr>rom_pc := Await_command\<rparr>))"

definition boot_command :: "u8 \<Rightarrow> boot_rom \<Rightarrow> boot_rom" where
  "boot_command ch s =
     (if ch = LOAD_MEMORY_REQ then s\<lparr>rom_pc := Load_address 0 0\<rparr>
      else if ch = CLEAR_MEMORY_REQ then s\<lparr>rom_pc := Clear_address 0 0\<rparr>
      else if ch = EXECUTE_REQ then transmit [EXECUTE_ACK] (s\<lparr>green_led := 0, rom_pc := Started\<rparr>)
      else if ch = PING_REQ then transmit [PING_ACK] s
      else transmit [BAD_COMMAND] s)"

definition boot_step :: "u8 \<Rightarrow> boot_rom \<Rightarrow> boot_rom" where
  "boot_step ch s = (case rom_pc s of
       Await_command \<Rightarrow> boot_command ch s
     | Load_address i r \<Rightarrow> (let r = shift_in r ch in
         s\<lparr>rom_pc := (if Suc i < 4 then Load_address (Suc i) r else Load_length r 0 0)\<rparr>)
     | Load_length load_addr i r \<Rightarrow> (let r = shift_in r ch in
         if Suc i < 4 then s\<lparr>rom_pc := Load_length load_addr (Suc i) r\<rparr> else load_next load_addr r 0 2166136261 s)
     | Load_data load_addr len i checksum \<Rightarrow>
         load_next (load_addr + 1) len (i + 1) (fnv_step checksum ch) (s\<lparr>rom_mem := (rom_mem s)(unat load_addr := ch)\<rparr>)
     | Clear_address i r \<Rightarrow> (let r = shift_in r ch in
         s\<lparr>rom_pc := (if Suc i < 4 then Clear_address (Suc i) r else Clear_length r 0 0)\<rparr>)
     | Clear_length base i r \<Rightarrow> (let r = shift_in r ch in
         if Suc i < 4 then s\<lparr>rom_pc := Clear_length base (Suc i) r\<rparr>
         else transmit [CLEAR_MEMORY_ACK] (s\<lparr>rom_pc := Await_command, rom_mem := boot_memset base 0 r (rom_mem s)\<rparr>))
     | Started \<Rightarrow> s)"

definition boot_run :: "u8 list \<Rightarrow> boot_rom \<Rightarrow> boot_rom" where
  "boot_run = fold boot_step"

subsection \<open>Clearing and loading memory\<close>

text \<open>Bytes in consecutive memory.\<close>

definition put_at :: "nat \<Rightarrow> u8 list \<Rightarrow> mem \<Rightarrow> mem" where
  "put_at a bs m x = (if a \<le> x \<and> x < a + length bs then bs ! (x - a) else m x)"

lemma put_at_Nil [simp]: "put_at a [] m = m"
  by (auto simp: put_at_def fun_eq_iff)

lemma put_at_Cons: "put_at a (b # bs) m = put_at (Suc a) bs (m(a := b))"
  by (auto simp: put_at_def fun_eq_iff nth_Cons')

lemma put_at_append: "put_at a (bs @ cs) m = put_at (a + length bs) cs (put_at a bs m)"
  by (induction bs arbitrary: a m) (simp_all add: put_at_Cons)

lemma shift_in_long: "shift_in (shift_in (shift_in (shift_in r (ucast v)) (ucast (drop_bit 8 v))) (ucast (drop_bit 16 v))) (ucast (drop_bit 24 v)) = (v :: u32)"
proof (rule bit_word_eqI)
  fix i assume "i < LENGTH(32)"
  then have i: "i < 32" by simp
  consider "i < 8" | "8 \<le> i" "i < 16" | "16 \<le> i" "i < 24" | "24 \<le> i" by linarith
  then show "bit (shift_in (shift_in (shift_in (shift_in r (ucast v)) (ucast (drop_bit 8 v))) (ucast (drop_bit 16 v))) (ucast (drop_bit 24 v))) i = bit v i"
    by cases (use i in \<open>auto simp: shift_in_def bit_simps less_diff_conv2 dest: bit_imp_le_length\<close>)
qed

lemma boot_run_append [simp]: "boot_run (xs @ ys) s = boot_run ys (boot_run xs s)"
  and boot_run_Nil [simp]: "boot_run [] s = s" and boot_run_Cons: "boot_run (x # xs) s = boot_run xs (boot_step x s)"
  by (simp_all add: boot_run_def)

lemma fill_bytes_put_at:
  "unat dest + unat len \<le> 4294967296 \<Longrightarrow> fill_bytes dest v len m = put_at (unat dest) (replicate (unat len) v) m"
proof (induction dest v len m rule: fill_bytes.induct)
  case (1 dest v len m)
  show ?case
  proof (cases "0 < len")
    case True
    then obtain n where n: "unat len = Suc n" by (cases "unat len") (auto simp: word_less_nat_alt)
    have l: "unat (len - 1) = n" using n by (simp add: unat_sub_if')
    have "n = 0 \<or> unat (dest + 1) = Suc (unat dest)" using 1(2) n by (cases "Suc (unat dest) < 4294967296") (auto simp: unat_word_ariths)
    then have "fill_bytes (dest + 1) v (len - 1) (m(unat dest := v)) = put_at (Suc (unat dest)) (replicate n v) (m(unat dest := v))"
    proof
      assume "n = 0"
      then show ?thesis using l by (subst fill_bytes.simps) (simp add: word_less_nat_alt)
    next
      assume u: "unat (dest + 1) = Suc (unat dest)"
      then show ?thesis using 1(1) [OF True] 1(2) n l by (simp del: fun_upd_apply)
    qed
    then show ?thesis using True n by (subst fill_bytes.simps) (simp add: put_at_Cons)
  next
    case False
    then show ?thesis by (subst fill_bytes.simps) (simp add: word_less_nat_alt)
  qed
qed

lemma put32_replicate: "put32 a (let v = ucast (b :: u8) in v OR push_bit 8 v OR push_bit 16 v OR push_bit 24 v) m = put_at a (replicate 4 b) m"
proof -
  define w :: u32 where "w = (let v = ucast b in v OR push_bit 8 v OR push_bit 16 v OR push_bit 24 v)"
  have "ucast w = b" "ucast (drop_bit 8 w) = b" "ucast (drop_bit 16 w) = b" "ucast (drop_bit 24 w) = b"
    by (rule bit_word_eqI; auto simp: w_def Let_def bit_simps dest: bit_imp_le_length)+
  then show ?thesis unfolding w_def [symmetric] by (simp add: put32_def numeral_eq_Suc put_at_Cons)
qed

lemma fill_words_put_at:
  assumes "unat dest + unat len \<le> 4294967296"
  shows "case fill_words dest (let v = ucast b in v OR push_bit 8 v OR push_bit 16 v OR push_bit 24 v) len m of
    (dest', len', m') \<Rightarrow> \<exists>k. unat dest' = unat dest + k \<and> unat len = k + unat len' \<and> m' = put_at (unat dest) (replicate k b) m"
  using assms
proof (induction dest "let v = ucast b in v OR push_bit 8 v OR push_bit 16 v OR push_bit 24 v :: u32" len m rule: fill_words.induct)
  case (1 dest len m)
  let ?w = "let v = ucast b in v OR push_bit 8 v OR push_bit 16 v OR push_bit 24 v :: u32"
  show ?case
  proof (cases "4 < len")
    case True
    then have l: "4 < unat len" "unat (len - 4) = unat len - 4" by (simp_all add: word_less_nat_alt unat_sub_if')
    then have d: "unat (dest + 4) = unat dest + 4" using 1(2) by (simp add: unat_word_ariths)
    obtain dest' len' m' where r: "fill_words (dest + 4) ?w (len - 4) (put32 (unat dest) ?w m) = (dest', len', m')" by (metis prod_cases3)
    from 1(1) [OF True] 1(2) l d r obtain k where k: "unat dest' = unat dest + 4 + k" "unat len - 4 = k + unat len'"
        "m' = put_at (unat dest + 4) (replicate k b) (put_at (unat dest) (replicate 4 b) m)"
      unfolding put32_replicate by (auto simp: add.assoc)
    have "m' = put_at (unat dest) (replicate (4 + k) b) m" unfolding k(3) replicate_add put_at_append by simp
    then show ?thesis using True r k(1,2) l by (subst fill_words.simps) (auto intro!: exI [of _ "4 + k"])
  next
    case False
    then show ?thesis by (subst fill_words.simps) auto
  qed
qed

lemma boot_memset_put_at:
  assumes "unat dest + unat len \<le> 4294967296"
  shows "boot_memset dest v len m = put_at (unat dest) (replicate (unat len) v) m"
proof (cases "dest AND 3 = 0")
  case True
  let ?w = "let v = ucast v in v OR push_bit 8 v OR push_bit 16 v OR push_bit 24 v :: u32"
  obtain dest' len' m' where r: "fill_words dest ?w len m = (dest', len', m')" by (metis prod_cases3)
  from fill_words_put_at [OF assms, of v m] r obtain k where k: "unat dest' = unat dest + k" "unat len = k + unat len'" "m' = put_at (unat dest) (replicate k v) m"
    by auto
  have "boot_memset dest v len m = fill_bytes dest' v len' m'" using True r by (simp add: boot_memset_def Let_def)
  also have "\<dots> = put_at (unat dest') (replicate (unat len') v) m'" using k assms by (intro fill_bytes_put_at) simp
  also have "\<dots> = put_at (unat dest) (replicate (unat len) v) m" unfolding k replicate_add put_at_append by simp
  finally show ?thesis .
next
  case False
  then show ?thesis using fill_bytes_put_at [OF assms] by (simp add: boot_memset_def Let_def)
qed

text \<open>The requests, from the command byte to the answer.\<close>

lemma run_load_data:
  assumes "rom_pc s = Load_data a (i + of_nat (length bs)) i c" "bs \<noteq> []" "unat a + length bs \<le> 4294967296" "unat i + length bs < 4294967296"
  shows "boot_run bs s = transmit (LOAD_MEMORY_ACK # long_bytes (foldl fnv_step c bs)) (s\<lparr>rom_pc := Await_command, rom_mem := put_at (unat a) bs (rom_mem s)\<rparr>)"
  using assms
proof (induction bs arbitrary: s a i c)
  case (Cons b bs)
  let ?s = "s\<lparr>rom_mem := (rom_mem s)(unat a := b)\<rparr>"
  have step: "boot_step b s = load_next (a + 1) (i + 1 + of_nat (length bs)) (i + 1) (fnv_step c b) ?s"
    using Cons.prems(1) by (simp add: boot_step_def algebra_simps)
  have i: "unat (i + 1) = Suc (unat i)" using Cons.prems(4) by (simp add: unat_word_ariths)
  show ?case
  proof (cases "bs = []")
    case True
    then have "boot_step b s = transmit (LOAD_MEMORY_ACK # long_bytes (fnv_step c b)) (?s\<lparr>rom_pc := Await_command\<rparr>)"
      using step by (simp add: load_next_def)
    then show ?thesis using True by (simp add: boot_run_Cons put_at_Cons transmit_def del: fun_upd_apply)
  next
    case False
    have "unat (i + 1 + of_nat (length bs)) = Suc (unat i + length bs)"
      using Cons.prems(4) i by (simp add: unat_word_ariths unat_of_nat)
    then have "i + 1 < i + 1 + of_nat (length bs)" using i False by (simp add: word_less_nat_alt)
    then have s1: "boot_step b s = ?s\<lparr>rom_pc := Load_data (a + 1) (i + 1 + of_nat (length bs)) (i + 1) (fnv_step c b)\<rparr>"
      using step by (simp add: load_next_def)
    have "unat (a + 1) = Suc (unat a)" using Cons.prems(3) False by (cases bs) (simp_all add: unat_word_ariths)
    then show ?thesis
      using Cons.IH [of "boot_step b s" "a + 1" "i + 1" "fnv_step c b"] False Cons.prems(3,4) i
      by (simp add: s1 boot_run_Cons put_at_Cons transmit_def del: fun_upd_apply)
  qed
qed simp

lemma run_load:
  assumes "rom_pc s = Await_command" "bs \<noteq> []" "unat a + length bs \<le> 4294967296" "length bs < 4294967296"
  shows "boot_run (LOAD_MEMORY_REQ # long_bytes a @ long_bytes (of_nat (length bs)) @ bs) s
    = transmit (LOAD_MEMORY_ACK # long_bytes (foldl fnv_step 2166136261 bs)) (s\<lparr>rom_mem := put_at (unat a) bs (rom_mem s)\<rparr>)"
proof -
  have l: "(0 :: u32) < of_nat (length bs)" using assms(2,4) by (simp add: word_less_nat_alt unat_of_nat)
  have "boot_run (LOAD_MEMORY_REQ # long_bytes a @ long_bytes (of_nat (length bs))) s = s\<lparr>rom_pc := Load_data a (of_nat (length bs)) 0 2166136261\<rparr>"
    using assms(1) l shift_in_long [of 0 a] shift_in_long [of 0 "of_nat (length bs)"]
    by (simp add: boot_run_def long_bytes_def boot_step_def boot_command_def Let_def load_next_def)
  then have "boot_run (LOAD_MEMORY_REQ # long_bytes a @ long_bytes (of_nat (length bs)) @ bs) s
      = boot_run bs (s\<lparr>rom_pc := Load_data a (of_nat (length bs)) 0 2166136261\<rparr>)"
    by (metis boot_run_append append_Cons append_assoc)
  also have "\<dots> = transmit (LOAD_MEMORY_ACK # long_bytes (foldl fnv_step 2166136261 bs)) (s\<lparr>rom_mem := put_at (unat a) bs (rom_mem s)\<rparr>)"
    using assms run_load_data [of "s\<lparr>rom_pc := Load_data a (of_nat (length bs)) 0 2166136261\<rparr>" a 0 bs] by (simp add: transmit_def)
  finally show ?thesis .
qed

lemma run_clear:
  assumes "rom_pc s = Await_command" "unat a + unat len \<le> 4294967296"
  shows "boot_run (CLEAR_MEMORY_REQ # long_bytes a @ long_bytes len) s
    = transmit [CLEAR_MEMORY_ACK] (s\<lparr>rom_mem := put_at (unat a) (replicate (unat len) 0) (rom_mem s)\<rparr>)"
  using assms(1) shift_in_long [of 0 a] shift_in_long [of 0 len] boot_memset_put_at [OF assms(2)]
  by (simp add: boot_run_def long_bytes_def boot_step_def boot_command_def Let_def transmit_def)

end
