(* ===== verification/Serial_Boot.thy ===== *)
theory Serial_Boot
  imports Boot_Rom Nyuzi_IO Emu_Util
begin

text \<open>
  The loader on the host, \<open>tools/serial_boot/serial_boot.c\<close>, which reads a memory image and sends it to
  the boot ROM. The serial port is a parameter: \<open>tx\<close> writes bytes and returns how many were written,
  \<open>rx\<close> waits for a byte with a time limit in milliseconds and returns none when there is no byte in time
  or \<open>read\<close> fails (\<open>select\<close> and \<open>read\<close>). What is printed is left out, except that the progress bar divides
  by the length of the data. Memory for the segments is always found.
\<close>

record 's serial_port =
  tx :: "u8 list \<Rightarrow> ('s, int) io"
  rx :: "nat \<Rightarrow> ('s, u8 option) io"

record segment =
  seg_address :: u32
  seg_data :: "u8 list"
  seg_alloc :: nat

abbreviation (input) LOAD_BLOCK_SIZE :: nat where "LOAD_BLOCK_SIZE \<equiv> 1024"
abbreviation (input) MIN_SEGMENT_ALLOC :: nat where "MIN_SEGMENT_ALLOC \<equiv> 1024"
abbreviation (input) LOAD_RAMDISK_BASE :: u32 where "LOAD_RAMDISK_BASE \<equiv> 0x4000000"

subsection \<open>The serial protocol\<close>

definition host_write_byte :: "'s serial_port \<Rightarrow> u8 \<Rightarrow> ('s, bool) io" where
  "host_write_byte port ch = bindIO (tx port [ch]) (\<lambda>n. returnIO (n = 1))"

definition host_write_long :: "'s serial_port \<Rightarrow> u32 \<Rightarrow> ('s, bool) io" where
  "host_write_long port value = bindIO (tx port (long_bytes value)) (\<lambda>n. returnIO (n = 4))"

primrec host_read_bytes :: "'s serial_port \<Rightarrow> nat \<Rightarrow> nat \<Rightarrow> u32 \<Rightarrow> ('s, u32 option) io" where
  "host_read_bytes port timeout 0 result = returnIO (Some result)"
| "host_read_bytes port timeout (Suc i) result =
     bindIO (rx port timeout) (\<lambda>r. case r of
         None \<Rightarrow> returnIO None
       | Some ch \<Rightarrow> host_read_bytes port timeout i (shift_in result ch))"

definition host_read_long :: "'s serial_port \<Rightarrow> nat \<Rightarrow> ('s, u32 option) io" where
  "host_read_long port timeout = host_read_bytes port timeout 4 0"

text \<open>The return of \<open>false\<close> when a write or a read fails.\<close>

definition onlyIf :: "('s, bool) io \<Rightarrow> ('s, bool) io \<Rightarrow> ('s, bool) io" where
  "onlyIf m f = bindIO m (\<lambda>ok. if ok then f else returnIO False)"

definition load_memory :: "'s serial_port \<Rightarrow> u32 \<Rightarrow> u8 list \<Rightarrow> ('s, bool) io" where
  "load_memory port address buffer =
     onlyIf (host_write_byte port LOAD_MEMORY_REQ)
     (onlyIf (host_write_long port address)
     (onlyIf (host_write_long port (of_nat (length buffer)))
     (onlyIf (bindIO (tx port buffer) (\<lambda>n. returnIO (n = int (length buffer))))
     (onlyIf (bindIO (rx port 15000) (\<lambda>r. returnIO (r = Some LOAD_MEMORY_ACK)))
     (bindIO (host_read_long port 5000) (\<lambda>target_checksum.
        returnIO (target_checksum = Some (foldl fnv_step 2166136261 buffer))))))))"

definition clear_memory :: "'s serial_port \<Rightarrow> u32 \<Rightarrow> u32 \<Rightarrow> ('s, bool) io" where
  "clear_memory port address len =
     onlyIf (host_write_byte port CLEAR_MEMORY_REQ)
     (onlyIf (host_write_long port address)
     (onlyIf (host_write_long port len)
     (bindIO (rx port 15000) (\<lambda>r. returnIO (r = Some CLEAR_MEMORY_ACK)))))"

text \<open>The loop of \<open>ping_target\<close> with the number of tries that are left.\<close>

primrec ping_loop :: "'s serial_port \<Rightarrow> nat \<Rightarrow> ('s, bool) io" where
  "ping_loop port 0 = returnIO False"
| "ping_loop port (Suc retry) =
     bindIO (host_write_byte port PING_REQ) (\<lambda>_. bindIO (rx port 250) (\<lambda>r.
       if r = Some PING_ACK then returnIO True else ping_loop port retry))"

definition ping_target :: "'s serial_port \<Rightarrow> ('s, bool) io" where
  "ping_target port = ping_loop port 20"

partial_function (option) skip_bad_commands :: "'s serial_port \<Rightarrow> 's \<Rightarrow> (unit \<times> 's) cres option" where
  "skip_bad_commands port s = Option.bind (rx port 250 s) (\<lambda>r. case r of
       Inl e \<Rightarrow> Some (Inl e)
     | Inr (ch, s') \<Rightarrow> if ch = Some BAD_COMMAND then skip_bad_commands port s' else Some (Inr ((), s')))"

text \<open>
  The second loop of \<open>fix_connection\<close>. A byte that is read after the first answer to a ping starts the
  next turn at once.
\<close>

partial_function (option) resynchronize :: "'s serial_port \<Rightarrow> bool \<Rightarrow> nat \<Rightarrow> 's \<Rightarrow> (bool \<times> 's) cres option" where
  "resynchronize port ping_seen retry s = Option.bind (rx port 25 s) (\<lambda>r. case r of
       Inl e \<Rightarrow> Some (Inl e)
     | Inr (ch, s1) \<Rightarrow>
         if ping_seen then (if ch = None then Some (Inr (True, s1)) else resynchronize port True retry s1)
         else if ch = Some PING_ACK then (if 40 < retry then Some (Inr (False, s1)) else resynchronize port True retry s1)
         else Option.bind (host_write_byte port PING_REQ s1) (\<lambda>w. case w of
             Inl e \<Rightarrow> Some (Inl e)
           | Inr (ok, s2) \<Rightarrow>
               if \<not> ok \<or> 40 < Suc retry then Some (Inr (False, s2)) else resynchronize port False (Suc retry) s2))"

definition fix_connection :: "'s serial_port \<Rightarrow> ('s, bool) io" where
  "fix_connection port = bindIO (skip_bad_commands port) (\<lambda>_. resynchronize port False 0)"

definition send_execute_command :: "'s serial_port \<Rightarrow> ('s, bool) io" where
  "send_execute_command port =
     bindIO (host_write_byte port EXECUTE_REQ) (\<lambda>_. bindIO (rx port 15000) (\<lambda>r. returnIO (r = Some EXECUTE_ACK)))"

subsection \<open>Reading the image\<close>

text \<open>
  The buffer of a segment is enlarged when its length is 0, \<open>MIN_SEGMENT_ALLOC\<close> or a power of two. The
  sizes are of type \<open>int\<close>: the doubling overflows at a gigabyte.
\<close>

definition append_to_segment :: "segment \<Rightarrow> u32 \<Rightarrow> segment cres" where
  "append_to_segment seg value =
     (let len = length (seg_data seg);
          enlarge = (len = 0 \<or> len = MIN_SEGMENT_ALLOC \<or> len AND (len - 1) = 0);
          new_size = (if len < MIN_SEGMENT_ALLOC then MIN_SEGMENT_ALLOC else len * 2);
          alloc = (if enlarge then new_size else seg_alloc seg)
      in if enlarge \<and> 2147483648 \<le> new_size \<or> alloc < len + 4 then Inl Out_of_bounds
         else Inr (seg\<lparr>seg_alloc := alloc,
                seg_data := seg_data seg @ [ucast (drop_bit 24 value), ucast (drop_bit 16 value), ucast (drop_bit 8 value), ucast value]\<rparr>))"

definition new_segment :: segment where
  "new_segment = \<lparr>seg_address = 0, seg_data = [], seg_alloc = 0\<rparr>"

text \<open>
  The loop of \<open>read_hex_file\<close> over the rest of the file, with the finished segments and the current one;
  \<open>None\<close> is the null pointer of a file with an error. At the end of the file \<open>fgetc\<close> keeps returning
  \<open>EOF\<close>, and a character that ends a number is read again.
\<close>

function (sequential) read_segments :: "scan_state \<Rightarrow> u32 \<Rightarrow> string \<Rightarrow> segment list \<Rightarrow> segment \<Rightarrow> segment list option cres" where
  "read_segments SCAN_SPACE number_value [] segs cur = Inr (Some (segs @ [cur]))"
| "read_segments SCAN_SPACE number_value (ch # cs) segs cur =
     (if ch = CHR ''/'' then read_segments SCAN_SLASH number_value cs segs cur
      else if ch = CHR ''@'' then read_segments SCAN_ADDRESS 0 cs segs cur
      else if isxdigit ch then read_segments SCAN_NUMBER (hex_digit_val ch) cs segs cur
      else if \<not> isspace ch then Inr None
      else read_segments SCAN_SPACE number_value cs segs cur)"
| "read_segments SCAN_SLASH number_value [] segs cur = Inr None"
| "read_segments SCAN_SLASH number_value (ch # cs) segs cur =
     (if ch = CHR ''*'' then read_segments SCAN_MULTI_LINE_COMMENT number_value cs segs cur
      else if ch = CHR ''/'' then read_segments SCAN_SINGLE_LINE_COMMENT number_value cs segs cur
      else Inr None)"
| "read_segments SCAN_SINGLE_LINE_COMMENT number_value [] segs cur = Inr (Some (segs @ [cur]))"
| "read_segments SCAN_SINGLE_LINE_COMMENT number_value (ch # cs) segs cur =
     (if ch = CHR 0x0A then read_segments SCAN_SPACE number_value cs segs cur
      else read_segments SCAN_SINGLE_LINE_COMMENT number_value cs segs cur)"
| "read_segments SCAN_MULTI_LINE_COMMENT number_value [] segs cur = Inr None"
| "read_segments SCAN_MULTI_LINE_COMMENT number_value (ch # cs) segs cur =
     (if ch = CHR ''*'' then read_segments SCAN_ASTERISK number_value cs segs cur
      else read_segments SCAN_MULTI_LINE_COMMENT number_value cs segs cur)"
| "read_segments SCAN_ASTERISK number_value [] segs cur = Inr None"
| "read_segments SCAN_ASTERISK number_value (ch # cs) segs cur =
     (if ch = CHR ''/'' then read_segments SCAN_SPACE number_value cs segs cur
      else read_segments SCAN_ASTERISK number_value cs segs cur)"
| "read_segments SCAN_NUMBER number_value cs segs cur =
     (if cs \<noteq> [] \<and> isxdigit (hd cs) then
        (if number_value AND 0xf0000000 \<noteq> 0 then Inr None
         else read_segments SCAN_NUMBER (push_bit 4 number_value OR hex_digit_val (hd cs)) (tl cs) segs cur)
      else bindE (append_to_segment cur number_value) (read_segments SCAN_SPACE number_value cs segs))"
| "read_segments SCAN_ADDRESS number_value cs segs cur =
     (if cs \<noteq> [] \<and> isxdigit (hd cs) then
        read_segments SCAN_ADDRESS (push_bit 4 number_value OR hex_digit_val (hd cs)) (tl cs) segs cur
      else if 0 < length (seg_data cur)
      then read_segments SCAN_SPACE number_value cs (segs @ [cur]) (new_segment\<lparr>seg_address := number_value * 4\<rparr>)
      else read_segments SCAN_SPACE number_value cs segs (cur\<lparr>seg_address := number_value * 4\<rparr>))"
  by pat_completeness auto

termination
  by (relation "measures [\<lambda>(_, _, cs, _, _). length cs, \<lambda>(st, _, _, _, _). if st = SCAN_SPACE then 0 else 1]") auto

definition read_hex_segments :: "string option \<Rightarrow> segment list option cres" where
  "read_hex_segments text = (case text of None \<Rightarrow> Inr None | Some cs \<Rightarrow> read_segments SCAN_SPACE 0 cs [] new_segment)"

subsection \<open>Sending the image\<close>

definition print_progress_bar :: "nat \<Rightarrow> nat \<Rightarrow> ('s, unit) io" where
  "print_progress_bar current total_length = (if total_length = 0 then failIO Division_by_zero else returnIO ())"

definition is_empty_block :: "u8 list \<Rightarrow> bool" where
  "is_empty_block data \<longleftrightarrow> list_all (\<lambda>b. b = 0) data"

definition send_slice :: "'s serial_port \<Rightarrow> u32 \<Rightarrow> u8 list \<Rightarrow> ('s, bool option) io" where
  "send_slice port address block =
     (if is_empty_block block
      then bindIO (clear_memory port address (of_nat (length block))) (\<lambda>ok. returnIO (if ok then Some True else None))
      else bindIO (load_memory port address block) (\<lambda>ok.
        if ok then returnIO (Some True)
        else bindIO (fix_connection port) (\<lambda>fixed. returnIO (if fixed then Some False else None))))"

partial_function (option) send_slices :: "'s serial_port \<Rightarrow> u32 \<Rightarrow> u8 list \<Rightarrow> nat \<Rightarrow> 's \<Rightarrow> (bool \<times> 's) cres option" where
  "send_slices port address data offset s =
     (if offset < length data then
        let block = take LOAD_BLOCK_SIZE (drop offset data) in
        Option.bind (bindIO (send_slice port (address + of_nat offset) block) (\<lambda>r. case r of
            None \<Rightarrow> returnIO None
          | Some copied \<Rightarrow> (let offset' = (if copied then offset + length block else offset) in
              bindIO (print_progress_bar offset' (length data)) (\<lambda>_. returnIO (Some offset')))) s) (\<lambda>r. case r of
            Inl e \<Rightarrow> Some (Inl e)
          | Inr (None, s') \<Rightarrow> Some (Inr (False, s'))
          | Inr (Some offset', s') \<Rightarrow> send_slices port address data offset' s')
      else Some (Inr (True, s)))"

definition send_segment :: "'s serial_port \<Rightarrow> u32 \<Rightarrow> u8 list \<Rightarrow> ('s, bool) io" where
  "send_segment port address data = bindIO (print_progress_bar 0 (length data)) (\<lambda>_. send_slices port address data 0)"

primrec send_segments :: "'s serial_port \<Rightarrow> segment list \<Rightarrow> ('s, bool) io" where
  "send_segments port [] = returnIO True"
| "send_segments port (seg # segs) =
     onlyIf (send_segment port (seg_address seg) (seg_data seg)) (send_segments port segs)"

text \<open>
  \<open>main\<close> up to the console mode: the hex file and, when there is one, the contents of the ramdisk file
  (\<open>Some None\<close> when it cannot be read; an empty file is such a file). The serial port is open.
\<close>

definition serial_boot :: "'s serial_port \<Rightarrow> string option \<Rightarrow> u8 list option option \<Rightarrow> ('s, int) io" where
  "serial_boot port hex_file ramdisk =
     bindIO (liftE (read_hex_segments hex_file)) (\<lambda>program. case program of
         None \<Rightarrow> returnIO 1
       | Some segs \<Rightarrow>
           if ramdisk = Some None \<or> ramdisk = Some (Some []) then returnIO 1
           else bindIO (onlyIf (ping_target port) (onlyIf (send_segments port segs)
             (onlyIf (case ramdisk of Some (Some data) \<Rightarrow> send_segment port LOAD_RAMDISK_BASE data | _ \<Rightarrow> returnIO True)
               (send_execute_command port)))) (\<lambda>ok. returnIO (if ok then 0 else 1)))"

subsection \<open>A target that answers\<close>

text \<open>
  What the loader relies on. \<open>waits m out s\<close>: the target waits for a command, has memory \<open>m\<close> and its
  answers \<open>out\<close> have not been read; \<open>sent s bs\<close> is the state after the target received \<open>bs\<close>.
\<close>

text \<open>The memory that a segment fills.\<close>

definition store_segment :: "segment \<Rightarrow> mem \<Rightarrow> mem" where
  "store_segment seg = put_at (unat (seg_address seg)) (seg_data seg)"

definition segment_fits :: "segment \<Rightarrow> bool" where
  "segment_fits seg \<longleftrightarrow> seg_data seg \<noteq> [] \<and> unat (seg_address seg) + length (seg_data seg) \<le> 4294967296 \<and> length (seg_data seg) < 4294967296"

locale boot_target =
  fixes port :: "'s serial_port" and waits :: "mem \<Rightarrow> u8 list \<Rightarrow> 's \<Rightarrow> bool" and started :: "mem \<Rightarrow> 's \<Rightarrow> bool" and sent :: "'s \<Rightarrow> u8 list \<Rightarrow> 's"
  assumes tx_sent: "tx port bs s = Some (Inr (int (length bs), sent s bs))"
    and sent_append: "sent s (xs @ ys) = sent (sent s xs) ys"
    and rx_next: "waits m (c # cs) s \<Longrightarrow> \<exists>s'. rx port t s = Some (Inr (Some c, s')) \<and> waits m cs s'"
    and load_request: "waits m [] s \<Longrightarrow> bs \<noteq> [] \<Longrightarrow> unat a + length bs \<le> 4294967296 \<Longrightarrow> length bs < 4294967296
      \<Longrightarrow> waits (put_at (unat a) bs m) (LOAD_MEMORY_ACK # long_bytes (foldl fnv_step 2166136261 bs))
            (sent s (LOAD_MEMORY_REQ # long_bytes a @ long_bytes (of_nat (length bs)) @ bs))"
    and clear_request: "waits m [] s \<Longrightarrow> unat a + unat len \<le> 4294967296
      \<Longrightarrow> waits (put_at (unat a) (replicate (unat len) 0) m) [CLEAR_MEMORY_ACK] (sent s (CLEAR_MEMORY_REQ # long_bytes a @ long_bytes len))"
    and ping_request: "waits m [] s \<Longrightarrow> waits m [PING_ACK] (sent s [PING_REQ])"
    and execute_request: "waits m [] s \<Longrightarrow> \<exists>s'. rx port t (sent s [EXECUTE_REQ]) = Some (Inr (Some EXECUTE_ACK, s')) \<and> started m s'"
begin

lemma writes [simp]:
  "host_write_byte port ch s = Some (Inr (True, sent s [ch]))" "host_write_long port v s = Some (Inr (True, sent s (long_bytes v)))"
  by (simp_all add: host_write_byte_def host_write_long_def tx_sent long_bytes_def)

lemma read_long:
  assumes "waits m (long_bytes v) s"
  shows "\<exists>s'. host_read_long port t s = Some (Inr (Some v, s')) \<and> waits m [] s'"
proof -
  have step: "\<exists>s'. host_read_bytes port t (Suc n) r s = host_read_bytes port t n (shift_in r c) s' \<and> waits m cs s'" if "waits m (c # cs) s" for n r c cs s
    using rx_next [OF that, of t] by auto
  obtain s1 where s1: "host_read_bytes port t 4 0 s = host_read_bytes port t 3 (shift_in 0 (ucast v)) s1"
      "waits m [ucast (drop_bit 8 v), ucast (drop_bit 16 v), ucast (drop_bit 24 v)] s1"
    using step [of "ucast v" _ s 3 0] assms unfolding long_bytes_def by (auto simp: numeral_eq_Suc)
  obtain s2 where s2: "host_read_bytes port t 3 (shift_in 0 (ucast v)) s1 = host_read_bytes port t 2 (shift_in (shift_in 0 (ucast v)) (ucast (drop_bit 8 v))) s2"
      "waits m [ucast (drop_bit 16 v), ucast (drop_bit 24 v)] s2"
    using step [OF s1(2), of 2] by (auto simp: numeral_eq_Suc)
  obtain s3 where s3: "host_read_bytes port t 2 (shift_in (shift_in 0 (ucast v)) (ucast (drop_bit 8 v))) s2
      = host_read_bytes port t 1 (shift_in (shift_in (shift_in 0 (ucast v)) (ucast (drop_bit 8 v))) (ucast (drop_bit 16 v))) s3"
      "waits m [ucast (drop_bit 24 v)] s3"
    using step [OF s2(2), of 1] by (auto simp: numeral_eq_Suc)
  from rx_next [OF s3(2), of t] show ?thesis
    unfolding host_read_long_def s1(1) s2(1) s3(1) using shift_in_long [of 0 v] by auto
qed

lemma load_memory_ok:
  assumes w: "waits m [] s" and bs: "bs \<noteq> []" "unat a + length bs \<le> 4294967296" "length bs < 4294967296"
  shows "\<exists>s'. load_memory port a bs s = Some (Inr (True, s')) \<and> waits (put_at (unat a) bs m) [] s'"
proof -
  define s1 where "s1 = sent s (LOAD_MEMORY_REQ # long_bytes a @ long_bytes (of_nat (length bs)) @ bs)"
  have s1: "s1 = sent (sent (sent (sent s [LOAD_MEMORY_REQ]) (long_bytes a)) (long_bytes (of_nat (length bs)))) bs"
    by (simp add: s1_def flip: sent_append)
  have "waits (put_at (unat a) bs m) (LOAD_MEMORY_ACK # long_bytes (foldl fnv_step 2166136261 bs)) s1"
    unfolding s1_def by (rule load_request [OF w bs])
  from rx_next [OF this, of 15000] obtain s2 where s2: "rx port 15000 s1 = Some (Inr (Some LOAD_MEMORY_ACK, s2))"
      "waits (put_at (unat a) bs m) (long_bytes (foldl fnv_step 2166136261 bs)) s2" by blast
  from read_long [OF s2(2), of 5000] obtain s3 where s3: "host_read_long port 5000 s2 = Some (Inr (Some (foldl fnv_step 2166136261 bs), s3))"
      "waits (put_at (unat a) bs m) [] s3" by blast
  show ?thesis using s2(1) s3 by (simp add: load_memory_def onlyIf_def tx_sent s1)
qed

lemma clear_memory_ok:
  assumes w: "waits m [] s" and a: "unat a + unat len \<le> 4294967296"
  shows "\<exists>s'. clear_memory port a len s = Some (Inr (True, s')) \<and> waits (put_at (unat a) (replicate (unat len) 0) m) [] s'"
proof -
  have "sent s (CLEAR_MEMORY_REQ # long_bytes a @ long_bytes len) = sent (sent (sent s [CLEAR_MEMORY_REQ]) (long_bytes a)) (long_bytes len)"
    by (simp flip: sent_append)
  then show ?thesis using rx_next [OF clear_request [OF w a], of 15000] by (auto simp: clear_memory_def onlyIf_def)
qed

lemma ping_target_ok: "waits m [] s \<Longrightarrow> \<exists>s'. ping_target port s = Some (Inr (True, s')) \<and> waits m [] s'"
  using rx_next [OF ping_request, of m s 250] by (auto simp: ping_target_def numeral_eq_Suc)

lemma send_slice_ok:
  assumes w: "waits m [] s" and bs: "bs \<noteq> []" "unat a + length bs \<le> 4294967296" "length bs < 4294967296"
  shows "\<exists>s'. send_slice port a bs s = Some (Inr (Some True, s')) \<and> waits (put_at (unat a) bs m) [] s'"
proof (cases "is_empty_block bs")
  case True
  then have "bs = replicate (length bs) 0" by (simp add: is_empty_block_def list_all_iff replicate_length_same)
  moreover have "unat (of_nat (length bs) :: u32) = length bs" using bs(3) by (simp add: unat_of_nat)
  ultimately show ?thesis using True clear_memory_ok [OF w, of a "of_nat (length bs)"] bs(2) by (auto simp: send_slice_def)
next
  case False
  then show ?thesis using load_memory_ok [OF w bs] by (auto simp: send_slice_def)
qed

lemma send_slices_ok:
  assumes "waits (put_at (unat a) (take off data) m) [] s" "off \<le> length data" "unat a + length data \<le> 4294967296" "length data < 4294967296"
  shows "\<exists>s'. send_slices port a data off s = Some (Inr (True, s')) \<and> waits (put_at (unat a) data m) [] s'"
  using assms
proof (induction "length data - off" arbitrary: off s rule: less_induct)
  case less
  show ?case
  proof (cases "off < length data")
    case True
    define block where "block = take 1024 (drop off data)"
    have b: "block \<noteq> []" "off + length block \<le> length data" "0 < length block" using True by (auto simp: block_def)
    have a: "unat (a + of_nat off) = unat a + off" using less.prems(3,4) True by (simp add: unat_word_ariths unat_of_nat)
    have t: "take (off + length block) data = take off data @ block" by (simp add: block_def take_add min_def)
    have "unat (a + of_nat off) + length block \<le> 4294967296" "length block < 4294967296" using a b(2) less.prems(3,4) by simp_all
    from send_slice_ok [OF less.prems(1) b(1) this] obtain s1 where s1: "send_slice port (a + of_nat off) block s = Some (Inr (Some True, s1))"
        "waits (put_at (unat a) (take (off + length block) data) m) [] s1"
      unfolding a t put_at_append using less.prems(2) by auto
    have "send_slices port a data off s = send_slices port a data (off + length block) s1"
      using True s1(1) by (subst send_slices.simps) (auto simp: block_def [symmetric] Let_def print_progress_bar_def)
    moreover have "length data - (off + length block) < length data - off" using b(3) True by linarith
    from less.hyps [OF this s1(2) b(2) less.prems(3,4)] have "\<exists>s'. send_slices port a data (off + length block) s1 = Some (Inr (True, s'))
        \<and> waits (put_at (unat a) data m) [] s'" .
    ultimately show ?thesis by simp
  next
    case False
    then show ?thesis using less.prems by (subst send_slices.simps) simp
  qed
qed

lemma send_segment_ok:
  assumes "waits m [] s" "data \<noteq> []" "unat a + length data \<le> 4294967296" "length data < 4294967296"
  shows "\<exists>s'. send_segment port a data s = Some (Inr (True, s')) \<and> waits (put_at (unat a) data m) [] s'"
  using assms send_slices_ok [of a 0 data m s] by (simp add: send_segment_def print_progress_bar_def)

lemma send_segments_ok:
  assumes "waits m [] s" "\<forall>seg\<in>set segs. segment_fits seg"
  shows "\<exists>s'. send_segments port segs s = Some (Inr (True, s')) \<and> waits (fold store_segment segs m) [] s'"
  using assms
proof (induction segs arbitrary: m s)
  case (Cons seg segs)
  then obtain s1 where s1: "send_segment port (seg_address seg) (seg_data seg) s = Some (Inr (True, s1))" "waits (store_segment seg m) [] s1"
    using send_segment_ok [OF Cons.prems(1), of "seg_data seg" "seg_address seg"] by (auto simp: segment_fits_def store_segment_def)
  from Cons.IH [OF s1(2)] Cons.prems(2) s1(1) show ?case by (simp add: onlyIf_def)
qed simp

lemma serial_boot_ok:
  assumes "waits m [] s" "read_hex_segments f = Inr (Some segs)" "\<forall>seg\<in>set segs. segment_fits seg"
  shows "\<exists>s'. serial_boot port f None s = Some (Inr (0, s')) \<and> started (fold store_segment segs m) s'"
proof -
  obtain s1 where s1: "ping_target port s = Some (Inr (True, s1))" "waits m [] s1" using ping_target_ok [OF assms(1)] by blast
  obtain s2 where s2: "send_segments port segs s1 = Some (Inr (True, s2))" "waits (fold store_segment segs m) [] s2"
    using send_segments_ok [OF s1(2) assms(3)] by blast
  obtain s3 where "rx port 15000 (sent s2 [EXECUTE_REQ]) = Some (Inr (Some EXECUTE_ACK, s3))" "started (fold store_segment segs m) s3"
    using execute_request [OF s2(2)] by blast
  then show ?thesis using s1(1) s2(1) assms(2) by (simp add: serial_boot_def onlyIf_def send_execute_command_def)
qed

lemma serial_boot_empty_segment:
  assumes "waits m [] s" "read_hex_segments f = Inr (Some (segs @ seg # rest))" "\<forall>seg\<in>set segs. segment_fits seg" "seg_data seg = []"
  shows "serial_boot port f None s = Some (Inl Division_by_zero)"
proof -
  have crash: "send_segments port (seg # rest) s' = Some (Inl Division_by_zero)" for s'
    using assms(4) by (simp add: onlyIf_def send_segment_def print_progress_bar_def)
  have "send_segments port (segs @ seg # rest) s' = Some (Inl Division_by_zero)" if "waits m' [] s'" for m' s'
    using that assms(3)
  proof (induction segs arbitrary: m' s')
    case (Cons g gs)
    obtain s1 where "send_segment port (seg_address g) (seg_data g) s' = Some (Inr (True, s1))" "waits (store_segment g m') [] s1"
      using send_segment_ok [OF Cons.prems(1), of "seg_data g" "seg_address g"] Cons.prems(2) by (auto simp: segment_fits_def store_segment_def)
    then show ?case using Cons by (simp add: onlyIf_def)
  qed (simp only: append_Nil crash)
  moreover obtain s1 where "ping_target port s = Some (Inr (True, s1))" "waits m [] s1" using ping_target_ok [OF assms(1)] by blast
  ultimately show ?thesis using assms(2) by (simp add: serial_boot_def onlyIf_def)
qed

end

subsection \<open>The boot ROM at the other end\<close>

text \<open>A line without errors; the bytes the ROM has sent wait in \<open>uart_tx\<close>.\<close>

definition rom_port :: "boot_rom serial_port" where
  "rom_port = \<lparr>tx = (\<lambda>bs s. Some (Inr (int (length bs), boot_run bs s))),
     rx = (\<lambda>_ s. case uart_tx s of [] \<Rightarrow> Some (Inr (None, s)) | c # cs \<Rightarrow> Some (Inr (Some c, s\<lparr>uart_tx := cs\<rparr>)))\<rparr>"

definition rom_waits :: "mem \<Rightarrow> u8 list \<Rightarrow> boot_rom \<Rightarrow> bool" where
  "rom_waits m out s \<longleftrightarrow> rom_pc s = Await_command \<and> rom_mem s = m \<and> uart_tx s = out"

definition rom_started :: "mem \<Rightarrow> boot_rom \<Rightarrow> bool" where
  "rom_started m s \<longleftrightarrow> rom_pc s = Started \<and> rom_mem s = m \<and> green_led s = 0"

interpretation rom: boot_target rom_port rom_waits rom_started "\<lambda>s bs. boot_run bs s"
proof unfold_locales
  fix m s and bs :: "u8 list" and a :: u32 assume "rom_waits m [] s" "bs \<noteq> []" "unat a + length bs \<le> 4294967296" "length bs < 4294967296"
  then show "rom_waits (put_at (unat a) bs m) (LOAD_MEMORY_ACK # long_bytes (foldl fnv_step 2166136261 bs))
      (boot_run (LOAD_MEMORY_REQ # long_bytes a @ long_bytes (of_nat (length bs)) @ bs) s)"
    using run_load [of s bs a] by (simp add: rom_waits_def transmit_def)
next
  fix m s and a len :: u32 assume "rom_waits m [] s" "unat a + unat len \<le> 4294967296"
  then show "rom_waits (put_at (unat a) (replicate (unat len) 0) m) [CLEAR_MEMORY_ACK] (boot_run (CLEAR_MEMORY_REQ # long_bytes a @ long_bytes len) s)"
    using run_clear [of s a len] by (simp add: rom_waits_def transmit_def)
qed (auto simp: rom_port_def rom_waits_def rom_started_def boot_run_def boot_step_def boot_command_def transmit_def)

subsection \<open>Segments\<close>

definition word_bytes :: "u32 \<Rightarrow> u8 list" where
  "word_bytes value = [ucast (drop_bit 24 value), ucast (drop_bit 16 value), ucast (drop_bit 8 value), ucast value]"

lemma length_word_bytes [simp]: "length (word_bytes v) = 4"
  by (simp add: word_bytes_def)

text \<open>The buffer of a segment holds its data, and when it is full its size is a power of two.\<close>

definition segment_ok :: "segment \<Rightarrow> bool" where
  "segment_ok seg \<longleftrightarrow> 4 dvd length (seg_data seg) \<and> length (seg_data seg) \<le> seg_alloc seg \<and> 4 dvd seg_alloc seg
     \<and> (seg_data seg \<noteq> [] \<longrightarrow> seg_alloc seg AND (seg_alloc seg - 1) = 0)"

lemma double_power: "0 < n \<Longrightarrow> n AND (n - 1) = 0 \<Longrightarrow> (n * 2) AND (n * 2 - 1) = (0 :: nat)"
proof -
  assume n: "0 < n" "n AND (n - 1) = 0"
  have "(n * 2 - 1) div 2 = n - 1" using n(1) by simp
  then show ?thesis using n by (subst and_rec) simp
qed

lemma append_to_segment_ok:
  assumes ok: "segment_ok seg" and len: "length (seg_data seg) < 1073741824"
  shows "\<exists>k. append_to_segment seg v = Inr (seg\<lparr>seg_alloc := k, seg_data := seg_data seg @ word_bytes v\<rparr>)
    \<and> segment_ok (seg\<lparr>seg_alloc := k, seg_data := seg_data seg @ word_bytes v\<rparr>)"
proof -
  let ?n = "length (seg_data seg)"
  define enlarge where "enlarge \<longleftrightarrow> ?n = 0 \<or> ?n = 1024 \<or> ?n AND (?n - 1) = 0"
  define k where "k = (if enlarge then if ?n < 1024 then 1024 else ?n * 2 else seg_alloc seg)"
  obtain q where q: "?n = 4 * q" using ok by (auto simp: segment_ok_def)
  have big: "?n + 4 \<le> k \<and> 4 dvd k \<and> k AND (k - 1) = 0"
  proof (cases enlarge)
    case True
    have p: "(1024 :: nat) AND 1023 = 0" by simp
    show ?thesis
    proof (cases "?n < 1024")
      case True
      then show ?thesis using \<open>enlarge\<close> q p by (simp add: k_def)
    next
      case False
      then have "?n AND (?n - 1) = 0" "0 < ?n" using True p by (auto simp: enlarge_def)
      then show ?thesis using True False q double_power [of ?n] by (simp add: k_def)
    qed
  next
    case False
    then have k: "k = seg_alloc seg" "seg_data seg \<noteq> []" by (auto simp: k_def enlarge_def)
    then have a: "?n \<le> k" "4 dvd k" "k AND (k - 1) = 0" using ok by (auto simp: segment_ok_def)
    have "?n \<noteq> k" using False a(3) by (auto simp: enlarge_def)
    then show ?thesis using a q by (auto elim!: dvdE)
  qed
  have "\<not> (enlarge \<and> 2147483648 \<le> (if ?n < 1024 then 1024 else ?n * 2))" using len by auto
  then have "append_to_segment seg v = Inr (seg\<lparr>seg_alloc := k, seg_data := seg_data seg @ word_bytes v\<rparr>)"
    using big unfolding append_to_segment_def Let_def enlarge_def [symmetric] k_def [symmetric] word_bytes_def by auto
  moreover have "segment_ok (seg\<lparr>seg_alloc := k, seg_data := seg_data seg @ word_bytes v\<rparr>)"
    using big q by (simp add: segment_ok_def)
  ultimately show ?thesis by blast
qed

primrec append_words :: "u32 list \<Rightarrow> segment \<Rightarrow> segment cres" where
  "append_words [] seg = Inr seg"
| "append_words (v # vs) seg = bindE (append_to_segment seg v) (append_words vs)"

lemma append_words_ok:
  "segment_ok seg \<Longrightarrow> length (seg_data seg) + 4 * length vs \<le> 1073741824
    \<Longrightarrow> \<exists>seg'. append_words vs seg = Inr seg' \<and> segment_ok seg' \<and> seg_data seg' = seg_data seg @ concat (map word_bytes vs)"
proof (induction vs arbitrary: seg)
  case (Cons v vs)
  from append_to_segment_ok [OF Cons.prems(1), of v] Cons.prems(2) obtain k where
    k: "append_to_segment seg v = Inr (seg\<lparr>seg_alloc := k, seg_data := seg_data seg @ word_bytes v\<rparr>)"
      "segment_ok (seg\<lparr>seg_alloc := k, seg_data := seg_data seg @ word_bytes v\<rparr>)" by auto
  from Cons.IH [OF k(2)] Cons.prems(2) k(1) show ?case by auto
qed auto

text \<open>
  C38: The loader never writes outside the buffer of a segment: up to a gigabyte, the words of an image
  can be appended one after the other to a new segment, which then holds exactly their bytes, most
  significant first, in a buffer that is large enough.
\<close>

theorem append_to_segment_in_bounds:
  assumes "4 * length vs \<le> 1073741824"
  shows "\<exists>seg. append_words vs new_segment = Inr seg \<and> seg_data seg = concat (map word_bytes vs) \<and> length (seg_data seg) \<le> seg_alloc seg"
proof -
  have "segment_ok new_segment" by (simp add: segment_ok_def new_segment_def)
  from append_words_ok [OF this, of vs] assms show ?thesis by (auto simp: new_segment_def segment_ok_def)
qed

theorem append_to_segment_in_bounds_witness:
  "\<exists>seg. append_words (replicate 257 0x01020304) new_segment = Inr seg \<and> take 5 (seg_data seg) = [1, 2, 3, 4, 1] \<and> 1028 \<le> seg_alloc seg"
proof -
  let ?vs = "replicate 257 (0x01020304 :: u32)"
  have "4 * length ?vs \<le> 1073741824" by simp
  from append_to_segment_in_bounds [OF this] obtain seg where seg: "append_words ?vs new_segment = Inr seg"
      "seg_data seg = concat (map word_bytes ?vs)" "length (seg_data seg) \<le> seg_alloc seg" by blast
  have "concat (map word_bytes ?vs) = word_bytes 0x01020304 @ word_bytes 0x01020304 @ concat (map word_bytes (replicate 255 0x01020304))"
    by (simp add: numeral_eq_Suc)
  moreover have "word_bytes 0x01020304 = [1, 2, 3, 4]" by (simp add: word_bytes_def)
  moreover have "length (concat (map word_bytes ?vs)) = 1028" by (simp add: length_concat comp_def sum_list_replicate)
  ultimately show ?thesis using seg by auto
qed

subsection \<open>The image of the emulator\<close>

lemma put_word_bytes: "put_at a (word_bytes v) m = put32 a (endian_swap32 v) m"
proof -
  have "ucast (drop_bit (8 * q) (endian_swap32 v)) = (ucast (drop_bit (8 * (3 - q)) v) :: u8)" if "q < 4" for q
  proof (rule bit_word_eqI)
    fix i assume "i < LENGTH(8)"
    then have "i < 8" by simp
    then show "bit (ucast (drop_bit (8 * q) (endian_swap32 v)) :: u8) i = bit (ucast (drop_bit (8 * (3 - q)) v) :: u8) i"
      using bit_endian_swap32 [of i q v] that by (simp add: bit_simps)
  qed
  from this [of 0] this [of 1] this [of 2] this [of 3] show ?thesis
    by (simp add: put32_def word_bytes_def put_at_Cons eval_nat_numeral)
qed

text \<open>
  The states of the two readers of hex files: the segments of the loader fill memory like the emulator
  has filled it, and the next word goes to the same address.
\<close>

definition same_image :: "u32 \<Rightarrow> mem \<Rightarrow> u32 \<Rightarrow> mem \<Rightarrow> segment list \<Rightarrow> segment \<Rightarrow> bool" where
  "same_image msize m0 addr m segs cur \<longleftrightarrow> fold store_segment (segs @ [cur]) m0 = m \<and> segment_ok cur
     \<and> seg_address cur + of_nat (length (seg_data cur)) = addr * 4
     \<and> (\<forall>seg\<in>set (segs @ [cur]). seg_data seg \<noteq> [] \<longrightarrow> unat (seg_address seg) + length (seg_data seg) \<le> unat msize)"

lemma same_image_word:
  assumes i: "same_image msize m0 addr m segs cur" and msize: "unat msize \<le> 1073741824" and room: "4 * unat addr + 4 \<le> unat msize"
  shows "\<exists>cur'. append_to_segment cur v = Inr cur' \<and> same_image msize m0 (addr + 1) (put32 (4 * unat addr) (endian_swap32 v) m) segs cur'"
proof -
  let ?a = "unat (seg_address cur)" and ?n = "length (seg_data cur)"
  have im: "fold store_segment (segs @ [cur]) m0 = m" "segment_ok cur" "seg_address cur + of_nat ?n = addr * 4"
      "\<forall>seg\<in>set segs. seg_data seg \<noteq> [] \<longrightarrow> unat (seg_address seg) + length (seg_data seg) \<le> unat msize"
      "seg_data cur \<noteq> [] \<longrightarrow> ?a + ?n \<le> unat msize"
    using i by (auto simp: same_image_def)
  have u: "unat (addr * 4) = 4 * unat addr" using room msize by (simp add: unat_word_ariths)
  have pos: "?a + ?n = 4 * unat addr"
  proof (cases "seg_data cur = []")
    case True
    then show ?thesis using im(3) u by simp
  next
    case False
    then have "unat (seg_address cur + of_nat ?n) = ?a + ?n" using im(5) msize by (simp add: unat_word_ariths unat_of_nat)
    then show ?thesis using im(3) u by simp
  qed
  then have "?n < 1073741824" using room msize by simp
  from append_to_segment_ok [OF im(2) this, of v] obtain k where
    k: "append_to_segment cur v = Inr (cur\<lparr>seg_alloc := k, seg_data := seg_data cur @ word_bytes v\<rparr>)"
      "segment_ok (cur\<lparr>seg_alloc := k, seg_data := seg_data cur @ word_bytes v\<rparr>)" by blast
  let ?cur = "cur\<lparr>seg_alloc := k, seg_data := seg_data cur @ word_bytes v\<rparr>"
  have "store_segment ?cur m' = put32 (4 * unat addr) (endian_swap32 v) (store_segment cur m')" for m'
    using pos by (simp add: store_segment_def put_at_append put_word_bytes)
  then have "fold store_segment (segs @ [?cur]) m0 = put32 (4 * unat addr) (endian_swap32 v) m" using im(1) by auto
  moreover have "seg_address ?cur + of_nat (length (seg_data ?cur)) = (addr + 1) * 4" using im(3) by (simp add: algebra_simps)
  ultimately have "same_image msize m0 (addr + 1) (put32 (4 * unat addr) (endian_swap32 v) m) segs ?cur"
    using k(2) im(4) pos room by (simp add: same_image_def)
  then show ?thesis using k(1) by blast
qed

lemma same_image_address:
  assumes i: "same_image msize m0 addr m segs cur"
  shows "if 0 < length (seg_data cur) then same_image msize m0 v m (segs @ [cur]) (new_segment\<lparr>seg_address := v * 4\<rparr>)
    else same_image msize m0 v m segs (cur\<lparr>seg_address := v * 4\<rparr>)"
  using i by (auto simp: same_image_def new_segment_def segment_ok_def store_segment_def)

declare read_segments.simps(11,12) [simp del]

lemma read_segments_image:
  assumes "read_hex_loop msize st v addr cs m = Inr (True, m')" "same_image msize m0 addr m segs cur" "unat msize \<le> 1073741824"
  shows "\<exists>segs'. read_segments st v cs segs cur = Inr (Some segs') \<and> fold store_segment segs' m0 = m'
    \<and> (\<forall>seg\<in>set segs'. seg_data seg \<noteq> [] \<longrightarrow> unat (seg_address seg) + length (seg_data seg) \<le> unat msize)"
  using assms
proof (induction msize st v addr cs m arbitrary: segs cur rule: read_hex_loop.induct)
  case (11 msize v addr cs m)
  show ?case
  proof (cases "cs \<noteq> [] \<and> isxdigit (hd cs)")
    case True
    then have "v AND 0xf0000000 = 0" using "11.prems"(1) by (subst (asm) read_hex_loop.simps(11)) (auto split: if_splits)
    then show ?thesis
      using 11 True by (subst read_segments.simps(11)) (simp add: read_hex_loop.simps(11) [of msize v])
  next
    case False
    have room: "4 * unat addr + 4 \<le> unat msize" "read_hex_loop msize SCAN_SPACE v (addr + 1) cs (put32 (4 * unat addr) (endian_swap32 v) m) = Inr (True, m')"
      and lt: "\<not> msize \<le> addr"
      using "11.prems"(1) False by (subst (asm) read_hex_loop.simps(11); auto simp: store_image_word_def split: if_splits)+
    obtain cur' where c: "append_to_segment cur v = Inr cur'" "same_image msize m0 (addr + 1) (put32 (4 * unat addr) (endian_swap32 v) m) segs cur'"
      using same_image_word [OF "11.prems"(2,3) room(1), of v] by blast
    have "store_image_word msize (unat addr) (endian_swap32 v) m = Inr (put32 (4 * unat addr) (endian_swap32 v) m)"
      using room(1) by (simp add: store_image_word_def)
    have run: "read_segments SCAN_NUMBER v cs segs cur = read_segments SCAN_SPACE v cs segs cur'"
      using False c(1) by (subst read_segments.simps(11)) auto
    show ?thesis unfolding run by (rule "11.IH"(2) [OF False lt room(2) c(2) "11.prems"(3)])
  qed
next
  case (12 msize v addr cs m)
  show ?case
  proof (cases "cs \<noteq> [] \<and> isxdigit (hd cs)")
    case True
    then show ?thesis using 12 by (subst read_segments.simps(12)) (simp add: read_hex_loop.simps(12) [of msize v])
  next
    case False
    have lt: "\<not> msize \<le> v" and r: "read_hex_loop msize SCAN_SPACE v v cs m = Inr (True, m')"
      using "12.prems"(1) False by (subst (asm) read_hex_loop.simps(12); auto split: if_splits)+
    note s = same_image_address [OF "12.prems"(2), of v]
    show ?thesis
    proof (cases "0 < length (seg_data cur)")
      case True
      then have run: "read_segments SCAN_ADDRESS v cs segs cur = read_segments SCAN_SPACE v cs (segs @ [cur]) (new_segment\<lparr>seg_address := v * 4\<rparr>)"
        using False by (subst read_segments.simps(12)) auto
      have "same_image msize m0 v m (segs @ [cur]) (new_segment\<lparr>seg_address := v * 4\<rparr>)" using s True by simp
      then show ?thesis unfolding run by (rule "12.IH"(2) [OF False lt r _ "12.prems"(3)])
    next
      case F: False
      then have run: "read_segments SCAN_ADDRESS v cs segs cur = read_segments SCAN_SPACE v cs segs (cur\<lparr>seg_address := v * 4\<rparr>)"
        using False by (subst read_segments.simps(12)) auto
      have "same_image msize m0 v m segs (cur\<lparr>seg_address := v * 4\<rparr>)" using s F by simp
      then show ?thesis unfolding run by (rule "12.IH"(2) [OF False lt r _ "12.prems"(3)])
    qed
  qed
qed (auto simp: same_image_def split: if_splits)

text \<open>
  C26: The board gets the memory that the emulator would have. When the emulator loads a hex file into a
  memory of at most a gigabyte, the loader reads the same file without error, and if each of its
  segments has data, \<open>serial_boot\<close> sends it to a boot ROM that was just started: the loader returns 0, the
  program runs, and the memory of the board is exactly the memory of the emulator.
\<close>

theorem serial_boot_like_emulator:
  assumes emu: "read_hex_file (Some chars) msize m = Inr (True, m')" and msize: "unat msize \<le> 1073741824"
  shows "\<exists>segs. read_hex_segments (Some chars) = Inr (Some segs) \<and> fold store_segment segs m = m'
    \<and> ((\<forall>seg\<in>set segs. seg_data seg \<noteq> []) \<longrightarrow>
        (\<exists>s'. serial_boot rom_port (Some chars) None (boot_init m) = Some (Inr (0, s')) \<and> rom_pc s' = Started \<and> rom_mem s' = m'))"
proof -
  have "same_image msize m 0 m [] new_segment" by (simp add: same_image_def new_segment_def segment_ok_def store_segment_def)
  moreover have "read_hex_loop msize SCAN_SPACE 0 0 chars m = Inr (True, m')" using emu by (simp add: read_hex_file_def)
  ultimately obtain segs where segs: "read_hex_segments (Some chars) = Inr (Some segs)" "fold store_segment segs m = m'"
      "\<And>seg. seg \<in> set segs \<Longrightarrow> seg_data seg \<noteq> [] \<Longrightarrow> unat (seg_address seg) + length (seg_data seg) \<le> unat msize"
    using read_segments_image [OF _ _ msize, of SCAN_SPACE 0 0 chars m m' m "[]" new_segment] by (auto simp: read_hex_segments_def)
  moreover have "\<exists>s'. serial_boot rom_port (Some chars) None (boot_init m) = Some (Inr (0, s')) \<and> rom_pc s' = Started \<and> rom_mem s' = m'"
    if full: "\<forall>seg\<in>set segs. seg_data seg \<noteq> []"
  proof -
    have "segment_fits seg" if "seg \<in> set segs" for seg
      using segs(3) [OF that] full that msize by (auto simp: segment_fits_def)
    moreover have "rom_waits m [] (boot_init m)" by (simp add: rom_waits_def boot_init_def)
    ultimately show ?thesis using rom.serial_boot_ok [of m "boot_init m" "Some chars" segs] segs(1,2) by (auto simp: rom_started_def)
  qed
  ultimately show ?thesis by blast
qed

text \<open>
  C40: An address without data after it, as at the end of a hex file, makes the loader divide by zero when
  it prints the progress of the empty segment; the emulator loads such files.
\<close>

theorem serial_boot_empty_segment_crashes:
  assumes "read_hex_segments f = Inr (Some (segs @ seg # rest))" "\<forall>seg\<in>set segs. segment_fits seg" "seg_data seg = []"
  shows "serial_boot rom_port f None (boot_init m) = Some (Inl Division_by_zero)"
  by (rule rom.serial_boot_empty_segment [OF _ assms]) (simp add: rom_waits_def boot_init_def)

text \<open>A word at address 0x10 and an address at the end of the file.\<close>

definition one_word :: string where
  "one_word = ''@4 12345678''"

lemma one_word_segments:
  "read_hex_segments (Some one_word) = Inr (Some [\<lparr>seg_address = 16, seg_data = [0x12, 0x34, 0x56, 0x78], seg_alloc = 1024\<rparr>])"
  "read_hex_segments (Some (one_word @ ''@8'')) = Inr (Some [\<lparr>seg_address = 16, seg_data = [0x12, 0x34, 0x56, 0x78], seg_alloc = 1024\<rparr>,
     \<lparr>seg_address = 32, seg_data = [], seg_alloc = 0\<rparr>])"
  by (simp_all add: read_hex_segments_def one_word_def isxdigit_def isspace_def hex_digit_val_def new_segment_def append_to_segment_def
      read_segments.simps(11,12) Let_def)

theorem serial_boot_like_emulator_witness:
  "\<exists>m' s'. read_hex_file (Some one_word) 64 (\<lambda>_. 0) = Inr (True, m') \<and> m' 16 = 0x12
     \<and> serial_boot rom_port (Some one_word) None (boot_init (\<lambda>_. 0)) = Some (Inr (0, s')) \<and> rom_mem s' = m'"
proof -
  obtain m' where m: "read_hex_file (Some one_word) 64 (\<lambda>_. 0) = Inr (True, m')"
    by (simp add: read_hex_file_def one_word_def isxdigit_def isspace_def hex_digit_val_def read_hex_loop.simps(11,12) store_image_word_def
        word_le_nat_alt)
  have "unat (64 :: u32) \<le> 1073741824" by simp
  from serial_boot_like_emulator [OF m this] obtain segs where segs: "read_hex_segments (Some one_word) = Inr (Some segs)" "fold store_segment segs (\<lambda>_. 0) = m'"
      "(\<forall>seg\<in>set segs. seg_data seg \<noteq> []) \<longrightarrow>
        (\<exists>s'. serial_boot rom_port (Some one_word) None (boot_init (\<lambda>_. 0)) = Some (Inr (0, s')) \<and> rom_pc s' = Started \<and> rom_mem s' = m')"
    by blast
  have s: "segs = [\<lparr>seg_address = 16, seg_data = [0x12, 0x34, 0x56, 0x78], seg_alloc = 1024\<rparr>]" using segs(1) one_word_segments(1) by simp
  then have "m' 16 = 0x12" using segs(2) by (auto simp: store_segment_def put_at_def)
  then show ?thesis using segs(3) m s by auto
qed

theorem serial_boot_empty_segment_crashes_witness:
  "serial_boot rom_port (Some (one_word @ ''@8'')) None (boot_init (\<lambda>_. 0)) = Some (Inl Division_by_zero)"
  by (rule serial_boot_empty_segment_crashes [where segs = "[\<lparr>seg_address = 16, seg_data = [0x12, 0x34, 0x56, 0x78], seg_alloc = 1024\<rparr>]" and rest = "[]"
        and seg = "\<lparr>seg_address = 32, seg_data = [], seg_alloc = 0\<rparr>"])
    (simp_all add: one_word_segments segment_fits_def)

subsection \<open>Lost bytes\<close>

lemma rom_rx: "rx rom_port t s = (case uart_tx s of [] \<Rightarrow> Some (Inr (None, s)) | c # cs \<Rightarrow> Some (Inr (Some c, s\<lparr>uart_tx := cs\<rparr>)))"
  by (simp add: rom_port_def)

text \<open>After an answer to a ping everything else is read and dropped.\<close>

lemma drain: "\<exists>s'. resynchronize rom_port True r s = Some (Inr (True, s')) \<and> s' = s\<lparr>uart_tx := []\<rparr>"
proof (induction "uart_tx s" arbitrary: s)
  case Nil
  then show ?case by (subst resynchronize.simps) (simp add: rom_rx)
next
  case (Cons c cs)
  then have "resynchronize rom_port True r s = resynchronize rom_port True r (s\<lparr>uart_tx := cs\<rparr>)"
    by (subst resynchronize.simps) (simp add: rom_rx flip: Cons(2))
  then show ?case using Cons(1) [of "s\<lparr>uart_tx := cs\<rparr>"] by simp
qed

lemma ping_waiting: "rom_pc s = Await_command \<Longrightarrow> host_write_byte rom_port PING_REQ s = Some (Inr (True, s\<lparr>uart_tx := uart_tx s @ [PING_ACK]\<rparr>))"
  by (simp add: host_write_byte_def rom_port_def boot_run_def boot_step_def boot_command_def transmit_def)

lemma resynchronize_waiting:
  assumes "rom_pc s = Await_command" "r + length (takeWhile (\<lambda>c. c \<noteq> PING_ACK) (uart_tx s)) < 40"
  shows "\<exists>s'. resynchronize rom_port False r s = Some (Inr (True, s')) \<and> rom_waits (rom_mem s) [] s'"
  using assms
proof (induction "length (takeWhile (\<lambda>c. c \<noteq> PING_ACK) (uart_tx s))" arbitrary: s r)
  case 0
  then consider "uart_tx s = []" | cs where "uart_tx s = PING_ACK # cs" by (cases "uart_tx s") (auto split: if_splits)
  then show ?case
  proof cases
    case 1
    have "resynchronize rom_port False r s = resynchronize rom_port False (Suc r) (s\<lparr>uart_tx := [PING_ACK]\<rparr>)"
      using 1 0 ping_waiting [of s] by (subst resynchronize.simps) (simp add: rom_rx)
    also have "\<dots> = resynchronize rom_port True (Suc r) (s\<lparr>uart_tx := []\<rparr>)"
      using 0 1 by (subst resynchronize.simps) (simp add: rom_rx)
    finally show ?thesis using drain [of "Suc r" "s\<lparr>uart_tx := []\<rparr>"] 0 by (auto simp: rom_waits_def)
  next
    case (2 cs)
    have "resynchronize rom_port False r s = resynchronize rom_port True r (s\<lparr>uart_tx := cs\<rparr>)"
      using 2 0 by (subst resynchronize.simps) (simp add: rom_rx)
    then show ?thesis using drain [of r "s\<lparr>uart_tx := cs\<rparr>"] 0 by (auto simp: rom_waits_def)
  qed
next
  case (Suc n)
  then obtain c cs where c: "uart_tx s = c # cs" "c \<noteq> PING_ACK" "length (takeWhile (\<lambda>c. c \<noteq> PING_ACK) cs) = n"
    by (cases "uart_tx s") (auto split: if_splits)
  define s1 where "s1 = s\<lparr>uart_tx := cs @ [PING_ACK]\<rparr>"
  have "resynchronize rom_port False r s = resynchronize rom_port False (Suc r) s1"
    using c(1,2) Suc.prems ping_waiting [of "s\<lparr>uart_tx := cs\<rparr>"] Suc.hyps(2)
    by (subst resynchronize.simps) (simp add: rom_rx s1_def)
  moreover have "length (takeWhile (\<lambda>c. c \<noteq> PING_ACK) (uart_tx s1)) = n"
    using c(3) by (cases "PING_ACK \<in> set cs") (simp_all add: s1_def takeWhile_tail)
  ultimately show ?case using Suc.hyps(1) [of s1 "Suc r"] Suc.hyps(2) Suc.prems by (simp add: s1_def)
qed

lemma resynchronize_silent:
  "(\<forall>j<k. uart_tx (boot_run (replicate j PING_REQ) s) = []) \<Longrightarrow> r + k \<le> 40
    \<Longrightarrow> resynchronize rom_port False r s = resynchronize rom_port False (r + k) (boot_run (replicate k PING_REQ) s)"
proof (induction k arbitrary: r s)
  case (Suc k)
  let ?s = "boot_run [PING_REQ] s"
  have shift: "boot_run (replicate j PING_REQ) ?s = boot_run (replicate (Suc j) PING_REQ) s" for j
    by (simp add: boot_run_Cons)
  have quiet: "\<forall>j<k. uart_tx (boot_run (replicate j PING_REQ) ?s) = []"
  proof (intro allI impI)
    fix j assume "j < k"
    then show "uart_tx (boot_run (replicate j PING_REQ) ?s) = []"
      unfolding shift using Suc.prems(1) [rule_format, of "Suc j"] by simp
  qed
  have "resynchronize rom_port False r s = resynchronize rom_port False (Suc r) ?s"
    using Suc.prems(1) [rule_format, of 0] Suc.prems(2) by (subst resynchronize.simps) (simp add: rom_rx)
  also have "\<dots> = resynchronize rom_port False (Suc r + k) (boot_run (replicate k PING_REQ) ?s)"
    by (rule Suc.IH [OF quiet]) (use Suc.prems(2) in simp)
  finally show ?case unfolding shift by simp
qed simp

lemma load_data_silent:
  assumes "rom_pc s = Load_data a len i c" "unat i + j < unat len"
  shows "uart_tx (boot_run (replicate j ch) s) = uart_tx s"
  using assms
proof (induction j arbitrary: s a i c)
  case (Suc j)
  have i: "unat (i + 1) = Suc (unat i)" using Suc.prems(2) unat_u32_bound [of len] by (simp add: unat_word_ariths)
  then have "i + 1 < len" using Suc.prems(2) by (simp add: word_less_nat_alt)
  then have "rom_pc (boot_step ch s) = Load_data (a + 1) len (i + 1) (fnv_step c ch)" "uart_tx (boot_step ch s) = uart_tx s"
    using Suc.prems(1) by (simp_all add: boot_step_def load_next_def)
  then show ?case using Suc.IH [of "boot_step ch s"] i Suc.prems(2) by (simp add: boot_run_Cons)
qed simp

text \<open>
  C27: When bytes of a block were lost on the line, the boot ROM still waits for them while the loader has
  given up on the acknowledgement. \<open>fix_connection\<close> brings the two together again if at most 34 bytes are
  missing: its pings first complete the block, the answers that do not belong to a ping are dropped, and
  afterwards the ROM waits for a command and no answer is pending, so that the block can be sent again.
\<close>

theorem fix_connection_recovers:
  assumes pc: "rom_pc s = Load_data a len i c" "uart_tx s = []" and k: "unat len = unat i + k" "0 < k" "k \<le> 34" and a: "unat a + k \<le> 4294967296"
  shows "\<exists>s'. fix_connection rom_port s = Some (Inr (True, s')) \<and> rom_waits (put_at (unat a) (replicate k PING_REQ) (rom_mem s)) [] s'"
proof -
  have "\<forall>j<k. uart_tx (boot_run (replicate j PING_REQ) s) = []" using load_data_silent [OF pc(1)] k(1) pc(2) by simp
  then have run: "resynchronize rom_port False 0 s = resynchronize rom_port False k (boot_run (replicate k PING_REQ) s)"
    using resynchronize_silent [of k s 0] k(3) by simp
  have "len = i + of_nat k" using k(1) by (metis of_nat_add of_nat_unat ucast_id)
  then have "rom_pc s = Load_data a (i + of_nat (length (replicate k PING_REQ))) i c" using pc(1) by simp
  from run_load_data [OF this] k a unat_u32_bound [of len]
  have r: "boot_run (replicate k PING_REQ) s = transmit (LOAD_MEMORY_ACK # long_bytes (foldl fnv_step c (replicate k PING_REQ)))
      (s\<lparr>rom_pc := Await_command, rom_mem := put_at (unat a) (replicate k PING_REQ) (rom_mem s)\<rparr>)" (is "_ = ?s1")
    by (cases k) auto
  have "length (takeWhile (\<lambda>c. c \<noteq> PING_ACK) (uart_tx ?s1)) \<le> 5"
    using length_takeWhile_le [of "\<lambda>c. c \<noteq> PING_ACK" "uart_tx ?s1"] pc(2) by (simp add: transmit_def long_bytes_def)
  then have "k + length (takeWhile (\<lambda>c. c \<noteq> PING_ACK) (uart_tx ?s1)) < 40" using k(3) by linarith
  from resynchronize_waiting [OF _ this] obtain s' where s': "resynchronize rom_port False k ?s1 = Some (Inr (True, s'))"
      "rom_waits (put_at (unat a) (replicate k PING_REQ) (rom_mem s)) [] s'"
    by (auto simp: transmit_def)
  have "skip_bad_commands rom_port s = Some (Inr ((), s))" using pc(2) by (subst skip_bad_commands.simps) (simp add: rom_rx)
  then show ?thesis using run r s' by (simp add: fix_connection_def)
qed

theorem fix_connection_recovers_witness:
  "\<exists>s'. fix_connection rom_port ((boot_init (\<lambda>_. 0))\<lparr>rom_pc := Load_data 0x2000 1024 1021 7\<rparr>) = Some (Inr (True, s'))
     \<and> rom_waits (put_at 0x2000 (replicate 3 PING_REQ) (\<lambda>_. 0)) [] s'"
  using fix_connection_recovers [of "(boot_init (\<lambda>_. 0))\<lparr>rom_pc := Load_data 0x2000 1024 1021 7\<rparr>" "0x2000" 1024 1021 7 3]
  by (simp add: boot_init_def)

end
