(* ===== verification/Spec2Isabelle.thy ===== *)
theory Spec2Isabelle
  imports Emu_System Kern_Rwlock Kern_Thread Os_Fs Serial_Boot
begin

text \<open>
  Nyuzi is a multi-threaded vector processor. The repository holds, beside the hardware description,
  a C emulator that is the executable reference of the hardware (cosimulation compares every side
  effect of the hardware with it), a small kernel with virtual memory, a library for programs that
  run without the kernel, a boot ROM, and host tools that make file system images and load programs.
  This development models the C code of the emulator, of the memory management and file system of
  the kernel, of the file and SD card part of the library, of the boot ROM, and of the two tools.

  \<^bold>\<open>Shared theories.\<close>

  \<^item> \<open>Nyuzi_Prelude\<close>: word types, C booleans, the result type of C code that may access memory out
    of bounds, divide by zero, fail an assertion or call \<open>exit\<close> (\<open>cres\<close>, \<open>bindE\<close>, \<open>specE\<close>), the
    compiler builtins.
  \<^item> \<open>Nyuzi_IO\<close>: code that also waits for devices (\<open>io\<close>, \<open>bindIO\<close>): the value \<open>None\<close> is a loop
    that never ends.

  \<^bold>\<open>The emulator\<close> (\<open>src/tools/emulator\<close>).

  \<^item> \<open>Emu_Bytes\<close>, \<open>Emu_Util\<close>, \<open>Emu_Float\<close>: \<open>util.h\<close> and \<open>util.c\<close>: typed views of the memory array,
    bit fields, \<open>next_set_bit\<close>, the random number generator, the hex vector parser and the hex image
    loader; binary32 arithmetic of the host on bit patterns.
  \<^item> \<open>Emu_Isa\<close>: the codes of \<open>instruction-set.h\<close>.
  \<^item> \<open>Emu_Cosim\<close>: the expected event and the check functions of \<open>cosimulation.c\<close>.
  \<^item> \<open>Emu_Sdmmc\<close>: the SD card of \<open>sdmmc.c\<close> as a machine that answers one byte per byte.
  \<^item> \<open>Emu_State\<close>: the structs of \<open>processor.c\<close> as records, the machine invariant \<open>machine_ok\<close>,
    \<open>init_processor\<close>, memory access with bounds, register write-back.
  \<^item> \<open>Emu_Trap\<close>, \<open>Emu_Mmu\<close>, \<open>Emu_Arith\<close>, \<open>Emu_Device\<close>, \<open>Emu_Memory\<close>, \<open>Emu_Control\<close>: the operations
    of \<open>processor.c\<close> and \<open>device.c\<close> by concern.
  \<^item> \<open>Emu_Exec\<close>, \<open>Emu_Debug\<close>: the instruction cycle, both schedulers, single step, breakpoints and
    register access of the debugger, the main loop of cosimulation.
  \<^item> \<open>Emu_Isolation\<close>: what an instruction may change, as frame relations that all instruction
    handlers are proved to respect once and for all in the locale \<open>frame_relation\<close>.
  \<^item> \<open>Emu_System\<close>: the whole machine as a step relation over instructions of any thread, timer ticks,
    input, interrupts and debugger operations.

  \<^bold>\<open>The kernel\<close> (\<open>src/software/kernel\<close>).

  \<^item> \<open>Kern_List\<close> (\<open>list.h\<close>), \<open>Kern_Rwlock\<close> (\<open>rwlock.c\<close>, threads as a step relation), \<open>Kern_Bitmap\<close>
    (\<open>util.c\<close>), \<open>Kern_Area_Map\<close> (\<open>vm_area_map.c\<close>).
  \<^item> \<open>Kern_Page\<close> (\<open>vm_page.c\<close>), \<open>Kern_Translation\<close> (\<open>vm_translation_map.c\<close>, page tables as words of
    physical memory), \<open>Kern_Heap\<close> (\<open>kernel_heap.c\<close>), \<open>Kern_Slab\<close> (\<open>slab.c\<close>), \<open>Kern_Cache\<close> (\<open>vm_cache.c\<close>).
  \<^item> \<open>Kern_Space\<close>, \<open>Kern_Data\<close>, \<open>Kern_Fault\<close> (\<open>vm_address_space.c\<close>): kernel areas and contiguous
    mappings, what the memory of an area holds, page faults with files and copy-on-write, areas
    and their removal.
  \<^item> \<open>Kern_Loader\<close> (\<open>loader.c\<close>), \<open>Kern_Thread\<close> (\<open>thread.c\<close>): loading programs; the scheduler, threads and
    processes, with the hardware threads as a step relation.
  \<^item> \<open>Kern_Fs\<close> (\<open>fs.c\<close>): the file system of the kernel over the driver, the heap and the slab allocator.

  \<^bold>\<open>Storage and programs.\<close>

  \<^item> \<open>Sd_Crc\<close>, \<open>Sd_Driver\<close>: the SD card drivers of the kernel and of the library (\<open>sd_card.c\<close>,
    \<open>bare-metal/sdmmc.c\<close>) over memory-mapped registers; the emulated card is the instance.
  \<^item> \<open>Fs_Block\<close>, \<open>Fs_Mkfs\<close>: the layout of the file system and the image tool \<open>tools/mkfs/mkfs.c\<close>.
  \<^item> \<open>Os_Fs\<close>: the file calls of \<open>libs/libos/bare-metal/fs.c\<close>.
  \<^item> \<open>Boot_Rom\<close>, \<open>Serial_Boot\<close>: the ROM \<open>bootrom/boot.c\<close> as a machine that consumes a byte per step
    and the loader \<open>tools/serial_boot/serial_boot.c\<close> that talks to it.

  \<^bold>\<open>Correspondence.\<close> A C struct is a record with the same fields. In the emulator, pointers from a
  thread to its core and processor are the pair of indices \<open>c\<close> and \<open>t\<close>; arrays are functions whose
  bounds are checked at each access that the code does not bound itself. In the kernel, pointers to
  structures are numbers that index a table of records, lists threaded through structures are lists
  where \<open>Kern_List\<close> has shown that they are, and page tables are words of the memory array. Each C
  function is one definition of the same name, or with a prefix of its component where two files
  share a name; a long function is split along its control flow into definitions that the map of
  the manifest relates to its lines. Static variables are fields of the state. Output (tracing,
  messages) is not modelled; serial output and the frame buffer registers are recorded in the
  device state. What a component relies on is a locale (\<open>frame_relation\<close>, the laws of a block
  device, of a target that answers, of page contents), which is interpreted on the definitions of
  the component that provides it.

  \<^bold>\<open>What the lemmas show.\<close> Emulator: no instruction of a one-core machine leaves an array or fails an
  assertion, and every reachable state satisfies the invariant; user mode cannot touch privileged
  state, and memory changes only through writable TLB entries; traps and interrupts return to the
  interrupted thread; synchronized stores succeed exactly without conflict; every enabled thread
  runs within 32 turns; ring buffers refine queues; breakpoints are transparent. Kernel: the lock
  admits one writer or several readers and no writer starves behind new readers; areas stay
  disjoint; mapping a page changes the translation of that page only; heap and slab memory is never
  handed out twice; the page cache is a map; a page fault maps exactly what the caches of the area
  hold; a program gets exactly the areas of its segments; on one hardware thread the scheduler fails no
  assertion and runs the first ready thread, while several hardware threads can race. Storage: the drivers terminate for every card and read and write the blocks of the image; a
  file that \<open>mkfs\<close> wrote is read by the kernel through driver and card with its bytes, and a
  descriptor of the library is contents and a position. Loading: the loader and the ROM leave the
  memory that the emulator's image reader leaves, and a broken transfer is resumed. Where the code
  does not do what it means to, the theorem states what it does.

  \<^bold>\<open>Bounds and fuel.\<close> \<open>run_until_next_event\<close> has the bound of 500 steps of the code. The loops of
  \<open>execute_instructions\<close> recurse on the instruction count. The final loop of \<open>run_cosimulation\<close> has
  no bound in the code and takes fuel, running out of which is a value of its own. Loops that wait
  for a device or a lock are partial functions into \<open>option\<close>; the theorems about them state that
  they return. Card images are smaller than 2 GB and boot images at most 1 GB, because the code
  keeps sizes in \<open>int\<close>.

  \<^bold>\<open>Not modelled.\<close> Of the kernel: trap dispatch and system calls, the console and start-up code. The SDL window, the remote debugger's sockets, option parsing and
  terminal set-up of the emulator's \<open>main\<close>, the console mode and the port set-up of the loader:
  host I/O. The C library, in part third-party (\<open>dlmalloc\<close>). The hardware description
  (SystemVerilog), the C++ rendering libraries, the applications (in part third-party: Doom) and
  the tests.
\<close>

end
